(* ===== verification/Prelude.thy ===== *)
theory Prelude
  imports Main "HOL-Library.Word"
begin

text \<open>
  Shared vocabulary of the development: Go's byte slices and fixed-width integers,
  the big- and little-endian fixed-width encodings and the unsigned varints of
  \<^verbatim>\<open>encoding/binary\<close>, the IEEE CRC-32 of \<^verbatim>\<open>hash/crc32\<close>, \<^verbatim>\<open>sort.Search\<close>, and the generic
  facts about lists and words that the component theories rest on.

  Conventions: a Go \<^verbatim>\<open>byte\<close> is an \<open>8 word\<close>, \<^verbatim>\<open>uint32\<close> and \<^verbatim>\<open>uint64\<close> are \<open>32 word\<close> and
  \<open>64 word\<close>; an \<^verbatim>\<open>int64\<close> that takes part in wrapping arithmetic is a \<open>64 word\<close> read with
  \<open>sint\<close>, and one that is only compared is an \<open>int\<close>; a Go string is a list of bytes.
\<close>

unbundle bit_operations_syntax

named_theorems codec_simps \<open>evaluation of encoders on their own output\<close>
named_theorems inv_intros \<open>preservation of component invariants\<close>

type_synonym byte = "8 word"
type_synonym u32 = "32 word"
type_synonym u64 = "64 word"
type_synonym bytes = "byte list"

section \<open>Outcomes and Go's \<^verbatim>\<open>int\<close>\<close>

text \<open>A Go call returns a value, returns a non-nil error, or panics.\<close>

datatype 'a outcome = Ok 'a | Error | Panic

text \<open>The value of an \<^verbatim>\<open>int\<close> expression: the mathematical result reduced to 64-bit two's complement.\<close>

definition wrap64 :: "int \<Rightarrow> int" where
  "wrap64 x = sint (of_int x :: u64)"

abbreviation int64_range :: "int \<Rightarrow> bool" where
  "int64_range x \<equiv> - (2 ^ 63) \<le> x \<and> x < 2 ^ 63"

lemma wrap64_id: "- (2 ^ 63) \<le> x \<Longrightarrow> x < 2 ^ 63 \<Longrightarrow> wrap64 x = x"
  by (simp add: wrap64_def signed_of_int signed_take_bit_int_eq_self)

section \<open>Fixed-width integers in byte order\<close>

text \<open>\<^verbatim>\<open>binary.BigEndian.PutUint*\<close> writes the \<open>n\<close> low bytes of a word, most significant first;
  \<^verbatim>\<open>binary.BigEndian.Uint*\<close> reads them back.  \<^verbatim>\<open>LittleEndian\<close> is the reverse.\<close>

primrec be_put :: "nat \<Rightarrow> 'a::len word \<Rightarrow> bytes" where
  "be_put 0 v = []"
| "be_put (Suc n) v = be_put n (drop_bit 8 v) @ [ucast v]"

definition be_get :: "bytes \<Rightarrow> 'a::len word" where
  "be_get bs = foldl (\<lambda>acc b. push_bit 8 acc OR ucast b) 0 bs"

definition le_put :: "nat \<Rightarrow> 'a::len word \<Rightarrow> bytes" where
  "le_put n v = rev (be_put n v)"

definition le_get :: "bytes \<Rightarrow> 'a::len word" where
  "le_get bs = be_get (rev bs)"

lemma length_be_put [simp]: "length (be_put n v) = n"
  by (induction n arbitrary: v) auto

lemma be_put_eq_Nil [simp]: "be_put n v = [] \<longleftrightarrow> n = 0"
  by (metis length_0_conv length_be_put)

lemma length_le_put [simp]: "length (le_put n v) = n"
  by (simp add: le_put_def)

lemma be_get_snoc: "be_get (bs @ [b]) = push_bit 8 (be_get bs) OR ucast b"
  by (simp add: be_get_def)

lemma be_get_Nil [simp]: "be_get [] = 0"
  by (simp add: be_get_def)

lemma be_get_put: "be_get (be_put n v) = take_bit (8 * n) (v :: 'a::len word)"
proof (induction n arbitrary: v)
  case 0
  then show ?case by simp
next
  case (Suc n)
  show ?case
    by (simp add: be_get_snoc Suc.IH) (rule bit_word_eqI, auto simp: bit_simps not_le)
qed

lemma be_get_put_full [codec_simps]: "LENGTH('a) \<le> 8 * n \<Longrightarrow> be_get (be_put n v) = (v :: 'a::len word)"
  by (simp add: be_get_put take_bit_word_eq_self)

lemma le_get_put_full [codec_simps]: "LENGTH('a) \<le> 8 * n \<Longrightarrow> le_get (le_put n v) = (v :: 'a::len word)"
  by (simp add: le_get_def le_put_def be_get_put_full)

lemma be_put_get:
  assumes "8 * length bs \<le> LENGTH('a)"
  shows "be_put (length bs) (be_get bs :: 'a::len word) = bs"
  using assms
proof (induction bs rule: rev_induct)
  case Nil
  then show ?case by simp
next
  case (snoc b bs)
  let ?w = "be_get bs :: 'a word"
  have "drop_bit 8 (push_bit 8 ?w OR ucast b) = ?w"
  proof (rule bit_word_eqI)
    fix i assume "i < LENGTH('a)"
    have "bit ?w i \<Longrightarrow> i < 8 * length bs"
    proof -
      assume b: "bit ?w i"
      have "?w = take_bit (8 * length bs) ?w"
        using snoc be_get_put [of "length bs" ?w] by simp
      then show "i < 8 * length bs" using b by (metis bit_take_bit_iff)
    qed
    then show "bit (drop_bit 8 (push_bit 8 ?w OR ucast b)) i = bit ?w i"
      using snoc.prems by (auto simp: bit_simps dest: bit_imp_le_length)
  qed
  moreover have "ucast (push_bit 8 ?w OR ucast b) = b"
    by (rule bit_word_eqI) (use snoc.prems in \<open>auto simp: bit_simps\<close>)
  ultimately show ?case using snoc by (simp add: be_get_snoc)
qed

lemma le_put_get:
  assumes "8 * length bs \<le> LENGTH('a)"
  shows "le_put (length bs) (le_get bs :: 'a::len word) = bs"
  using be_put_get [of "rev bs", where 'a = 'a] assms by (simp add: le_put_def le_get_def)

lemma sint_of_nat_u64: "n < 2 ^ 63 \<Longrightarrow> sint (of_nat n :: u64) = int n"
  by (simp add: signed_of_nat signed_take_bit_int_eq_self)

lemma unat_of_nat_u64: "n < 2 ^ 64 \<Longrightarrow> unat (of_nat n :: u64) = n"
  by (simp add: unsigned_of_nat take_bit_nat_eq_self)

lemma unat_of_nat_u32: "n < 2 ^ 32 \<Longrightarrow> unat (of_nat n :: u32) = n"
  by (simp add: unsigned_of_nat take_bit_nat_eq_self)

lemma drop_suffix:
  assumes "drop pos b = xs @ ys" "pos \<le> length b"
  shows "drop (length b - length ys) b = ys"
proof -
  have "length b = pos + length xs + length ys" using arg_cong [OF assms(1), of length] assms(2) by simp
  then have "drop (length b - length ys) b = drop (length xs) (drop pos b)" by (simp add: add.commute)
  then show ?thesis using assms(1) by simp
qed

section \<open>Unsigned varints\<close>

text \<open>\<^verbatim>\<open>binary.PutUvarint\<close>: seven bits per byte, least significant group first, the top bit set on
  every byte but the last.\<close>

function put_uvarint :: "u64 \<Rightarrow> bytes" where
  "put_uvarint x = (if 128 \<le> x then (ucast x OR 128) # put_uvarint (drop_bit 7 x) else [ucast x])"
  by pat_completeness auto
termination
proof (relation "measure unat")
  fix x :: u64 assume "128 \<le> x"
  then have "unat x \<ge> 128" by (simp add: word_le_nat_alt)
  then show "(drop_bit 7 x, x) \<in> measure unat"
    by (simp add: unat_drop_bit_eq drop_bit_eq_div [where 'a = nat])
qed simp

declare put_uvarint.simps [simp del]

text \<open>\<^verbatim>\<open>binary.Uvarint\<close>: the value and the number of bytes read; \<open>0\<close> bytes for a buffer that ends too
  early and a negative count on overflow, as the Go documentation states.\<close>

fun uvarint_from :: "nat \<Rightarrow> u64 \<Rightarrow> bytes \<Rightarrow> u64 \<times> int" where
  "uvarint_from i x [] = (0, 0)"
| "uvarint_from i x (b # bs) =
     (if i = 10 then (0, - int (i + 1))
      else if b < 128 then
        (if i = 9 \<and> 1 < b then (0, - int (i + 1))
         else (x OR push_bit (7 * i) (ucast b), int (i + 1)))
      else uvarint_from (Suc i) (x OR push_bit (7 * i) (ucast (b AND 127))) bs)"

definition uvarint :: "bytes \<Rightarrow> u64 \<times> int" where
  "uvarint bs = uvarint_from 0 0 bs"

lemma put_uvarint_not_Nil [simp]: "put_uvarint x \<noteq> []"
  by (subst put_uvarint.simps) simp

lemma length_put_uvarint_pos [simp]: "0 < length (put_uvarint x)"
  by simp

lemma take_bit_step7:
  "take_bit (7 * i) x OR push_bit (7 * i) (take_bit 7 (drop_bit (7 * i) x)) = take_bit (7 * Suc i) (x :: u64)"
  by (rule bit_word_eqI) (auto simp: bit_simps)

lemma uvarint_from_put:
  assumes "i \<le> 9"
  shows "uvarint_from i (take_bit (7 * i) x) (put_uvarint (drop_bit (7 * i) x) @ rest)
           = (x, int (i + length (put_uvarint (drop_bit (7 * i) x))))"
  using assms
proof (induction "9 - i" arbitrary: i)
  case 0
  then have i: "i = 9" by simp
  have "unat (drop_bit 63 x) < 2"
    using unsigned_less [of x, where 'a = nat] by (simp add: unat_drop_bit_eq drop_bit_eq_div [where 'a = nat])
  then have small: "drop_bit 63 x < 128" "\<not> 1 < (ucast (drop_bit 63 x) :: byte)"
    by (auto simp: word_less_nat_alt unsigned_ucast_eq take_bit_eq_mod)
  have "take_bit 63 x OR push_bit 63 (ucast (ucast (drop_bit 63 x) :: byte)) = x"
  proof (rule bit_word_eqI)
    fix j assume "j < LENGTH(64)"
    then have "j < 63 \<or> j = 63" by auto
    then show "bit (take_bit 63 x OR push_bit 63 (ucast (ucast (drop_bit 63 x) :: byte))) j = bit x j"
      by (auto simp: bit_simps)
  qed
  moreover have "(ucast (drop_bit 63 x) :: byte) < 128"
    using small by (auto simp: word_less_nat_alt unsigned_ucast_eq take_bit_eq_mod)
  moreover have "\<not> 128 \<le> drop_bit 63 x" using small(1) by (simp only: not_le)
  ultimately show ?case using small
    by (simp add: i put_uvarint.simps [of "drop_bit 63 x"])
next
  case (Suc k)
  let ?y = "drop_bit (7 * i) x"
  show ?case
  proof (cases "128 \<le> ?y")
    case True
    have hi: "\<not> (ucast ?y OR 128 :: byte) < 128"
    proof -
      have "(128 :: byte) \<le> ucast ?y OR 128"
        by (metis le_word_or2 or.commute)
      then show ?thesis by simp
    qed
    have lo: "ucast ((ucast ?y OR 128 :: byte) AND 127) = take_bit 7 ?y"
    proof (rule bit_word_eqI)
      fix j assume "j < LENGTH(64)"
      have "bit (128 :: byte) j \<longleftrightarrow> j = 7" using bit_exp_iff [of 7 j, where 'a = "8 word"] by auto
      moreover have "bit (127 :: byte) j \<longleftrightarrow> j < 7"
        using bit_mask_iff [of 7 j, where 'a = "8 word"] by (auto simp: mask_eq_exp_minus_1)
      ultimately show "bit (ucast ((ucast ?y OR 128 :: byte) AND 127) :: u64) j = bit (take_bit 7 ?y) j"
        by (auto simp: bit_simps)
    qed
    have "uvarint_from (Suc i) (take_bit (7 * Suc i) x) (put_uvarint (drop_bit (7 * Suc i) x) @ rest)
           = (x, int (Suc i + length (put_uvarint (drop_bit (7 * Suc i) x))))"
      by (rule Suc.hyps(1)) (use Suc in arith)+
    moreover have "put_uvarint ?y = (ucast ?y OR 128) # put_uvarint (drop_bit (7 * Suc i) x)"
      using True by (subst put_uvarint.simps) (simp add: add.commute)
    moreover have "i \<noteq> 10" using Suc.prems by simp
    ultimately show ?thesis using hi
      by (simp add: lo take_bit_step7 del: mult_Suc mult_Suc_right)
  next
    case False
    then have "unat ?y < 128" by (simp add: word_less_nat_alt not_le)
    then have b: "(ucast ?y :: byte) < 128"
      by (auto simp: word_less_nat_alt unsigned_ucast_eq take_bit_eq_mod)
    have y: "take_bit 7 ?y = ?y"
      by (rule unsigned_word_eqI [where 'a = nat]) (use \<open>unat ?y < 128\<close> in \<open>simp add: unsigned_take_bit_eq take_bit_eq_mod [where 'a = nat]\<close>)
    have "take_bit (7 * i) x OR push_bit (7 * i) (ucast (ucast ?y :: byte)) = x"
    proof (rule bit_word_eqI)
      fix j assume "j < LENGTH(64)"
      have "bit ?y (j - 7 * i) \<Longrightarrow> j - 7 * i < 7" using y by (metis bit_take_bit_iff)
      then have "7 * i \<le> j \<Longrightarrow> bit x j \<Longrightarrow> j - 7 * i < 7" by (simp add: bit_simps)
      then show "bit (take_bit (7 * i) x OR push_bit (7 * i) (ucast (ucast ?y :: byte))) j = bit x j"
        using \<open>j < LENGTH(64)\<close> by (cases "j < 7 * i") (auto simp: bit_simps)
    qed
    then show ?thesis using False b Suc by (simp add: put_uvarint.simps [of ?y])
  qed
qed

lemma uvarint_put [codec_simps]:
  "uvarint (put_uvarint x @ rest) = (x, int (length (put_uvarint x)))"
  using uvarint_from_put [of 0 x rest] by (simp add: uvarint_def)

lemma length_uvarint_ge1: "1 \<le> length (put_uvarint x)"
  by (simp add: Suc_le_eq)

section \<open>CRC-32 (IEEE polynomial, reflected)\<close>

primrec crc32_shift :: "nat \<Rightarrow> u32 \<Rightarrow> u32" where
  "crc32_shift 0 c = c"
| "crc32_shift (Suc n) c =
     crc32_shift n (if bit c 0 then drop_bit 1 c XOR 0xEDB88320 else drop_bit 1 c)"

definition crc32_update :: "u32 \<Rightarrow> byte \<Rightarrow> u32" where
  "crc32_update c b = crc32_shift 8 (c XOR ucast b)"

definition crc32_ieee :: "bytes \<Rightarrow> u32" where
  "crc32_ieee bs = NOT (foldl crc32_update (NOT 0) bs)"

text \<open>The published check value of this CRC: the nine ASCII digits ``123456789''.\<close>

lemma crc32_check_value: "crc32_ieee [0x31, 0x32, 0x33, 0x34, 0x35, 0x36, 0x37, 0x38, 0x39] = 0xCBF43926"
  by code_simp

section \<open>\<^verbatim>\<open>sort.Search\<close>\<close>

text \<open>The standard library's binary search: the loop keeps \<open>i \<le> j\<close>, moves \<open>i\<close> past a middle where
  the predicate fails and \<open>j\<close> down to a middle where it holds.\<close>

function search_loop :: "(nat \<Rightarrow> bool) \<Rightarrow> nat \<Rightarrow> nat \<Rightarrow> nat" where
  "search_loop f i j =
     (if i < j then
        (let h = (i + j) div 2 in if f h then search_loop f i h else search_loop f (Suc h) j)
      else i)"
  by pat_completeness auto
termination
  by (relation "measure (\<lambda>(f, i, j). j - i)") auto

declare search_loop.simps [simp del]

definition sort_search :: "nat \<Rightarrow> (nat \<Rightarrow> bool) \<Rightarrow> nat" where
  "sort_search n f = search_loop f 0 n"

lemma search_loop_end: "\<not> i < j \<Longrightarrow> search_loop f i j = i"
  by (subst search_loop.simps) simp

lemma search_loop_bounds: "i \<le> j \<Longrightarrow> i \<le> search_loop f i j \<and> search_loop f i j \<le> j"
proof (induction f i j rule: search_loop.induct)
  case (1 f i j)
  show ?case
  proof (cases "i < j")
    case True
    let ?h = "(i + j) div 2"
    have h: "i \<le> ?h" "?h < j" using True by auto
    show ?thesis
      using "1.IH"(1) [OF True refl] "1.IH"(2) [OF True refl] h True
      by (cases "f ?h") (auto simp: search_loop.simps [of f i j] Let_def)
  qed (use "1.prems" in \<open>simp add: search_loop_end\<close>)
qed

text \<open>The predicate holds at the answer when the answer is inside the range: true of any predicate.\<close>

lemma search_loop_holds: "i \<le> j \<Longrightarrow> search_loop f i j < j \<Longrightarrow> f (search_loop f i j)"
proof (induction f i j rule: search_loop.induct)
  case (1 f i j)
  show ?case
  proof (cases "i < j")
    case True
    let ?h = "(i + j) div 2"
    have h: "i \<le> ?h" "?h < j" using True by auto
    show ?thesis
    proof (cases "f ?h")
      case f: True
      have "search_loop f i ?h \<le> ?h" using search_loop_bounds [of i ?h f] h by simp
      then show ?thesis using "1.IH"(1) [OF True refl] f h True
        by (cases "search_loop f i ?h = ?h") (auto simp: search_loop.simps [of f i j] Let_def)
    next
      case False
      then show ?thesis using "1.IH"(2) [OF True refl] "1.prems" h True
        by (auto simp: search_loop.simps [of f i j] Let_def)
    qed
  qed (use "1.prems" in \<open>simp add: search_loop_end\<close>)
qed

lemma search_loop_least:
  assumes "\<And>a b. i \<le> a \<Longrightarrow> a \<le> b \<Longrightarrow> b < j \<Longrightarrow> f a \<Longrightarrow> f b"
    and "i \<le> k" and "k < search_loop f i j" and "i \<le> j"
  shows "\<not> f k"
  using assms
proof (induction f i j arbitrary: k rule: search_loop.induct)
  case (1 f i j)
  show ?case
  proof (cases "i < j")
    case True
    let ?h = "(i + j) div 2"
    have h: "i \<le> ?h" "?h < j" using True by auto
    show ?thesis
    proof (cases "f ?h")
      case f: True
      have "k < search_loop f i ?h"
        using "1.prems"(3) f True by (simp add: search_loop.simps [of f i j] Let_def)
      then show ?thesis
        using "1.IH"(1) [OF True refl f, of k] "1.prems" h by (meson le_less_trans less_imp_le)
    next
      case False
      show ?thesis
      proof (cases "k \<le> ?h")
        case True
        then show ?thesis using "1.prems"(1) [of k ?h] "1.prems"(2) h False by blast
      next
        case k: False
        have "k < search_loop f (Suc ?h) j"
          using "1.prems"(3) False True by (simp add: search_loop.simps [of f i j] Let_def)
        then show ?thesis
          using "1.IH"(2) [OF True refl False, of k] "1.prems" h k by (metis Suc_leD Suc_leI not_le order_trans)
      qed
    qed
  qed (use "1.prems" in \<open>simp add: search_loop_end\<close>)
qed

definition upclosed :: "nat \<Rightarrow> (nat \<Rightarrow> bool) \<Rightarrow> bool" where
  "upclosed n f \<longleftrightarrow> (\<forall>a b. a \<le> b \<longrightarrow> b < n \<longrightarrow> f a \<longrightarrow> f b)"

lemma upclosedI: "(\<And>a b. a \<le> b \<Longrightarrow> b < n \<Longrightarrow> f a \<Longrightarrow> f b) \<Longrightarrow> upclosed n f"
  by (auto simp: upclosed_def)

lemma sort_search_le: "sort_search n f \<le> n"
  using search_loop_bounds [of 0 n f] by (simp add: sort_search_def)

lemma sort_search_below: "upclosed n f \<Longrightarrow> k < sort_search n f \<Longrightarrow> \<not> f k"
  using search_loop_least [of 0 n f k] by (simp add: sort_search_def upclosed_def)

lemma sort_search_above: "upclosed n f \<Longrightarrow> sort_search n f \<le> k \<Longrightarrow> k < n \<Longrightarrow> f k"
  using search_loop_holds [of 0 n f] by (auto simp: sort_search_def upclosed_def)

lemma filter_append_split:
  "\<forall>x \<in> set as. \<not> P x \<Longrightarrow> \<forall>x \<in> set bs. P x \<Longrightarrow> filter P (as @ bs) = bs"
  by (simp add: filter_id_conv filter_empty_conv)

lemma filter_append_split_neg:
  "\<forall>x \<in> set as. \<not> P x \<Longrightarrow> \<forall>x \<in> set bs. P x \<Longrightarrow> filter (\<lambda>x. \<not> P x) (as @ bs) = as"
  by (simp add: filter_id_conv filter_empty_conv)

text \<open>On an up-closed predicate, \<^verbatim>\<open>sort.Search\<close> splits a list into the elements that fail and those
  that satisfy it.\<close>

lemma drop_sort_search:
  assumes "upclosed (length xs) (\<lambda>i. P (xs ! i))"
  shows "drop (sort_search (length xs) (\<lambda>i. P (xs ! i))) xs = filter P xs"
proof -
  let ?s = "sort_search (length xs) (\<lambda>i. P (xs ! i))"
  have "\<forall>x \<in> set (take ?s xs). \<not> P x"
    using sort_search_below [OF assms] by (auto simp: in_set_conv_nth)
  moreover have "\<forall>x \<in> set (drop ?s xs). P x"
    using sort_search_above [OF assms] by (auto simp: in_set_conv_nth)
  ultimately have "filter P (take ?s xs @ drop ?s xs) = drop ?s xs"
    by (rule filter_append_split)
  then show ?thesis by (simp only: append_take_drop_id)
qed

lemma take_sort_search:
  assumes "upclosed (length xs) (\<lambda>i. P (xs ! i))"
  shows "take (sort_search (length xs) (\<lambda>i. P (xs ! i))) xs = filter (\<lambda>x. \<not> P x) xs"
proof -
  let ?s = "sort_search (length xs) (\<lambda>i. P (xs ! i))"
  have "\<forall>x \<in> set (take ?s xs). \<not> P x"
    using sort_search_below [OF assms] by (auto simp: in_set_conv_nth)
  moreover have "\<forall>x \<in> set (drop ?s xs). P x"
    using sort_search_above [OF assms] by (auto simp: in_set_conv_nth)
  ultimately have "filter (\<lambda>x. \<not> P x) (take ?s xs @ drop ?s xs) = take ?s xs"
    by (rule filter_append_split_neg)
  then show ?thesis by (simp only: append_take_drop_id)
qed

section \<open>A log cut at any byte\<close>

text \<open>The first bytes of a concatenation of records are a prefix of the records and the torn start of the next.\<close>

lemma cut_concat:
  assumes "n \<le> length (concat (map f xs))"
  shows "\<exists>j r. j \<le> length xs \<and> take n (concat (map f xs)) = concat (map f (take j xs)) @ r \<and>
           (r = [] \<or> (\<exists>k. j < length xs \<and> 0 < k \<and> k < length (f (xs ! j)) \<and> r = take k (f (xs ! j))))
           \<and> length (concat (map f (take j xs))) \<le> n \<and> (j < length xs \<longrightarrow> n < length (concat (map f (take (Suc j) xs))))"
  using assms
proof (induction xs arbitrary: n)
  case Nil
  then show ?case by simp
next
  case (Cons x xs)
  show ?case
  proof (cases "n < length (f x)")
    case True
    then show ?thesis
      by (intro exI [of _ 0] exI [of _ "take n (f x)"]) (cases "n = 0", auto)
  next
    case False
    let ?m = "n - length (f x)"
    have "?m \<le> length (concat (map f xs))" using Cons.prems by simp
    from Cons.IH [OF this] obtain j r where j: "j \<le> length xs" "take ?m (concat (map f xs)) = concat (map f (take j xs)) @ r"
        "r = [] \<or> (\<exists>k. j < length xs \<and> 0 < k \<and> k < length (f (xs ! j)) \<and> r = take k (f (xs ! j)))"
        "length (concat (map f (take j xs))) \<le> ?m" "j < length xs \<longrightarrow> ?m < length (concat (map f (take (Suc j) xs)))"
      by (elim exE conjE) (rule that)
    then show ?thesis using False
      by (intro exI [of _ "Suc j"] exI [of _ r]) auto
  qed
qed

end
