(* ===== verification/Bit_Stream.thy ===== *)
theory Bit_Stream
  imports Prelude
begin

text \<open>
  The bit-level reader and writer of \<^verbatim>\<open>tsdb/bit.go\<close>.  A writer stands for the list of bits written
  so far (\<open>bw_bits\<close>), a reader for the list of bits still to come (\<open>br_bits\<close>), both most significant
  bit first.  The theory shows that every write operation appends exactly its bits, that
  \<^verbatim>\<open>ReadBits\<close> takes exactly its bits off the front, and that a flushed writer's bytes read back.
\<close>

section \<open>Words as bit lists\<close>

primrec word_bits :: "nat \<Rightarrow> 'a::len word \<Rightarrow> bool list" where
  "word_bits 0 w = []"
| "word_bits (Suc n) w = bit w n # word_bits n w"

lemma length_word_bits [simp]: "length (word_bits n w) = n"
  by (induction n) auto

lemma nth_word_bits: "i < n \<Longrightarrow> word_bits n w ! i = bit w (n - 1 - i)"
  by (induction n arbitrary: i) (auto simp: nth_Cons split: nat.splits)

lemma word_bits_add: "word_bits (m + n) w = word_bits m (drop_bit n w) @ word_bits n w"
  by (induction m) (auto simp: bit_simps add.commute)

lemma word_bits_cong:
  "(\<And>i. i < n \<Longrightarrow> bit v i = bit w i) \<Longrightarrow> word_bits n v = word_bits n w"
  by (induction n) auto

lemma word_bits_0 [simp]: "word_bits n 0 = replicate n False"
  by (induction n) auto

abbreviation bytes_bits :: "bytes \<Rightarrow> bool list" where
  "bytes_bits bs \<equiv> concat (map (word_bits 8) bs)"

lemma length_bytes_bits [simp]: "length (bytes_bits bs) = 8 * length bs"
  by (induction bs) auto

text \<open>The word whose bits, most significant first, are a given list.\<close>

definition bits_word :: "bool list \<Rightarrow> 'a::len word" where
  "bits_word bs = foldl (\<lambda>w b. push_bit 1 w OR of_bool b) 0 bs"

lemma bits_word_snoc: "bits_word (bs @ [b]) = push_bit 1 (bits_word bs) OR of_bool b"
  by (simp add: bits_word_def)

lemma bit_of_bool_word: "bit (of_bool b :: 'a::len word) i \<longleftrightarrow> b \<and> i = 0"
  by (cases b) (auto simp: bit_simps)

lemma bit_shl1_or:
  "bit (push_bit 1 w OR of_bool b :: 'a::len word) i \<longleftrightarrow> i < LENGTH('a) \<and> (if i = 0 then b else bit w (i - 1))"
  by (simp only: bit_or_iff bit_push_bit_iff bit_of_bool_word) (auto dest: bit_imp_le_length)

lemma bit_bits_word:
  "bit (bits_word bs :: 'a::len word) i \<longleftrightarrow> i < LENGTH('a) \<and> i < length bs \<and> bs ! (length bs - 1 - i)"
proof (induction bs arbitrary: i rule: rev_induct)
  case Nil
  then show ?case by (simp add: bits_word_def)
next
  case (snoc b bs)
  show ?case
  proof (cases i)
    case 0
    then show ?thesis by (simp add: bits_word_snoc bit_shl1_or del: push_bit_of_1 One_nat_def)
  next
    case (Suc j)
    then show ?thesis
      by (auto simp: bits_word_snoc bit_shl1_or snoc.IH nth_append Suc_eq_plus1_left simp del: One_nat_def)
  qed
qed

lemma word_bits_bits_word: "length bs \<le> LENGTH('a) \<Longrightarrow> word_bits (length bs) (bits_word bs :: 'a::len word) = bs"
  by (rule nth_equalityI) (auto simp: nth_word_bits bit_bits_word)

lemma bits_word_word_bits: "bits_word (word_bits n w) = take_bit n (w :: 'a::len word)"
  by (rule bit_word_eqI) (auto simp: bit_bits_word nth_word_bits bit_simps)

section \<open>\<^verbatim>\<open>BitWriter\<close>\<close>

datatype bit_error = EOF | BufferTooLarge

text \<open>\<open>bw_data = None\<close> is Go's nil slice; \<open>bw_cap\<close> is the slice's capacity.\<close>

record BitWriter =
  bw_data :: "bytes option"
  bw_cap :: nat
  bw_b :: byte
  bw_count :: byte
  bw_pos :: nat

definition maxInt :: nat where
  "maxInt = 2 ^ 63 - 1"

text \<open>\<^verbatim>\<open>append\<close>: the slice is extended by the current byte, doubling the capacity when it is full;
  re-slicing \<^verbatim>\<open>data[:pos+1]\<close> keeps the first \<open>pos\<close> bytes and the last one is assigned.\<close>

definition bw_append :: "BitWriter \<Rightarrow> bit_error + BitWriter" where
  "bw_append b =
     (case bw_data b of
        None \<Rightarrow> Inr (b\<lparr>bw_data := Some [bw_b b], bw_cap := 64, bw_pos := 1\<rparr>)
      | Some d \<Rightarrow>
          (let c = bw_cap b in
           if int c > int maxInt - int c - 1 then Inl BufferTooLarge
           else
             (let newCap = (if bw_pos b \<ge> c then (if c * 2 = 0 then 64 else c * 2) else c) in
              Inr (b\<lparr>bw_data := Some (take (bw_pos b) d @ [bw_b b]),
                     bw_cap := newCap, bw_pos := bw_pos b + 1\<rparr>))))"

definition bw_Reset :: "BitWriter \<Rightarrow> BitWriter" where
  "bw_Reset b = b\<lparr>bw_b := 0, bw_count := 8, bw_data := map_option (\<lambda>_. []) (bw_data b), bw_pos := 0\<rparr>"

definition NewBitWriter :: BitWriter where
  "NewBitWriter = bw_Reset \<lparr>bw_data = None, bw_cap = 0, bw_b = 0, bw_count = 0, bw_pos = 0\<rparr>"

definition WriteBit :: "bool \<Rightarrow> BitWriter \<Rightarrow> bit_error + BitWriter" where
  "WriteBit bt b =
     (let b1 = (if bt then b\<lparr>bw_b := bw_b b OR push_bit (unat (bw_count b - 1)) 1\<rparr> else b);
          b2 = b1\<lparr>bw_count := bw_count b1 - 1\<rparr>
      in if bw_count b2 = 0 then
           (case bw_append b2 of Inl e \<Rightarrow> Inl e | Inr b3 \<Rightarrow> Inr (b3\<lparr>bw_b := 0, bw_count := 8\<rparr>))
         else Inr b2)"

definition WriteByte :: "byte \<Rightarrow> BitWriter \<Rightarrow> bit_error + BitWriter" where
  "WriteByte byt b =
     (let b1 = b\<lparr>bw_b := bw_b b OR drop_bit (unat (8 - bw_count b)) byt\<rparr>
      in case bw_append b1 of
           Inl e \<Rightarrow> Inl e
         | Inr b2 \<Rightarrow> Inr (b2\<lparr>bw_b := push_bit (unat (bw_count b2)) byt\<rparr>))"

fun write_bytes_loop :: "u64 \<Rightarrow> nat \<Rightarrow> BitWriter \<Rightarrow> bit_error + (u64 \<times> nat \<times> BitWriter)" where
  "write_bytes_loop u nbits b =
     (if 8 \<le> nbits then
        (case WriteByte (ucast (drop_bit 56 u)) b of
           Inl e \<Rightarrow> Inl e
         | Inr b' \<Rightarrow> write_bytes_loop (push_bit 8 u) (nbits - 8) b')
      else Inr (u, nbits, b))"

declare write_bytes_loop.simps [simp del]

primrec write_bits_loop :: "nat \<Rightarrow> u64 \<Rightarrow> BitWriter \<Rightarrow> bit_error + BitWriter" where
  "write_bits_loop 0 u b = Inr b"
| "write_bits_loop (Suc n) u b =
     (case WriteBit (drop_bit 63 u = 1) b of
        Inl e \<Rightarrow> Inl e
      | Inr b' \<Rightarrow> write_bits_loop n (push_bit 1 u) b')"

text \<open>The shift count \<^verbatim>\<open>64 - uint(nbits)\<close> wraps to a huge value when \<open>nbits\<close> exceeds 64, and Go's
  shift then yields 0.\<close>

definition WriteBits :: "u64 \<Rightarrow> nat \<Rightarrow> BitWriter \<Rightarrow> bit_error + BitWriter" where
  "WriteBits u nbits b =
     (case write_bytes_loop (if nbits \<le> 64 then push_bit (64 - nbits) u else 0) nbits b of
        Inl e \<Rightarrow> Inl e
      | Inr (u', n', b') \<Rightarrow> write_bits_loop n' u' b')"

lemma bw_count_after_WriteBit:
  "WriteBit bt b = Inr b' \<Longrightarrow>
     bw_count b' = (if bw_count b = 1 then 8 else bw_count b - 1)"
  by (auto simp: WriteBit_def bw_append_def Let_def split: if_splits sum.splits option.splits)

text \<open>\<^verbatim>\<open>Flush\<close> pads the byte in progress.  From a zero-value writer (count 0) the counter first wraps
  to 255 and runs down to 8.\<close>

function Flush :: "bool \<Rightarrow> BitWriter \<Rightarrow> bit_error + BitWriter" where
  "Flush bt b =
     (if bw_count b \<noteq> 8 then
        (case WriteBit bt b of Inl e \<Rightarrow> Inl e | Inr b' \<Rightarrow> Flush bt b')
      else Inr b)"
  by pat_completeness auto
termination
proof (relation "measure (\<lambda>(bt, b). if bw_count b = 8 then 0
                                    else if bw_count b = 0 then 256 else unat (bw_count b))")
  fix bt :: bool and b b' :: BitWriter
  assume c: "bw_count b \<noteq> 8" and w: "WriteBit bt b = Inr b'"
  have "bw_count b' = (if bw_count b = 1 then 8 else bw_count b - 1)"
    using w by (rule bw_count_after_WriteBit)
  moreover have "bw_count b \<noteq> 0 \<Longrightarrow> unat (bw_count b - 1) = unat (bw_count b) - 1"
    by (simp add: unat_minus_one)
  moreover have "bw_count b \<noteq> 0 \<Longrightarrow> 0 < unat (bw_count b)"
    by (simp add: unat_gt_0)
  ultimately show "((bt, b'), bt, b) \<in> measure (\<lambda>(bt, b). if bw_count b = 8 then 0
                                    else if bw_count b = 0 then 256 else unat (bw_count b))"
    using c unsigned_less [of "bw_count b'", where 'a = nat] by auto
qed simp

declare Flush.simps [simp del]

definition bw_Bytes :: "BitWriter \<Rightarrow> bytes" where
  "bw_Bytes b = (case bw_data b of None \<Rightarrow> [] | Some d \<Rightarrow> d)"

subsection \<open>What a writer stands for\<close>

definition bw_bits :: "BitWriter \<Rightarrow> bool list" where
  "bw_bits b = bytes_bits (bw_Bytes b)
                 @ word_bits (8 - unat (bw_count b)) (drop_bit (unat (bw_count b)) (bw_b b))"

definition bw_inv :: "BitWriter \<Rightarrow> bool" where
  "bw_inv b \<longleftrightarrow> 1 \<le> unat (bw_count b) \<and> unat (bw_count b) \<le> 8 \<and>
     take_bit (unat (bw_count b)) (bw_b b) = 0 \<and>
     length (bw_Bytes b) = bw_pos b \<and> bw_cap b \<le> 2 ^ 61"

lemma bw_inv_New: "bw_inv NewBitWriter" and bw_bits_New: "bw_bits NewBitWriter = []"
  by (simp_all add: bw_inv_def bw_bits_def NewBitWriter_def bw_Reset_def bw_Bytes_def)

lemma bw_inv_Reset: "bw_cap b \<le> 2 ^ 61 \<Longrightarrow> bw_inv (bw_Reset b)"
  and bw_bits_Reset: "bw_bits (bw_Reset b) = []"
  by (auto simp: bw_inv_def bw_bits_def bw_Reset_def bw_Bytes_def split: option.splits)

lemma bw_inv_low_bit: "bw_inv b \<Longrightarrow> i < unat (bw_count b) \<Longrightarrow> \<not> bit (bw_b b) i"
  unfolding bw_inv_def by (metis bit_0_eq bit_take_bit_iff bot_apply bot_bool_def)

lemma bw_append_ok:
  assumes "length (bw_Bytes b) = bw_pos b" "bw_cap b \<le> 2 ^ 61" "bw_pos b < 2 ^ 60"
  shows "\<exists>b'. bw_append b = Inr b' \<and> bw_Bytes b' = bw_Bytes b @ [bw_b b] \<and>
           bw_pos b' = bw_pos b + 1 \<and> bw_cap b' \<le> 2 ^ 61 \<and> bw_count b' = bw_count b"
  using assms
  by (cases "bw_data b") (auto simp: bw_append_def bw_Bytes_def maxInt_def Let_def)

lemma bw_pos_le_bits: "bw_inv b \<Longrightarrow> 8 * bw_pos b \<le> length (bw_bits b)"
  by (auto simp: bw_bits_def bw_inv_def)

lemma unat_minus_one_pos: "1 \<le> unat c \<Longrightarrow> unat (c - 1 :: byte) = unat c - 1"
  by (metis not_one_le_zero unat_minus_one unsigned_0)

lemma WriteBit_spec:
  assumes inv: "bw_inv b" and room: "length (bw_bits b) < 2 ^ 60"
  shows "\<exists>b'. WriteBit bt b = Inr b' \<and> bw_inv b' \<and> bw_bits b' = bw_bits b @ [bt]"
proof -
  let ?c = "unat (bw_count b)"
  define b1 where "b1 = bw_b b OR (if bt then push_bit (?c - 1) 1 else 0)"
  have c: "1 \<le> ?c" "?c \<le> 8" using inv by (auto simp: bw_inv_def)
  have c1: "unat (bw_count b - 1) = ?c - 1" using c by (simp add: unat_minus_one_pos)
  have low: "\<not> bit (bw_b b) i" if "i < ?c" for i using inv that by (rule bw_inv_low_bit)
  have pos: "bw_pos b < 2 ^ 60" using bw_pos_le_bits [OF inv] room by linarith
  have bitc: "bit b1 (?c - 1) = bt" and low1: "take_bit (?c - 1) b1 = 0"
    using c low by (auto simp: b1_def bit_simps intro!: bit_word_eqI)
  have hi: "bit b1 (?c + i) = bit (bw_b b) (?c + i)" for i
    using c by (auto simp: b1_def bit_simps)
  have step: "word_bits (8 - (?c - 1)) (drop_bit (?c - 1) b1) = word_bits (8 - ?c) (drop_bit ?c (bw_b b)) @ [bt]"
  proof -
    have "word_bits (8 - ?c + 1) (drop_bit (?c - 1) b1)
            = word_bits (8 - ?c) (drop_bit 1 (drop_bit (?c - 1) b1)) @ word_bits 1 (drop_bit (?c - 1) b1)"
      by (rule word_bits_add)
    moreover have "word_bits (8 - ?c) (drop_bit 1 (drop_bit (?c - 1) b1)) = word_bits (8 - ?c) (drop_bit ?c (bw_b b))"
      by (rule word_bits_cong) (use c hi in \<open>simp add: bit_simps add.assoc [symmetric]\<close>)
    moreover have "8 - (?c - 1) = 8 - ?c + 1" using c by simp
    ultimately show ?thesis using bitc by (simp add: bit_simps)
  qed
  let ?b2 = "b\<lparr>bw_b := b1, bw_count := bw_count b - 1\<rparr>"
  have eq: "WriteBit bt b = (if bw_count b - 1 = 0 then
             (case bw_append ?b2 of Inl e \<Rightarrow> Inl e | Inr b3 \<Rightarrow> Inr (b3\<lparr>bw_b := 0, bw_count := 8\<rparr>))
             else Inr ?b2)"
    using c1 by (simp add: WriteBit_def b1_def Let_def)
  show ?thesis
  proof (cases "?c = 1")
    case True
    then have z: "bw_count b - 1 = 0" using c1 by (simp add: unat_eq_0 [symmetric] del: unat_eq_0)
    obtain b3 where b3: "bw_append ?b2 = Inr b3" "bw_Bytes b3 = bw_Bytes b @ [b1]"
      "bw_pos b3 = bw_pos b + 1" "bw_cap b3 \<le> 2 ^ 61"
      using bw_append_ok [of ?b2] inv pos by (auto simp: bw_inv_def bw_Bytes_def)
    then show ?thesis using eq z step True inv
      by (auto simp: bw_inv_def bw_bits_def bw_Bytes_def)
  next
    case False
    then have "bw_count b - 1 \<noteq> 0" using c c1 by (metis One_nat_def diff_is_0_eq le_antisym unsigned_0)
    then show ?thesis using eq step low1 c c1 False inv
      by (auto simp: bw_inv_def bw_bits_def bw_Bytes_def)
  qed
qed

lemma WriteByte_spec:
  assumes inv: "bw_inv b" and room: "length (bw_bits b) < 2 ^ 60"
  shows "\<exists>b'. WriteByte byt b = Inr b' \<and> bw_inv b' \<and> bw_bits b' = bw_bits b @ word_bits 8 byt"
proof -
  let ?c = "unat (bw_count b)"
  define b1 where "b1 = bw_b b OR drop_bit (8 - ?c) byt"
  have c: "1 \<le> ?c" "?c \<le> 8" using inv by (auto simp: bw_inv_def)
  have "bw_count b \<le> 8" using c by (simp add: word_le_nat_alt)
  then have c8: "unat (8 - bw_count b) = 8 - ?c" by (simp add: unat_sub)
  have low: "\<not> bit (bw_b b) i" if "i < ?c" for i using inv that by (rule bw_inv_low_bit)
  have pos: "bw_pos b < 2 ^ 60" using bw_pos_le_bits [OF inv] room by linarith
  let ?b1 = "b\<lparr>bw_b := b1\<rparr>"
  obtain b2 where b2: "bw_append ?b1 = Inr b2" "bw_Bytes b2 = bw_Bytes b @ [b1]"
      "bw_pos b2 = bw_pos b + 1" "bw_cap b2 \<le> 2 ^ 61" "bw_count b2 = bw_count b"
    using bw_append_ok [of ?b1] inv pos by (auto simp: bw_inv_def bw_Bytes_def)
  have "word_bits 8 b1 = word_bits (8 - ?c + ?c) b1" using c by simp
  also have "\<dots> = word_bits (8 - ?c) (drop_bit ?c b1) @ word_bits ?c b1"
    by (rule word_bits_add)
  also have "word_bits (8 - ?c) (drop_bit ?c b1) = word_bits (8 - ?c) (drop_bit ?c (bw_b b))"
    by (rule word_bits_cong) (use c in \<open>auto simp: b1_def bit_simps dest: bit_imp_le_length\<close>)
  also have "word_bits ?c b1 = word_bits ?c (drop_bit (8 - ?c) byt)"
    by (rule word_bits_cong) (auto simp: b1_def bit_simps low)
  finally have w1: "word_bits 8 b1 = word_bits (8 - ?c) (drop_bit ?c (bw_b b)) @ word_bits ?c (drop_bit (8 - ?c) byt)" .
  have "word_bits 8 byt = word_bits (?c + (8 - ?c)) byt" using c by simp
  also have "\<dots> = word_bits ?c (drop_bit (8 - ?c) byt) @ word_bits (8 - ?c) byt"
    by (rule word_bits_add)
  finally have w2: "word_bits 8 byt = word_bits ?c (drop_bit (8 - ?c) byt) @ word_bits (8 - ?c) byt" .
  have w3: "word_bits (8 - ?c) (drop_bit ?c (push_bit ?c byt)) = word_bits (8 - ?c) byt"
    by (rule word_bits_cong) (use c in \<open>auto simp: bit_simps\<close>)
  have "take_bit ?c (push_bit ?c byt) = 0"
    by (rule bit_word_eqI) (auto simp: bit_simps)
  then have "WriteByte byt b = Inr (b2\<lparr>bw_b := push_bit ?c byt\<rparr>) \<and> bw_inv (b2\<lparr>bw_b := push_bit ?c byt\<rparr>)"
    using b2 c c8 inv by (auto simp: WriteByte_def b1_def bw_inv_def bw_Bytes_def Let_def)
  moreover have "bw_bits (b2\<lparr>bw_b := push_bit ?c byt\<rparr>) = bw_bits b @ word_bits 8 byt"
    using b2 w1 w2 w3 by (simp add: bw_bits_def bw_Bytes_def)
  ultimately show ?thesis by blast
qed

text \<open>The first \<open>n\<close> bits of a 64-bit register, most significant first.\<close>

definition top_bits :: "nat \<Rightarrow> u64 \<Rightarrow> bool list" where
  "top_bits n u = map (\<lambda>i. bit u (63 - i)) [0..<n]"

lemma length_top_bits [simp]: "length (top_bits n u) = n"
  by (simp add: top_bits_def)

lemma nth_top_bits: "i < n \<Longrightarrow> top_bits n u ! i = bit u (63 - i)"
  by (simp add: top_bits_def)

lemma top_bits_0 [simp]: "top_bits 0 u = []"
  by (simp add: top_bits_def)

lemma top_bits_shift:
  "m + n \<le> 64 \<Longrightarrow> top_bits (m + n) u = top_bits m u @ top_bits n (push_bit m u)"
proof (rule nth_equalityI)
  fix i assume mn: "m + n \<le> 64" and "i < length (top_bits (m + n) u)"
  then have i: "i < m + n" by simp
  show "top_bits (m + n) u ! i = (top_bits m u @ top_bits n (push_bit m u)) ! i"
  proof (cases "i < m")
    case False
    then have "63 - (i - m) - m = 63 - i" "m \<le> 63 - (i - m)" using i mn by auto
    then show ?thesis using False i mn by (auto simp: nth_append nth_top_bits bit_simps)
  qed (use i in \<open>simp add: nth_append nth_top_bits\<close>)
qed simp

lemma top_bits_8: "top_bits 8 u = word_bits 8 (ucast (drop_bit 56 u) :: byte)"
  by (rule nth_equalityI) (auto simp: nth_top_bits nth_word_bits bit_simps)

lemma top_bits_1: "top_bits 1 u = [drop_bit 63 u = 1]"
proof -
  have "drop_bit 63 u = 1 \<longleftrightarrow> bit u 63"
  proof
    assume "drop_bit 63 u = 1"
    then have "bit (drop_bit 63 u) 0" by simp
    then show "bit u 63" by (simp add: bit_simps)
  next
    assume "bit u 63"
    then show "drop_bit 63 u = 1"
      by (intro bit_word_eqI) (auto simp: bit_simps dest: bit_imp_le_length)
  qed
  then show ?thesis by (simp add: top_bits_def)
qed

lemma top_bits_word_bits: "n \<le> 64 \<Longrightarrow> top_bits n (push_bit (64 - n) u) = word_bits n u"
proof (rule nth_equalityI)
  fix i assume n: "n \<le> 64" and "i < length (top_bits n (push_bit (64 - n) u))"
  then have i: "i < n" by simp
  then have "63 - i - (64 - n) = n - 1 - i" "64 - n \<le> 63 - i" using n by auto
  then show "top_bits n (push_bit (64 - n) u) ! i = word_bits n u ! i"
    using i n by (auto simp: nth_top_bits nth_word_bits bit_simps)
qed simp

lemma write_bits_loop_spec:
  assumes "bw_inv b" "length (bw_bits b) + n \<le> 2 ^ 60" "n \<le> 64"
  shows "\<exists>b'. write_bits_loop n u b = Inr b' \<and> bw_inv b' \<and> bw_bits b' = bw_bits b @ top_bits n u"
  using assms
proof (induction n arbitrary: u b)
  case 0
  then show ?case by simp
next
  case (Suc n)
  then obtain b1 where b1: "WriteBit (drop_bit 63 u = 1) b = Inr b1" "bw_inv b1"
      "bw_bits b1 = bw_bits b @ [drop_bit 63 u = 1]"
    using WriteBit_spec [of b "drop_bit 63 u = 1"] by auto
  then obtain b' where b': "write_bits_loop n (push_bit 1 u) b1 = Inr b'" "bw_inv b'"
      "bw_bits b' = bw_bits b1 @ top_bits n (push_bit 1 u)"
    using Suc.IH [of b1 "push_bit 1 u"] Suc.prems by auto
  have "top_bits (Suc n) u = top_bits 1 u @ top_bits n (push_bit 1 u)"
    using top_bits_shift [of 1 n u] Suc.prems by simp
  then show ?case using b1 b' by (simp add: top_bits_1 del: One_nat_def push_bit_of_1 push_bit_Suc)
qed

lemma write_bytes_loop_spec:
  assumes "bw_inv b" "length (bw_bits b) + n \<le> 2 ^ 60" "n \<le> 64"
  shows "\<exists>u' n' b'. write_bytes_loop u n b = Inr (u', n', b') \<and> bw_inv b' \<and> n' < 8 \<and>
           length (bw_bits b') + n' \<le> 2 ^ 60 \<and> bw_bits b' @ top_bits n' u' = bw_bits b @ top_bits n u"
  using assms
proof (induction u n b rule: write_bytes_loop.induct)
  case (1 u n b)
  show ?case
  proof (cases "8 \<le> n")
    case True
    obtain b1 where b1: "WriteByte (ucast (drop_bit 56 u)) b = Inr b1" "bw_inv b1"
        "bw_bits b1 = bw_bits b @ word_bits 8 (ucast (drop_bit 56 u) :: byte)"
      using WriteByte_spec [of b "ucast (drop_bit 56 u)"] "1.prems" True by auto
    have "top_bits n u = top_bits 8 u @ top_bits (n - 8) (push_bit 8 u)"
      using top_bits_shift [of 8 "n - 8" u] True "1.prems" by simp
    then show ?thesis
      using "1.IH" [OF True b1(1) b1(2)] b1 "1.prems" True
      by (simp add: write_bytes_loop.simps [of u n b] top_bits_8)
  next
    case False
    then show ?thesis using "1.prems" by (simp add: write_bytes_loop.simps [of u n b])
  qed
qed

lemma WriteBits_spec:
  assumes "bw_inv b" "length (bw_bits b) + n \<le> 2 ^ 60" "n \<le> 64"
  shows "\<exists>b'. WriteBits u n b = Inr b' \<and> bw_inv b' \<and> bw_bits b' = bw_bits b @ word_bits n u"
proof -
  let ?u = "push_bit (64 - n) u"
  obtain u' n' b1 where l1: "write_bytes_loop ?u n b = Inr (u', n', b1)" "bw_inv b1" "n' < 8"
      "length (bw_bits b1) + n' \<le> 2 ^ 60" "bw_bits b1 @ top_bits n' u' = bw_bits b @ top_bits n ?u"
    using write_bytes_loop_spec [OF assms] by blast
  then obtain b' where "write_bits_loop n' u' b1 = Inr b'" "bw_inv b'" "bw_bits b' = bw_bits b1 @ top_bits n' u'"
    using write_bits_loop_spec [of b1 n' u'] by auto
  then show ?thesis using l1 assms(3) by (auto simp: WriteBits_def top_bits_word_bits)
qed

lemma bw_bits_aligned: "bw_count b = 8 \<Longrightarrow> bw_bits b = bytes_bits (bw_Bytes b)"
  by (simp add: bw_bits_def)

lemma Flush_spec:
  assumes "bw_inv b" "length (bw_bits b) + unat (bw_count b) \<le> 2 ^ 60"
  shows "\<exists>b'. Flush bt b = Inr b' \<and> bw_inv b' \<and> bw_count b' = 8 \<and>
           bytes_bits (bw_Bytes b')
             = bw_bits b @ replicate (if bw_count b = 8 then 0 else unat (bw_count b)) bt"
  using assms(1) assms(2)
proof (induction "unat (bw_count b)" arbitrary: b rule: less_induct)
  case less
  show ?case
  proof (cases "bw_count b = 8")
    case True
    then show ?thesis using less.prems by (simp add: Flush.simps [of bt b] bw_bits_aligned)
  next
    case False
    have c: "1 \<le> unat (bw_count b)" "unat (bw_count b) \<le> 8" using less.prems by (auto simp: bw_inv_def)
    have "unat (bw_count b) \<noteq> 8" using False unsigned_word_eqI [of "bw_count b" 8, where 'a = nat] by auto
    with c have c7: "unat (bw_count b) \<le> 7" by simp
    obtain b1 where b1: "WriteBit bt b = Inr b1" "bw_inv b1" "bw_bits b1 = bw_bits b @ [bt]"
      using WriteBit_spec [of b bt] less.prems c by auto
    have n1: "bw_count b1 = (if bw_count b = 1 then 8 else bw_count b - 1)"
      using bw_count_after_WriteBit [OF b1(1)] .
    have f: "Flush bt b = Flush bt b1" using False b1 by (simp add: Flush.simps [of bt b])
    show ?thesis
    proof (cases "bw_count b = 1")
      case True
      then show ?thesis using f b1 n1 by (simp add: Flush.simps [of bt b1] bw_bits_aligned)
    next
      case c1: False
      then have u1: "unat (bw_count b1) = unat (bw_count b) - 1" using n1 c by (simp add: unat_minus_one_pos)
      then have ne8: "bw_count b1 \<noteq> 8" using c7 c by auto
      have "length (bw_bits b1) + unat (bw_count b1) \<le> 2 ^ 60"
        using less.prems b1 u1 c by simp
      then obtain b' where "Flush bt b1 = Inr b'" "bw_inv b'" "bw_count b' = 8"
          "bytes_bits (bw_Bytes b') = bw_bits b1 @ replicate (unat (bw_count b1)) bt"
        using less.hyps [of b1] u1 c b1 ne8 by auto
      moreover have "bt # replicate (unat (bw_count b) - 1) bt = replicate (unat (bw_count b)) bt"
        using c by (metis Suc_diff_1 le_0_eq not_gr_zero one_neq_zero replicate_Suc)
      ultimately show ?thesis using f b1 u1 False by simp
    qed
  qed
qed

section \<open>\<^verbatim>\<open>BitReader\<close>\<close>

record BitReader =
  br_data :: bytes
  br_v :: u64
  br_n :: nat

text \<open>\<^verbatim>\<open>readBuf\<close>: the eight-byte fast path, and the byte-by-byte fill.\<close>

fun readBuf_loop :: "bytes \<Rightarrow> u64 \<Rightarrow> nat \<Rightarrow> u64 \<times> nat" where
  "readBuf_loop [] v n = (v, n)"
| "readBuf_loop (d # ds) v n = readBuf_loop ds (v OR push_bit (64 - (n + 8)) (ucast d)) (n + 8)"

definition readBuf :: "BitReader \<Rightarrow> BitReader" where
  "readBuf r =
     (let byteN = min (8 - br_n r div 8) (length (br_data r)) in
      if byteN = 8 then
        r\<lparr>br_v := be_get (take 8 (br_data r)), br_n := 64, br_data := drop 8 (br_data r)\<rparr>
      else
        (let (v, n) = readBuf_loop (take byteN (br_data r)) (br_v r) (br_n r) in
         r\<lparr>br_v := v, br_n := n, br_data := drop byteN (br_data r)\<rparr>))"

definition br_Reset :: "bytes \<Rightarrow> BitReader" where
  "br_Reset data = readBuf \<lparr>br_data = data, br_v = 0, br_n = 0\<rparr>"

definition CanReadBitFast :: "BitReader \<Rightarrow> bool" where
  "CanReadBitFast r \<longleftrightarrow> 1 < br_n r"

definition ReadBitFast :: "BitReader \<Rightarrow> bool \<times> BitReader" where
  "ReadBitFast r =
     (br_v r AND push_bit 63 1 \<noteq> 0, r\<lparr>br_v := push_bit 1 (br_v r), br_n := br_n r - 1\<rparr>)"

definition ReadBits :: "nat \<Rightarrow> BitReader \<Rightarrow> (bit_error + u64) \<times> BitReader" where
  "ReadBits nbits r =
     (if br_n r = 0 then (Inl EOF, r)
      else if nbits \<le> br_n r then
        (if nbits = 64 then (Inr (br_v r), readBuf (r\<lparr>br_v := 0, br_n := 0\<rparr>))
         else
           (let r1 = r\<lparr>br_v := push_bit nbits (br_v r), br_n := br_n r - nbits\<rparr> in
            (Inr (drop_bit (64 - nbits) (br_v r)), if br_n r1 = 0 then readBuf r1 else r1)))
      else
        (let v = br_v r; n = br_n r; r1 = readBuf (r\<lparr>br_v := 0, br_n := 0\<rparr>) in
         if br_n r1 = 0 \<and> n < nbits then (Inl EOF, r1)
         else
           (let v' = drop_bit (64 - nbits) (v OR drop_bit n (br_v r1));
                bufN = min (nbits - n) (br_n r1);
                r2 = r1\<lparr>br_v := push_bit bufN (br_v r1), br_n := br_n r1 - bufN\<rparr>
            in (Inr v', if br_n r2 = 0 then readBuf r2 else r2))))"

definition ReadBit :: "BitReader \<Rightarrow> (bit_error + bool) \<times> BitReader" where
  "ReadBit r = (case ReadBits 1 r of
       (Inl e, r') \<Rightarrow> (Inl e, r') | (Inr v, r') \<Rightarrow> (Inr (v \<noteq> 0), r'))"

subsection \<open>What a reader stands for\<close>

definition br_bits :: "BitReader \<Rightarrow> bool list" where
  "br_bits r = top_bits (br_n r) (br_v r) @ bytes_bits (br_data r)"

definition br_inv :: "BitReader \<Rightarrow> bool" where
  "br_inv r \<longleftrightarrow> br_n r \<le> 64 \<and> take_bit (64 - br_n r) (br_v r) = 0 \<and> (br_n r = 0 \<longrightarrow> br_data r = [])"

lemma word_bits_ucast: "n \<le> LENGTH('b) \<Longrightarrow> word_bits n (ucast w :: 'b::len word) = word_bits n w"
  by (induction n) (auto simp: bit_simps)

lemma bytes_bits_be_put: "bytes_bits (be_put n w) = word_bits (8 * n) w"
proof (induction n arbitrary: w)
  case (Suc n)
  have "word_bits (8 * n + 8) w = word_bits (8 * n) (drop_bit 8 w) @ word_bits 8 w"
    by (rule word_bits_add)
  then show ?case by (simp add: Suc.IH word_bits_ucast add.commute)
qed simp

lemma top_bits_be_get:
  assumes "length ds = 8"
  shows "top_bits 64 (be_get ds) = bytes_bits ds"
proof -
  have "bytes_bits (be_put 8 (be_get ds :: u64)) = word_bits 64 (be_get ds :: u64)"
    using bytes_bits_be_put [of 8 "be_get ds :: u64"] by simp
  then show ?thesis
    using be_put_get [of ds, where 'a = 64] top_bits_word_bits [of 64 "be_get ds"] assms by simp
qed

lemma zero_below: "take_bit k v = 0 \<Longrightarrow> i < k \<Longrightarrow> \<not> bit (v :: 'a::len word) i"
  by (metis bit_0_eq bit_take_bit_iff bot_apply bot_bool_def)

lemma readBuf_loop_spec:
  assumes "n + 8 * length ds \<le> 64" "take_bit (64 - n) v = 0"
  shows "\<exists>v'. readBuf_loop ds v n = (v', n + 8 * length ds) \<and> take_bit (64 - (n + 8 * length ds)) v' = 0 \<and>
           top_bits (n + 8 * length ds) v' = top_bits n v @ bytes_bits ds"
  using assms
proof (induction ds arbitrary: v n)
  case Nil
  then show ?case by simp
next
  case (Cons d ds)
  let ?v = "v OR push_bit (64 - (n + 8)) (ucast d)"
  have low: "\<not> bit v i" if "i < 64 - n" for i using Cons.prems(2) that by (rule zero_below)
  have z: "take_bit (64 - (n + 8)) ?v = 0"
    using low by (intro bit_word_eqI) (auto simp: bit_simps)
  have "top_bits (n + 8) ?v = top_bits n v @ word_bits 8 d"
  proof (rule nth_equalityI)
    fix i assume "i < length (top_bits (n + 8) ?v)"
    then have i: "i < n + 8" by simp
    have n: "n + 8 \<le> 64" using Cons.prems(1) by simp
    show "top_bits (n + 8) ?v ! i = (top_bits n v @ word_bits 8 d) ! i"
    proof (cases "i < n")
      case True
      then have "\<not> bit d (63 - i - (64 - (n + 8)))" using n by (auto dest: bit_imp_le_length)
      then show ?thesis using True i by (auto simp: nth_append nth_top_bits bit_simps)
    next
      case False
      then have "\<not> bit v (63 - i)" "63 - i - (64 - (n + 8)) = 8 - 1 - (i - n)" "64 - (n + 8) \<le> 63 - i"
        using low n i by auto
      then show ?thesis using False i n by (auto simp: nth_append nth_top_bits nth_word_bits bit_simps)
    qed
  qed simp
  then show ?case using Cons.IH [of "n + 8" ?v] Cons.prems z by (simp add: algebra_simps)
qed

lemma readBuf_spec:
  assumes "br_v r = 0" "br_n r = 0"
  shows "br_inv (readBuf r) \<and> br_bits (readBuf r) = bytes_bits (br_data r)"
proof (cases "8 \<le> length (br_data r)")
  case True
  then show ?thesis using assms
    by (simp add: readBuf_def br_inv_def br_bits_def top_bits_be_get flip: concat_append map_append)
next
  case False
  let ?d = "br_data r"
  obtain v' where v': "readBuf_loop ?d 0 0 = (v', 8 * length ?d)"
      "take_bit (64 - 8 * length ?d) v' = 0" "top_bits (8 * length ?d) v' = bytes_bits ?d"
    using readBuf_loop_spec [of 0 ?d 0] False by auto
  then show ?thesis using False assms
    by (auto simp: readBuf_def br_inv_def br_bits_def)
qed

lemma br_Reset_spec: "br_inv (br_Reset data)" and br_bits_Reset: "br_bits (br_Reset data) = bytes_bits data"
  using readBuf_spec [of "\<lparr>br_data = data, br_v = 0, br_n = 0\<rparr>"] by (auto simp: br_Reset_def)

lemma br_n_readBuf: "br_n r = 0 \<Longrightarrow> br_n (readBuf r) = min 64 (8 * length (br_data r))"
proof (cases "8 \<le> length (br_data r)")
  case False
  assume n: "br_n r = 0"
  have "snd (readBuf_loop ds v m) = m + 8 * length ds" for ds v m
    by (induction ds arbitrary: v m) auto
  then show ?thesis using False n by (simp add: readBuf_def Let_def case_prod_beta)
qed (simp add: readBuf_def)

text \<open>The common tail of \<^verbatim>\<open>ReadBits\<close>: shift \<open>k\<close> bits out and refill an emptied buffer.\<close>

definition br_consume :: "nat \<Rightarrow> BitReader \<Rightarrow> BitReader" where
  "br_consume k r =
     (let r1 = r\<lparr>br_v := push_bit k (br_v r), br_n := br_n r - k\<rparr>
      in if br_n r1 = 0 then readBuf r1 else r1)"

lemma br_inv_low_bit: "br_inv r \<Longrightarrow> i < 64 - br_n r \<Longrightarrow> \<not> bit (br_v r) i"
  unfolding br_inv_def using zero_below by blast

lemma br_consume_spec:
  assumes inv: "br_inv r" and k: "k \<le> br_n r"
  shows "br_inv (br_consume k r) \<and> br_bits (br_consume k r) = drop k (br_bits r)"
proof -
  have low: "\<not> bit (br_v r) i" if "i < 64 - br_n r" for i using inv that by (rule br_inv_low_bit)
  have n: "br_n r \<le> 64" using inv by (simp add: br_inv_def)
  let ?r1 = "r\<lparr>br_v := push_bit k (br_v r), br_n := br_n r - k\<rparr>"
  have split: "top_bits (br_n r) (br_v r) = top_bits k (br_v r) @ top_bits (br_n r - k) (push_bit k (br_v r))"
    using top_bits_shift [of k "br_n r - k" "br_v r"] n k by simp
  show ?thesis
  proof (cases "br_n r = k")
    case True
    then have "push_bit k (br_v r) = 0"
      using low n by (intro bit_word_eqI) (auto simp: bit_simps)
    then show ?thesis
      using True readBuf_spec [of ?r1] by (simp add: br_consume_def br_bits_def)
  next
    case False
    have "take_bit (64 - (br_n r - k)) (push_bit k (br_v r)) = 0"
      using low n k by (intro bit_word_eqI) (auto simp: bit_simps)
    then show ?thesis
      using False k n split inv by (auto simp: br_consume_def br_inv_def br_bits_def)
  qed
qed

lemma drop_bit_bits_word: "n \<le> 64 \<Longrightarrow> drop_bit (64 - n) v = bits_word (top_bits n v)"
proof (rule bit_word_eqI)
  fix i assume "n \<le> 64" "i < LENGTH(64)"
  moreover have "i < n \<Longrightarrow> 63 - (n - 1 - i) = 64 - n + i" using \<open>n \<le> 64\<close> by auto
  ultimately show "bit (drop_bit (64 - n) v) i = bit (bits_word (top_bits n v) :: u64) i"
    by (cases "i < n") (auto simp: bit_simps bit_bits_word nth_top_bits dest: bit_imp_le_length)
qed

lemma ReadBits_spec:
  assumes inv: "br_inv r" and nb: "1 \<le> nbits" "nbits \<le> 64" and len: "nbits \<le> length (br_bits r)"
  shows "\<exists>r'. ReadBits nbits r = (Inr (bits_word (take nbits (br_bits r))), r') \<and> br_inv r' \<and>
           br_bits r' = drop nbits (br_bits r)"
proof -
  let ?n = "br_n r" and ?v = "br_v r"
  have n: "?n \<le> 64" and nz: "?n \<noteq> 0"
    using inv len nb by (auto simp: br_inv_def br_bits_def)
  have low: "\<not> bit ?v i" if "i < 64 - ?n" for i using inv that by (rule br_inv_low_bit)
  show ?thesis
  proof (cases "nbits \<le> ?n")
    case True
    have take: "take nbits (br_bits r) = top_bits nbits ?v"
      using True by (auto simp: br_bits_def top_bits_def take_map)
    have "ReadBits nbits r = (Inr (drop_bit (64 - nbits) ?v), br_consume nbits r)"
      using True nz n nb by (auto simp: ReadBits_def br_consume_def Let_def)
    then show ?thesis
      using br_consume_spec [OF inv True] drop_bit_bits_word [OF nb(2)] take by simp
  next
    case False
    let ?r0 = "r\<lparr>br_v := 0, br_n := 0\<rparr>" and ?r1 = "readBuf (r\<lparr>br_v := 0, br_n := 0\<rparr>)"
    have r1: "br_inv ?r1" "br_bits ?r1 = bytes_bits (br_data r)" "br_n ?r1 = min 64 (8 * length (br_data r))"
      using readBuf_spec [of ?r0] br_n_readBuf [of ?r0] by auto
    have enough: "nbits - ?n \<le> br_n ?r1" using r1 len nb by (auto simp: br_bits_def)
    let ?w = "?v OR drop_bit ?n (br_v ?r1)"
    have "top_bits nbits ?w = top_bits ?n ?v @ top_bits (nbits - ?n) (br_v ?r1)"
    proof (rule nth_equalityI)
      fix i assume "i < length (top_bits nbits ?w)"
      then have i: "i < nbits" by simp
      show "top_bits nbits ?w ! i = (top_bits ?n ?v @ top_bits (nbits - ?n) (br_v ?r1)) ! i"
      proof (cases "i < ?n")
        case True
        then show ?thesis using i nb n
          by (auto simp: nth_append nth_top_bits bit_simps dest: bit_imp_le_length)
      next
        case False
        then have "63 - (i - ?n) = ?n + (63 - i)" using i nb by auto
        then show ?thesis using False i nb low by (simp add: nth_append nth_top_bits bit_simps)
      qed
    qed (use False in simp)
    moreover have "take nbits (br_bits r) = top_bits ?n ?v @ take (nbits - ?n) (br_bits ?r1)"
      using False r1(2) by (simp add: br_bits_def)
    moreover have "take (nbits - ?n) (br_bits ?r1) = top_bits (nbits - ?n) (br_v ?r1)"
      using enough by (auto simp: br_bits_def top_bits_def take_map)
    ultimately have take: "take nbits (br_bits r) = top_bits nbits ?w" by simp
    have "ReadBits nbits r = (Inr (drop_bit (64 - nbits) ?w), br_consume (nbits - ?n) ?r1)"
      using False nz enough nb by (auto simp: ReadBits_def br_consume_def Let_def min_absorb1)
    moreover have "drop nbits (br_bits r) = drop (nbits - ?n) (br_bits ?r1)"
      unfolding r1(2) using False by (simp add: br_bits_def [of r])
    ultimately show ?thesis
      using br_consume_spec [OF r1(1) enough] unfolding take drop_bit_bits_word [OF nb(2)] by metis
  qed
qed

lemma ReadBits_EOF: "br_inv r \<Longrightarrow> br_bits r = [] \<Longrightarrow> ReadBits n r = (Inl EOF, r)"
  using length_top_bits [of "br_n r" "br_v r"] by (simp add: ReadBits_def br_bits_def del: length_top_bits)

lemma drop_bit_63_nonzero: "drop_bit 63 (v :: u64) \<noteq> 0 \<longleftrightarrow> bit v 63"
proof -
  have "bit (drop_bit 63 v) i \<longleftrightarrow> i = 0 \<and> bit v 63" for i
    by (cases "i = 0") (auto simp: bit_simps dest: bit_imp_le_length)
  then show ?thesis by (metis bit_0_eq bit_eqI bot_apply bot_bool_def)
qed

lemma hd_br_bits: "1 < br_n r \<Longrightarrow> hd (br_bits r) = bit (br_v r) 63"
  by (cases "br_n r") (auto simp: br_bits_def top_bits_def hd_append upt_rec)

lemma ReadBitFast_spec:
  assumes "br_inv r" "CanReadBitFast r"
  shows "ReadBitFast r = (hd (br_bits r), br_consume 1 r)"
proof -
  have "br_v r AND push_bit 63 1 \<noteq> 0 \<longleftrightarrow> bit (br_v r) 63"
  proof -
    have "bit (br_v r AND push_bit 63 1) i \<longleftrightarrow> i = 63 \<and> bit (br_v r) 63" for i
      using bit_exp_iff [of 63 i, where 'a = "64 word"] by (auto simp: bit_and_iff push_bit_of_1)
    then show ?thesis by (metis bit_0_eq bit_eqI bot_apply bot_bool_def)
  qed
  moreover have "hd (br_bits r) = bit (br_v r) 63"
    using assms(2) by (simp add: CanReadBitFast_def hd_br_bits)
  ultimately show ?thesis using assms(2)
    by (simp add: ReadBitFast_def br_consume_def CanReadBitFast_def Let_def)
qed

section \<open>Writing fields and reading them back\<close>

text \<open>A sequence of \<^verbatim>\<open>WriteBits\<close> calls, and the matching sequence of \<^verbatim>\<open>ReadBits\<close> calls.\<close>

fun write_fields :: "(u64 \<times> nat) list \<Rightarrow> BitWriter \<Rightarrow> bit_error + BitWriter" where
  "write_fields [] b = Inr b"
| "write_fields ((u, n) # fs) b =
     (case WriteBits u n b of Inl e \<Rightarrow> Inl e | Inr b' \<Rightarrow> write_fields fs b')"

fun read_fields :: "nat list \<Rightarrow> BitReader \<Rightarrow> bit_error + u64 list" where
  "read_fields [] r = Inr []"
| "read_fields (n # ns) r =
     (case ReadBits n r of
        (Inl e, r') \<Rightarrow> Inl e
      | (Inr v, r') \<Rightarrow> (case read_fields ns r' of Inl e \<Rightarrow> Inl e | Inr vs \<Rightarrow> Inr (v # vs)))"

abbreviation field_bits :: "(u64 \<times> nat) list \<Rightarrow> bool list" where
  "field_bits fs \<equiv> concat (map (\<lambda>(u, n). word_bits n u) fs)"

abbreviation fields_ok :: "(u64 \<times> nat) list \<Rightarrow> bool" where
  "fields_ok fs \<equiv> list_all (\<lambda>(u, n). 1 \<le> n \<and> n \<le> 64) fs"

lemma length_field_bits: "length (field_bits fs) = sum_list (map snd fs)"
  by (induction fs) auto

lemma write_fields_spec:
  assumes "bw_inv b" "fields_ok fs" "length (bw_bits b) + sum_list (map snd fs) \<le> 2 ^ 60"
  shows "\<exists>b'. write_fields fs b = Inr b' \<and> bw_inv b' \<and> bw_bits b' = bw_bits b @ field_bits fs"
  using assms
proof (induction fs b rule: write_fields.induct)
  case (2 u n fs b)
  then obtain b1 where "WriteBits u n b = Inr b1" "bw_inv b1" "bw_bits b1 = bw_bits b @ word_bits n u"
    using WriteBits_spec [of b n u] by auto
  then show ?case using "2.IH" [of b1] "2.prems" by auto
qed simp

lemma read_fields_spec:
  assumes "br_inv r" "fields_ok fs" "br_bits r = field_bits fs @ rest"
  shows "read_fields (map snd fs) r = Inr (map (\<lambda>(u, n). take_bit n u) fs)"
  using assms
proof (induction fs arbitrary: r)
  case (Cons f fs)
  obtain u n where f: "f = (u, n)" by (cases f)
  then have n: "1 \<le> n" "n \<le> 64" and b: "br_bits r = word_bits n u @ field_bits fs @ rest"
    using Cons.prems by auto
  obtain r' where r': "ReadBits n r = (Inr (bits_word (word_bits n u)), r')" "br_inv r'"
      "br_bits r' = field_bits fs @ rest"
    using ReadBits_spec [OF Cons.prems(1) n] b by auto
  then show ?case using Cons.IH [of r'] Cons.prems(2) f by (simp add: bits_word_word_bits)
qed simp

text \<open>Whatever fields of 1 to 64 bits are written, the flushed bytes read back with the same
  widths give every field's low bits, for fewer than \<open>2 ^ 60\<close> bits in total, and no call fails.\<close>

theorem bit_stream_roundtrip:
  assumes ok: "fields_ok fs" and small: "sum_list (map snd fs) + 8 \<le> 2 ^ 60"
  shows "\<exists>w w'. write_fields fs NewBitWriter = Inr w \<and> Flush pad w = Inr w' \<and>
           read_fields (map snd fs) (br_Reset (bw_Bytes w')) = Inr (map (\<lambda>(u, n). take_bit n u) fs)"
proof -
  obtain w where w: "write_fields fs NewBitWriter = Inr w" "bw_inv w" "bw_bits w = field_bits fs"
    using write_fields_spec [OF bw_inv_New ok] small bw_bits_New by auto
  then have "unat (bw_count w) \<le> 8" by (simp add: bw_inv_def)
  then obtain w' rest where w': "Flush pad w = Inr w'" "bytes_bits (bw_Bytes w') = field_bits fs @ rest"
    using Flush_spec [of w pad] w small by (auto simp: length_field_bits)
  then show ?thesis
    using w read_fields_spec [OF br_Reset_spec ok] by (auto simp: br_bits_Reset)
qed

theorem bit_stream_roundtrip_witness:
  "\<exists>w w'. write_fields [(0x1F5, 9), (1, 1), (0xDEADBEEF, 64)] NewBitWriter = Inr w \<and> Flush False w = Inr w' \<and>
     read_fields [9, 1, 64] (br_Reset (bw_Bytes w')) = Inr [0x1F5, 1, 0xDEADBEEF]"
  using bit_stream_roundtrip [of "[(0x1F5, 9), (1, 1), (0xDEADBEEF, 64)]" False]
  by simp

text \<open>\<^verbatim>\<open>ReadBitFast\<close>, where \<^verbatim>\<open>CanReadBitFast\<close> allows it, returns the bit \<^verbatim>\<open>ReadBit\<close> would return
  and leaves the same reader, so the decoders may use either.\<close>

theorem ReadBitFast_eq_ReadBit:
  assumes "br_inv r" "CanReadBitFast r"
  shows "ReadBit r = (let (v, r') = ReadBitFast r in (Inr v, r'))"
proof -
  have n: "1 < br_n r" using assms by (simp add: CanReadBitFast_def)
  then have "ReadBits 1 r = (Inr (drop_bit 63 (br_v r)), br_consume 1 r)"
    by (auto simp: ReadBits_def br_consume_def Let_def)
  moreover have "drop_bit 63 (br_v r) \<noteq> 0 \<longleftrightarrow> bit (br_v r) 63"
    by (rule drop_bit_63_nonzero)
  moreover have "hd (br_bits r) = bit (br_v r) 63" using n by (simp add: hd_br_bits)
  ultimately show ?thesis using ReadBitFast_spec [OF assms] by (simp add: ReadBit_def)
qed

theorem ReadBitFast_eq_ReadBit_witness:
  "let r = br_Reset [0xA5] in br_inv r \<and> CanReadBitFast r \<and>
     ReadBit r = (let (v, r') = ReadBitFast r in (Inr v, r'))"
proof -
  have "CanReadBitFast (br_Reset [0xA5])" by (simp add: CanReadBitFast_def br_Reset_def br_n_readBuf)
  then show ?thesis using ReadBitFast_eq_ReadBit [OF br_Reset_spec, of "[0xA5]"] br_Reset_spec by simp
qed

end
