(* ===== verification/Codec.thy ===== *)
theory Codec
  imports Bit_Stream
begin

text \<open>
  What the value codecs of \<^verbatim>\<open>tsdb/segment_compression.go\<close> share: the zig-zag mapping, the marker
  bytes, the operations of the external \<^verbatim>\<open>variant\<close> package as a record of parameters, and the
  \<^verbatim>\<open>Encoder\<close>/\<^verbatim>\<open>Decoder\<close> contract as a locale, with the consumer loop
  \<^verbatim>\<open>for dec.Next() { ... dec.Read() ... }\<close> of the segment readers proved once against it.
\<close>

section \<open>Zig-zag\<close>

text \<open>An \<^verbatim>\<open>int64\<close> is kept as its 64-bit pattern; \<^verbatim>\<open>>>\<close> on it is the arithmetic shift.\<close>

definition ZigZagEncode :: "u64 \<Rightarrow> u64" where
  "ZigZagEncode x = push_bit 1 x XOR signed_drop_bit 63 x"

definition ZigZagDecode :: "u64 \<Rightarrow> u64" where
  "ZigZagDecode v = drop_bit 1 v XOR signed_drop_bit 63 (push_bit 63 (v AND 1))"

lemma bit_signed_drop_63: "bit (signed_drop_bit 63 (x :: u64)) i \<longleftrightarrow> i < 64 \<and> bit x 63"
proof (cases "i < 64")
  case True
  then have "63 + i \<noteq> 63 \<longrightarrow> \<not> 63 + i < 64" by simp
  then show ?thesis using True bit_imp_le_length [of x "63 + i"]
    by (cases "i = 0") (auto simp: bit_signed_drop_bit_iff)
qed (use bit_imp_le_length [of "signed_drop_bit 63 x" i] in auto)

lemma bit_and_one: "bit (v AND 1 :: u64) i \<longleftrightarrow> i = 0 \<and> bit v 0"
  by (auto simp: bit_simps)

lemma zigzag_inverse [codec_simps]: "ZigZagDecode (ZigZagEncode x) = x"
proof (rule bit_word_eqI)
  fix i assume "i < LENGTH(64)"
  then show "bit (ZigZagDecode (ZigZagEncode x)) i = bit x i"
    unfolding ZigZagDecode_def ZigZagEncode_def bit_xor_iff bit_signed_drop_63 bit_drop_bit_eq
      bit_push_bit_iff bit_and_one
    by (cases "i = 63") (auto simp: bit_imp_le_length)
qed

lemma zigzag_inverse_encode: "ZigZagEncode (ZigZagDecode v) = v"
proof (rule bit_word_eqI)
  fix i assume "i < LENGTH(64)"
  then show "bit (ZigZagEncode (ZigZagDecode v)) i = bit v i"
    unfolding ZigZagDecode_def ZigZagEncode_def bit_xor_iff bit_signed_drop_63 bit_drop_bit_eq
      bit_push_bit_iff bit_and_one
    using bit_imp_le_length [of v 64] by (cases "i = 0") auto
qed

section \<open>Marker bytes and buffer sizes\<close>

definition intUncompressed :: byte where "intUncompressed = 0"
definition intCompressedSimple :: byte where "intCompressedSimple = 1"
definition intCompressedRLE :: byte where "intCompressedRLE = 2"
definition floatCompressedXDMI :: byte where "floatCompressedXDMI = 3"
definition jsonCompressed :: byte where "jsonCompressed = 4"
definition stringCompressedSnappy :: byte where "stringCompressedSnappy = 5"
definition booleanCompressedBitPacked :: byte where "booleanCompressedBitPacked = 6"
definition booleanCompressedRLETrue :: byte where "booleanCompressedRLETrue = 7"
definition booleanCompressedRLEFalse :: byte where "booleanCompressedRLEFalse = 8"
definition columnCompressed :: byte where "columnCompressed = 9"
definition adaptColumnCompressed :: byte where "adaptColumnCompressed = 10"
definition stringCompressedDict :: byte where "stringCompressedDict = 11"

lemmas marker_defs =
  intUncompressed_def intCompressedSimple_def intCompressedRLE_def floatCompressedXDMI_def
  jsonCompressed_def stringCompressedSnappy_def booleanCompressedBitPacked_def
  booleanCompressedRLETrue_def booleanCompressedRLEFalse_def columnCompressed_def
  adaptColumnCompressed_def stringCompressedDict_def

definition encoderCap :: "int list \<Rightarrow> int" where
  "encoderCap batchSize =
     (case batchSize of
        b # _ \<Rightarrow> if b > 0 then (if b < 64 then 64 else b) else 256
      | [] \<Rightarrow> 256)"

section \<open>The external \<^verbatim>\<open>variant\<close> package\<close>

text \<open>The type of dynamically typed values and the operations the codecs call are parameters:
  conversions that may fail (\<open>None\<close> is the error), constructors, and the binary form.\<close>

record 'v variant_ops =
  vt_AsBool :: "'v \<Rightarrow> bool option"
  vt_NewBool :: "bool \<Rightarrow> 'v"
  vt_AsInt64 :: "'v \<Rightarrow> u64 option"
  vt_NewInt64 :: "u64 \<Rightarrow> 'v"
  vt_AsString :: "'v \<Rightarrow> bytes"
  vt_NewString :: "bytes \<Rightarrow> 'v"
  vt_Empty :: 'v
  vt_MarshalBinary :: "'v \<Rightarrow> bytes option"
  vt_UnmarshalBinary :: "bytes \<Rightarrow> ('v \<times> nat) option"

text \<open>What the round trips rely on: unmarshalling what \<^verbatim>\<open>MarshalBinary\<close> produced gives the value back
  and reports how many bytes it took.\<close>

definition variant_binary_law :: "'v variant_ops \<Rightarrow> bool" where
  "variant_binary_law V \<longleftrightarrow>
     (\<forall>v bs. vt_MarshalBinary V v = Some bs \<longrightarrow> vt_UnmarshalBinary V bs = Some (v, length bs))"

text \<open>A small instance of these parameters: dynamically typed values with a tagged binary form.\<close>

datatype sample_value = SEmpty | SBool bool | SInt u64 | SString bytes

definition sample_marshal :: "sample_value \<Rightarrow> bytes" where
  "sample_marshal v =
     (case v of SEmpty \<Rightarrow> [0] | SBool b \<Rightarrow> [1, of_bool b] | SInt i \<Rightarrow> 2 # be_put 8 i | SString s \<Rightarrow> 3 # s)"

definition sample_unmarshal :: "bytes \<Rightarrow> (sample_value \<times> nat) option" where
  "sample_unmarshal bs =
     (case bs of
        [] \<Rightarrow> None
      | t # r \<Rightarrow>
          if t = 0 then Some (SEmpty, 1)
          else if t = 1 \<and> r \<noteq> [] then Some (SBool (r ! 0 = 1), 2)
          else if t = 2 \<and> 8 \<le> length r then Some (SInt (be_get (take 8 r)), 9)
          else if t = 3 then Some (SString r, Suc (length r))
          else None)"

definition sample_variant :: "sample_value variant_ops" where
  "sample_variant =
     \<lparr>vt_AsBool = (\<lambda>v. case v of SBool b \<Rightarrow> Some b | _ \<Rightarrow> None), vt_NewBool = SBool,
      vt_AsInt64 = (\<lambda>v. case v of SInt i \<Rightarrow> Some i | _ \<Rightarrow> None), vt_NewInt64 = SInt,
      vt_AsString = (\<lambda>v. case v of SString s \<Rightarrow> s | _ \<Rightarrow> []), vt_NewString = SString,
      vt_Empty = SEmpty, vt_MarshalBinary = (\<lambda>v. Some (sample_marshal v)),
      vt_UnmarshalBinary = sample_unmarshal\<rparr>"

lemma sample_variant_simps [simp]:
  "vt_AsBool sample_variant v = (case v of SBool b \<Rightarrow> Some b | _ \<Rightarrow> None)"
  "vt_NewBool sample_variant = SBool"
  "vt_AsInt64 sample_variant v = (case v of SInt i \<Rightarrow> Some i | _ \<Rightarrow> None)"
  "vt_NewInt64 sample_variant = SInt"
  "vt_AsString sample_variant v = (case v of SString s \<Rightarrow> s | _ \<Rightarrow> [])"
  "vt_NewString sample_variant = SString"
  "vt_MarshalBinary sample_variant v = Some (sample_marshal v)"
  by (simp_all add: sample_variant_def)

lemma sample_variant_law: "variant_binary_law sample_variant"
  by (auto simp: variant_binary_law_def sample_variant_def sample_marshal_def sample_unmarshal_def
      be_get_put_full split: sample_value.splits)

section \<open>The decoder contract\<close>

text \<open>The consumer's loop, with as many iterations as \<open>fuel\<close>: \<open>None\<close> is a panic in \<^verbatim>\<open>Read\<close> or
  running out of fuel.\<close>

primrec drain :: "('d \<Rightarrow> bool \<times> 'd) \<Rightarrow> ('d \<Rightarrow> ('v \<times> 'd) option) \<Rightarrow> nat \<Rightarrow> 'd \<Rightarrow> 'v list option" where
  "drain nxt rd 0 d = None"
| "drain nxt rd (Suc n) d =
     (case nxt d of
        (False, d') \<Rightarrow> Some []
      | (True, d') \<Rightarrow>
          (case rd d' of None \<Rightarrow> None | Some (v, d'') \<Rightarrow> map_option (Cons v) (drain nxt rd n d'')))"

text \<open>A decoder state that will deliver exactly the values \<open>vs\<close>: \<^verbatim>\<open>Next\<close> answers true once per value,
  the \<^verbatim>\<open>Read\<close> after it returns that value, and at the end \<^verbatim>\<open>Next\<close> answers false.\<close>

locale decoder_contract =
  fixes nxt :: "'d \<Rightarrow> bool \<times> 'd"
    and rd :: "'d \<Rightarrow> ('v \<times> 'd) option"
    and stream :: "'d \<Rightarrow> 'v list \<Rightarrow> bool"
  assumes stream_Nil: "stream d [] \<Longrightarrow> \<not> fst (nxt d)"
    and stream_Cons: "stream d (v # vs) \<Longrightarrow>
      \<exists>d' d''. nxt d = (True, d') \<and> rd d' = Some (v, d'') \<and> stream d'' vs"
begin

lemma drain_stream: "stream d vs \<Longrightarrow> length vs < fuel \<Longrightarrow> drain nxt rd fuel d = Some vs"
proof (induction fuel arbitrary: d vs)
  case (Suc fuel)
  show ?case
  proof (cases vs)
    case Nil
    then have "\<not> fst (nxt d)" using stream_Nil Suc.prems by blast
    then show ?thesis using Nil by (cases "nxt d") simp
  next
    case (Cons v vs')
    then obtain d' d'' where "nxt d = (True, d')" "rd d' = Some (v, d'')" "stream d'' vs'"
      using stream_Cons Suc.prems by blast
    then show ?thesis using Suc.IH [of d'' vs'] Suc.prems Cons by simp
  qed
qed simp

end

text \<open>An encoder with its decoder: writing \<open>xs\<close> to a fresh encoder and handing its bytes to a fresh
  decoder gives a decoder that delivers the values \<open>canon\<close> of \<open>xs\<close>, for the inputs the codec supports.\<close>

locale value_codec = decoder_contract nxt rd stream
  for nxt :: "'d \<Rightarrow> bool \<times> 'd" and rd :: "'d \<Rightarrow> ('v \<times> 'd) option" and stream :: "'d \<Rightarrow> 'v list \<Rightarrow> bool" +
  fixes enc_new :: 'e
    and enc_write :: "'x \<Rightarrow> 'e \<Rightarrow> 'e"
    and enc_bytes :: "'e \<Rightarrow> bytes option"
    and dec_set :: "bytes \<Rightarrow> 'd option"
    and canon :: "'x \<Rightarrow> 'v"
    and supported :: "'x list \<Rightarrow> bool"
  assumes decodes: "supported xs \<Longrightarrow>
      \<exists>bs d. enc_bytes (fold enc_write xs enc_new) = Some bs \<and> dec_set bs = Some d \<and> stream d (map canon xs)"
begin

lemma encode_drain:
  assumes "supported xs"
  shows "\<exists>bs d. enc_bytes (fold enc_write xs enc_new) = Some bs \<and> dec_set bs = Some d \<and>
           drain nxt rd (Suc (length xs)) d = Some (map canon xs)"
  using decodes [OF assms] drain_stream [of _ "map canon xs" "Suc (length xs)"] by auto

end

declare drain.simps [simp del]

end
