(* ===== verification/Bool_Codec.thy ===== *)
theory Bool_Codec
  imports Codec
begin

text \<open>
  The boolean codec of \<^verbatim>\<open>tsdb/segment_compression_bool.go\<close>: a run of equal values is stored as a
  count; the first different value makes the encoder materialise the run and continue bit by bit.
\<close>

section \<open>The encoder\<close>

record BooleanEncoder =
  be_bytes :: bytes
  be_b :: byte
  be_i :: nat
  be_rle :: bool
  be_lastBool :: bool
  be_number :: nat
  be_err :: bool

definition NewBooleanEncoder :: BooleanEncoder where
  "NewBooleanEncoder = \<lparr>be_bytes = [], be_b = 0, be_i = 0, be_rle = False, be_lastBool = False,
                        be_number = 0, be_err = False\<rparr>"

definition BooleanEncoder_Reset :: "BooleanEncoder \<Rightarrow> BooleanEncoder" where
  "BooleanEncoder_Reset e = e\<lparr>be_bytes := [], be_b := 0, be_i := 0, be_number := 0, be_err := False\<rparr>"

text \<open>The three stages of \<^verbatim>\<open>Write\<close>: start a run, break a run, pack a bit.\<close>

definition bool_start_run :: "bool \<Rightarrow> BooleanEncoder \<Rightarrow> BooleanEncoder" where
  "bool_start_run b e = (if be_number e = 0 then e\<lparr>be_lastBool := b, be_rle := True\<rparr> else e)"

definition bool_break_run :: "bool \<Rightarrow> BooleanEncoder \<Rightarrow> BooleanEncoder" where
  "bool_break_run b e =
     (if be_lastBool e \<noteq> b \<and> be_rle e then
        (let i = be_number e mod 8 in
         e\<lparr>be_rle := False,
           be_bytes := be_bytes e @ replicate (be_number e div 8) (if be_lastBool e then 255 else 0),
           be_i := i,
           be_b := (if i \<noteq> 0 \<and> be_lastBool e then be_b e OR (push_bit i 1 - 1) else be_b e)\<rparr>)
      else e)"

definition bool_pack :: "bool \<Rightarrow> BooleanEncoder \<Rightarrow> BooleanEncoder" where
  "bool_pack b e =
     (if \<not> be_rle e then
        (let w = (if b then push_bit 1 (be_b e) OR 1 else push_bit 1 (be_b e)) in
         if be_i e + 1 \<ge> 8 then e\<lparr>be_bytes := be_bytes e @ [w], be_b := 0, be_i := 0\<rparr>
         else e\<lparr>be_b := w, be_i := be_i e + 1\<rparr>)
      else e)"

definition BooleanEncoder_Write :: "'v variant_ops \<Rightarrow> 'v \<Rightarrow> BooleanEncoder \<Rightarrow> bool \<times> BooleanEncoder" where
  "BooleanEncoder_Write V bv e =
     (case vt_AsBool V bv of
        None \<Rightarrow> (True, e\<lparr>be_err := True\<rparr>)
      | Some b \<Rightarrow>
          (let e3 = bool_pack b (bool_break_run b (bool_start_run b e))
           in (True, e3\<lparr>be_number := be_number e3 + 1\<rparr>)))"

definition BooleanEncoder_Bytes :: "BooleanEncoder \<Rightarrow> bytes option" where
  "BooleanEncoder_Bytes e =
     Some ((if \<not> be_rle e then booleanCompressedBitPacked
            else if be_lastBool e then booleanCompressedRLETrue else booleanCompressedRLEFalse)
           # be_put 8 (of_nat (be_number e) :: u64)
           @ (if \<not> be_rle e then
                be_bytes e @ (if be_i e > 0 then [push_bit (8 - be_i e) (be_b e)] else [])
              else []))"

section \<open>The decoder\<close>

record BooleanDecoder =
  bd_rle :: bool
  bd_number :: int
  bd_lastBool :: bool
  bd_b :: bytes
  bd_i :: nat
  bd_err :: bool

definition NewBooleanDecoder :: BooleanDecoder where
  "NewBooleanDecoder = \<lparr>bd_rle = False, bd_number = 0, bd_lastBool = False, bd_b = [], bd_i = 0, bd_err = False\<rparr>"

text \<open>\<open>None\<close> is the slice panic on fewer than nine bytes.\<close>

definition BooleanDecoder_SetBytes :: "bytes \<Rightarrow> BooleanDecoder \<Rightarrow> BooleanDecoder option" where
  "BooleanDecoder_SetBytes bs e =
     (case bs of
        [] \<Rightarrow> Some e
      | m # rest \<Rightarrow>
          (let n = sint (be_get (take 8 rest) :: u64) in
           if m = booleanCompressedRLETrue then
             (if length rest < 8 then None else Some (e\<lparr>bd_rle := True, bd_lastBool := True, bd_number := n\<rparr>))
           else if m = booleanCompressedRLEFalse then
             (if length rest < 8 then None else Some (e\<lparr>bd_rle := True, bd_lastBool := False, bd_number := n\<rparr>))
           else if m = booleanCompressedBitPacked then
             (if length rest < 8 then None else Some (e\<lparr>bd_rle := False, bd_b := drop 8 rest, bd_number := n\<rparr>))
           else Some (e\<lparr>bd_err := True\<rparr>)))"

definition BooleanDecoder_Next :: "BooleanDecoder \<Rightarrow> bool \<times> BooleanDecoder" where
  "BooleanDecoder_Next e =
     (if bd_err e then (False, e)
      else (let e' = e\<lparr>bd_i := bd_i e + 1\<rparr> in (int (bd_i e') \<le> bd_number e', e')))"

text \<open>\<open>None\<close> is the index panic: \<^verbatim>\<open>Read\<close> before \<^verbatim>\<open>Next\<close>, or past the packed bytes.\<close>

definition BooleanDecoder_Read :: "'v variant_ops \<Rightarrow> BooleanDecoder \<Rightarrow> ('v \<times> BooleanDecoder) option" where
  "BooleanDecoder_Read V e =
     (if bd_rle e then Some (vt_NewBool V (bd_lastBool e), e)
      else if bd_i e = 0 \<or> (bd_i e - 1) div 8 \<ge> length (bd_b e) then None
      else
        (let index = bd_i e - 1;
             msk = push_bit (7 - index mod 8) 1 :: byte;
             v = bd_b e ! (index div 8)
         in Some (vt_NewBool V (v AND msk = msk), e)))"

section \<open>The encoder's state stands for the booleans written\<close>

definition bool_repr :: "BooleanEncoder \<Rightarrow> bool list \<Rightarrow> bool" where
  "bool_repr e bs \<longleftrightarrow> be_number e = length bs \<and>
     (if bs = [] \<or> be_rle e
      then be_bytes e = [] \<and> be_b e = 0 \<and> be_i e = 0 \<and> (bs \<noteq> [] \<longrightarrow> bs = replicate (length bs) (be_lastBool e))
      else be_i e < 8 \<and> bytes_bits (be_bytes e) @ word_bits (be_i e) (be_b e) = bs)"

lemma bytes_bits_replicate: "word_bits 8 c = replicate 8 x \<Longrightarrow> bytes_bits (replicate k c) = replicate (8 * k) x"
  by (induction k) (simp_all add: replicate_add)

lemma word_bits_255: "word_bits 8 (255 :: byte) = replicate 8 True"
  by code_simp

lemma word_bits_low_ones: "i < 8 \<Longrightarrow> word_bits i (push_bit i 1 - 1 :: byte) = replicate i True"
  by (rule nth_equalityI) (auto simp: nth_word_bits push_bit_of_1 mask_eq_exp_minus_1 [symmetric] bit_mask_iff)

lemma word_bits_shift_in:
  "i < LENGTH('a) \<Longrightarrow> word_bits (Suc i) (push_bit 1 w OR of_bool b :: 'a::len word) = word_bits i w @ [b]"
  by (rule nth_equalityI)
    (auto simp: nth_word_bits bit_shl1_or nth_append less_Suc_eq add.commute simp del: word_bits.simps One_nat_def)

lemma bool_start_run_repr:
  "bool_repr e bs \<Longrightarrow> bool_repr (bool_start_run b e) bs \<and>
     (bs = [] \<longrightarrow> be_rle (bool_start_run b e) \<and> be_lastBool (bool_start_run b e) = b)"
  by (auto simp: bool_repr_def bool_start_run_def)

lemma bool_break_run_repr:
  assumes "bool_repr e bs" "bs = [] \<longrightarrow> be_rle e \<and> be_lastBool e = b"
  shows "bool_repr (bool_break_run b e) bs \<and> (be_rle (bool_break_run b e) \<longrightarrow> be_lastBool (bool_break_run b e) = b)"
proof (cases "be_lastBool e \<noteq> b \<and> be_rle e")
  case True
  let ?x = "be_lastBool e" and ?n = "length bs"
  have run: "bs = replicate ?n ?x" "be_bytes e = []" "be_b e = 0" "be_number e = ?n" "bs \<noteq> []"
    using assms True by (auto simp: bool_repr_def)
  have "bytes_bits (replicate (?n div 8) (if ?x then 255 else 0 :: byte)) = replicate (8 * (?n div 8)) ?x"
    by (rule bytes_bits_replicate) (use word_bits_255 in \<open>auto split: if_splits\<close>)
  moreover have "word_bits (?n mod 8) (if ?n mod 8 \<noteq> 0 \<and> ?x then push_bit (?n mod 8) 1 - 1 else 0 :: byte)
                   = replicate (?n mod 8) ?x"
    using word_bits_low_ones [of "?n mod 8"] by auto
  moreover have "replicate (8 * (?n div 8)) ?x @ replicate (?n mod 8) ?x = bs"
    using run(1) by (metis mult_div_mod_eq replicate_add)
  ultimately show ?thesis using True run
    by (simp add: bool_repr_def bool_break_run_def Let_def cong: if_cong)
qed (use assms in \<open>auto simp: bool_break_run_def\<close>)

lemma bool_pack_repr:
  assumes "bool_repr e bs" "be_rle e \<longrightarrow> be_lastBool e = b" "bs = [] \<longrightarrow> be_rle e"
  shows "bool_repr (bool_pack b e\<lparr>be_number := Suc (be_number e)\<rparr>) (bs @ [b])"
proof (cases "be_rle e")
  case True
  then have "bs = replicate (length bs) b" using assms by (auto simp: bool_repr_def)
  then have "bs @ [b] = replicate (Suc (length bs)) b" by (metis replicate_append_same replicate_Suc)
  then show ?thesis using assms True by (auto simp: bool_repr_def bool_pack_def)
next
  case False
  define w where "w = push_bit 1 (be_b e) OR of_bool b"
  have w: "(if b then push_bit 1 (be_b e) OR 1 else push_bit 1 (be_b e)) = w" by (simp add: w_def)
  have i: "be_i e < 8" and bits: "bytes_bits (be_bytes e) @ word_bits (be_i e) (be_b e) = bs"
    using assms False by (auto simp: bool_repr_def)
  have "word_bits (Suc (be_i e)) w = word_bits (be_i e) (be_b e) @ [b]"
    using word_bits_shift_in [of "be_i e" "be_b e" b] i by (simp add: w_def)
  then show ?thesis
    using False assms(1) i bits unfolding bool_repr_def bool_pack_def Let_def w
    by (cases "be_i e = 7") (auto simp del: word_bits.simps simp: eval_nat_numeral)
qed

lemma be_number_stages [simp]:
  "be_number (bool_pack b e) = be_number e" "be_number (bool_break_run b e) = be_number e"
  "be_number (bool_start_run b e) = be_number e"
  by (auto simp: bool_pack_def bool_break_run_def bool_start_run_def Let_def)

lemma BooleanEncoder_Write_repr:
  assumes "bool_repr e bs" "vt_AsBool V v = Some b"
  shows "bool_repr (snd (BooleanEncoder_Write V v e)) (bs @ [b])"
proof -
  let ?e1 = "bool_start_run b e"
  let ?e2 = "bool_break_run b ?e1"
  have 1: "bool_repr ?e1 bs" "bs = [] \<longrightarrow> be_rle ?e1 \<and> be_lastBool ?e1 = b"
    using bool_start_run_repr [OF assms(1)] by auto
  have 2: "bool_repr ?e2 bs" "be_rle ?e2 \<longrightarrow> be_lastBool ?e2 = b"
    using bool_break_run_repr [OF 1] by auto
  have "bs = [] \<longrightarrow> be_rle ?e2" using 1 by (auto simp: bool_break_run_def)
  then show ?thesis using bool_pack_repr [OF 2] assms(2)
    by (simp add: BooleanEncoder_Write_def Let_def)
qed

lemma BooleanEncoder_Write_error:
  "bool_repr e bs \<Longrightarrow> vt_AsBool V v = None \<Longrightarrow> bool_repr (snd (BooleanEncoder_Write V v e)) bs"
  by (simp add: BooleanEncoder_Write_def bool_repr_def)

lemma BooleanEncoder_fold_repr:
  "bool_repr e bs \<Longrightarrow>
     bool_repr (fold (\<lambda>v. snd \<circ> BooleanEncoder_Write V v) vs e) (bs @ List.map_filter (vt_AsBool V) vs)"
proof (induction vs arbitrary: e bs)
  case (Cons v vs)
  show ?case
  proof (cases "vt_AsBool V v")
    case None
    then show ?thesis
      using Cons.IH [OF BooleanEncoder_Write_error [OF Cons.prems None]] by (simp add: map_filter_simps)
  next
    case (Some b)
    then show ?thesis
      using Cons.IH [OF BooleanEncoder_Write_repr [OF Cons.prems Some]] by (simp add: map_filter_simps)
  qed
qed (simp add: map_filter_simps)

lemma bool_repr_New: "bool_repr NewBooleanEncoder []"
  by (simp add: bool_repr_def NewBooleanEncoder_def)

lemma bool_repr_Reset: "bool_repr (BooleanEncoder_Reset e) []"
  by (simp add: bool_repr_def BooleanEncoder_Reset_def)

section \<open>Decoding\<close>

definition bool_stream :: "'v variant_ops \<Rightarrow> BooleanDecoder \<Rightarrow> 'v list \<Rightarrow> bool" where
  "bool_stream V d vs \<longleftrightarrow> \<not> bd_err d \<and>
     (\<exists>bs. vs = map (vt_NewBool V) (drop (bd_i d) bs) \<and> bd_number d = int (length bs) \<and> bd_i d \<le> length bs \<and>
        (if bd_rle d then bs = replicate (length bs) (bd_lastBool d)
         else \<exists>rest. bytes_bits (bd_b d) = bs @ rest))"

lemma bytes_bits_nth: "k < 8 * length bs \<Longrightarrow> bytes_bits bs ! k = bit (bs ! (k div 8)) (7 - k mod 8)"
proof (induction bs arbitrary: k)
  case (Cons b bs)
  show ?case
  proof (cases "k < 8")
    case False
    then have "k div 8 = Suc ((k - 8) div 8)" "k mod 8 = (k - 8) mod 8"
      by (simp_all add: le_div_geq le_mod_geq)
    then show ?thesis using Cons.IH [of "k - 8"] Cons.prems False by (simp add: nth_append)
  qed (simp add: nth_append nth_word_bits)
qed simp

lemma and_exp_eq_iff: "k < 8 \<Longrightarrow> (v AND push_bit k 1 = push_bit k 1) \<longleftrightarrow> bit (v :: byte) k"
proof
  assume k: "k < 8" and eq: "v AND push_bit k 1 = push_bit k 1"
  then have "bit (v AND push_bit k 1) k" by (simp only: eq) (simp add: push_bit_of_1 bit_exp_iff)
  then show "bit v k" by (simp add: bit_and_iff)
next
  assume "bit v k"
  then show "v AND push_bit k 1 = push_bit k 1"
    by (intro bit_word_eqI) (auto simp: push_bit_of_1 bit_simps)
qed

lemma bool_stream_Cons:
  assumes "bool_stream V d (v # vs)"
  shows "\<exists>d' d''. BooleanDecoder_Next d = (True, d') \<and> BooleanDecoder_Read V d' = Some (v, d'') \<and> bool_stream V d'' vs"
proof -
  obtain bs where bs: "v # vs = map (vt_NewBool V) (drop (bd_i d) bs)" "bd_number d = int (length bs)" "\<not> bd_err d"
      "if bd_rle d then bs = replicate (length bs) (bd_lastBool d) else \<exists>rest. bytes_bits (bd_b d) = bs @ rest"
    using assms unfolding bool_stream_def by (elim conjE exE) (rule that)
  let ?i = "bd_i d"
  let ?d' = "d\<lparr>bd_i := Suc ?i\<rparr>"
  have i: "?i < length bs" using bs(1) by (metis drop_all list.distinct(1) list.map_disc_iff not_less)
  then have v: "v = vt_NewBool V (bs ! ?i)" "vs = map (vt_NewBool V) (drop (Suc ?i) bs)"
    using bs(1) by (metis Cons_nth_drop_Suc list.inject list.simps(9))+
  have nxt: "BooleanDecoder_Next d = (True, ?d')" using bs i by (simp add: BooleanDecoder_Next_def)
  have "BooleanDecoder_Read V ?d' = Some (v, ?d')"
  proof (cases "bd_rle d")
    case True
    then have "bs ! ?i = bd_lastBool d" using bs(4) i by (metis nth_replicate)
    then show ?thesis using True v by (simp add: BooleanDecoder_Read_def)
  next
    case False
    then obtain rest where rest: "bytes_bits (bd_b d) = bs @ rest" using bs(4) by auto
    have len: "?i < 8 * length (bd_b d)"
      using i arg_cong [OF rest, of length] by simp
    then have "bs ! ?i = bit (bd_b d ! (?i div 8)) (7 - ?i mod 8)"
      using bytes_bits_nth [OF len] rest i by (simp add: nth_append)
    then show ?thesis using False v len and_exp_eq_iff [of "7 - ?i mod 8" "bd_b d ! (?i div 8)"]
      by (simp add: BooleanDecoder_Read_def Let_def)
  qed
  moreover have "bool_stream V ?d' vs" using bs v i by (auto simp: bool_stream_def)
  ultimately show ?thesis using nxt by blast
qed

lemma bool_stream_Nil: "bool_stream V d [] \<Longrightarrow> \<not> fst (BooleanDecoder_Next d)"
  by (auto simp: bool_stream_def BooleanDecoder_Next_def)

lemma word_bits_left_align:
  assumes "i \<le> 8"
  shows "\<exists>rest. word_bits 8 (push_bit (8 - i) b :: byte) = word_bits i b @ rest"
proof -
  have "word_bits (i + (8 - i)) (push_bit (8 - i) b)
          = word_bits i (drop_bit (8 - i) (push_bit (8 - i) b)) @ word_bits (8 - i) (push_bit (8 - i) b)"
    by (rule word_bits_add)
  moreover have "word_bits i (drop_bit (8 - i) (push_bit (8 - i) b)) = word_bits i b"
    by (rule word_bits_cong) (use assms in \<open>auto simp: bit_simps\<close>)
  ultimately show ?thesis using assms by auto
qed

lemma bool_payload_bits:
  assumes "bool_repr e bs" "\<not> be_rle e"
  shows "\<exists>rest. bytes_bits (be_bytes e @ (if be_i e > 0 then [push_bit (8 - be_i e) (be_b e)] else [])) = bs @ rest"
proof (cases "bs = []")
  case False
  then have "be_i e < 8" "bytes_bits (be_bytes e) @ word_bits (be_i e) (be_b e) = bs"
    using assms by (auto simp: bool_repr_def)
  then show ?thesis using word_bits_left_align [of "be_i e" "be_b e"] by auto
qed simp

lemma BooleanDecoder_SetBytes_stream:
  assumes "bool_repr e bs" "length bs < 2 ^ 63"
  shows "\<exists>out d. BooleanEncoder_Bytes e = Some out \<and>
           BooleanDecoder_SetBytes out NewBooleanDecoder = Some d \<and> bool_stream V d (map (vt_NewBool V) bs)"
proof -
  have n: "be_number e = length bs" using assms by (simp add: bool_repr_def)
  have run: "be_rle e \<Longrightarrow> bs = replicate (length bs) (be_lastBool e)"
    using assms by (cases "bs = []") (auto simp: bool_repr_def)
  note bits = bool_payload_bits [OF assms(1)]
  note evals = BooleanDecoder_SetBytes_def NewBooleanDecoder_def bool_stream_def marker_defs
    BooleanEncoder_Bytes_def Let_def sint_of_nat_u64 be_get_put_full
  show ?thesis
  proof (cases "be_rle e")
    case True
    then show ?thesis using assms n run by (cases "be_lastBool e") (auto simp: evals)
  next
    case False
    then show ?thesis using assms n bits by (auto simp: evals)
  qed
qed

interpretation bool_codec: value_codec BooleanDecoder_Next "BooleanDecoder_Read V" "bool_stream V"
  NewBooleanEncoder "\<lambda>v. snd \<circ> BooleanEncoder_Write V v" BooleanEncoder_Bytes
  "\<lambda>bs. BooleanDecoder_SetBytes bs NewBooleanDecoder"
  "\<lambda>v. vt_NewBool V (the (vt_AsBool V v))"
  "\<lambda>vs. length vs < 2 ^ 63 \<and> list_all (\<lambda>v. vt_AsBool V v \<noteq> None) vs"
  for V :: "'v variant_ops"
proof
  fix d v and vs vs' :: "'v list"
  show "bool_stream V d [] \<Longrightarrow> \<not> fst (BooleanDecoder_Next d)" by (rule bool_stream_Nil)
  show "bool_stream V d (v # vs) \<Longrightarrow>
      \<exists>d' d''. BooleanDecoder_Next d = (True, d') \<and> BooleanDecoder_Read V d' = Some (v, d'') \<and> bool_stream V d'' vs"
    by (rule bool_stream_Cons)
  assume ok: "length vs < 2 ^ 63 \<and> list_all (\<lambda>v. vt_AsBool V v \<noteq> None) vs"
  then have mf: "List.map_filter (vt_AsBool V) vs = map (\<lambda>v. the (vt_AsBool V v)) vs"
    by (induction vs) (auto simp: map_filter_simps)
  have "bool_repr (fold (\<lambda>v. snd \<circ> BooleanEncoder_Write V v) vs NewBooleanEncoder) (map (\<lambda>v. the (vt_AsBool V v)) vs)"
    using BooleanEncoder_fold_repr [OF bool_repr_New, of V vs] mf by simp
  then show "\<exists>bs d. BooleanEncoder_Bytes (fold (\<lambda>v. snd \<circ> BooleanEncoder_Write V v) vs NewBooleanEncoder) = Some bs \<and>
      BooleanDecoder_SetBytes bs NewBooleanDecoder = Some d \<and>
      bool_stream V d (map (\<lambda>v. vt_NewBool V (the (vt_AsBool V v))) vs)"
    using BooleanDecoder_SetBytes_stream [of _ "map (\<lambda>v. the (vt_AsBool V v)) vs" V] ok by (simp add: comp_def)
qed

text \<open>\<^bold>\<open>C38\<close>: for any sequence of values written, the decoder delivers exactly the booleans of the
  convertible ones, in order, whichever of the three layouts the encoder chose; values that do not
  convert to a boolean are left out without an error.\<close>

theorem BooleanEncoder_roundtrip:
  assumes "length vs < 2 ^ 63"
  shows "\<exists>bs d. BooleanEncoder_Bytes (fold (\<lambda>v. snd \<circ> BooleanEncoder_Write V v) vs NewBooleanEncoder) = Some bs \<and>
           BooleanDecoder_SetBytes bs NewBooleanDecoder = Some d \<and>
           drain BooleanDecoder_Next (BooleanDecoder_Read V) (Suc (length vs)) d
             = Some (map (vt_NewBool V) (List.map_filter (vt_AsBool V) vs))"
proof -
  let ?bs = "List.map_filter (vt_AsBool V) vs"
  have len: "length ?bs \<le> length vs" by (simp add: List.map_filter_def)
  have "bool_repr (fold (\<lambda>v. snd \<circ> BooleanEncoder_Write V v) vs NewBooleanEncoder) ?bs"
    using BooleanEncoder_fold_repr [OF bool_repr_New, of V vs] by simp
  then obtain out d where "BooleanEncoder_Bytes (fold (\<lambda>v. snd \<circ> BooleanEncoder_Write V v) vs NewBooleanEncoder) = Some out"
      "BooleanDecoder_SetBytes out NewBooleanDecoder = Some d" "bool_stream V d (map (vt_NewBool V) ?bs)"
    using BooleanDecoder_SetBytes_stream len assms by (meson le_less_trans)
  then show ?thesis using bool_codec.drain_stream [of V d "map (vt_NewBool V) ?bs"] len by auto
qed

theorem BooleanEncoder_roundtrip_witness:
  "\<exists>bs d. BooleanEncoder_Bytes (fold (\<lambda>v. snd \<circ> BooleanEncoder_Write sample_variant v)
              [SBool True, SString [], SBool True, SBool False] NewBooleanEncoder) = Some bs \<and>
     BooleanDecoder_SetBytes bs NewBooleanDecoder = Some d \<and>
     drain BooleanDecoder_Next (BooleanDecoder_Read sample_variant) (Suc (Suc (Suc (Suc (Suc 0))))) d = Some [SBool True, SBool True, SBool False]"
  using BooleanEncoder_roundtrip [of "[SBool True, SString [], SBool True, SBool False]" sample_variant]
  by (simp add: map_filter_simps)

end
