(* ===== verification/Int_Codec.thy ===== *)
theory Int_Codec
  imports Codec
begin

text \<open>
  The integer codec of \<^verbatim>\<open>tsdb/segment_compression_int.go\<close>: delta, zig-zag, then run-length,
  simple8b or raw layout.  The external simple8b package is a record of parameters.
\<close>

section \<open>The external \<^verbatim>\<open>simple8b\<close> package\<close>

text \<open>\<open>s8_EncodeAll\<close> packs a slice into words and \<open>s8_Decode\<close> unpacks one word; \<open>s8_EncodeBytes\<close> stands for
  the streaming \<^verbatim>\<open>Encoder\<close> (\<^verbatim>\<open>Write\<close> for every value, then \<^verbatim>\<open>Bytes\<close>) and \<open>s8_DecodeBytes\<close> for the streaming
  \<^verbatim>\<open>Decoder\<close> (\<^verbatim>\<open>SetBytes\<close>, then all values of its \<^verbatim>\<open>Next\<close>/\<^verbatim>\<open>Read\<close> loop); \<open>None\<close> is the returned error.\<close>

record simple8b_ops =
  s8_MaxValue :: u64
  s8_EncodeAll :: "u64 list \<Rightarrow> u64 list option"
  s8_Decode :: "u64 \<Rightarrow> u64 list option"
  s8_EncodeBytes :: "u64 list \<Rightarrow> bytes option"
  s8_DecodeBytes :: "bytes \<Rightarrow> u64 list"

definition s8_unpacks :: "simple8b_ops \<Rightarrow> u64 list \<Rightarrow> u64 list \<Rightarrow> bool" where
  "s8_unpacks S ws xs \<longleftrightarrow>
     (\<exists>vss. map (s8_Decode S) ws = map Some vss \<and> concat vss = xs \<and>
        list_all (\<lambda>vs. vs \<noteq> [] \<and> length vs \<le> 240) vss)"

text \<open>The documented behaviour: values up to \<^verbatim>\<open>MaxValue\<close> pack without error, every packed word holds
  between 1 and 240 values, and unpacking restores the values in order.\<close>

definition simple8b_law :: "simple8b_ops \<Rightarrow> bool" where
  "simple8b_law S \<longleftrightarrow>
     (\<forall>xs. (\<forall>x \<in> set xs. x \<le> s8_MaxValue S) \<longrightarrow>
        (\<exists>ws. s8_EncodeAll S xs = Some ws \<and> s8_unpacks S ws xs) \<and>
        (\<exists>bs. s8_EncodeBytes S xs = Some bs \<and> s8_DecodeBytes S bs = xs))"

text \<open>Words in big-endian order, and a small instance of the parameters that packs one value per word.\<close>

fun be_words :: "bytes \<Rightarrow> u64 list" where
  "be_words (a # b # c # d # e # f # g # h # rest) = be_get [a, b, c, d, e, f, g, h] # be_words rest"
| "be_words _ = []"

definition words_bytes :: "u64 list \<Rightarrow> bytes" where
  "words_bytes ws = concat (map (be_put 8) ws)"

lemma words_bytes_simps [simp]: "words_bytes [] = []" "words_bytes (w # ws) = be_put 8 w @ words_bytes ws"
  by (simp_all add: words_bytes_def)

lemma length_words_bytes [simp]: "length (words_bytes ws) = 8 * length ws"
  by (induction ws) auto

lemma words_bytes_eq_Nil [simp]: "words_bytes ws = [] \<longleftrightarrow> ws = []" "[] = words_bytes ws \<longleftrightarrow> ws = []"
  by (cases ws; simp)+

lemma be_words_words_bytes: "be_words (words_bytes ws) = ws"
proof (induction ws)
  case (Cons w ws)
  have "be_get (be_put 8 w) = w" by (simp add: be_get_put_full)
  then show ?case using Cons by (simp add: eval_nat_numeral)
qed simp

definition s8_sample :: simple8b_ops where
  "s8_sample = \<lparr>s8_MaxValue = 2 ^ 60 - 1, s8_EncodeAll = Some, s8_Decode = (\<lambda>w. Some [w]),
                s8_EncodeBytes = (\<lambda>xs. Some (words_bytes xs)), s8_DecodeBytes = be_words\<rparr>"

lemma s8_sample_law: "simple8b_law s8_sample"
proof -
  have "s8_unpacks s8_sample xs xs" for xs
    unfolding s8_unpacks_def s8_sample_def
    by (rule exI [of _ "map (\<lambda>x. [x]) xs"]) (auto simp: list_all_iff concat_map_singleton)
  then show ?thesis
    by (auto simp: simple8b_law_def be_words_words_bytes) (simp_all add: s8_sample_def be_words_words_bytes)
qed

section \<open>The encoder\<close>

record IntegerEncoder =
  ie_prev :: u64
  ie_rle :: bool
  ie_values :: "u64 list"
  ie_err :: bool

definition NewIntegerEncoder :: IntegerEncoder where
  "NewIntegerEncoder = \<lparr>ie_prev = 0, ie_rle = True, ie_values = [], ie_err = False\<rparr>"

definition IntegerEncoder_Reset :: "IntegerEncoder \<Rightarrow> IntegerEncoder" where
  "IntegerEncoder_Reset e = e\<lparr>ie_prev := 0, ie_rle := True, ie_values := [], ie_err := False\<rparr>"

definition IntegerEncoder_Write :: "'v variant_ops \<Rightarrow> 'v \<Rightarrow> IntegerEncoder \<Rightarrow> bool \<times> IntegerEncoder" where
  "IntegerEncoder_Write V value e =
     (case vt_AsInt64 V value of
        None \<Rightarrow> (True, e\<lparr>ie_err := True\<rparr>)
      | Some v \<Rightarrow>
          (let delta = v - ie_prev e;
               enc = ZigZagEncode delta;
               rle = (if length (ie_values e) > 1
                      then ie_rle e \<and> ie_values e ! (length (ie_values e) - 1) = enc else ie_rle e)
           in (True, e\<lparr>ie_prev := v, ie_rle := rle, ie_values := ie_values e @ [enc]\<rparr>)))"

definition int_encodeRLE :: "IntegerEncoder \<Rightarrow> bytes" where
  "int_encodeRLE e =
     intCompressedRLE # be_put 8 (ie_values e ! 0) @ put_uvarint (ie_values e ! 1)
       @ put_uvarint (of_nat (length (ie_values e) - 1))"

text \<open>\<^verbatim>\<open>EncodeAll\<close> may use the slice it is given as its buffer: what \<^verbatim>\<open>e.values\<close> holds after the call is not modelled.  The
  encoder is reset before it is written again.\<close>

definition int_encodePacked :: "simple8b_ops \<Rightarrow> IntegerEncoder \<Rightarrow> bytes option" where
  "int_encodePacked S e =
     (case ie_values e of
        [] \<Rightarrow> Some []
      | v # vs \<Rightarrow>
          (case s8_EncodeAll S vs of
             None \<Rightarrow> None
           | Some encoded \<Rightarrow> Some (intCompressedSimple # be_put 8 v @ words_bytes encoded)))"

definition int_encodeUncompressed :: "IntegerEncoder \<Rightarrow> bytes" where
  "int_encodeUncompressed e =
     (if ie_values e = [] then [] else intUncompressed # words_bytes (ie_values e))"

definition IntegerEncoder_Bytes :: "simple8b_ops \<Rightarrow> IntegerEncoder \<Rightarrow> bytes option" where
  "IntegerEncoder_Bytes S e =
     (if ie_err e then None
      else if ie_rle e \<and> length (ie_values e) > 2 then Some (int_encodeRLE e)
      else if list_ex (\<lambda>v. v > s8_MaxValue S) (ie_values e) then Some (int_encodeUncompressed e)
      else int_encodePacked S e)"

section \<open>The decoder\<close>

record IntegerDecoder =
  id_values :: "u64 list"
  id_bytes :: bytes
  id_i :: nat
  id_n :: int
  id_prev :: u64
  id_first :: bool
  id_rleFirst :: u64
  id_rleDelta :: u64
  id_encoding :: byte
  id_err :: bool

text \<open>The zero value: \<^verbatim>\<open>values\<close> is an array of 240 words.\<close>

definition NewIntegerDecoder :: IntegerDecoder where
  "NewIntegerDecoder = \<lparr>id_values = replicate 240 0, id_bytes = [], id_i = 0, id_n = 0, id_prev = 0,
     id_first = False, id_rleFirst = 0, id_rleDelta = 0, id_encoding = 0, id_err = False\<rparr>"

definition IntegerDecoder_SetBytes :: "bytes \<Rightarrow> IntegerDecoder \<Rightarrow> IntegerDecoder" where
  "IntegerDecoder_SetBytes b d =
     (let d1 = (case b of m # rest \<Rightarrow> d\<lparr>id_encoding := m, id_bytes := rest\<rparr>
                | [] \<Rightarrow> d\<lparr>id_encoding := 0, id_bytes := []\<rparr>)
      in d1\<lparr>id_i := 0, id_n := 0, id_prev := 0, id_first := True, id_rleFirst := 0, id_rleDelta := 0,
            id_err := False\<rparr>)"

definition int_decodeRLE :: "IntegerDecoder \<Rightarrow> IntegerDecoder" where
  "int_decodeRLE d =
     (if id_bytes d = [] then d
      else if length (id_bytes d) < 8 then d\<lparr>id_err := True\<rparr>
      else
        (let first = be_get (take 8 (id_bytes d));
             (value, n) = uvarint (drop 8 (id_bytes d)) in
         if n \<le> 0 then d\<lparr>id_err := True\<rparr>
         else
           (let (count, n') = uvarint (drop (8 + nat n) (id_bytes d)) in
            if n' \<le> 0 then d\<lparr>id_err := True\<rparr>
            else d\<lparr>id_rleFirst := first, id_rleDelta := value, id_n := sint (count + 1), id_i := 0,
                   id_bytes := []\<rparr>)))"

text \<open>\<^verbatim>\<open>simple8b.Decode\<close> overwrites the first entries of \<^verbatim>\<open>values\<close>.\<close>

definition int_decodePacked :: "simple8b_ops \<Rightarrow> IntegerDecoder \<Rightarrow> IntegerDecoder" where
  "int_decodePacked S d =
     (if id_bytes d = [] then d
      else if length (id_bytes d) < 8 then d\<lparr>id_err := True\<rparr>
      else
        (let v = be_get (take 8 (id_bytes d));
             d1 = (if id_first d then d\<lparr>id_first := False, id_n := 1, id_values := (id_values d)[0 := v]\<rparr>
                   else
                     (case s8_Decode S v of
                        None \<Rightarrow> d\<lparr>id_err := True, id_n := 0\<rparr>
                      | Some vs \<Rightarrow> d\<lparr>id_values := vs @ drop (length vs) (id_values d),
                                    id_n := int (length vs)\<rparr>))
         in d1\<lparr>id_i := 0, id_bytes := drop 8 (id_bytes d)\<rparr>))"

definition int_decodeUncompressed :: "IntegerDecoder \<Rightarrow> IntegerDecoder" where
  "int_decodeUncompressed d =
     (if id_bytes d = [] then d
      else if length (id_bytes d) < 8 then d\<lparr>id_err := True\<rparr>
      else d\<lparr>id_values := (id_values d)[0 := be_get (take 8 (id_bytes d))], id_i := 0, id_n := 1,
             id_bytes := drop 8 (id_bytes d)\<rparr>)"

definition IntegerDecoder_Next :: "simple8b_ops \<Rightarrow> IntegerDecoder \<Rightarrow> bool \<times> IntegerDecoder" where
  "IntegerDecoder_Next S d =
     (if int (id_i d) \<ge> id_n d \<and> id_bytes d = [] then (False, d)
      else
        (let d1 = d\<lparr>id_i := id_i d + 1\<rparr>;
             d2 = (if int (id_i d1) \<ge> id_n d1 then
                     (if id_encoding d1 = intUncompressed then int_decodeUncompressed d1
                      else if id_encoding d1 = intCompressedSimple then int_decodePacked S d1
                      else if id_encoding d1 = intCompressedRLE then int_decodeRLE d1
                      else d1\<lparr>id_err := True\<rparr>)
                   else d1)
         in (\<not> id_err d2 \<and> int (id_i d2) < id_n d2, d2)))"

definition IntegerDecoder_Read :: "'v variant_ops \<Rightarrow> IntegerDecoder \<Rightarrow> ('v \<times> IntegerDecoder) option" where
  "IntegerDecoder_Read V d =
     (if id_encoding d = intCompressedRLE then
        Some (vt_NewInt64 V (ZigZagDecode (id_rleFirst d) + of_nat (id_i d) * ZigZagDecode (id_rleDelta d)), d)
      else if id_i d \<ge> length (id_values d) then None
      else
        (let v = ZigZagDecode (id_values d ! id_i d) + id_prev d
         in Some (vt_NewInt64 V v, d\<lparr>id_prev := v\<rparr>)))"

section \<open>Deltas\<close>

fun deltas :: "'a::len word \<Rightarrow> 'a word list \<Rightarrow> 'a word list" where
  "deltas p [] = []"
| "deltas p (x # xs) = (x - p) # deltas x xs"

fun undeltas :: "'a::len word \<Rightarrow> 'a word list \<Rightarrow> 'a word list" where
  "undeltas p [] = []"
| "undeltas p (d # ds) = (d + p) # undeltas (d + p) ds"

lemma undeltas_deltas [codec_simps]: "undeltas p (deltas p xs) = xs"
  by (induction p xs rule: deltas.induct) auto

lemma length_deltas [simp]: "length (deltas p xs) = length xs"
  by (induction p xs rule: deltas.induct) auto

lemma deltas_snoc: "deltas p (xs @ [x]) = deltas p xs @ [x - last (p # xs)]"
  by (induction p xs rule: deltas.induct) auto

lemma undeltas_replicate:
  "undeltas p (replicate n d) = map (\<lambda>k. p + of_nat (Suc k) * d) [0..<n]"
proof (induction n arbitrary: p)
  case (Suc n)
  have "[0..<Suc n] = 0 # map Suc [0..<n]" by (simp add: upt_conv_Cons map_Suc_upt)
  then show ?case using Suc by (simp add: algebra_simps comp_def)
qed simp

section \<open>The encoder's state stands for the integers written\<close>

definition int_repr :: "IntegerEncoder \<Rightarrow> u64 list \<Rightarrow> bool" where
  "int_repr e xs \<longleftrightarrow> \<not> ie_err e \<and> ie_values e = map ZigZagEncode (deltas 0 xs) \<and> ie_prev e = last (0 # xs) \<and>
     (ie_rle e \<longleftrightarrow> (\<forall>v \<in> set (tl (ie_values e)). v = hd (tl (ie_values e))))"

lemma int_repr_New: "int_repr NewIntegerEncoder []"
  by (simp add: int_repr_def NewIntegerEncoder_def)

lemma all_same_snoc:
  assumes "length vs > 1"
  shows "(\<forall>v \<in> set (tl (vs @ [x])). v = hd (tl (vs @ [x]))) \<longleftrightarrow>
         (\<forall>v \<in> set (tl vs). v = hd (tl vs)) \<and> vs ! (length vs - 1) = x"
proof -
  obtain a b us where vs: "vs = a # b # us" using assms by (cases vs; cases "tl vs") auto
  have "vs ! (length vs - 1) = last (b # us)" using vs by (simp add: last_conv_nth)
  moreover have "last (b # us) \<in> set (b # us)" by (rule last_in_set) simp
  ultimately show ?thesis using vs by (auto split: if_splits)
qed

lemma IntegerEncoder_Write_repr:
  assumes r: "int_repr e xs" and v: "vt_AsInt64 V v = Some x"
  shows "int_repr (snd (IntegerEncoder_Write V v e)) (xs @ [x])"
proof -
  have vals: "ie_values e = map ZigZagEncode (deltas 0 xs)" and prev: "ie_prev e = last (0 # xs)"
    using r by (auto simp: int_repr_def)
  show ?thesis
  proof (cases "length (ie_values e) > 1")
    case True
    then show ?thesis
      using r v all_same_snoc [OF True, of "ZigZagEncode (x - ie_prev e)"]
      by (simp add: IntegerEncoder_Write_def int_repr_def Let_def deltas_snoc)
  next
    case False
    then have "xs = [] \<or> (\<exists>y. xs = [y])" using vals by (cases xs; cases "tl xs") auto
    then show ?thesis using r v by (auto simp: IntegerEncoder_Write_def int_repr_def Let_def)
  qed
qed

lemma IntegerEncoder_fold_repr:
  "int_repr e xs \<Longrightarrow> list_all (\<lambda>v. vt_AsInt64 V v \<noteq> None) vs \<Longrightarrow>
     int_repr (fold (\<lambda>v. snd \<circ> IntegerEncoder_Write V v) vs e) (xs @ map (\<lambda>v. the (vt_AsInt64 V v)) vs)"
proof (induction vs arbitrary: e xs)
  case (Cons v vs)
  then obtain x where "vt_AsInt64 V v = Some x" by auto
  then show ?case
    using Cons.IH [OF IntegerEncoder_Write_repr [OF Cons.prems(1)], of V v] Cons.prems(2) by simp
qed simp

lemma IntegerEncoder_err_sticks:
  "ie_err e \<Longrightarrow> ie_err (fold (\<lambda>v. snd \<circ> IntegerEncoder_Write V v) vs e)"
  by (induction vs arbitrary: e) (auto simp: IntegerEncoder_Write_def Let_def split: option.splits)

lemma IntegerEncoder_err_iff:
  "ie_err (fold (\<lambda>v. snd \<circ> IntegerEncoder_Write V v) vs e) \<longleftrightarrow> ie_err e \<or> (\<exists>v \<in> set vs. vt_AsInt64 V v = None)"
proof (induction vs arbitrary: e)
  case (Cons v vs)
  then show ?case
    by (cases "vt_AsInt64 V v") (auto simp: IntegerEncoder_Write_def Let_def)
qed simp

section \<open>Decoding\<close>

text \<open>The words still to be delivered by a non-run-length decoder: what is left of the unpacked array and
  what the remaining bytes unpack to.\<close>

definition int_rest :: "simple8b_ops \<Rightarrow> IntegerDecoder \<Rightarrow> u64 list \<Rightarrow> bool" where
  "int_rest S d zs \<longleftrightarrow>
     (\<exists>ws. id_bytes d = words_bytes ws \<and>
        (if id_encoding d = intUncompressed then zs = ws
         else id_encoding d = intCompressedSimple \<and>
              (if id_first d then (if ws = [] then zs = [] else \<exists>us. zs = hd ws # us \<and> s8_unpacks S (tl ws) us)
               else s8_unpacks S ws zs)))"

definition int_pending :: "simple8b_ops \<Rightarrow> IntegerDecoder \<Rightarrow> u64 list \<Rightarrow> bool" where
  "int_pending S d ps \<longleftrightarrow> \<not> id_err d \<and> length (id_values d) = 240 \<and> 0 \<le> id_n d \<and> id_n d \<le> 240 \<and>
     (\<exists>zs. int_rest S d zs \<and> ps = drop (Suc (id_i d)) (take (nat (id_n d)) (id_values d)) @ zs)"

definition int_plain_stream :: "simple8b_ops \<Rightarrow> 'v variant_ops \<Rightarrow> IntegerDecoder \<Rightarrow> 'v list \<Rightarrow> bool" where
  "int_plain_stream S V d vs \<longleftrightarrow>
     (\<exists>ps. int_pending S d ps \<and> vs = map (vt_NewInt64 V) (undeltas (id_prev d) (map ZigZagDecode ps)))"

definition int_rle_stream :: "'v variant_ops \<Rightarrow> IntegerDecoder \<Rightarrow> 'v list \<Rightarrow> bool" where
  "int_rle_stream V d vs \<longleftrightarrow> \<not> id_err d \<and> id_encoding d = intCompressedRLE \<and>
     ((id_bytes d = [] \<and> int (id_i d) < id_n d \<and>
         vs = map (\<lambda>k. vt_NewInt64 V (ZigZagDecode (id_rleFirst d) + of_nat k * ZigZagDecode (id_rleDelta d)))
                [Suc (id_i d)..<nat (id_n d)]) \<or>
      (id_i d = 0 \<and> id_n d = 0 \<and>
       (\<exists>f v n. id_bytes d = be_put 8 f @ put_uvarint v @ put_uvarint (of_nat n) \<and> n < 2 ^ 62 \<and>
         vs = map (\<lambda>k. vt_NewInt64 V (ZigZagDecode f + of_nat k * ZigZagDecode v)) [0..<Suc n])))"

definition int_stream :: "simple8b_ops \<Rightarrow> 'v variant_ops \<Rightarrow> IntegerDecoder \<Rightarrow> 'v list \<Rightarrow> bool" where
  "int_stream S V d vs \<longleftrightarrow> int_plain_stream S V d vs \<or> int_rle_stream V d vs"

lemma s8_unpacks_Nil [simp]: "s8_unpacks S [] xs \<longleftrightarrow> xs = []"
  by (auto simp: s8_unpacks_def)

lemma s8_unpacks_Cons:
  "s8_unpacks S (w # ws) xs \<longleftrightarrow>
     (\<exists>vs ys. s8_Decode S w = Some vs \<and> vs \<noteq> [] \<and> length vs \<le> 240 \<and> xs = vs @ ys \<and> s8_unpacks S ws ys)"
proof
  assume "s8_unpacks S (w # ws) xs"
  then obtain vss where v: "map (s8_Decode S) (w # ws) = map Some vss" "concat vss = xs"
      "list_all (\<lambda>vs. vs \<noteq> [] \<and> length vs \<le> 240) vss"
    unfolding s8_unpacks_def by blast
  then obtain vs vss' where "vss = vs # vss'" by (cases vss) auto
  then show "\<exists>vs ys. s8_Decode S w = Some vs \<and> vs \<noteq> [] \<and> length vs \<le> 240 \<and> xs = vs @ ys \<and> s8_unpacks S ws ys"
    using v by (auto simp: s8_unpacks_def)
next
  assume "\<exists>vs ys. s8_Decode S w = Some vs \<and> vs \<noteq> [] \<and> length vs \<le> 240 \<and> xs = vs @ ys \<and> s8_unpacks S ws ys"
  then obtain vs ys vss where "s8_Decode S w = Some vs" "vs \<noteq> []" "length vs \<le> 240" "xs = vs @ ys"
      "map (s8_Decode S) ws = map Some vss" "concat vss = ys" "list_all (\<lambda>vs. vs \<noteq> [] \<and> length vs \<le> 240) vss"
    unfolding s8_unpacks_def by blast
  then show "s8_unpacks S (w # ws) xs"
    unfolding s8_unpacks_def by (intro exI [of _ "vs # vss"]) simp
qed

lemma int_rest_upd [simp]:
  "int_rest S (d\<lparr>id_i := i\<rparr>) zs = int_rest S d zs" "int_rest S (d\<lparr>id_prev := x\<rparr>) zs = int_rest S d zs"
  by (simp_all add: int_rest_def)

lemma int_rest_encoding: "int_rest S d zs \<Longrightarrow> id_encoding d = intUncompressed \<or> id_encoding d = intCompressedSimple"
  by (auto simp: int_rest_def split: if_splits)

lemma s8_unpacks_to_Nil [simp]: "s8_unpacks S ws [] \<longleftrightarrow> ws = []"
  by (cases ws) (auto simp: s8_unpacks_Cons)

lemma int_rest_Nil: "int_rest S d [] \<Longrightarrow> id_bytes d = []"
  by (auto simp: int_rest_def split: if_splits)

text \<open>Decoding the next word: the unpacked array then holds the next values to deliver.\<close>

lemma int_decodeUncompressed_step:
  assumes "int_rest S d (z # zs)" "id_encoding d = intUncompressed" "\<not> id_err d" "length (id_values d) = 240"
  shows "let d' = int_decodeUncompressed d in
           id_i d' = 0 \<and> 0 < id_n d' \<and> id_values d' ! 0 = z \<and> id_encoding d' = id_encoding d \<and>
           id_prev d' = id_prev d \<and> int_pending S d' zs"
proof -
  have "id_bytes d = words_bytes (z # zs)" using assms by (auto simp: int_rest_def)
  then show ?thesis using assms
    by (auto simp: int_decodeUncompressed_def int_pending_def int_rest_def be_get_put_full Let_def drop_take)
qed

lemma int_decodePacked_step:
  assumes r: "int_rest S d (z # zs)" and enc: "id_encoding d = intCompressedSimple" "\<not> id_err d" "length (id_values d) = 240"
  shows "let d' = int_decodePacked S d in
           id_i d' = 0 \<and> 0 < id_n d' \<and> id_values d' ! 0 = z \<and> id_encoding d' = id_encoding d \<and>
           id_prev d' = id_prev d \<and> int_pending S d' zs"
proof -
  have ne: "intCompressedSimple \<noteq> intUncompressed" by (simp add: marker_defs)
  obtain w ws where ws: "id_bytes d = words_bytes (w # ws)"
      "if id_first d then z = w \<and> s8_unpacks S ws zs else s8_unpacks S (w # ws) (z # zs)"
  proof -
    obtain ws' where w': "id_bytes d = words_bytes ws'"
        "if id_first d then (if ws' = [] then z # zs = [] else \<exists>us. z # zs = hd ws' # us \<and> s8_unpacks S (tl ws') us)
         else s8_unpacks S ws' (z # zs)"
      using r enc ne unfolding int_rest_def by (metis (no_types, lifting))
    then show ?thesis using that by (cases ws') (auto split: if_splits)
  qed
  show ?thesis
  proof (cases "id_first d")
    case True
    then show ?thesis using ws enc ne
      by (auto simp: int_decodePacked_def int_pending_def int_rest_def be_get_put_full Let_def drop_take)
  next
    case False
    then obtain vs ys where vs: "s8_Decode S w = Some vs" "vs \<noteq> []" "length vs \<le> 240" "z # zs = vs @ ys" "s8_unpacks S ws ys"
      using ws by (auto simp: s8_unpacks_Cons)
    then obtain vs' where "vs = z # vs'" "zs = vs' @ ys" by (cases vs) auto
    then show ?thesis using ws(1) enc ne vs False nat_int_add [of 1 "length vs'"]
      by (auto simp: int_decodePacked_def int_pending_def int_rest_def be_get_put_full Let_def)
  qed
qed

lemma int_pending_step:
  assumes p: "int_pending S d (z # ps)"
  shows "\<exists>d'. IntegerDecoder_Next S d = (True, d') \<and> id_i d' < 240 \<and> id_values d' ! id_i d' = z \<and>
           id_encoding d' \<noteq> intCompressedRLE \<and> id_prev d' = id_prev d \<and> int_pending S d' ps"
proof -
  let ?i = "id_i d" and ?n = "nat (id_n d)"
  obtain zs where ok: "\<not> id_err d" "length (id_values d) = 240" "0 \<le> id_n d" "id_n d \<le> 240"
      and zs: "int_rest S d zs" "z # ps = drop (Suc ?i) (take ?n (id_values d)) @ zs"
    using p unfolding int_pending_def by blast
  have enc: "id_encoding d \<noteq> intCompressedRLE" using int_rest_encoding [OF zs(1)] by (auto simp: marker_defs)
  let ?d1 = "d\<lparr>id_i := Suc ?i\<rparr>"
  show ?thesis
  proof (cases "Suc ?i < ?n")
    case True
    then have dr: "drop (Suc ?i) (take ?n (id_values d))
                 = id_values d ! Suc ?i # drop (Suc (Suc ?i)) (take ?n (id_values d))"
      using ok by (subst Cons_nth_drop_Suc [symmetric]) auto
    have "IntegerDecoder_Next S d = (True, ?d1)"
      using True ok by (auto simp: IntegerDecoder_Next_def Let_def)
    moreover have "int_pending S ?d1 ps"
      unfolding int_pending_def using ok zs dr by (intro conjI exI [of _ zs]) (simp_all add: int_rest_upd)
    ultimately show ?thesis using True ok enc zs(2) dr by (intro exI [of _ ?d1]) auto
  next
    case False
    then have zs': "zs = z # ps" using zs(2) by simp
    have r1: "int_rest S ?d1 (z # ps)" using zs(1) unfolding zs' by (simp only: int_rest_upd)
    have ne: "id_bytes d \<noteq> []"
    proof
      assume "id_bytes d = []"
      then show False using zs(1) zs' by (auto simp: int_rest_def words_bytes_def split: if_splits)
    qed
    have ge: "\<not> int (Suc ?i) < id_n d" using False ok by auto
    define d2 where "d2 = (if id_encoding d = intUncompressed then int_decodeUncompressed ?d1 else int_decodePacked S ?d1)"
    have d2: "id_i d2 = 0" "0 < id_n d2" "id_values d2 ! 0 = z" "id_encoding d2 = id_encoding d"
        "id_prev d2 = id_prev d" "int_pending S d2 ps"
      using int_rest_encoding [OF zs(1)] int_decodeUncompressed_step [OF r1] int_decodePacked_step [OF r1] ok
      by (auto simp: d2_def Let_def)
    have "\<not> id_err d2" using d2(6) by (simp add: int_pending_def)
    moreover have "IntegerDecoder_Next S d = (\<not> id_err d2 \<and> int (id_i d2) < id_n d2, d2)"
    proof (cases "id_encoding d = intUncompressed")
      case True
      then show ?thesis using ne ge by (simp add: IntegerDecoder_Next_def Let_def d2_def)
    next
      case False
      then have "id_encoding d = intCompressedSimple" using int_rest_encoding [OF zs(1)] by simp
      then show ?thesis using False ne ge by (simp add: IntegerDecoder_Next_def Let_def d2_def)
    qed
    ultimately have "IntegerDecoder_Next S d = (True, d2)" using d2 by simp
    then show ?thesis using d2 enc by (intro exI [of _ d2]) simp
  qed
qed

lemma int_plain_Cons:
  assumes "int_plain_stream S V d (v # vs)"
  shows "\<exists>d' d''. IntegerDecoder_Next S d = (True, d') \<and> IntegerDecoder_Read V d' = Some (v, d'') \<and>
           int_plain_stream S V d'' vs"
proof -
  obtain ps where ps: "int_pending S d ps" "v # vs = map (vt_NewInt64 V) (undeltas (id_prev d) (map ZigZagDecode ps))"
    using assms unfolding int_plain_stream_def by (elim exE conjE) (rule that)
  from ps(2) obtain z zs where z: "ps = z # zs" by (cases ps) simp_all
  obtain d' where d': "IntegerDecoder_Next S d = (True, d')" "id_i d' < 240" "id_values d' ! id_i d' = z"
      "id_encoding d' \<noteq> intCompressedRLE" "id_prev d' = id_prev d" "int_pending S d' zs"
    using int_pending_step ps(1) z by blast
  let ?x = "ZigZagDecode z + id_prev d"
  have "length (id_values d') = 240" using d'(6) by (simp add: int_pending_def)
  then have "IntegerDecoder_Read V d' = Some (v, d'\<lparr>id_prev := ?x\<rparr>)"
    using d' ps(2) z by (simp add: IntegerDecoder_Read_def Let_def)
  moreover have "int_plain_stream S V (d'\<lparr>id_prev := ?x\<rparr>) vs"
    unfolding int_plain_stream_def
    by (rule exI [of _ zs]) (use d'(6) ps(2) z in \<open>simp add: int_pending_def\<close>)
  ultimately show ?thesis using d'(1) by blast
qed

lemma int_plain_Nil: "int_plain_stream S V d [] \<Longrightarrow> \<not> fst (IntegerDecoder_Next S d)"
proof -
  assume "int_plain_stream S V d []"
  then obtain ps where p: "int_pending S d ps" "undeltas (id_prev d) (map ZigZagDecode ps) = []"
    unfolding int_plain_stream_def by auto
  then have "int_pending S d []" by (cases ps) auto
  then have ok: "int_rest S d []" "nat (id_n d) \<le> Suc (id_i d)" "0 \<le> id_n d" "length (id_values d) = 240" "id_n d \<le> 240"
    unfolding int_pending_def by auto
  have "id_bytes d = []" using int_rest_Nil [OF ok(1)] .
  then show ?thesis using ok
    by (auto simp: IntegerDecoder_Next_def Let_def int_decodeUncompressed_def int_decodePacked_def int_decodeRLE_def)
qed

lemma int_decodeRLE_step:
  assumes "id_bytes d = be_put 8 f @ put_uvarint v @ put_uvarint (of_nat n)" "n < 2 ^ 62"
  shows "int_decodeRLE d = d\<lparr>id_rleFirst := f, id_rleDelta := v, id_n := int (Suc n), id_i := 0, id_bytes := []\<rparr>"
proof -
  have "sint (of_nat (Suc n) :: u64) = int (Suc n)" using assms(2) by (intro sint_of_nat_u64) simp
  then have n: "sint (of_nat n + 1 :: u64) = int (Suc n)" by (simp add: add.commute)
  have l: "\<not> length (put_uvarint w) \<le> 0" for w by (simp add: not_le)
  have "drop (8 + length (put_uvarint v)) (id_bytes d) = put_uvarint (of_nat n)" using assms(1) by simp
  moreover have "uvarint (put_uvarint w) = (w, int (length (put_uvarint w)))" for w
    using uvarint_put [of w "[]"] by simp
  ultimately show ?thesis using assms(1) n l
    by (simp add: int_decodeRLE_def uvarint_put be_get_put_full Let_def)
qed

lemma int_rle_Cons:
  assumes "int_rle_stream V d (v # vs)"
  shows "\<exists>d' d''. IntegerDecoder_Next S d = (True, d') \<and> IntegerDecoder_Read V d' = Some (v, d'') \<and>
           int_rle_stream V d'' vs"
proof -
  let ?val = "\<lambda>f x k. vt_NewInt64 V (ZigZagDecode f + of_nat k * ZigZagDecode x)"
  have ok: "\<not> id_err d" "id_encoding d = intCompressedRLE" using assms by (auto simp: int_rle_stream_def)
  have ne: "intCompressedRLE \<noteq> intUncompressed" "intCompressedRLE \<noteq> intCompressedSimple"
    by (simp_all add: marker_defs)
  consider
    (run) "id_bytes d = []" "int (id_i d) < id_n d"
      "v # vs = map (?val (id_rleFirst d) (id_rleDelta d)) [Suc (id_i d)..<nat (id_n d)]"
  | (start) f x n where "id_i d = 0" "id_n d = 0" "id_bytes d = be_put 8 f @ put_uvarint x @ put_uvarint (of_nat n)"
      "n < 2 ^ 62" "v # vs = map (?val f x) [0..<Suc n]"
    using assms unfolding int_rle_stream_def by (elim conjE disjE exE) (rule that; assumption)+
  then show ?thesis
  proof cases
    case run
    let ?d1 = "d\<lparr>id_i := Suc (id_i d)\<rparr>"
    have lt: "Suc (id_i d) < nat (id_n d)" using run(3) by (metis list.distinct(1) list.map_disc_iff upt_eq_Nil_conv not_le)
    then have "v = ?val (id_rleFirst d) (id_rleDelta d) (Suc (id_i d))"
        "vs = map (?val (id_rleFirst d) (id_rleDelta d)) [Suc (Suc (id_i d))..<nat (id_n d)]"
      using run(3) by (simp_all add: upt_conv_Cons)
    then have "IntegerDecoder_Next S d = (True, ?d1)" "IntegerDecoder_Read V ?d1 = Some (v, ?d1)" "int_rle_stream V ?d1 vs"
      using lt run ok by (auto simp: IntegerDecoder_Next_def IntegerDecoder_Read_def int_rle_stream_def Let_def)
    then show ?thesis by blast
  next
    case start
    let ?d1 = "d\<lparr>id_i := Suc 0\<rparr>"
    let ?d2 = "?d1\<lparr>id_rleFirst := f, id_rleDelta := x, id_n := int (Suc n), id_i := 0, id_bytes := []\<rparr>"
    have d2: "int_decodeRLE ?d1 = ?d2" using int_decodeRLE_step [of ?d1 f x n] start by simp
    have v: "v = ?val f x 0" "vs = map (?val f x) [Suc 0..<Suc n]"
      using start(5) by (simp_all add: upt_conv_Cons del: upt_Suc)
    have "IntegerDecoder_Next S d = (True, ?d2)" using start ok ne d2 by (simp add: IntegerDecoder_Next_def Let_def)
    moreover have "IntegerDecoder_Read V ?d2 = Some (v, ?d2)" using ok v by (simp add: IntegerDecoder_Read_def)
    moreover have "int_rle_stream V ?d2 vs" using ok v by (simp add: int_rle_stream_def del: upt_Suc of_nat_Suc)
    ultimately show ?thesis by blast
  qed
qed

lemma int_rle_Nil: "int_rle_stream V d [] \<Longrightarrow> \<not> fst (IntegerDecoder_Next S d)"
proof -
  assume "int_rle_stream V d []"
  then have "id_encoding d = intCompressedRLE" "id_bytes d = []" "nat (id_n d) \<le> Suc (id_i d)" "int (id_i d) < id_n d"
    by (auto simp: int_rle_stream_def)
  then show ?thesis by (auto simp: IntegerDecoder_Next_def Let_def int_decodeRLE_def marker_defs)
qed

lemma int_stream_Cons:
  "int_stream S V d (v # vs) \<Longrightarrow>
     \<exists>d' d''. IntegerDecoder_Next S d = (True, d') \<and> IntegerDecoder_Read V d' = Some (v, d'') \<and> int_stream S V d'' vs"
  unfolding int_stream_def using int_plain_Cons [of S V d v vs] int_rle_Cons [of V d v vs S] by blast

lemma int_stream_Nil: "int_stream S V d [] \<Longrightarrow> \<not> fst (IntegerDecoder_Next S d)"
  unfolding int_stream_def using int_plain_Nil int_rle_Nil by blast

section \<open>The round trip\<close>

lemma zigzag_deltas: "undeltas 0 (map ZigZagDecode (map ZigZagEncode (deltas 0 xs))) = xs"
  by (simp add: comp_def zigzag_inverse undeltas_deltas)

lemma int_rle_values:
  assumes "ie_values e = z # y # zs" "\<forall>v \<in> set (y # zs). v = y" "ie_values e = map ZigZagEncode (deltas 0 xs)"
  shows "xs = map (\<lambda>k. ZigZagDecode z + of_nat k * ZigZagDecode y) [0..<Suc (Suc (length zs))]"
proof -
  let ?m = "Suc (length zs)"
  have "y # zs = replicate ?m y" using assms(2) by (metis length_Cons replicate_length_same)
  then have "map ZigZagDecode (ie_values e) = ZigZagDecode z # replicate ?m (ZigZagDecode y)"
    using assms(1) by (metis list.simps(9) map_replicate)
  then have "xs = ZigZagDecode z # undeltas (ZigZagDecode z) (replicate ?m (ZigZagDecode y))"
    using zigzag_deltas [of xs] assms(3) by (metis add.right_neutral undeltas.simps(2))
  moreover have "[0..<Suc ?m] = 0 # map Suc [0..<?m]" by (simp add: upt_conv_Cons map_Suc_upt del: upt_Suc)
  ultimately show ?thesis by (simp add: undeltas_replicate comp_def del: upt_Suc replicate_Suc)
qed

lemma IntegerEncoder_Bytes_stream:
  assumes law: "simple8b_law S" and r: "int_repr e xs" and len: "length xs < 2 ^ 62"
  shows "\<exists>bs. IntegerEncoder_Bytes S e = Some bs \<and>
           int_stream S V (IntegerDecoder_SetBytes bs NewIntegerDecoder) (map (vt_NewInt64 V) xs)"
proof -
  let ?vals = "ie_values e" and ?d0 = NewIntegerDecoder
  have vals: "?vals = map ZigZagEncode (deltas 0 xs)" and noerr: "\<not> ie_err e" using r by (auto simp: int_repr_def)
  have undo: "undeltas 0 (map ZigZagDecode ?vals) = xs" using zigzag_deltas vals by metis
  have lv: "length ?vals = length xs" using vals by simp
  have plain: "int_stream S V d (map (vt_NewInt64 V) xs)"
    if "int_rest S d ?vals" "id_n d = 0" "id_prev d = 0" "\<not> id_err d" "length (id_values d) = 240" for d
    using that undo unfolding int_stream_def int_plain_stream_def
    by (intro disjI1 exI [of _ ?vals]) (simp add: int_pending_def)
  consider (rle) "ie_rle e" "length ?vals > 2"
    | (raw) "\<not> (ie_rle e \<and> length ?vals > 2)" "list_ex (\<lambda>v. v > s8_MaxValue S) ?vals"
    | (packed) "\<not> (ie_rle e \<and> length ?vals > 2)" "\<not> list_ex (\<lambda>v. v > s8_MaxValue S) ?vals"
    by blast
  then show ?thesis
  proof cases
    case rle
    then obtain z y zs where zs: "?vals = z # y # zs" by (cases ?vals; cases "tl ?vals") auto
    have all: "\<forall>v \<in> set (y # zs). v = y" using r rle zs by (simp add: int_repr_def)
    have n: "Suc (length zs) < 2 ^ 62" using len lv zs by simp
    let ?bs = "be_put 8 z @ put_uvarint y @ put_uvarint (of_nat (Suc (length zs)))"
    have "IntegerEncoder_Bytes S e = Some (intCompressedRLE # ?bs)"
      using rle noerr zs by (simp add: IntegerEncoder_Bytes_def int_encodeRLE_def)
    moreover have "int_rle_stream V (IntegerDecoder_SetBytes (intCompressedRLE # ?bs) ?d0) (map (vt_NewInt64 V) xs)"
      unfolding int_rle_stream_def
      using n int_rle_values [OF zs all vals]
      by (intro conjI disjI2 exI [of _ z] exI [of _ y] exI [of _ "Suc (length zs)"])
        (simp_all add: IntegerDecoder_SetBytes_def Let_def NewIntegerDecoder_def del: upt_Suc)
    ultimately show ?thesis by (auto simp: int_stream_def)
  next
    case raw
    then have "?vals \<noteq> []" by auto
    then have "IntegerEncoder_Bytes S e = Some (intUncompressed # words_bytes ?vals)"
      using raw noerr by (auto simp: IntegerEncoder_Bytes_def int_encodeUncompressed_def)
    moreover have "int_stream S V (IntegerDecoder_SetBytes (intUncompressed # words_bytes ?vals) ?d0) (map (vt_NewInt64 V) xs)"
      by (rule plain) (auto simp: IntegerDecoder_SetBytes_def NewIntegerDecoder_def Let_def int_rest_def)
    ultimately show ?thesis by blast
  next
    case packed
    show ?thesis
    proof (cases ?vals)
      case Nil
      then have "IntegerEncoder_Bytes S e = Some []"
        using noerr by (simp add: IntegerEncoder_Bytes_def int_encodePacked_def)
      moreover have "int_stream S V (IntegerDecoder_SetBytes [] ?d0) (map (vt_NewInt64 V) xs)"
        by (rule plain) (use Nil in \<open>auto simp: IntegerDecoder_SetBytes_def NewIntegerDecoder_def Let_def int_rest_def marker_defs\<close>)
      ultimately show ?thesis by blast
    next
      case (Cons z zs)
      have "\<forall>x \<in> set zs. x \<le> s8_MaxValue S" using packed(2) Cons by (auto simp: list_ex_iff not_less)
      then obtain ws where ws: "s8_EncodeAll S zs = Some ws" "s8_unpacks S ws zs"
        using law unfolding simple8b_law_def by blast
      let ?bs = "intCompressedSimple # words_bytes (z # ws)"
      have "IntegerEncoder_Bytes S e = Some ?bs"
        using packed noerr ws Cons by (auto simp: IntegerEncoder_Bytes_def int_encodePacked_def)
      moreover have "int_rest S (IntegerDecoder_SetBytes ?bs ?d0) ?vals"
        unfolding int_rest_def
        by (rule exI [of _ "z # ws"]) (use ws Cons in \<open>simp add: IntegerDecoder_SetBytes_def Let_def marker_defs\<close>)
      then have "int_stream S V (IntegerDecoder_SetBytes ?bs ?d0) (map (vt_NewInt64 V) xs)"
        by (rule plain) (simp_all add: IntegerDecoder_SetBytes_def NewIntegerDecoder_def Let_def)
      ultimately show ?thesis by blast
    qed
  qed
qed

interpretation int_codec: value_codec "IntegerDecoder_Next S" "IntegerDecoder_Read V" "int_stream S V"
  NewIntegerEncoder "\<lambda>v. snd \<circ> IntegerEncoder_Write V v" "IntegerEncoder_Bytes S"
  "\<lambda>bs. Some (IntegerDecoder_SetBytes bs NewIntegerDecoder)"
  "\<lambda>v. vt_NewInt64 V (the (vt_AsInt64 V v))"
  "\<lambda>vs. simple8b_law S \<and> length vs < 2 ^ 62 \<and> list_all (\<lambda>v. vt_AsInt64 V v \<noteq> None) vs"
  for S :: simple8b_ops and V :: "'v variant_ops"
proof
  fix d v and vs :: "'v list"
  show "int_stream S V d [] \<Longrightarrow> \<not> fst (IntegerDecoder_Next S d)" by (rule int_stream_Nil)
  show "int_stream S V d (v # vs) \<Longrightarrow>
      \<exists>d' d''. IntegerDecoder_Next S d = (True, d') \<and> IntegerDecoder_Read V d' = Some (v, d'') \<and> int_stream S V d'' vs"
    by (rule int_stream_Cons)
  assume ok: "simple8b_law S \<and> length vs < 2 ^ 62 \<and> list_all (\<lambda>v. vt_AsInt64 V v \<noteq> None) vs"
  then have "int_repr (fold (\<lambda>v. snd \<circ> IntegerEncoder_Write V v) vs NewIntegerEncoder) (map (\<lambda>v. the (vt_AsInt64 V v)) vs)"
    using IntegerEncoder_fold_repr [OF int_repr_New, of V vs] by simp
  then show "\<exists>bs d. IntegerEncoder_Bytes S (fold (\<lambda>v. snd \<circ> IntegerEncoder_Write V v) vs NewIntegerEncoder) = Some bs \<and>
      Some (IntegerDecoder_SetBytes bs NewIntegerDecoder) = Some d \<and>
      int_stream S V d (map (\<lambda>v. vt_NewInt64 V (the (vt_AsInt64 V v))) vs)"
    using IntegerEncoder_Bytes_stream [of S _ "map (\<lambda>v. the (vt_AsInt64 V v)) vs" V] ok by (simp add: comp_def)
qed

text \<open>\<^bold>\<open>C33\<close>: integers written to the encoder come back in order from the decoder, for every 64-bit
  value (deltas wrap around) and whichever layout (run-length, simple8b, raw) the encoder picks,
  given the documented behaviour of simple8b.\<close>

theorem IntegerEncoder_roundtrip:
  assumes "simple8b_law S" "length vs < 2 ^ 62" "list_all (\<lambda>v. vt_AsInt64 V v \<noteq> None) vs"
  shows "\<exists>bs. IntegerEncoder_Bytes S (fold (\<lambda>v. snd \<circ> IntegerEncoder_Write V v) vs NewIntegerEncoder) = Some bs \<and>
           drain (IntegerDecoder_Next S) (IntegerDecoder_Read V) (Suc (length vs))
             (IntegerDecoder_SetBytes bs NewIntegerDecoder)
           = Some (map (\<lambda>v. vt_NewInt64 V (the (vt_AsInt64 V v))) vs)"
  using int_codec.encode_drain [of S vs V] assms by auto

theorem IntegerEncoder_roundtrip_witness:
  "\<exists>bs. IntegerEncoder_Bytes s8_sample (fold (\<lambda>v. snd \<circ> IntegerEncoder_Write sample_variant v)
            [SInt 5, SInt 0, SInt (- 7)] NewIntegerEncoder) = Some bs \<and>
     drain (IntegerDecoder_Next s8_sample) (IntegerDecoder_Read sample_variant) (Suc (Suc (Suc (Suc 0))))
       (IntegerDecoder_SetBytes bs NewIntegerDecoder) = Some [SInt 5, SInt 0, SInt (- 7)]"
  using IntegerEncoder_roundtrip [of s8_sample "[SInt 5, SInt 0, SInt (- 7)]" sample_variant] s8_sample_law
  by simp

text \<open>A value that does not convert to an integer makes \<^verbatim>\<open>Bytes\<close> return the error, however many
  values follow; without one, \<^verbatim>\<open>Bytes\<close> never fails.\<close>

theorem IntegerEncoder_Bytes_error_iff:
  assumes "simple8b_law S" "length vs < 2 ^ 62"
  shows "IntegerEncoder_Bytes S (fold (\<lambda>v. snd \<circ> IntegerEncoder_Write V v) vs NewIntegerEncoder) = None
           \<longleftrightarrow> (\<exists>v \<in> set vs. vt_AsInt64 V v = None)"
proof (cases "\<exists>v \<in> set vs. vt_AsInt64 V v = None")
  case True
  then show ?thesis
    using IntegerEncoder_err_iff [of V vs NewIntegerEncoder] by (simp add: IntegerEncoder_Bytes_def)
next
  case False
  then show ?thesis using int_codec.encode_drain [of S vs V] assms by (auto simp: list_all_iff)
qed

theorem IntegerEncoder_Bytes_error_iff_witness:
  "IntegerEncoder_Bytes s8_sample (fold (\<lambda>v. snd \<circ> IntegerEncoder_Write sample_variant v)
     [SInt 5, SString [], SInt 3] NewIntegerEncoder) = None"
  using IntegerEncoder_Bytes_error_iff [OF s8_sample_law, of "[SInt 5, SString [], SInt 3]" sample_variant] by simp

end
