(* ===== verification/Time_Codec.thy ===== *)
theory Time_Codec
  imports Int_Codec
begin

text \<open>
  The timestamp codec of \<^verbatim>\<open>tsdb/segment_compression_timestamp.go\<close>: deltas computed in place from the
  back, scaled by the largest common power of ten up to \<open>10 ^ 12\<close>, then run-length, simple8b or raw.
\<close>

section \<open>The encoder\<close>

text \<open>\<open>te_pending\<close> is what the embedded simple8b encoder has been given since its last reset; the scratch
  byte buffer has no influence on the results and is left out.\<close>

record TimeEncoder =
  te_ts :: "u64 list"
  te_pending :: "u64 list"
  te_minTime :: int

definition maxInt64 :: int where
  "maxInt64 = 2 ^ 63 - 1"

definition NewTimeEncoder :: TimeEncoder where
  "NewTimeEncoder = \<lparr>te_ts = [], te_pending = [], te_minTime = maxInt64\<rparr>"

definition TimeEncoder_Length :: "TimeEncoder \<Rightarrow> nat" where
  "TimeEncoder_Length e = length (te_ts e)"

definition TimeEncoder_Reset :: "TimeEncoder \<Rightarrow> TimeEncoder" where
  "TimeEncoder_Reset e = e\<lparr>te_ts := [], te_pending := [], te_minTime := maxInt64\<rparr>"

definition TimeEncoder_Write :: "u64 \<Rightarrow> TimeEncoder \<Rightarrow> TimeEncoder" where
  "TimeEncoder_Write t e =
     (let e1 = e\<lparr>te_ts := te_ts e @ [t]\<rparr>
      in if te_minTime e1 > sint t then e1\<lparr>te_minTime := sint t\<rparr> else e1)"

text \<open>The inner loop of \<^verbatim>\<open>reduce\<close>: \<^verbatim>\<open>for divisor > 1 && v%divisor != 0 { divisor /= 10 }\<close>.\<close>

function lower_divisor :: "u64 \<Rightarrow> u64 \<Rightarrow> u64" where
  "lower_divisor v divisor =
     (if divisor > 1 \<and> v mod divisor \<noteq> 0 then lower_divisor v (divisor div 10) else divisor)"
  by pat_completeness auto
termination
proof (relation "measure (\<lambda>(v, d). unat d)")
  fix v d :: u64 assume "1 < d \<and> v mod d \<noteq> 0"
  then have "0 < unat d" by (simp add: word_less_nat_alt)
  then show "((v, d div 10), v, d) \<in> measure (\<lambda>(v, d). unat d)" by (simp add: unat_div)
qed simp

declare lower_divisor.simps [simp del]

primrec reduce_loop :: "nat \<Rightarrow> u64 list \<times> u64 \<times> u64 \<times> bool \<Rightarrow> u64 list \<times> u64 \<times> u64 \<times> bool" where
  "reduce_loop 0 st = st"
| "reduce_loop (Suc j) st =
     (let (ds, mx, divisor, rle) = st;
          i = Suc j;
          ds' = ds[i := ds ! i - ds ! j];
          v = ds' ! i;
          mx' = (if v > mx then v else mx);
          divisor' = lower_divisor v divisor;
          rle' = (i = length ds' - 1 \<or> rle \<and> ds' ! (i + 1) = ds' ! i)
      in reduce_loop j (ds', mx', divisor', rle'))"

definition reduce :: "TimeEncoder \<Rightarrow> u64 list \<times> u64 \<times> u64 \<times> bool" where
  "reduce e = reduce_loop (length (te_ts e) - 1) (te_ts e, 0, 10 ^ 12, True)"

text \<open>\<^verbatim>\<open>byte(math.Log10(float64(div)))\<close> on the powers of ten that occur as divisors.\<close>

definition log10_div :: "u64 \<Rightarrow> byte" where
  "log10_div divisor = (case find (\<lambda>k. 10 ^ k = divisor) [0..<13] of Some k \<Rightarrow> of_nat k | None \<Rightarrow> 0)"

definition time_encodeRLE :: "u64 \<Rightarrow> u64 \<Rightarrow> u64 \<Rightarrow> nat \<Rightarrow> bytes" where
  "time_encodeRLE first delta divisor n =
     (push_bit 4 2 OR log10_div divisor) # be_put 8 first
       @ put_uvarint (delta div divisor) @ put_uvarint (of_nat n)"

definition time_encodeRaw :: "u64 list \<Rightarrow> bytes" where
  "time_encodeRaw ts = push_bit 4 0 # words_bytes ts"

definition time_packed_input :: "u64 \<Rightarrow> u64 list \<Rightarrow> u64 list" where
  "time_packed_input divisor dts =
     (if divisor > 1 then map (\<lambda>v. v div divisor) (tl dts) else tl dts)"

definition time_encodePacked :: "simple8b_ops \<Rightarrow> u64 \<Rightarrow> u64 list \<Rightarrow> TimeEncoder \<Rightarrow> bytes option \<times> TimeEncoder" where
  "time_encodePacked S divisor dts e =
     (let e' = e\<lparr>te_pending := te_pending e @ time_packed_input divisor dts\<rparr>
      in (map_option (\<lambda>enc. (push_bit 4 1 OR log10_div divisor) # be_put 8 (dts ! 0) @ enc)
            (s8_EncodeBytes S (te_pending e')), e'))"

text \<open>\<^verbatim>\<open>Bytes\<close> overwrites the timestamps with their deltas.\<close>

definition TimeEncoder_Bytes :: "simple8b_ops \<Rightarrow> TimeEncoder \<Rightarrow> bytes option \<times> TimeEncoder" where
  "TimeEncoder_Bytes S e =
     (if te_ts e = [] then (Some [], e)
      else
        (let (dts, mx, divisor, rle) = reduce e;
             e1 = e\<lparr>te_ts := dts\<rparr>
         in if rle \<and> length (te_ts e1) > 1 then
              (Some (time_encodeRLE (te_ts e1 ! 0) (te_ts e1 ! 1) divisor (length (te_ts e1))), e1)
            else if mx > s8_MaxValue S then (Some (time_encodeRaw (te_ts e1)), e1)
            else time_encodePacked S divisor dts e1))"

section \<open>The decoder\<close>

record TimeDecoder =
  td_v :: u64
  td_i :: int
  td_n :: int
  td_ts :: "u64 list"
  td_err :: bool
  td_rleDelta :: u64
  td_encoding :: byte

definition NewTimeDecoder :: TimeDecoder where
  "NewTimeDecoder = \<lparr>td_v = 0, td_i = 0, td_n = 0, td_ts = [], td_err = False, td_rleDelta = 0, td_encoding = 0\<rparr>"

definition time_decodePacked :: "simple8b_ops \<Rightarrow> bytes \<Rightarrow> TimeDecoder \<Rightarrow> TimeDecoder" where
  "time_decodePacked S b d =
     (if length b < 9 then d\<lparr>td_err := True\<rparr>
      else
        (let divisor = 10 ^ unat (b ! 0 AND 0xF) :: u64;
             first = be_get (take 8 (drop 1 b));
             gaps = s8_DecodeBytes S (drop 9 b)
         in d\<lparr>td_i := 0,
              td_ts := first # undeltas first (if divisor > 1 then map (\<lambda>g. g * divisor) gaps else gaps)\<rparr>))"

definition time_decodeRLE :: "bytes \<Rightarrow> TimeDecoder \<Rightarrow> TimeDecoder" where
  "time_decodeRLE b d =
     (if length b < 9 then d\<lparr>td_err := True\<rparr>
      else
        (let modulus = 10 ^ unat (b ! 0 AND 0xF) :: u64;
             first = be_get (take 8 (drop 1 b));
             (value, n) = uvarint (drop 9 b)
         in if n \<le> 0 then d\<lparr>td_err := True\<rparr>
            else
              (let (count, n') = uvarint (drop (9 + nat n) b)
               in if n' \<le> 0 then d\<lparr>td_err := True\<rparr>
                  else d\<lparr>td_v := first - value * modulus, td_rleDelta := value * modulus, td_i := -1,
                         td_n := sint count\<rparr>)))"

definition time_decodeRaw :: "bytes \<Rightarrow> TimeDecoder \<Rightarrow> TimeDecoder" where
  "time_decodeRaw b d = d\<lparr>td_i := 0, td_ts := undeltas 0 (be_words b)\<rparr>"

definition time_decode :: "simple8b_ops \<Rightarrow> bytes \<Rightarrow> TimeDecoder \<Rightarrow> TimeDecoder" where
  "time_decode S b d =
     (if b = [] then d
      else if td_encoding d = 0 then time_decodeRaw (tl b) d
      else if td_encoding d = 2 then time_decodeRLE b d
      else if td_encoding d = 1 then time_decodePacked S b d
      else d\<lparr>td_err := True\<rparr>)"

definition TimeDecoder_Init :: "simple8b_ops \<Rightarrow> bytes \<Rightarrow> TimeDecoder \<Rightarrow> TimeDecoder" where
  "TimeDecoder_Init S b d =
     (let d1 = d\<lparr>td_v := 0, td_i := 0, td_ts := [], td_err := False\<rparr>;
          d2 = (case b of m # _ \<Rightarrow> d1\<lparr>td_encoding := drop_bit 4 m\<rparr> | [] \<Rightarrow> d1)
      in time_decode S b d2)"

definition TimeDecoder_Next :: "TimeDecoder \<Rightarrow> bool \<times> TimeDecoder" where
  "TimeDecoder_Next d =
     (if td_err d then (False, d)
      else if td_encoding d = 2 then
        (if td_i d \<ge> td_n d then (False, d)
         else (let d1 = d\<lparr>td_i := td_i d + 1, td_v := td_v d + td_rleDelta d\<rparr> in (td_i d1 < td_n d1, d1)))
      else if td_i d \<ge> int (length (td_ts d)) then (False, d)
      else (True, d\<lparr>td_v := td_ts d ! nat (td_i d), td_i := td_i d + 1\<rparr>))"

definition TimeDecoder_Read :: "TimeDecoder \<Rightarrow> u64" where
  "TimeDecoder_Read d = td_v d"

section \<open>The divisor\<close>

lemma pow10_u64: "k \<le> 19 \<Longrightarrow> unat (10 ^ k :: u64) = 10 ^ k"
proof -
  assume "k \<le> 19"
  then have "(10 :: nat) ^ k \<le> 10 ^ 19" by (intro power_increasing) auto
  then have "(10 :: nat) ^ k < 2 ^ 64" by simp
  moreover have "(10 ^ k :: u64) = of_nat (10 ^ k)" by simp
  ultimately show ?thesis by (simp only: unat_of_nat_u64)
qed

lemma pow10_div10: "k < 19 \<Longrightarrow> (10 ^ Suc k :: u64) div 10 = 10 ^ k"
  by (rule unsigned_word_eqI [where 'a = nat]) (simp add: unat_div pow10_u64 del: power_Suc, simp)

lemma lower_divisor_spec:
  assumes "k \<le> 12"
  shows "\<exists>j \<le> k. lower_divisor v (10 ^ k) = 10 ^ j \<and> 10 ^ j dvd unat v"
  using assms
proof (induction k)
  case 0
  then show ?case by (simp add: lower_divisor.simps [of v 1])
next
  case (Suc k)
  show ?case
  proof (cases "v mod 10 ^ Suc k = 0")
    case True
    have "unat (v mod 10 ^ Suc k) = 0" using True by (simp only: unsigned_0)
    moreover have "unat (10 ^ Suc k :: u64) = 10 ^ Suc k" using Suc.prems by (intro pow10_u64) simp
    ultimately have "10 ^ Suc k dvd unat v" by (simp only: unat_mod mod_eq_0_iff_dvd)
    then show ?thesis using True by (intro exI [of _ "Suc k"]) (simp add: lower_divisor.simps [of v "10 ^ Suc k"] del: power_Suc)
  next
    case False
    have "(1 :: u64) < 10 ^ Suc k"
      using pow10_u64 [of "Suc k"] Suc.prems one_less_power [of "10 :: nat" "Suc k"]
      by (simp add: word_less_nat_alt del: power_Suc)
    then have "lower_divisor v (10 ^ Suc k) = lower_divisor v (10 ^ k)"
      using False pow10_div10 [of k] Suc.prems by (simp add: lower_divisor.simps [of v "10 ^ Suc k"] del: power_Suc)
    then show ?thesis using Suc by (metis Suc_leD le_SucI)
  qed
qed

lemma log10_div_pow: "k \<le> 12 \<Longrightarrow> log10_div (10 ^ k) = of_nat k"
proof -
  assume k: "k \<le> 12"
  have inj: "i = k" if "i \<le> 12" "(10 ^ i :: u64) = 10 ^ k" for i
  proof -
    have "unat (10 ^ i :: u64) = 10 ^ i" "unat (10 ^ k :: u64) = 10 ^ k"
      using that(1) k by (auto intro!: pow10_u64)
    then have "(10 :: nat) ^ i = 10 ^ k" using that(2) by metis
    then show ?thesis by (simp only: power_inject_exp)
  qed
  have ne: "(10 ^ i :: u64) \<noteq> 10 ^ k" if "i < k" for i using inj [of i] that k by auto
  have "find (\<lambda>i. 10 ^ i = (10 ^ k :: u64)) [0..<13] = Some k"
    unfolding find_Some_iff using k by (intro exI [of _ k]) (simp add: ne del: upt_Suc)
  then show ?thesis by (simp add: log10_div_def del: upt_Suc)
qed

section \<open>\<^verbatim>\<open>reduce\<close> computes the deltas\<close>

lemma nth_deltas: "Suc j < length ts \<Longrightarrow> deltas p ts ! Suc j = ts ! Suc j - ts ! j"
proof (induction p ts arbitrary: j rule: deltas.induct)
  case (2 p x xs)
  then show ?case by (cases j; cases xs) auto
qed simp

text \<open>What holds of the loop state once every index above \<open>i\<close> has been processed.\<close>

definition reduce_inv :: "u64 list \<Rightarrow> nat \<Rightarrow> u64 list \<times> u64 \<times> u64 \<times> bool \<Rightarrow> bool" where
  "reduce_inv ts i st \<longleftrightarrow>
     (let (ds, mx, divisor, rle) = st; proc = drop (Suc i) (deltas 0 ts) in
      ds = take (Suc i) ts @ proc \<and> (\<forall>v \<in> set proc. v \<le> mx) \<and>
      (\<exists>k \<le> 12. divisor = 10 ^ k \<and> (\<forall>v \<in> set proc. 10 ^ k dvd unat v)) \<and>
      (rle \<longrightarrow> (\<forall>v \<in> set proc. v = hd proc)))"

lemma reduce_step:
  assumes inv: "reduce_inv ts (Suc j) st" and j: "Suc j < length ts"
  shows "\<exists>st'. reduce_loop (Suc j) st = reduce_loop j st' \<and> reduce_inv ts j st'"
proof -
  obtain ds mx divisor rle where st: "st = (ds, mx, divisor, rle)" by (cases st)
  let ?D = "deltas 0 ts"
  let ?proc = "drop (Suc (Suc j)) ?D"
  let ?v = "?D ! Suc j"
  obtain k where ds: "ds = take (Suc (Suc j)) ts @ ?proc" and mx: "\<forall>v \<in> set ?proc. v \<le> mx"
      and k: "k \<le> 12" "divisor = 10 ^ k" "\<forall>v \<in> set ?proc. 10 ^ k dvd unat v"
      and rle: "rle \<longrightarrow> (\<forall>v \<in> set ?proc. v = hd ?proc)"
    using inv unfolding reduce_inv_def st by (auto simp: Let_def)
  have len: "length ds = length ts" using ds j by simp
  have v: "ds ! Suc j - ds ! j = ?v" using j by (simp add: ds nth_append nth_deltas)
  have pr: "drop (Suc j) ?D = ?v # ?proc" using j by (simp add: Cons_nth_drop_Suc)
  have ds': "ds[Suc j := ?v] = take (Suc j) ts @ ?v # ?proc"
    using j by (simp add: ds list_update_append take_Suc_conv_app_nth [of "Suc j" ts])
  have nv: "ds[Suc j := ?v] ! Suc j = ?v" using j len by simp
  obtain i where i: "i \<le> k" "lower_divisor ?v divisor = 10 ^ i" "10 ^ i dvd unat ?v"
    using lower_divisor_spec [OF k(1), of ?v] k(2) by auto
  have dvd: "10 ^ i dvd unat v" if "v \<in> set ?proc" for v
  proof -
    have "(10 :: nat) ^ i dvd 10 ^ k" using i(1) by (rule le_imp_power_dvd)
    then show ?thesis using k(3) that by (meson dvd_trans)
  qed
  define rle' where "rle' = (Suc j = length ds - 1 \<or> rle \<and> ds[Suc j := ?v] ! (Suc j + 1) = ?v)"
  have same: "\<forall>u \<in> set (?v # ?proc). u = ?v" if rle'
  proof (cases "Suc j = length ds - 1")
    case True
    then show ?thesis using len by simp
  next
    case False
    then have lt: "Suc (Suc j) < length ts" using j len by simp
    then have "hd ?proc = ?D ! Suc (Suc j)" by (simp add: hd_drop_conv_nth)
    moreover have "ds[Suc j := ?v] ! (Suc j + 1) = ?D ! Suc (Suc j)" using ds' lt j by (simp add: nth_append)
    ultimately show ?thesis using that False rle by (auto simp: rle'_def)
  qed
  let ?st = "(ds[Suc j := ?v], if ?v > mx then ?v else mx, lower_divisor ?v divisor, rle')"
  have "reduce_loop (Suc j) st = reduce_loop j ?st"
    using v nv by (simp add: st Let_def rle'_def)
  moreover have "\<exists>k \<le> 12. lower_divisor ?v divisor = 10 ^ k \<and> (\<forall>u \<in> set (?v # ?proc). 10 ^ k dvd unat u)"
    using i k(1) dvd by (intro exI [of _ i]) auto
  moreover have "\<forall>u \<in> set (?v # ?proc). u \<le> (if ?v > mx then ?v else mx)" using mx by auto
  ultimately have "reduce_loop (Suc j) st = reduce_loop j ?st \<and> reduce_inv ts j ?st"
    unfolding reduce_inv_def pr using ds' same by simp
  then show ?thesis by blast
qed

lemma reduce_loop_spec: "reduce_inv ts i st \<Longrightarrow> i < length ts \<Longrightarrow> reduce_inv ts 0 (reduce_loop i st)"
proof (induction i arbitrary: st)
  case (Suc i)
  then obtain st' where "reduce_loop (Suc i) st = reduce_loop i st'" "reduce_inv ts i st'"
    using reduce_step by blast
  then show ?case using Suc by simp
qed simp

lemma reduce_spec:
  assumes "te_ts e \<noteq> []" "reduce e = (dts, mx, divisor, rle)"
  obtains k where "dts = deltas 0 (te_ts e)" "\<forall>v \<in> set (tl dts). v \<le> mx"
    "k \<le> 12" "divisor = 10 ^ k" "\<forall>v \<in> set (tl dts). 10 ^ k dvd unat v"
    "rle \<longrightarrow> (\<forall>v \<in> set (tl dts). v = hd (tl dts))"
proof -
  let ?ts = "te_ts e"
  obtain x xs where ts: "?ts = x # xs" using assms(1) by (cases ?ts) auto
  have "reduce_inv ?ts (length ?ts - 1) (?ts, 0, 10 ^ 12, True)"
    using assms(1) by (auto simp: reduce_inv_def)
  then have "reduce_inv ?ts 0 (dts, mx, divisor, rle)"
    using reduce_loop_spec [of ?ts "length ?ts - 1" "(?ts, 0, 10 ^ 12, True)"] assms unfolding reduce_def by simp
  then have "dts = take 1 ?ts @ drop 1 (deltas 0 ?ts)" "\<forall>v \<in> set (drop 1 (deltas 0 ?ts)). v \<le> mx"
      "\<exists>k \<le> 12. divisor = 10 ^ k \<and> (\<forall>v \<in> set (drop 1 (deltas 0 ?ts)). 10 ^ k dvd unat v)"
      "rle \<longrightarrow> (\<forall>v \<in> set (drop 1 (deltas 0 ?ts)). v = hd (drop 1 (deltas 0 ?ts)))"
    by (simp_all add: reduce_inv_def Let_def)
  moreover have "take 1 ?ts @ drop 1 (deltas 0 ?ts) = deltas 0 ?ts" "drop 1 (deltas 0 ?ts) = tl (deltas 0 ?ts)"
    using ts by simp_all
  ultimately show ?thesis using that by metis
qed

section \<open>Scaling and the header byte\<close>

lemma time_header:
  assumes "k \<le> 12"
  shows "drop_bit 4 (push_bit 4 2 OR of_nat k :: byte) = 2" "unat ((push_bit 4 2 OR of_nat k :: byte) AND 0xF) = k"
    "drop_bit 4 (push_bit 4 1 OR of_nat k :: byte) = 1" "unat ((push_bit 4 1 OR of_nat k :: byte) AND 0xF) = k"
proof -
  have "list_all (\<lambda>k. drop_bit 4 (push_bit 4 2 OR of_nat k :: byte) = 2 \<and> unat ((push_bit 4 2 OR of_nat k :: byte) AND 0xF) = k \<and>
          drop_bit 4 (push_bit 4 1 OR of_nat k :: byte) = 1 \<and> unat ((push_bit 4 1 OR of_nat k :: byte) AND 0xF) = k) [0..<13]"
    by code_simp
  moreover have "k \<in> set [0..<13]" using assms by simp
  ultimately show "drop_bit 4 (push_bit 4 2 OR of_nat k :: byte) = 2" "unat ((push_bit 4 2 OR of_nat k :: byte) AND 0xF) = k"
      "drop_bit 4 (push_bit 4 1 OR of_nat k :: byte) = 1" "unat ((push_bit 4 1 OR of_nat k :: byte) AND 0xF) = k"
    unfolding list_all_iff by blast+
qed

lemma unscale: "k \<le> 12 \<Longrightarrow> 10 ^ k dvd unat v \<Longrightarrow> (v div 10 ^ k) * 10 ^ k = (v :: u64)"
proof -
  assume k: "k \<le> 12" and d: "10 ^ k dvd unat v"
  have p: "unat (10 ^ k :: u64) = 10 ^ k" using k by (intro pow10_u64) simp
  have "v mod 10 ^ k = 0"
    by (rule unsigned_word_eqI [where 'a = nat]) (use d p in \<open>simp add: unat_mod\<close>)
  then show ?thesis using div_mult_mod_eq [of v "10 ^ k"] by simp
qed

lemma time_packed_unscale:
  assumes "k \<le> 12" "\<forall>v \<in> set (tl dts). 10 ^ k dvd unat v"
  shows "(if (10 ^ k :: u64) > 1 then map (\<lambda>g. g * 10 ^ k) (time_packed_input (10 ^ k) dts)
          else time_packed_input (10 ^ k) dts) = tl dts"
  using assms unscale by (auto simp: time_packed_input_def intro: map_idI)

lemma time_packed_bound:
  assumes "\<forall>v \<in> set (tl dts). v \<le> mx" "mx \<le> m"
  shows "\<forall>x \<in> set (time_packed_input (10 ^ k) dts). x \<le> m"
proof -
  have "v div 10 ^ k \<le> v" for v :: u64 by (simp add: word_le_nat_alt unat_div div_le_dividend)
  then have "v div 10 ^ k \<le> m \<and> v \<le> m" if "v \<in> set (tl dts)" for v using assms that by (meson order_trans)
  then show ?thesis by (auto simp: time_packed_input_def)
qed

section \<open>Decoding\<close>

definition time_stream :: "TimeDecoder \<Rightarrow> u64 list \<Rightarrow> bool" where
  "time_stream d vs \<longleftrightarrow> \<not> td_err d \<and>
     (if td_encoding d = 2 then
        td_i d < td_n d \<and> vs = map (\<lambda>k. td_v d + of_nat (Suc k) * td_rleDelta d) [0..<nat (td_n d - td_i d - 1)]
      else 0 \<le> td_i d \<and> vs = drop (nat (td_i d)) (td_ts d))"

lemma time_stream_Nil: "time_stream d [] \<Longrightarrow> \<not> fst (TimeDecoder_Next d)"
  by (auto simp: time_stream_def TimeDecoder_Next_def split: if_splits)

lemma time_stream_Cons:
  assumes "time_stream d (v # vs)"
  shows "\<exists>d' d''. TimeDecoder_Next d = (True, d') \<and> Some (TimeDecoder_Read d', d') = Some (v, d'') \<and> time_stream d'' vs"
proof (cases "td_encoding d = 2")
  case True
  let ?d = "d\<lparr>td_i := td_i d + 1, td_v := td_v d + td_rleDelta d\<rparr>"
  have s: "\<not> td_err d" "td_i d < td_n d"
      "v # vs = map (\<lambda>k. td_v d + of_nat (Suc k) * td_rleDelta d) [0..<nat (td_n d - td_i d - 1)]"
    using assms True by (auto simp: time_stream_def)
  then obtain m where m: "nat (td_n d - td_i d - 1) = Suc m"
    by (cases "nat (td_n d - td_i d - 1)") auto
  have up: "[0..<Suc m] = 0 # map Suc [0..<m]" by (simp add: upt_conv_Cons map_Suc_upt del: upt_Suc)
  have "v = td_v ?d" "vs = map (\<lambda>k. td_v ?d + of_nat (Suc k) * td_rleDelta d) [0..<m]"
    using s(3) unfolding m up by (simp_all add: comp_def algebra_simps)
  moreover have "nat (td_n ?d - td_i ?d - 1) = m" "td_i ?d < td_n ?d" using m by auto
  ultimately have "time_stream ?d vs" "TimeDecoder_Next d = (True, ?d)" "TimeDecoder_Read ?d = v"
    using s True by (simp_all add: time_stream_def TimeDecoder_Next_def TimeDecoder_Read_def)
  then show ?thesis by blast
next
  case False
  let ?i = "nat (td_i d)"
  let ?d = "d\<lparr>td_v := td_ts d ! ?i, td_i := td_i d + 1\<rparr>"
  have s: "\<not> td_err d" "0 \<le> td_i d" "v # vs = drop ?i (td_ts d)"
    using assms False by (auto simp: time_stream_def)
  then have i: "?i < length (td_ts d)" by (metis drop_all list.distinct(1) not_less)
  then have "v = td_ts d ! ?i" "vs = drop (Suc ?i) (td_ts d)" using s(3) by (metis Cons_nth_drop_Suc list.inject)+
  moreover have "nat (td_i d + 1) = Suc ?i" "td_i d < int (length (td_ts d))" using s(2) i by auto
  ultimately have "time_stream ?d vs" "TimeDecoder_Next d = (True, ?d)" "TimeDecoder_Read ?d = v"
    using s False by (simp_all add: time_stream_def TimeDecoder_Next_def TimeDecoder_Read_def)
  then show ?thesis by blast
qed

section \<open>The round trip\<close>

lemma TimeEncoder_fold: "te_ts (fold TimeEncoder_Write xs e) = te_ts e @ xs"
  "te_pending (fold TimeEncoder_Write xs e) = te_pending e"
  by (induction xs arbitrary: e) (auto simp: TimeEncoder_Write_def Let_def)

lemma time_rle_stream:
  assumes ts: "ts = x # xs" "xs \<noteq> []" and k: "k \<le> 12" "\<forall>v \<in> set (deltas x xs). 10 ^ k dvd unat v"
    and same: "\<forall>v \<in> set (deltas x xs). v = hd (deltas x xs)" and n: "length ts < 2 ^ 62"
  shows "time_stream (TimeDecoder_Init S (time_encodeRLE x (hd (deltas x xs)) (10 ^ k) (length ts)) NewTimeDecoder) ts"
proof -
  let ?d = "hd (deltas x xs)"
  let ?b = "time_encodeRLE x ?d (10 ^ k) (length ts)"
  let ?h = "push_bit 4 2 OR of_nat k :: byte"
  obtain y ys where "xs = y # ys" using ts(2) by (cases xs) auto
  then have "10 ^ k dvd unat ?d" using k(2) by simp
  then have scale: "?d div 10 ^ k * 10 ^ k = ?d" using unscale k(1) by blast
  have cnt: "sint (of_nat (length ts) :: u64) = int (length ts)" using n by (intro sint_of_nat_u64) simp
  have b: "?b = ?h # be_put 8 x @ put_uvarint (?d div 10 ^ k) @ put_uvarint (of_nat (length ts))"
    using k(1) by (simp add: time_encodeRLE_def log10_div_pow)
  have uv: "uvarint (put_uvarint w) = (w, int (length (put_uvarint w)))" for w
    using uvarint_put [of w "[]"] by simp
  have l: "\<not> length (put_uvarint w) \<le> 0" for w by (simp add: not_le)
  have dr: "drop 9 ?b = put_uvarint (?d div 10 ^ k) @ put_uvarint (of_nat (length ts))"
      "drop (9 + length (put_uvarint (?d div 10 ^ k))) ?b = put_uvarint (of_nat (length ts))"
      "take 8 (drop 1 ?b) = be_put 8 x" "?b ! 0 = ?h" "\<not> length ?b < 9" "?b \<noteq> []"
    using b by (simp_all add: eval_nat_numeral)
  have dec: "time_decodeRLE ?b d = d\<lparr>td_v := x - ?d, td_rleDelta := ?d, td_i := -1, td_n := int (length ts)\<rparr>" for d
    unfolding time_decodeRLE_def dr Let_def time_header [OF k(1)]
    using dr uv l scale cnt by (simp add: uvarint_put be_get_put_full)
  have "deltas x xs = replicate (length xs) ?d" using same by (metis length_deltas replicate_length_same)
  then have "ts = x # undeltas x (replicate (length xs) ?d)" using ts undeltas_deltas [of x xs] by simp
  also have "\<dots> = map (\<lambda>k. x - ?d + of_nat (Suc k) * ?d) [0..<length ts]"
  proof -
    have "[0..<Suc (length xs)] = 0 # map Suc [0..<length xs]" by (simp add: upt_conv_Cons map_Suc_upt del: upt_Suc)
    then show ?thesis using ts by (simp add: undeltas_replicate comp_def algebra_simps del: upt_Suc)
  qed
  finally have vals: "ts = map (\<lambda>k. x - ?d + of_nat (Suc k) * ?d) [0..<length ts]" .
  have "TimeDecoder_Init S ?b NewTimeDecoder = time_decodeRLE ?b (NewTimeDecoder\<lparr>td_encoding := 2\<rparr>)"
    using dr(6) b time_header [OF k(1)] by (simp add: TimeDecoder_Init_def Let_def time_decode_def NewTimeDecoder_def)
  then show ?thesis unfolding dec time_stream_def using vals by (simp add: NewTimeDecoder_def)
qed

lemma time_raw_stream: "time_stream (TimeDecoder_Init S (time_encodeRaw (deltas 0 ts)) NewTimeDecoder) ts"
  by (simp add: time_encodeRaw_def TimeDecoder_Init_def Let_def time_decode_def time_decodeRaw_def
      time_stream_def NewTimeDecoder_def be_words_words_bytes undeltas_deltas)

lemma time_packed_stream:
  assumes ts: "ts = x # xs" and k: "k \<le> 12" "\<forall>v \<in> set (deltas x xs). 10 ^ k dvd unat v"
    and enc: "s8_DecodeBytes S out = time_packed_input (10 ^ k) (deltas 0 ts)"
  shows "time_stream (TimeDecoder_Init S ((push_bit 4 1 OR log10_div (10 ^ k)) # be_put 8 x @ out) NewTimeDecoder) ts"
proof -
  let ?h = "push_bit 4 1 OR of_nat k :: byte"
  let ?b = "?h # be_put 8 x @ out"
  have dr: "take 8 (drop 1 ?b) = be_put 8 x" "drop 9 ?b = out" "?b ! 0 = ?h" "\<not> length ?b < 9"
    by (simp_all add: eval_nat_numeral)
  have un: "(if (10 ^ k :: u64) > 1 then map (\<lambda>g. g * 10 ^ k) (s8_DecodeBytes S out) else s8_DecodeBytes S out) = deltas x xs"
    using time_packed_unscale [of k "deltas 0 ts"] k ts unfolding enc by simp
  have "time_decodePacked S ?b d = d\<lparr>td_i := 0, td_ts := x # undeltas x (deltas x xs)\<rparr>" for d
    unfolding time_decodePacked_def Let_def dr time_header [OF k(1)] un by (simp add: be_get_put_full dr(4))
  moreover have "TimeDecoder_Init S ?b NewTimeDecoder = time_decodePacked S ?b (NewTimeDecoder\<lparr>td_encoding := 1\<rparr>)"
    using time_header [OF k(1)] by (simp add: TimeDecoder_Init_def Let_def time_decode_def NewTimeDecoder_def)
  ultimately show ?thesis
    using ts k(1) by (simp add: log10_div_pow time_stream_def NewTimeDecoder_def undeltas_deltas)
qed

lemma TimeEncoder_Bytes_stream:
  assumes law: "simple8b_law S" and len: "length (te_ts e) < 2 ^ 62" and pend: "te_pending e = []"
  shows "\<exists>bs. fst (TimeEncoder_Bytes S e) = Some bs \<and> time_stream (TimeDecoder_Init S bs NewTimeDecoder) (te_ts e)"
proof (cases "te_ts e")
  case Nil
  then show ?thesis
    by (simp add: TimeEncoder_Bytes_def TimeDecoder_Init_def time_decode_def time_stream_def NewTimeDecoder_def Let_def)
next
  case (Cons x xs)
  obtain dts mx divisor rle where red: "reduce e = (dts, mx, divisor, rle)" by (cases "reduce e")
  obtain k where k: "dts = deltas 0 (te_ts e)" "\<forall>v \<in> set (tl dts). v \<le> mx" "k \<le> 12" "divisor = 10 ^ k"
      "\<forall>v \<in> set (tl dts). 10 ^ k dvd unat v" "rle \<longrightarrow> (\<forall>v \<in> set (tl dts). v = hd (tl dts))"
    using reduce_spec [of e dts mx divisor rle] red Cons by auto
  have dts: "dts = x # deltas x xs" using k(1) Cons by simp
  show ?thesis
  proof (cases "rle \<and> xs \<noteq> []")
    case True
    then have "deltas x xs \<noteq> []" by (cases xs) auto
    then have "fst (TimeEncoder_Bytes S e) = Some (time_encodeRLE x (hd (deltas x xs)) (10 ^ k) (length (te_ts e)))"
      using True Cons red k(4) dts by (simp add: TimeEncoder_Bytes_def hd_conv_nth)
    then show ?thesis using True time_rle_stream [of "te_ts e" x xs k S] k dts Cons len by simp
  next
    case False
    then have nrle: "\<not> (rle \<and> length dts > 1)" using dts by auto
    show ?thesis
    proof (cases "mx > s8_MaxValue S")
      case True
      then show ?thesis using nrle time_raw_stream [of S "te_ts e"] k(1) red Cons
        by (auto simp: TimeEncoder_Bytes_def)
    next
      case False
      then have "\<forall>v \<in> set (time_packed_input (10 ^ k) dts). v \<le> s8_MaxValue S"
        using time_packed_bound [OF k(2)] by (simp add: not_less)
      then obtain out where out: "s8_EncodeBytes S (time_packed_input (10 ^ k) dts) = Some out"
          "s8_DecodeBytes S out = time_packed_input (10 ^ k) dts"
        using law unfolding simple8b_law_def by blast
      let ?b = "(push_bit 4 1 OR log10_div (10 ^ k)) # be_put 8 x @ out"
      have "time_stream (TimeDecoder_Init S ?b NewTimeDecoder) (te_ts e)"
        using time_packed_stream [OF Cons k(3), of S out] k(5) out(2) unfolding k(1) [symmetric] dts by simp
      moreover have "fst (TimeEncoder_Bytes S e) = Some ?b"
        using nrle False out red Cons k(4) dts pend
        by (auto simp: TimeEncoder_Bytes_def time_encodePacked_def Let_def)
      ultimately show ?thesis by blast
    qed
  qed
qed

interpretation time_codec: value_codec TimeDecoder_Next "\<lambda>d. Some (TimeDecoder_Read d, d)" time_stream
  NewTimeEncoder TimeEncoder_Write "\<lambda>e. fst (TimeEncoder_Bytes S e)"
  "\<lambda>bs. Some (TimeDecoder_Init S bs NewTimeDecoder)" "\<lambda>t. t" "\<lambda>ts. simple8b_law S \<and> length ts < 2 ^ 62"
  for S :: simple8b_ops
proof
  fix d v and vs :: "u64 list"
  show "time_stream d [] \<Longrightarrow> \<not> fst (TimeDecoder_Next d)" by (rule time_stream_Nil)
  show "time_stream d (v # vs) \<Longrightarrow>
      \<exists>d' d''. TimeDecoder_Next d = (True, d') \<and> Some (TimeDecoder_Read d', d') = Some (v, d'') \<and> time_stream d'' vs"
    by (rule time_stream_Cons)
  assume "simple8b_law S \<and> length vs < 2 ^ 62"
  then show "\<exists>bs d. fst (TimeEncoder_Bytes S (fold TimeEncoder_Write vs NewTimeEncoder)) = Some bs \<and>
      Some (TimeDecoder_Init S bs NewTimeDecoder) = Some d \<and> time_stream d (map (\<lambda>t. t) vs)"
    using TimeEncoder_Bytes_stream [of S "fold TimeEncoder_Write vs NewTimeEncoder"]
    by (simp add: TimeEncoder_fold NewTimeEncoder_def)
qed

text \<open>\<^bold>\<open>C32\<close>: any sequence of 64-bit timestamps, sorted or not, written to the time encoder is read back
  in order from its bytes, whichever of the run-length, scaled simple8b and raw layouts was chosen; \<^verbatim>\<open>Bytes\<close>
  never fails.\<close>

theorem TimeEncoder_roundtrip:
  assumes "simple8b_law S" "length ts < 2 ^ 62"
  shows "\<exists>bs. fst (TimeEncoder_Bytes S (fold TimeEncoder_Write ts NewTimeEncoder)) = Some bs \<and>
           drain TimeDecoder_Next (\<lambda>d. Some (TimeDecoder_Read d, d)) (Suc (length ts))
             (TimeDecoder_Init S bs NewTimeDecoder) = Some ts"
  using time_codec.encode_drain [of S ts] assms by auto

theorem TimeEncoder_roundtrip_witness:
  "\<exists>bs. fst (TimeEncoder_Bytes s8_sample (fold TimeEncoder_Write [1000, 2000, 3500] NewTimeEncoder)) = Some bs \<and>
     drain TimeDecoder_Next (\<lambda>d. Some (TimeDecoder_Read d, d)) (Suc (Suc (Suc (Suc 0))))
       (TimeDecoder_Init s8_sample bs NewTimeDecoder) = Some [1000, 2000, 3500]"
  using TimeEncoder_roundtrip [OF s8_sample_law, of "[1000, 2000, 3500]"] by simp

text \<open>The divisor \<^verbatim>\<open>reduce\<close> finds is a power of ten, at most \<open>10 ^ 12\<close>, that divides every delta, the
  maximum bounds every delta, and the run-length flag is only set when all deltas are equal.\<close>

theorem reduce_correct:
  assumes "ts \<noteq> []" "te_ts e = ts"
  shows "case reduce e of (dts, mx, divisor, rle) \<Rightarrow>
           dts = deltas 0 ts \<and> (\<forall>v \<in> set (tl dts). v \<le> mx) \<and>
           (\<exists>k \<le> 12. divisor = 10 ^ k \<and> (\<forall>v \<in> set (tl dts). 10 ^ k dvd unat v)) \<and>
           (rle \<longrightarrow> (\<forall>v \<in> set (tl dts). v = hd (tl dts)))"
proof -
  obtain dts mx divisor rle where red: "reduce e = (dts, mx, divisor, rle)" by (cases "reduce e")
  show ?thesis
    unfolding red using reduce_spec [of e dts mx divisor rle] red assms by auto
qed

theorem reduce_correct_witness:
  "case reduce \<lparr>te_ts = [1000, 2000, 3500], te_pending = [], te_minTime = 1000\<rparr> of (dts, mx, divisor, rle) \<Rightarrow>
     dts = [1000, 1000, 1500] \<and> (\<exists>k \<le> 12. divisor = 10 ^ k \<and> (\<forall>v \<in> set (tl dts). 10 ^ k dvd unat v))"
  using reduce_correct [of "[1000, 2000, 3500]" "\<lparr>te_ts = [1000, 2000, 3500], te_pending = [], te_minTime = 1000\<rparr>"]
  by (auto split: prod.splits)

end
