(* ===== verification/String_Codec.thy ===== *)
theory String_Codec
  imports Codec
begin

text \<open>
  The string codec of \<^verbatim>\<open>tsdb/segment_compression_strings.go\<close>: a length-prefixed stream compressed with
  snappy, or a per-block dictionary when that is smaller.  Snappy is a parameter.
\<close>

section \<open>The external \<^verbatim>\<open>snappy\<close> package\<close>

record snappy_ops =
  sn_Encode :: "bytes \<Rightarrow> bytes"
  sn_Decode :: "bytes \<Rightarrow> bytes option"

definition snappy_law :: "snappy_ops \<Rightarrow> bool" where
  "snappy_law Z \<longleftrightarrow> (\<forall>b. sn_Decode Z (sn_Encode Z b) = Some b)"

section \<open>The encoder\<close>

definition maxDictEntries :: nat where
  "maxDictEntries = 4096"

record StringEncoder =
  se_bytes :: bytes
  se_dict :: "bytes \<rightharpoonup> nat"
  se_order :: "bytes list"
  se_idx :: "nat list"
  se_dictFull :: bool

definition NewStringEncoder :: StringEncoder where
  "NewStringEncoder = \<lparr>se_bytes = [], se_dict = Map.empty, se_order = [], se_idx = [], se_dictFull = False\<rparr>"

definition StringEncoder_Reset :: "StringEncoder \<Rightarrow> StringEncoder" where
  "StringEncoder_Reset e =
     e\<lparr>se_bytes := [], se_order := [], se_idx := [], se_dictFull := False, se_dict := Map.empty\<rparr>"

definition WriteString :: "bytes \<Rightarrow> StringEncoder \<Rightarrow> bool \<times> StringEncoder" where
  "WriteString s e =
     (let e1 = e\<lparr>se_bytes := se_bytes e @ put_uvarint (of_nat (length s)) @ s\<rparr>
      in (True,
          if \<not> se_dictFull e1 then
            (case se_dict e1 s of
               Some idx \<Rightarrow> e1\<lparr>se_idx := se_idx e1 @ [idx]\<rparr>
             | None \<Rightarrow>
                 if length (se_order e1) < maxDictEntries then
                   (let idx = length (se_order e1)
                    in e1\<lparr>se_dict := (se_dict e1)(s \<mapsto> idx), se_order := se_order e1 @ [s],
                          se_idx := se_idx e1 @ [idx]\<rparr>)
                 else e1\<lparr>se_dictFull := True\<rparr>)
          else e1))"

definition StringEncoder_Write :: "'v variant_ops \<Rightarrow> 'v \<Rightarrow> StringEncoder \<Rightarrow> bool \<times> StringEncoder" where
  "StringEncoder_Write V str e = WriteString (vt_AsString V str) e"

function uvarintLen :: "u64 \<Rightarrow> nat" where
  "uvarintLen v = (if v \<ge> 0x80 then 1 + uvarintLen (drop_bit 7 v) else 1)"
  by pat_completeness auto
termination
proof (relation "measure unat")
  fix v :: u64 assume "0x80 \<le> v"
  then have "unat v \<ge> 128" by (simp add: word_le_nat_alt)
  then show "(drop_bit 7 v, v) \<in> measure unat"
    by (simp add: unat_drop_bit_eq drop_bit_eq_div [where 'a = nat])
qed simp

declare uvarintLen.simps [simp del]

definition dictEncodedLen :: "StringEncoder \<Rightarrow> nat" where
  "dictEncodedLen e =
     1 + uvarintLen (of_nat (length (se_order e)))
       + (\<Sum>s \<leftarrow> se_order e. uvarintLen (of_nat (length s)) + length s)
       + (\<Sum>idx \<leftarrow> se_idx e. uvarintLen (of_nat idx))"

definition encodeDict :: "StringEncoder \<Rightarrow> bytes" where
  "encodeDict e =
     stringCompressedDict # put_uvarint (of_nat (length (se_order e)))
       @ concat (map (\<lambda>s. put_uvarint (of_nat (length s)) @ s) (se_order e))
       @ concat (map (\<lambda>idx. put_uvarint (of_nat idx)) (se_idx e))"

definition StringEncoder_Bytes :: "snappy_ops \<Rightarrow> StringEncoder \<Rightarrow> bytes option" where
  "StringEncoder_Bytes Z e =
     (let snappyData = sn_Encode Z (se_bytes e)
      in if \<not> se_dictFull e \<and> dictEncodedLen e < length snappyData + 1 then Some (encodeDict e)
         else Some (stringCompressedSnappy # snappyData))"

section \<open>The decoder\<close>

record StringDecoder =
  sd_list :: "bytes list"
  sd_i :: nat
  sd_err :: bool

definition NewStringDecoder :: StringDecoder where
  "NewStringDecoder = \<lparr>sd_list = [], sd_i = 0, sd_err = False\<rparr>"

text \<open>One length-prefixed string at \<open>pos\<close>: \<open>Error\<close> where the bounds test fails, \<open>Panic\<close> where the length is
  negative as an \<^verbatim>\<open>int\<close> or the sum overflows and the slice expression is out of range.\<close>

definition read_prefixed :: "bytes \<Rightarrow> nat \<Rightarrow> (bytes \<times> nat) outcome" where
  "read_prefixed b pos =
     (let (l, n) = uvarint (drop pos b) in
      if n \<le> 0 \<or> wrap64 (int pos + n + sint l) > int (length b) then Error
      else if sint l < 0 \<or> int pos + n + sint l > int (length b) then Panic
      else (let p = pos + nat n; len = nat (sint l) in Ok (take len (drop p b), p + len)))"

lemma read_prefixed_progress: "read_prefixed b pos = Ok (s, p) \<Longrightarrow> pos < p \<and> p \<le> length b"
  by (auto simp: read_prefixed_def Let_def split: prod.splits if_splits)

function parseLenPrefixed :: "bytes \<Rightarrow> nat \<Rightarrow> bytes list \<Rightarrow> bytes list outcome" where
  "parseLenPrefixed b pos out =
     (if pos < length b then
        (case read_prefixed b pos of
           Error \<Rightarrow> Ok out
         | Panic \<Rightarrow> Panic
         | Ok (s, p) \<Rightarrow> parseLenPrefixed b p (out @ [s]))
      else Ok out)"
  by pat_completeness auto
termination
  by (relation "measure (\<lambda>(b, pos, out). length b - pos)") (auto dest!: read_prefixed_progress)

declare parseLenPrefixed.simps [simp del]

primrec decodeDict_entries :: "nat \<Rightarrow> bytes \<Rightarrow> nat \<Rightarrow> bytes list \<Rightarrow> (bytes list \<times> nat) outcome" where
  "decodeDict_entries 0 b pos dict = Ok (dict, pos)"
| "decodeDict_entries (Suc c) b pos dict =
     (case read_prefixed b pos of
        Error \<Rightarrow> Error | Panic \<Rightarrow> Panic
      | Ok (s, p) \<Rightarrow> decodeDict_entries c b p (dict @ [s]))"

function decodeDict_indexes :: "bytes list \<Rightarrow> bytes \<Rightarrow> nat \<Rightarrow> bytes list \<Rightarrow> bytes list outcome" where
  "decodeDict_indexes dict b pos out =
     (if pos < length b then
        (let (v, n) = uvarint (drop pos b) in
         if n \<le> 0 \<or> unat v \<ge> length dict then Error
         else decodeDict_indexes dict b (pos + nat n) (out @ [dict ! unat v]))
      else Ok out)"
  by pat_completeness auto
termination
  by (relation "measure (\<lambda>(d, b, pos, out). length b - pos)") auto

declare decodeDict_indexes.simps [simp del]

text \<open>\<^verbatim>\<open>make\<close> panics for a slice of strings, 16 bytes each, that cannot be addressed: 48 bits on the 64-bit platforms.\<close>

definition maxStringSlice :: nat where
  "maxStringSlice = 2 ^ 44"

definition decodeDict :: "bytes \<Rightarrow> bytes list outcome" where
  "decodeDict b =
     (let (count, n) = uvarint b in
      if n \<le> 0 then Error
      else if unat count > maxStringSlice then Panic
      else
        (case decodeDict_entries (unat count) b (nat n) [] of
           Error \<Rightarrow> Error | Panic \<Rightarrow> Panic
         | Ok (dict, pos) \<Rightarrow> decodeDict_indexes dict b pos []))"

definition StringDecoder_SetBytes :: "snappy_ops \<Rightarrow> bytes \<Rightarrow> StringDecoder \<Rightarrow> StringDecoder option" where
  "StringDecoder_SetBytes Z b e =
     (let e0 = e\<lparr>sd_list := [], sd_i := 0, sd_err := False\<rparr> in
      case b of
        [] \<Rightarrow> Some e0
      | m # rest \<Rightarrow>
          if m = stringCompressedSnappy then
            (case sn_Decode Z rest of
               None \<Rightarrow> Some (e0\<lparr>sd_err := True\<rparr>)
             | Some data \<Rightarrow>
                 (case parseLenPrefixed data 0 [] of
                    Ok out \<Rightarrow> Some (e0\<lparr>sd_list := out\<rparr>) | Error \<Rightarrow> Some e0 | Panic \<Rightarrow> None))
          else if m = stringCompressedDict then
            (case decodeDict rest of
               Ok out \<Rightarrow> Some (e0\<lparr>sd_list := out\<rparr>) | Error \<Rightarrow> Some (e0\<lparr>sd_err := True\<rparr>) | Panic \<Rightarrow> None)
          else Some (e0\<lparr>sd_err := True\<rparr>))"

definition StringDecoder_Next :: "StringDecoder \<Rightarrow> bool \<times> StringDecoder" where
  "StringDecoder_Next e =
     (if sd_err e then (False, e)
      else (let e' = e\<lparr>sd_i := sd_i e + 1\<rparr> in (sd_i e' \<le> length (sd_list e'), e')))"

definition StringDecoder_Read :: "'v variant_ops \<Rightarrow> StringDecoder \<Rightarrow> ('v \<times> StringDecoder) option" where
  "StringDecoder_Read V e =
     (if sd_i e \<le> 0 \<or> sd_i e > length (sd_list e) then Some (vt_Empty V, e)
      else Some (vt_NewString V (sd_list e ! (sd_i e - 1)), e))"

section \<open>Sizes\<close>

lemma uvarintLen_put: "uvarintLen v = length (put_uvarint v)"
proof (induction v rule: uvarintLen.induct)
  case (1 v)
  then show ?case by (simp add: uvarintLen.simps [of v] put_uvarint.simps [of v])
qed

lemma dictEncodedLen_exact: "dictEncodedLen e = length (encodeDict e)"
  by (simp add: dictEncodedLen_def encodeDict_def uvarintLen_put length_concat comp_def)

section \<open>The encoder's state stands for the strings written\<close>

abbreviation prefixed :: "bytes \<Rightarrow> bytes" where
  "prefixed s \<equiv> put_uvarint (of_nat (length s)) @ s"

definition str_repr :: "StringEncoder \<Rightarrow> bytes list \<Rightarrow> bool" where
  "str_repr e ss \<longleftrightarrow> se_bytes e = concat (map prefixed ss) \<and>
     (\<not> se_dictFull e \<longrightarrow>
        (\<forall>s k. se_dict e s = Some k \<longrightarrow> k < length (se_order e) \<and> se_order e ! k = s) \<and>
        list_all (\<lambda>k. k < length (se_order e)) (se_idx e) \<and> map ((!) (se_order e)) (se_idx e) = ss \<and>
        set (se_order e) \<subseteq> set ss \<and> length (se_order e) \<le> maxDictEntries)"

lemma str_repr_New: "str_repr NewStringEncoder []"
  by (simp add: str_repr_def NewStringEncoder_def)

lemma str_repr_Reset: "str_repr (StringEncoder_Reset e) []"
  by (simp add: str_repr_def StringEncoder_Reset_def)

lemma map_nth_append: "list_all (\<lambda>k. k < length xs) ks \<Longrightarrow> map ((!) (xs @ ys)) ks = map ((!) xs) ks"
  by (induction ks) (auto simp: nth_append)

lemma WriteString_repr:
  assumes "str_repr e ss"
  shows "str_repr (snd (WriteString s e)) (ss @ [s])"
proof (cases "se_dictFull e")
  case True
  then show ?thesis using assms by (simp add: str_repr_def WriteString_def Let_def)
next
  case False
  note r = assms [unfolded str_repr_def] False
  show ?thesis
  proof (cases "se_dict e s")
    case (Some k)
    then show ?thesis using r by (auto simp: str_repr_def WriteString_def Let_def)
  next
    case None
    show ?thesis
    proof (cases "length (se_order e) < maxDictEntries")
      case True
      have "list_all (\<lambda>k. k < Suc (length (se_order e))) (se_idx e)"
        using r by (auto simp: list_all_iff less_SucI)
      then show ?thesis using r None True map_nth_append [of "se_order e" "se_idx e" "[s]"]
        by (auto simp: str_repr_def WriteString_def Let_def nth_append less_Suc_eq)
    next
      case False
      then show ?thesis using r None by (simp add: str_repr_def WriteString_def Let_def)
    qed
  qed
qed

lemma StringEncoder_fold_repr:
  "str_repr e ss \<Longrightarrow> str_repr (fold (\<lambda>v. snd \<circ> StringEncoder_Write V v) vs e) (ss @ map (vt_AsString V) vs)"
proof (induction vs arbitrary: e ss)
  case (Cons v vs)
  then show ?case using Cons.IH [OF WriteString_repr [OF Cons.prems], of "vt_AsString V v"]
    by (simp add: StringEncoder_Write_def)
qed simp

section \<open>Parsing what was written\<close>

lemma read_prefixed_spec:
  assumes "drop pos b = prefixed s @ rest" "length b < 2 ^ 62"
  shows "read_prefixed b pos = Ok (s, length b - length rest)"
proof -
  let ?u = "put_uvarint (of_nat (length s) :: u64)"
  have "pos < length b" using assms(1) by (cases "pos < length b") auto
  then have len: "length b = pos + length ?u + length s + length rest"
    using arg_cong [OF assms(1), of length] by simp
  have l: "sint (of_nat (length s) :: u64) = int (length s)"
    using len assms(2) by (intro sint_of_nat_u64) simp
  have w: "wrap64 (int pos + int (length ?u) + int (length s)) = int pos + int (length ?u) + int (length s)"
    using len assms(2) by (intro wrap64_id) simp_all
  have u: "uvarint (drop pos b) = (of_nat (length s), int (length ?u))"
    using assms(1) uvarint_put [of "of_nat (length s)" "s @ rest"] by simp
  have "drop (pos + length ?u) b = s @ rest"
    using assms(1) by (metis add.commute append.assoc append_eq_conv_conj drop_drop)
  moreover have "\<not> length ?u \<le> 0" by (simp add: not_le)
  ultimately show ?thesis using len by (simp add: read_prefixed_def Let_def u l w)
qed

lemma parse_prefixed_spec:
  assumes "drop pos b = concat (map prefixed ss)" "length b < 2 ^ 62" "pos \<le> length b"
  shows "parseLenPrefixed b pos out = Ok (out @ ss)"
  using assms
proof (induction ss arbitrary: pos out)
  case Nil
  then show ?case by (simp add: parseLenPrefixed.simps [of b pos])
next
  case (Cons s ss)
  let ?rest = "concat (map prefixed ss)"
  have r: "read_prefixed b pos = Ok (s, length b - length ?rest)"
    using Cons.prems by (intro read_prefixed_spec) simp_all
  have "drop (length b - length ?rest) b = ?rest"
    using Cons.prems by (intro drop_suffix [of pos b "prefixed s"]) simp_all
  then show ?case
    using Cons.IH [of "length b - length ?rest" "out @ [s]"] Cons.prems r
    by (cases "pos < length b") (auto simp: parseLenPrefixed.simps [of b pos])
qed

lemma decodeDict_entries_spec:
  assumes "drop pos b = concat (map prefixed ss) @ rest" "length b < 2 ^ 62" "pos \<le> length b"
  shows "decodeDict_entries (length ss) b pos dict = Ok (dict @ ss, length b - length rest)"
  using assms
proof (induction ss arbitrary: pos dict)
  case Nil
  then have "rest = drop pos b" by simp
  then have "length b - length rest = pos" using Nil.prems(3) by simp
  then show ?case by simp
next
  case (Cons s ss)
  let ?rest = "concat (map prefixed ss) @ rest"
  have r: "read_prefixed b pos = Ok (s, length b - length ?rest)"
    using Cons.prems by (intro read_prefixed_spec) simp_all
  have d: "drop (length b - length ?rest) b = ?rest"
    using Cons.prems by (intro drop_suffix [of pos b "prefixed s"]) simp_all
  show ?case using Cons.IH [OF d Cons.prems(2) diff_le_self, of "dict @ [s]"] r by simp
qed

lemma decodeDict_indexes_spec:
  assumes "drop pos b = concat (map (\<lambda>k. put_uvarint (of_nat k)) ks)" "pos \<le> length b"
    "list_all (\<lambda>k. k < length dict) ks" "length dict < 2 ^ 62"
  shows "decodeDict_indexes dict b pos out = Ok (out @ map ((!) dict) ks)"
  using assms
proof (induction ks arbitrary: pos out)
  case Nil
  then show ?case by (simp add: decodeDict_indexes.simps [of dict b pos])
next
  case (Cons k ks)
  let ?u = "put_uvarint (of_nat k :: u64)"
  have k: "unat (of_nat k :: u64) = k" using Cons.prems by (intro unat_of_nat_u64) simp
  have u: "uvarint (drop pos b) = (of_nat k, int (length ?u))" using Cons.prems(1) by (simp add: uvarint_put)
  have pos: "pos < length b" using Cons.prems(1,2) by (cases "pos < length b") auto
  have d: "drop (pos + length ?u) b = concat (map (\<lambda>k. put_uvarint (of_nat k)) ks)"
    using Cons.prems(1) drop_drop [of "length ?u" pos b] by (simp add: add.commute)
  have "pos + length ?u \<le> length b" using arg_cong [OF Cons.prems(1), of length] pos by simp
  moreover have "\<not> length ?u \<le> 0" by (simp add: not_le)
  ultimately show ?case
    using Cons.IH [OF d] Cons.prems k u pos by (simp add: decodeDict_indexes.simps [of dict b pos])
qed

lemma decodeDict_spec:
  assumes r: "str_repr e ss" "\<not> se_dictFull e" and len: "length (encodeDict e) < 2 ^ 62"
  shows "decodeDict (tl (encodeDict e)) = Ok ss"
proof -
  let ?b = "tl (encodeDict e)" and ?n = "length (se_order e)"
  let ?ents = "concat (map prefixed (se_order e))" and ?ix = "concat (map (\<lambda>k. put_uvarint (of_nat k)) (se_idx e))"
  have b: "?b = put_uvarint (of_nat ?n) @ ?ents @ ?ix" by (simp add: encodeDict_def)
  have small: "?n < 2 ^ 62" "\<not> ?n > maxStringSlice" using r by (simp_all add: str_repr_def maxDictEntries_def maxStringSlice_def)
  have n: "unat (of_nat ?n :: u64) = ?n" using small(1) by (intro unat_of_nat_u64) simp
  have u: "uvarint ?b = (of_nat ?n, int (length (put_uvarint (of_nat ?n :: u64))))" by (simp add: b uvarint_put)
  have "decodeDict_entries ?n ?b (length (put_uvarint (of_nat ?n :: u64))) [] = Ok ([] @ se_order e, length ?b - length ?ix)"
    by (rule decodeDict_entries_spec) (use len in \<open>simp_all add: b encodeDict_def\<close>)
  moreover have "decodeDict_indexes (se_order e) ?b (length ?b - length ?ix) [] = Ok ([] @ map ((!) (se_order e)) (se_idx e))"
    by (rule decodeDict_indexes_spec) (use r small(1) in \<open>simp_all add: b str_repr_def\<close>)
  moreover have "\<not> length (put_uvarint (of_nat ?n :: u64)) \<le> 0" by (simp add: not_le)
  ultimately show ?thesis using r small(2) by (simp add: decodeDict_def u n str_repr_def)
qed

section \<open>The round trip\<close>

definition str_stream :: "'v variant_ops \<Rightarrow> StringDecoder \<Rightarrow> 'v list \<Rightarrow> bool" where
  "str_stream V d vs \<longleftrightarrow> \<not> sd_err d \<and> sd_i d \<le> length (sd_list d) \<and> vs = map (vt_NewString V) (drop (sd_i d) (sd_list d))"

lemma str_stream_Cons:
  assumes "str_stream V d (v # vs)"
  shows "\<exists>d' d''. StringDecoder_Next d = (True, d') \<and> StringDecoder_Read V d' = Some (v, d'') \<and> str_stream V d'' vs"
proof -
  have s: "\<not> sd_err d" "v # vs = map (vt_NewString V) (drop (sd_i d) (sd_list d))"
    using assms by (auto simp: str_stream_def)
  then have i: "sd_i d < length (sd_list d)" by (metis drop_all list.distinct(1) list.map_disc_iff not_less)
  then have "v = vt_NewString V (sd_list d ! sd_i d)" "vs = map (vt_NewString V) (drop (Suc (sd_i d)) (sd_list d))"
    using s(2) by (metis Cons_nth_drop_Suc list.inject list.simps(9))+
  then show ?thesis using s i
    by (simp add: StringDecoder_Next_def StringDecoder_Read_def str_stream_def Let_def)
qed

lemma str_stream_Nil: "str_stream V d [] \<Longrightarrow> \<not> fst (StringDecoder_Next d)"
  by (auto simp: str_stream_def StringDecoder_Next_def Let_def)

lemma StringEncoder_Bytes_stream:
  assumes law: "snappy_law Z" and r: "str_repr e ss"
    and len: "length (se_bytes e) < 2 ^ 62" "length (sn_Encode Z (se_bytes e)) < 2 ^ 61"
  shows "\<exists>bs d. StringEncoder_Bytes Z e = Some bs \<and> StringDecoder_SetBytes Z bs NewStringDecoder = Some d \<and>
           str_stream V d (map (vt_NewString V) ss)"
proof (cases "\<not> se_dictFull e \<and> dictEncodedLen e < length (sn_Encode Z (se_bytes e)) + 1")
  case True
  then have "decodeDict (tl (encodeDict e)) = Ok ss"
    using decodeDict_spec [OF r] len dictEncodedLen_exact [of e] by simp
  moreover obtain rest where "encodeDict e = stringCompressedDict # rest" by (simp add: encodeDict_def)
  ultimately have "StringDecoder_SetBytes Z (encodeDict e) NewStringDecoder = Some \<lparr>sd_list = ss, sd_i = 0, sd_err = False\<rparr>"
    by (simp add: StringDecoder_SetBytes_def NewStringDecoder_def Let_def marker_defs)
  then show ?thesis using True by (simp add: StringEncoder_Bytes_def str_stream_def)
next
  case False
  have "parseLenPrefixed (se_bytes e) 0 [] = Ok ([] @ ss)"
    using r len by (intro parse_prefixed_spec) (simp_all add: str_repr_def)
  then have "StringDecoder_SetBytes Z (stringCompressedSnappy # sn_Encode Z (se_bytes e)) NewStringDecoder
               = Some \<lparr>sd_list = ss, sd_i = 0, sd_err = False\<rparr>"
    using law by (simp add: StringDecoder_SetBytes_def NewStringDecoder_def Let_def snappy_law_def)
  then show ?thesis using False by (auto simp: StringEncoder_Bytes_def str_stream_def)
qed

interpretation str_codec: value_codec StringDecoder_Next "StringDecoder_Read V" "str_stream V"
  NewStringEncoder "\<lambda>v. snd \<circ> StringEncoder_Write V v" "StringEncoder_Bytes Z"
  "\<lambda>bs. StringDecoder_SetBytes Z bs NewStringDecoder" "\<lambda>v. vt_NewString V (vt_AsString V v)"
  "\<lambda>vs. snappy_law Z \<and> length (concat (map (prefixed \<circ> vt_AsString V) vs)) < 2 ^ 62 \<and>
         length (sn_Encode Z (concat (map (prefixed \<circ> vt_AsString V) vs))) < 2 ^ 61"
  for Z :: snappy_ops and V :: "'v variant_ops"
proof
  fix d v and vs :: "'v list"
  show "str_stream V d [] \<Longrightarrow> \<not> fst (StringDecoder_Next d)" by (rule str_stream_Nil)
  show "str_stream V d (v # vs) \<Longrightarrow>
      \<exists>d' d''. StringDecoder_Next d = (True, d') \<and> StringDecoder_Read V d' = Some (v, d'') \<and> str_stream V d'' vs"
    by (rule str_stream_Cons)
  let ?e = "fold (\<lambda>v. snd \<circ> StringEncoder_Write V v) vs NewStringEncoder"
  assume ok: "snappy_law Z \<and> length (concat (map (prefixed \<circ> vt_AsString V) vs)) < 2 ^ 62 \<and>
      length (sn_Encode Z (concat (map (prefixed \<circ> vt_AsString V) vs))) < 2 ^ 61"
  have r: "str_repr ?e (map (vt_AsString V) vs)"
    using StringEncoder_fold_repr [OF str_repr_New, of V vs] by simp
  then have b: "se_bytes ?e = concat (map (prefixed \<circ> vt_AsString V) vs)" by (simp add: str_repr_def comp_def)
  show "\<exists>bs d. StringEncoder_Bytes Z ?e = Some bs \<and> StringDecoder_SetBytes Z bs NewStringDecoder = Some d \<and>
      str_stream V d (map (\<lambda>v. vt_NewString V (vt_AsString V v)) vs)"
    using StringEncoder_Bytes_stream [OF _ r, of Z V] ok unfolding b [symmetric] by (simp add: comp_def)
qed

text \<open>\<^bold>\<open>C34\<close>: the strings written come back in order, whether the block was stored as a dictionary or as
  a snappy-compressed stream, and also past the dictionary limit; no call fails or panics.\<close>

theorem StringEncoder_roundtrip:
  assumes "snappy_law Z" "length (concat (map (prefixed \<circ> vt_AsString V) vs)) < 2 ^ 62"
    "length (sn_Encode Z (concat (map (prefixed \<circ> vt_AsString V) vs))) < 2 ^ 61"
  shows "\<exists>bs d. StringEncoder_Bytes Z (fold (\<lambda>v. snd \<circ> StringEncoder_Write V v) vs NewStringEncoder) = Some bs \<and>
           StringDecoder_SetBytes Z bs NewStringDecoder = Some d \<and>
           drain StringDecoder_Next (StringDecoder_Read V) (Suc (length vs)) d
             = Some (map (\<lambda>v. vt_NewString V (vt_AsString V v)) vs)"
  using str_codec.encode_drain [of Z V vs] assms by blast

definition snappy_sample :: snappy_ops where
  "snappy_sample = \<lparr>sn_Encode = (\<lambda>b. b @ [0]), sn_Decode = (\<lambda>b. if b = [] then None else Some (butlast b))\<rparr>"

theorem StringEncoder_roundtrip_witness:
  "\<exists>bs d. StringEncoder_Bytes snappy_sample (fold (\<lambda>v. snd \<circ> StringEncoder_Write sample_variant v)
              [SString [1, 2, 3, 4], SString [5], SString [1, 2, 3, 4]] NewStringEncoder) = Some bs \<and>
     StringDecoder_SetBytes snappy_sample bs NewStringDecoder = Some d \<and>
     drain StringDecoder_Next (StringDecoder_Read sample_variant) (Suc (Suc (Suc (Suc 0)))) d
       = Some [SString [1, 2, 3, 4], SString [5], SString [1, 2, 3, 4]]"
proof -
  have "snappy_law snappy_sample" by (simp add: snappy_law_def snappy_sample_def)
  then show ?thesis
    using StringEncoder_roundtrip [of snappy_sample sample_variant "[SString [1, 2, 3, 4], SString [5], SString [1, 2, 3, 4]]"]
    by (simp add: snappy_sample_def put_uvarint.simps)
qed

text \<open>The size the encoder compares with the snappy size is exactly the size of the dictionary
  encoding it would emit.\<close>

theorem dictEncodedLen_correct: "dictEncodedLen e = length (encodeDict e)"
  by (rule dictEncodedLen_exact)

end
