(* ===== verification/Json_Codec.thy ===== *)
theory Json_Codec
  imports Codec
begin

text \<open>
  The fallback codec of \<^verbatim>\<open>tsdb/segment_compression_json.go\<close>: marshalled variants with 32-bit length
  prefixes, compressed with LZ4 (a parameter).
\<close>

section \<open>The external \<^verbatim>\<open>lz4\<close> package\<close>

record lz4_ops =
  lz_Compress :: "bytes \<Rightarrow> bytes option"
  lz_Decompress :: "bytes \<Rightarrow> bytes option"

text \<open>Compressing to a buffer succeeds with a non-empty frame, and decompressing it restores the input.\<close>

definition lz4_law :: "lz4_ops \<Rightarrow> bool" where
  "lz4_law L \<longleftrightarrow> (\<forall>b. \<exists>c. lz_Compress L b = Some c \<and> c \<noteq> [] \<and> lz_Decompress L c = Some b)"

section \<open>The encoder\<close>

record 'v JsonEncoder =
  je_list :: "'v list"

definition NewJsonEncoder :: "'v JsonEncoder" where
  "NewJsonEncoder = \<lparr>je_list = []\<rparr>"

definition JsonEncoder_Write :: "'v \<Rightarrow> 'v JsonEncoder \<Rightarrow> bool \<times> 'v JsonEncoder" where
  "JsonEncoder_Write v j = (True, j\<lparr>je_list := je_list j @ [v]\<rparr>)"

definition JsonEncoder_Reset :: "'v JsonEncoder \<Rightarrow> 'v JsonEncoder" where
  "JsonEncoder_Reset j = j\<lparr>je_list := []\<rparr>"

fun json_raw_items :: "'v variant_ops \<Rightarrow> 'v list \<Rightarrow> bytes option" where
  "json_raw_items V [] = Some []"
| "json_raw_items V (v # vs) =
     (case vt_MarshalBinary V v of
        None \<Rightarrow> None
      | Some data \<Rightarrow> map_option (\<lambda>r. le_put 4 (of_nat (length data) :: u32) @ data @ r) (json_raw_items V vs))"

definition JsonEncoder_Bytes :: "lz4_ops \<Rightarrow> 'v variant_ops \<Rightarrow> 'v JsonEncoder \<Rightarrow> bytes option" where
  "JsonEncoder_Bytes L V j =
     (case json_raw_items V (je_list j) of
        None \<Rightarrow> None
      | Some items \<Rightarrow>
          map_option (\<lambda>c. jsonCompressed # c)
            (lz_Compress L (le_put 4 (of_nat (length (je_list j)) :: u32) @ items)))"

section \<open>The decoder\<close>

record 'v JsonDecoder =
  jd_list :: "'v list"
  jd_i :: int
  jd_err :: bool

definition NewJsonDecoder :: "'v JsonDecoder" where
  "NewJsonDecoder = \<lparr>jd_list = [], jd_i = 0, jd_err = False\<rparr>"

text \<open>The loop over the entries; on an error the entries read so far stay in the list.\<close>

primrec json_items :: "'v variant_ops \<Rightarrow> nat \<Rightarrow> bytes \<Rightarrow> nat \<Rightarrow> 'v list \<Rightarrow> 'v list \<times> bool" where
  "json_items V 0 data pos acc = (acc, False)"
| "json_items V (Suc c) data pos acc =
     (if pos + 4 > length data then (acc, True)
      else
        (let itemLen = unat (le_get (take 4 (drop pos data)) :: u32); p = pos + 4 in
         if p + itemLen > length data then (acc, True)
         else
           (case vt_UnmarshalBinary V (take itemLen (drop p data)) of
              None \<Rightarrow> (acc, True)
            | Some (v, _) \<Rightarrow> json_items V c data (p + itemLen) (acc @ [v]))))"

definition JsonDecoder_SetBytes :: "lz4_ops \<Rightarrow> 'v variant_ops \<Rightarrow> bytes \<Rightarrow> 'v JsonDecoder \<Rightarrow> 'v JsonDecoder" where
  "JsonDecoder_SetBytes L V b j =
     (if length b \<le> 1 \<or> b ! 0 \<noteq> jsonCompressed then j
      else
        (case lz_Decompress L (drop 1 b) of
           None \<Rightarrow> j\<lparr>jd_err := True\<rparr>
         | Some data \<Rightarrow>
             if length data < 4 then j
             else
               (let count = unat (le_get (take 4 data) :: u32);
                    (vs, bad) = json_items V count data 4 []
                in if bad then j\<lparr>jd_list := vs, jd_err := True\<rparr> else j\<lparr>jd_list := vs, jd_i := -1\<rparr>)))"

definition JsonDecoder_Next :: "'v JsonDecoder \<Rightarrow> bool \<times> 'v JsonDecoder" where
  "JsonDecoder_Next j =
     (if jd_err j then (False, j)
      else (let j' = j\<lparr>jd_i := jd_i j + 1\<rparr> in (jd_i j' < int (length (jd_list j')), j')))"

definition JsonDecoder_Read :: "'v JsonDecoder \<Rightarrow> ('v \<times> 'v JsonDecoder) option" where
  "JsonDecoder_Read j =
     (if jd_i j < 0 \<or> jd_i j \<ge> int (length (jd_list j)) then None else Some (jd_list j ! nat (jd_i j), j))"

section \<open>The round trip\<close>

abbreviation json_ok :: "'v variant_ops \<Rightarrow> 'v list \<Rightarrow> bool" where
  "json_ok V vs \<equiv> variant_binary_law V \<and> length vs < 2 ^ 32 \<and>
     list_all (\<lambda>v. \<exists>d. vt_MarshalBinary V v = Some d \<and> length d < 2 ^ 32) vs"

lemma json_items_spec:
  assumes "variant_binary_law V" "list_all (\<lambda>v. \<exists>d. vt_MarshalBinary V v = Some d \<and> length d < 2 ^ 32) vs"
    "json_raw_items V vs = Some items" "drop pos data = items" "pos \<le> length data"
  shows "json_items V (length vs) data pos acc = (acc @ vs, False)"
  using assms(2-)
proof (induction vs arbitrary: items pos acc)
  case (Cons v vs)
  obtain d where d: "vt_MarshalBinary V v = Some d" "length d < 2 ^ 32" using Cons.prems(1) by auto
  then obtain rest where rest: "json_raw_items V vs = Some rest"
      "drop pos data = le_put 4 (of_nat (length d) :: u32) @ d @ rest"
    using Cons.prems by auto
  have len: "length data = pos + 4 + length d + length rest"
    using arg_cong [OF rest(2), of length] Cons.prems(4) by simp
  have n: "unat (le_get (take 4 (drop pos data)) :: u32) = length d"
    using rest(2) d(2) by (simp add: le_get_put_full unat_of_nat_u32)
  have d4: "drop (pos + 4) data = d @ rest"
    using rest(2) drop_drop [of 4 pos data] by (simp add: add.commute)
  then have d5: "drop (pos + 4 + length d) data = rest"
    using drop_drop [of "length d" "pos + 4" data] by (simp add: add.commute)
  have "vt_UnmarshalBinary V d = Some (v, length d)" using assms(1) d(1) by (simp add: variant_binary_law_def)
  then show ?case
    using Cons.IH [OF _ rest(1) d5, of "acc @ [v]"] Cons.prems(1) len n d4 by (simp add: Let_def)
qed simp

lemma json_raw_items_ok:
  "list_all (\<lambda>v. \<exists>d. vt_MarshalBinary V v = Some d \<and> length d < 2 ^ 32) vs \<Longrightarrow> \<exists>items. json_raw_items V vs = Some items"
  by (induction vs) auto

definition json_stream :: "'v JsonDecoder \<Rightarrow> 'v list \<Rightarrow> bool" where
  "json_stream d vs \<longleftrightarrow> \<not> jd_err d \<and> -1 \<le> jd_i d \<and> vs = drop (nat (jd_i d + 1)) (jd_list d)"

lemma json_stream_Cons:
  assumes "json_stream d (v # vs)"
  shows "\<exists>d' d''. JsonDecoder_Next d = (True, d') \<and> JsonDecoder_Read d' = Some (v, d'') \<and> json_stream d'' vs"
proof -
  let ?i = "nat (jd_i d + 1)"
  have s: "\<not> jd_err d" "-1 \<le> jd_i d" "v # vs = drop ?i (jd_list d)" using assms by (auto simp: json_stream_def)
  then have i: "?i < length (jd_list d)" by (metis drop_all list.distinct(1) not_less)
  then have "v = jd_list d ! ?i" "vs = drop (Suc ?i) (jd_list d)" using s(3) by (metis Cons_nth_drop_Suc list.inject)+
  moreover have "nat (jd_i d + 1 + 1) = Suc ?i" "jd_i d + 1 < int (length (jd_list d))" using s(2) i by auto
  ultimately show ?thesis using s
    by (simp add: JsonDecoder_Next_def JsonDecoder_Read_def json_stream_def Let_def)
qed

lemma JsonEncoder_Bytes_stream:
  assumes law: "lz4_law L" and ok: "json_ok V vs" and e: "je_list e = vs"
  shows "\<exists>bs. JsonEncoder_Bytes L V e = Some bs \<and> json_stream (JsonDecoder_SetBytes L V bs NewJsonDecoder) vs"
proof -
  obtain items where items: "json_raw_items V vs = Some items" using json_raw_items_ok ok by blast
  let ?data = "le_put 4 (of_nat (length vs) :: u32) @ items"
  obtain c where c: "lz_Compress L ?data = Some c" "c \<noteq> []" "lz_Decompress L c = Some ?data"
    using law unfolding lz4_law_def by blast
  have "json_items V (length vs) ?data 4 [] = ([] @ vs, False)"
    using ok items by (intro json_items_spec) simp_all
  moreover have "unat (le_get (take 4 ?data) :: u32) = length vs"
    using ok by (simp add: le_get_put_full unat_of_nat_u32)
  ultimately have "JsonDecoder_SetBytes L V (jsonCompressed # c) NewJsonDecoder = \<lparr>jd_list = vs, jd_i = -1, jd_err = False\<rparr>"
    using c by (simp add: JsonDecoder_SetBytes_def NewJsonDecoder_def Let_def Suc_le_eq)
  then show ?thesis using items c e by (simp add: JsonEncoder_Bytes_def json_stream_def)
qed

lemma JsonEncoder_fold: "je_list (fold (\<lambda>v. snd \<circ> JsonEncoder_Write v) vs e) = je_list e @ vs"
  by (induction vs arbitrary: e) (simp_all add: JsonEncoder_Write_def)

interpretation json_codec: value_codec JsonDecoder_Next JsonDecoder_Read json_stream
  NewJsonEncoder "\<lambda>v. snd \<circ> JsonEncoder_Write v" "JsonEncoder_Bytes L V"
  "\<lambda>bs. Some (JsonDecoder_SetBytes L V bs NewJsonDecoder)" "\<lambda>v. v" "\<lambda>vs. lz4_law L \<and> json_ok V vs"
  for L :: lz4_ops and V :: "'v variant_ops"
proof
  fix d :: "'v JsonDecoder" and v and vs :: "'v list"
  show "json_stream d [] \<Longrightarrow> \<not> fst (JsonDecoder_Next d)"
    by (auto simp: json_stream_def JsonDecoder_Next_def Let_def)
  show "json_stream d (v # vs) \<Longrightarrow>
      \<exists>d' d''. JsonDecoder_Next d = (True, d') \<and> JsonDecoder_Read d' = Some (v, d'') \<and> json_stream d'' vs"
    by (rule json_stream_Cons)
  assume "lz4_law L \<and> json_ok V vs"
  then show "\<exists>bs d. JsonEncoder_Bytes L V (fold (\<lambda>v. snd \<circ> JsonEncoder_Write v) vs NewJsonEncoder) = Some bs \<and>
      Some (JsonDecoder_SetBytes L V bs NewJsonDecoder) = Some d \<and> json_stream d (map (\<lambda>v. v) vs)"
    using JsonEncoder_Bytes_stream [of L V vs "fold (\<lambda>v. snd \<circ> JsonEncoder_Write v) vs NewJsonEncoder"]
      JsonEncoder_fold [of vs NewJsonEncoder] by (simp add: NewJsonEncoder_def)
qed

text \<open>Values written to the fallback codec are read back unchanged and in order, given that
  LZ4 and the variant's binary form are reversible, for fewer than \<open>2 ^ 32\<close> values of fewer than
  \<open>2 ^ 32\<close> bytes each (the widths of the prefixes).\<close>

theorem JsonEncoder_roundtrip:
  assumes "lz4_law L" "variant_binary_law V" "length vs < 2 ^ 32"
    "list_all (\<lambda>v. \<exists>d. vt_MarshalBinary V v = Some d \<and> length d < 2 ^ 32) vs"
  shows "\<exists>bs. JsonEncoder_Bytes L V (fold (\<lambda>v. snd \<circ> JsonEncoder_Write v) vs NewJsonEncoder) = Some bs \<and>
           drain JsonDecoder_Next JsonDecoder_Read (Suc (length vs)) (JsonDecoder_SetBytes L V bs NewJsonDecoder) = Some vs"
  using json_codec.encode_drain [of L V vs] assms by auto

definition lz4_sample :: lz4_ops where
  "lz4_sample = \<lparr>lz_Compress = (\<lambda>b. Some (4 # b)), lz_Decompress = (\<lambda>b. case b of [] \<Rightarrow> None | _ # r \<Rightarrow> Some r)\<rparr>"

theorem JsonEncoder_roundtrip_witness:
  "\<exists>bs. JsonEncoder_Bytes lz4_sample sample_variant
            (fold (\<lambda>v. snd \<circ> JsonEncoder_Write v) [SEmpty, SString [7]] NewJsonEncoder) = Some bs \<and>
     drain JsonDecoder_Next JsonDecoder_Read (Suc (Suc (Suc 0)))
       (JsonDecoder_SetBytes lz4_sample sample_variant bs NewJsonDecoder) = Some [SEmpty, SString [7]]"
proof -
  have "lz4_law lz4_sample" by (simp add: lz4_law_def lz4_sample_def)
  then show ?thesis
    using JsonEncoder_roundtrip [OF _ sample_variant_law, of lz4_sample "[SEmpty, SString [7]]"]
    by (simp add: sample_marshal_def)
qed

end
