(* ===== verification/Block_File.thy ===== *)
theory Block_File
  imports Prelude
begin

text \<open>
  The compressed file layer of \<^verbatim>\<open>tsdb/block_file.go\<close> at the level of bytes on disk: a 39-byte header,
  length-prefixed compressed blocks, and an index of 32-byte entries behind the last block.  The model
  keeps the operating-system file as its bytes and its offset; operating-system calls on an open file
  succeed (a seek or truncation to a negative offset is the one error they report), and buffers that only
  save allocations are left out.  Each operation returns its error and the state it leaves behind.
\<close>

section \<open>Block compressors\<close>

text \<open>The interface \<^verbatim>\<open>BlockCompressor\<close>; the contract is what the file layer relies on.\<close>

record compressor =
  bc_Encode :: "bytes \<Rightarrow> bytes"
  bc_Decode :: "bytes \<Rightarrow> bytes option"

locale block_compressor =
  fixes c :: compressor
  assumes decode_encode: "length raw < 2 ^ 31 \<Longrightarrow> bc_Decode c (bc_Encode c raw) = Some raw"
    and encode_nonempty: "raw \<noteq> [] \<Longrightarrow> bc_Encode c raw \<noteq> []"
    and encode_small: "length raw < 2 ^ 31 \<Longrightarrow> length (bc_Encode c raw) < 2 ^ 32"

definition NoCompressor :: compressor where
  "NoCompressor = \<lparr>bc_Encode = (\<lambda>src. [] @ src), bc_Decode = (\<lambda>src. Some ([] @ src))\<rparr>"

interpretation no_compressor: block_compressor NoCompressor
  by unfold_locales (simp_all add: NoCompressor_def)

section \<open>The operating-system file\<close>

text \<open>Writing past the end fills the gap with zeros, as does extending by truncation.\<close>

definition fput :: "nat \<Rightarrow> bytes \<Rightarrow> bytes \<Rightarrow> bytes" where
  "fput pos d f = take pos f @ replicate (pos - length f) 0 @ d @ drop (pos + length d) f"

definition ftruncate :: "nat \<Rightarrow> bytes \<Rightarrow> bytes" where
  "ftruncate n f = take n f @ replicate (n - length f) 0"

text \<open>\<^verbatim>\<open>io.ReadFull\<close> and \<^verbatim>\<open>binary.Read\<close> of \<open>n\<close> bytes at an offset; \<open>None\<close> when the file ends first.\<close>

definition fread :: "nat \<Rightarrow> nat \<Rightarrow> bytes \<Rightarrow> bytes option" where
  "fread pos n f = (if pos + n \<le> length f then Some (take n (drop pos f)) else None)"

section \<open>Header and index entries\<close>

record FileHeader =
  fh_Magic :: u32
  fh_Version :: byte
  fh_TxState :: byte
  fh_CodecID :: byte
  fh_BlockSize :: u32
  fh_TotalSize :: int
  fh_DataEnd :: int
  fh_IndexOffset :: int
  fh_HeaderCrc :: u32

record IndexEntry =
  ix_RawOff :: int
  ix_CompOff :: int
  ix_CompLen :: int
  ix_Crc32 :: u32

definition Magic :: u32 where "Magic = 0x434C424B"
definition Version :: byte where "Version = 1"
definition HeaderSize :: nat where "HeaderSize = 39"
definition BlockSizeDef :: nat where "BlockSizeDef = 64 * 1024"
definition TxDone :: byte where "TxDone = 0"
definition TxActive :: byte where "TxActive = 1"

text \<open>\<^verbatim>\<open>binary.Write\<close> and \<^verbatim>\<open>binary.Read\<close> with \<^verbatim>\<open>LittleEndian\<close>: fields in order, no padding.\<close>

definition put_int64 :: "int \<Rightarrow> bytes" where
  "put_int64 x = le_put 8 (of_int x :: u64)"

definition get_int64 :: "bytes \<Rightarrow> int" where
  "get_int64 b = sint (le_get b :: u64)"

definition encode_header :: "FileHeader \<Rightarrow> bytes" where
  "encode_header h =
     le_put 4 (fh_Magic h) @ [fh_Version h, fh_TxState h, fh_CodecID h] @ le_put 4 (fh_BlockSize h)
       @ put_int64 (fh_TotalSize h) @ put_int64 (fh_DataEnd h) @ put_int64 (fh_IndexOffset h)
       @ le_put 4 (fh_HeaderCrc h)"

definition decode_header :: "bytes \<Rightarrow> FileHeader" where
  "decode_header b =
     \<lparr>fh_Magic = le_get (take 4 b), fh_Version = b ! 4, fh_TxState = b ! 5, fh_CodecID = b ! 6,
      fh_BlockSize = le_get (take 4 (drop 7 b)), fh_TotalSize = get_int64 (take 8 (drop 11 b)),
      fh_DataEnd = get_int64 (take 8 (drop 19 b)), fh_IndexOffset = get_int64 (take 8 (drop 27 b)),
      fh_HeaderCrc = le_get (take 4 (drop 35 b))\<rparr>"

text \<open>The blank trailing field of an entry is written as zero and skipped on reading.\<close>

definition encode_entry :: "IndexEntry \<Rightarrow> bytes" where
  "encode_entry e =
     put_int64 (ix_RawOff e) @ put_int64 (ix_CompOff e) @ put_int64 (ix_CompLen e)
       @ le_put 4 (ix_Crc32 e) @ le_put 4 (0 :: u32)"

definition decode_entry :: "bytes \<Rightarrow> IndexEntry" where
  "decode_entry b =
     \<lparr>ix_RawOff = get_int64 (take 8 b), ix_CompOff = get_int64 (take 8 (drop 8 b)),
      ix_CompLen = get_int64 (take 8 (drop 16 b)), ix_Crc32 = le_get (take 4 (drop 24 b))\<rparr>"

section \<open>The file object\<close>

datatype bf_error =
    ErrClosed | ErrEOF | ErrUnexpectedEOF | ErrInvalidFileFormat | ErrInvalidSeekMode | ErrNegativePosition
  | ErrInvalidTruncationPoint | ErrBlockCRCMismatch | ErrDecode | ErrInvalidOffset | ErrPanic

record BlockFile =
  bf_file :: bytes
  bf_offset :: int
  bf_compressor :: compressor
  bf_header :: FileHeader
  bf_blockSize :: nat
  bf_buf :: bytes
  bf_pos :: int
  bf_totalSize :: int
  bf_index :: "IndexEntry list"
  bf_dataWritePos :: int
  bf_lastPhysicalPos :: int
  bf_closed :: bool

definition writeHeader :: "BlockFile \<Rightarrow> BlockFile" where
  "writeHeader b =
     b\<lparr>bf_lastPhysicalPos := -1, bf_file := fput 0 (encode_header (bf_header b)) (bf_file b),
       bf_offset := int HeaderSize\<rparr>"

definition initNew :: "BlockFile \<Rightarrow> BlockFile" where
  "initNew b =
     writeHeader (b\<lparr>bf_header := \<lparr>fh_Magic = Magic, fh_Version = Version, fh_TxState = TxDone, fh_CodecID = 0,
                                  fh_BlockSize = of_nat (bf_blockSize b), fh_TotalSize = 0,
                                  fh_DataEnd = int HeaderSize, fh_IndexOffset = 0, fh_HeaderCrc = 0\<rparr>,
                    bf_dataWritePos := int HeaderSize, bf_pos := 0\<rparr>)"

definition markActive :: "BlockFile \<Rightarrow> BlockFile" where
  "markActive b = writeHeader (b\<lparr>bf_header := (bf_header b)\<lparr>fh_TxState := TxActive\<rparr>\<rparr>)"

text \<open>A block on disk: the 32-bit length of the compressed bytes, then the bytes.\<close>

definition block_frame :: "compressor \<Rightarrow> bytes \<Rightarrow> bytes" where
  "block_frame c raw = (let encoded = bc_Encode c raw in le_put 4 (of_nat (length encoded) :: u32) @ encoded)"

definition flushBlock :: "BlockFile \<Rightarrow> bf_error option \<times> BlockFile" where
  "flushBlock b =
     (if bf_buf b = [] then (None, b)
      else if bf_dataWritePos b < 0 then (Some ErrInvalidOffset, b\<lparr>bf_lastPhysicalPos := -1\<rparr>)
      else
        (let frame = block_frame (bf_compressor b) (bf_buf b);
             nowPos = bf_dataWritePos b + int (length frame);
             ent = \<lparr>ix_RawOff = fh_TotalSize (bf_header b), ix_CompOff = bf_dataWritePos b,
                    ix_CompLen = nowPos - bf_dataWritePos b, ix_Crc32 = crc32_ieee (bf_buf b)\<rparr>;
             h = (bf_header b)\<lparr>fh_TotalSize := fh_TotalSize (bf_header b) + int (length (bf_buf b)),
                               fh_DataEnd := nowPos\<rparr>
         in (None, b\<lparr>bf_lastPhysicalPos := -1, bf_file := fput (nat (bf_dataWritePos b)) frame (bf_file b),
                     bf_offset := nowPos, bf_index := bf_index b @ [ent], bf_header := h,
                     bf_dataWritePos := nowPos, bf_buf := []\<rparr>)))"

text \<open>The loop of \<^verbatim>\<open>Write\<close>; the outer \<open>None\<close> is a loop that never ends, which needs a block size of 0.\<close>

function write_loop :: "bool \<Rightarrow> bytes \<Rightarrow> BlockFile \<Rightarrow> (bf_error option \<times> bytes \<times> BlockFile) option" where
  "write_loop firstWrite p b =
     (if p = [] then Some (None, p, b)
      else if bf_blockSize b = 0 then None
      else if bf_blockSize b \<le> length (bf_buf b) then
        (let b1 = (if firstWrite then b\<lparr>bf_header := (bf_header b)\<lparr>fh_TxState := TxActive\<rparr>\<rparr> else b);
             (err, b2) = flushBlock b1
         in case err of
              Some e \<Rightarrow> Some (Some e, p, b2)
            | None \<Rightarrow> write_loop False p (if firstWrite then writeHeader b2 else b2))
      else
        (let n = min (bf_blockSize b - length (bf_buf b)) (length p)
         in write_loop firstWrite (drop n p) (b\<lparr>bf_buf := bf_buf b @ take n p\<rparr>)))"
  by pat_completeness auto

lemma flushBlock_buf: "flushBlock b = (None, b') \<Longrightarrow> bf_buf b' = [] \<and> bf_blockSize b' = bf_blockSize b"
  by (auto simp: flushBlock_def Let_def split: if_splits)

lemma writeHeader_buf [simp]: "bf_buf (writeHeader b) = bf_buf b" "bf_blockSize (writeHeader b) = bf_blockSize b"
  by (simp_all add: writeHeader_def)

termination write_loop
  by (relation "measures [\<lambda>(w, p, b). length p, \<lambda>(w, p, b). length (bf_buf b)]")
    (auto dest!: flushBlock_buf [OF sym] split: if_splits)

declare write_loop.simps [simp del]

definition Write :: "bytes \<Rightarrow> BlockFile \<Rightarrow> (bf_error option \<times> nat \<times> BlockFile) option" where
  "Write p b =
     (if bf_closed b then Some (Some ErrClosed, 0, b)
      else
        (case write_loop (fh_TxState (bf_header b) = TxDone) p b of
           None \<Rightarrow> None
         | Some (Some e, rest, b') \<Rightarrow> Some (Some e, length p - length rest, b')
         | Some (None, rest, b') \<Rightarrow>
             (let t = bf_totalSize b' + int (length p)
              in Some (None, length p, b'\<lparr>bf_totalSize := t, bf_pos := t\<rparr>))))"

definition Sync :: "BlockFile \<Rightarrow> bf_error option \<times> BlockFile" where
  "Sync b =
     (if bf_closed b then (Some ErrClosed, b)
      else if fh_TxState (bf_header b) = TxDone \<and> bf_buf b \<noteq> [] then
        (case flushBlock (b\<lparr>bf_header := (bf_header b)\<lparr>fh_TxState := TxActive\<rparr>\<rparr>) of
           (Some e, b') \<Rightarrow> (Some e, b')
         | (None, b') \<Rightarrow> (None, writeHeader b'))
      else flushBlock b)"

definition index_bytes :: "IndexEntry list \<Rightarrow> bytes" where
  "index_bytes es = le_put 4 (of_nat (length es) :: u32) @ concat (map encode_entry es)"

definition writeIndexLocked :: "BlockFile \<Rightarrow> bf_error option \<times> BlockFile" where
  "writeIndexLocked b =
     (let e = fh_DataEnd (bf_header b) in
      if e < 0 then (Some ErrInvalidOffset, b)
      else (None, writeHeader (b\<lparr>bf_file := fput (nat e) (index_bytes (bf_index b)) (bf_file b),
                                 bf_header := (bf_header b)\<lparr>fh_IndexOffset := e, fh_TxState := TxDone\<rparr>\<rparr>)))"

definition Commit :: "BlockFile \<Rightarrow> bf_error option \<times> BlockFile" where
  "Commit b =
     (if bf_closed b then (Some ErrClosed, b)
      else (case flushBlock b of (Some e, b') \<Rightarrow> (Some e, b') | (None, b') \<Rightarrow> writeIndexLocked b'))"

definition Close :: "BlockFile \<Rightarrow> bf_error option \<times> BlockFile" where
  "Close b =
     (if bf_closed b then (None, b)
      else (case flushBlock (b\<lparr>bf_closed := True\<rparr>) of
              (Some e, b') \<Rightarrow> (Some e, b') | (None, b') \<Rightarrow> writeIndexLocked b'))"

definition Drop :: "BlockFile \<Rightarrow> bf_error option \<times> BlockFile" where
  "Drop b = (None, b\<lparr>bf_closed := True\<rparr>)"

definition bf_Size :: "BlockFile \<Rightarrow> int" where
  "bf_Size b = bf_totalSize b"

definition PhysicalSize :: "BlockFile \<Rightarrow> int" where
  "PhysicalSize b = fh_DataEnd (bf_header b) - int HeaderSize"

datatype whence = SeekStart | SeekCurrent | SeekEnd | SeekOther

definition bf_Seek :: "int \<Rightarrow> whence \<Rightarrow> BlockFile \<Rightarrow> (bf_error + int) \<times> BlockFile" where
  "bf_Seek offset wh b =
     (if bf_closed b then (Inl ErrClosed, b)
      else
        (let go = (\<lambda>newPos. if newPos < 0 then (Inl ErrNegativePosition, b) else (Inr newPos, b\<lparr>bf_pos := newPos\<rparr>))
         in case wh of
              SeekStart \<Rightarrow> go offset
            | SeekCurrent \<Rightarrow> go (bf_pos b + offset)
            | SeekEnd \<Rightarrow> go (bf_totalSize b + offset)
            | SeekOther \<Rightarrow> (Inl ErrInvalidSeekMode, b)))"

section \<open>Reading\<close>

text \<open>The binary search: \<open>lo\<close> and \<open>hi\<close> are \<^verbatim>\<open>int\<close>s, \<open>hi\<close> may go to \<open>- 1\<close>.\<close>

function find_loop :: "IndexEntry list \<Rightarrow> int \<Rightarrow> int \<Rightarrow> int \<Rightarrow> int" where
  "find_loop index off lo hi =
     (if lo \<le> hi then
        (let mid = (lo + hi) div 2
         in if ix_RawOff (index ! nat mid) \<le> off then find_loop index off (mid + 1) hi
            else find_loop index off lo (mid - 1))
      else hi)"
  by pat_completeness auto
termination
  by (relation "measure (\<lambda>(i, x, lo, hi). nat (hi - lo + 1))") auto

declare find_loop.simps [simp del]

definition findBlock :: "BlockFile \<Rightarrow> int \<Rightarrow> int" where
  "findBlock b off = find_loop (bf_index b) off 0 (int (length (bf_index b)) - 1)"

text \<open>\<^verbatim>\<open>blockData\<close> skips the seek when the file offset is believed to be at the block already.  The
  specialised decoders of its type switch compute what the compressor's own \<^verbatim>\<open>Decode\<close> computes.\<close>

definition blockData :: "int \<Rightarrow> BlockFile \<Rightarrow> (bf_error + bytes \<times> int) \<times> BlockFile" where
  "blockData off b =
     (let i = findBlock b off in
      if i < 0 \<or> i \<ge> int (length (bf_index b)) then (Inl ErrEOF, b)
      else
        (let ent = bf_index b ! nat i;
             target = ix_CompOff ent + 4;
             at = (if bf_lastPhysicalPos b \<noteq> target then target else bf_offset b);
             need = ix_CompLen ent - 4
         in if at < 0 then (Inl ErrInvalidOffset, b)
            else if need < 0 then (Inl ErrPanic, b\<lparr>bf_offset := at\<rparr>)
            else
              (case fread (nat at) (nat need) (bf_file b) of
                 None \<Rightarrow> (Inl (if nat at \<ge> length (bf_file b) then ErrEOF else ErrUnexpectedEOF),
                          b\<lparr>bf_offset := max at (int (length (bf_file b)))\<rparr>)
               | Some rBuf \<Rightarrow>
                   (let b1 = b\<lparr>bf_offset := at + need, bf_lastPhysicalPos := ix_CompOff ent + ix_CompLen ent\<rparr>
                    in case bc_Decode (bf_compressor b) rBuf of
                         None \<Rightarrow> (Inl ErrDecode, b1)
                       | Some decoded \<Rightarrow>
                           if ix_Crc32 ent \<noteq> 0 \<and> crc32_ieee decoded \<noteq> ix_Crc32 ent
                           then (Inl ErrBlockCRCMismatch, b1)
                           else (Inr (decoded, ix_RawOff ent), b1)))))"

text \<open>The loop of \<^verbatim>\<open>readAt\<close> over a destination of \<open>n\<close> bytes, \<open>got\<close> the bytes copied so far.  An index whose
  offsets do not match its blocks can make the loop run forever, so the loop has fuel: the outer \<open>None\<close> is
  running out of it.\<close>

primrec readAt_loop :: "nat \<Rightarrow> nat \<Rightarrow> int \<Rightarrow> bytes \<Rightarrow> BlockFile \<Rightarrow> ((bf_error option \<times> bytes) \<times> int \<times> BlockFile) option" where
  "readAt_loop 0 n off got b = None"
| "readAt_loop (Suc fuel) n off got b =
     (let bufStart = bf_totalSize b - int (length (bf_buf b)) in
      if \<not> (length got < n \<and> off < bf_totalSize b) then Some ((None, got), off, b)
      else if bf_buf b \<noteq> [] \<and> off \<ge> bufStart then
        (let d = take (n - length got) (drop (nat (off - bufStart)) (bf_buf b))
         in Some ((None, got @ d), off + int (length d), b))
      else
        (case blockData off b of
           (Inl e, b') \<Rightarrow> Some ((Some e, got), off, b')
         | (Inr (data, rawOff), b') \<Rightarrow>
             if off - rawOff \<ge> int (length data) then readAt_loop fuel n (rawOff + int (length data)) got b'
             else
               (let d = take (n - length got) (drop (nat (off - rawOff)) data)
                in readAt_loop fuel n (off + int (length d)) (got @ d) b')))"

definition readAt :: "nat \<Rightarrow> nat \<Rightarrow> int \<Rightarrow> BlockFile \<Rightarrow> ((bf_error option \<times> bytes) \<times> BlockFile) option" where
  "readAt fuel n off b =
     (if bf_index b = [] \<and> bf_buf b = [] then Some ((Some ErrEOF, []), b)
      else
        (case readAt_loop fuel n off [] b of
           None \<Rightarrow> None
         | Some ((Some e, got), off', b') \<Rightarrow> Some ((Some e, got), b')
         | Some ((None, got), off', b') \<Rightarrow>
             if got = [] \<and> off' \<ge> bf_totalSize b' then Some ((Some ErrEOF, []), b') else Some ((None, got), b')))"

definition bf_Read :: "nat \<Rightarrow> nat \<Rightarrow> BlockFile \<Rightarrow> ((bf_error option \<times> bytes) \<times> BlockFile) option" where
  "bf_Read fuel n b =
     (if bf_closed b then Some ((Some ErrClosed, []), b)
      else if bf_pos b \<ge> bf_totalSize b then Some ((Some ErrEOF, []), b)
      else map_option (\<lambda>((err, got), b'). ((err, got), b'\<lparr>bf_pos := bf_pos b' + int (length got)\<rparr>))
             (readAt fuel n (bf_pos b) b))"

definition ReadBlockFrom :: "int \<Rightarrow> BlockFile \<Rightarrow> (bf_error + bytes) \<times> BlockFile" where
  "ReadBlockFrom off b =
     (case blockData off b of
        (Inl e, b') \<Rightarrow> (Inl e, b')
      | (Inr (data, rawOff), b') \<Rightarrow>
          if off - rawOff < 0 \<or> off - rawOff > int (length data) then (Inl ErrPanic, b')
          else (Inr (drop (nat (off - rawOff)) data), b'))"

section \<open>Recovery and opening\<close>

text \<open>\<^verbatim>\<open>rebuildIndex\<close> walks the blocks from the header to \<^verbatim>\<open>DataEnd\<close>; its first result says whether it failed.\<close>

function rebuild_loop :: "nat \<Rightarrow> int \<Rightarrow> BlockFile \<Rightarrow> bool \<times> nat \<times> int \<times> BlockFile" where
  "rebuild_loop pos rawOff b =
     (if int pos < fh_DataEnd (bf_header b) then
        (case fread pos 4 (bf_file b) of
           None \<Rightarrow> (True, pos, rawOff, b)
         | Some l4 \<Rightarrow>
             (let blockLen = unat (le_get l4 :: u32) in
              if blockLen = 0 \<or> int pos + 4 + int blockLen > fh_DataEnd (bf_header b) then (False, pos, rawOff, b)
              else
                (case fread (pos + 4) blockLen (bf_file b) of
                   None \<Rightarrow> (True, pos, rawOff, b)
                 | Some compressed \<Rightarrow>
                     (case bc_Decode (bf_compressor b) compressed of
                        None \<Rightarrow> (True, pos, rawOff, b)
                      | Some data \<Rightarrow>
                          rebuild_loop (pos + 4 + blockLen) (rawOff + int (length data))
                            (b\<lparr>bf_index := bf_index b @
                                [\<lparr>ix_RawOff = rawOff, ix_CompOff = int pos, ix_CompLen = 4 + int blockLen,
                                  ix_Crc32 = crc32_ieee data\<rparr>]\<rparr>)))))
      else (False, pos, rawOff, b))"
  by pat_completeness auto
termination
  by (relation "measure (\<lambda>(pos, r, b). nat (fh_DataEnd (bf_header b) - int pos))")
    (auto intro: less_le_trans [OF _ uint_ge_0])

declare rebuild_loop.simps [simp del]

definition rebuildIndex :: "BlockFile \<Rightarrow> bool \<times> BlockFile" where
  "rebuildIndex b =
     (case rebuild_loop HeaderSize 0 (b\<lparr>bf_index := []\<rparr>) of
        (True, pos, rawOff, b') \<Rightarrow> (True, b')
      | (False, pos, rawOff, b') \<Rightarrow>
          (False, b'\<lparr>bf_header := (bf_header b')\<lparr>fh_TotalSize := rawOff, fh_DataEnd := int pos\<rparr>\<rparr>))"

primrec load_entries :: "nat \<Rightarrow> nat \<Rightarrow> BlockFile \<Rightarrow> bool \<times> BlockFile" where
  "load_entries 0 pos b = (True, b)"
| "load_entries (Suc n) pos b =
     (case fread pos 32 (bf_file b) of
        None \<Rightarrow> (False, b)
      | Some e \<Rightarrow> load_entries n (pos + 32) (b\<lparr>bf_index := bf_index b @ [decode_entry e]\<rparr>))"

text \<open>What the three failure exits of the index load share: scan instead, and return at once.\<close>

definition load_failed :: "BlockFile \<Rightarrow> bf_error option \<times> BlockFile" where
  "load_failed b =
     (let b1 = snd (rebuildIndex b)
      in (None, writeHeader (b1\<lparr>bf_header := (bf_header b1)\<lparr>fh_IndexOffset := 0\<rparr>\<rparr>)))"

definition load_done :: "BlockFile \<Rightarrow> bf_error option \<times> BlockFile" where
  "load_done b =
     (None, b\<lparr>bf_dataWritePos := fh_DataEnd (bf_header b), bf_totalSize := fh_TotalSize (bf_header b), bf_pos := 0\<rparr>)"

definition loadAndRecover :: "BlockFile \<Rightarrow> bf_error option \<times> BlockFile" where
  "loadAndRecover b =
     (case fread 0 HeaderSize (bf_file b) of
        None \<Rightarrow> (Some (if bf_file b = [] then ErrEOF else ErrUnexpectedEOF), b)
      | Some hb \<Rightarrow>
          (let b1 = b\<lparr>bf_header := decode_header hb, bf_offset := int HeaderSize\<rparr>; h = bf_header b1 in
           if fh_Magic h \<noteq> Magic then (Some ErrInvalidFileFormat, b1)
           else if fh_TxState h = TxActive then
             (if fh_DataEnd h < 0 then (Some ErrInvalidOffset, b1)
              else
                (let b2 = b1\<lparr>bf_file := ftruncate (nat (fh_DataEnd h)) (bf_file b1),
                             bf_header := h\<lparr>fh_TxState := TxDone, fh_IndexOffset := 0\<rparr>\<rparr>;
                     (failed, b3) = rebuildIndex b2;
                     b4 = (if failed then b3\<lparr>bf_header := (bf_header b3)\<lparr>fh_TotalSize := 0\<rparr>\<rparr> else b3)
                 in load_done (writeHeader b4)))
           else if fh_IndexOffset h > 0 then
             (case fread (nat (fh_IndexOffset h)) 4 (bf_file b1) of
                None \<Rightarrow> load_failed b1
              | Some c4 \<Rightarrow>
                  (let (ok, b2) = load_entries (unat (le_get c4 :: u32)) (nat (fh_IndexOffset h) + 4) (b1\<lparr>bf_index := []\<rparr>)
                   in if ok then load_done b2 else load_failed b2))
           else load_done b1))"

definition new_file :: "bytes \<Rightarrow> compressor \<Rightarrow> int \<Rightarrow> BlockFile" where
  "new_file disk cmp blockSize =
     \<lparr>bf_file = disk, bf_offset = 0, bf_compressor = cmp,
      bf_header = \<lparr>fh_Magic = 0, fh_Version = 0, fh_TxState = 0, fh_CodecID = 0, fh_BlockSize = 0, fh_TotalSize = 0,
                   fh_DataEnd = 0, fh_IndexOffset = 0, fh_HeaderCrc = 0\<rparr>,
      bf_blockSize = (if blockSize \<le> 0 then BlockSizeDef else nat blockSize), bf_buf = [], bf_pos = 0,
      bf_totalSize = 0, bf_index = [], bf_dataWritePos = 0, bf_lastPhysicalPos = 0, bf_closed = False\<rparr>"

text \<open>Opening a path whose file holds the bytes \<open>disk\<close> (empty when the file was just created).\<close>

definition OpenBlockFile :: "bytes \<Rightarrow> compressor \<Rightarrow> int \<Rightarrow> bf_error + BlockFile" where
  "OpenBlockFile disk cmp blockSize =
     (case loadAndRecover (new_file disk cmp blockSize) of
        (None, b) \<Rightarrow> Inr b
      | (Some e, b) \<Rightarrow> if e = ErrEOF then Inr (initNew b) else Inl e)"

definition Rebind :: "bytes \<Rightarrow> compressor \<Rightarrow> BlockFile \<Rightarrow> bf_error option \<times> BlockFile" where
  "Rebind disk cmp b =
     (case loadAndRecover (b\<lparr>bf_file := disk, bf_offset := 0, bf_compressor := cmp, bf_buf := [], bf_index := [],
                             bf_lastPhysicalPos := -1\<rparr>) of
        (None, b') \<Rightarrow> (None, b')
      | (Some e, b') \<Rightarrow> if e = ErrEOF then (None, initNew b') else (Some e, b'))"

section \<open>Truncation\<close>

text \<open>With an empty index only buffered data is cut.\<close>

definition truncate_buffered :: "int \<Rightarrow> BlockFile \<Rightarrow> bf_error option \<times> BlockFile" where
  "truncate_buffered logicalSize b =
     (if logicalSize = 0 then
        (None, writeHeader (b\<lparr>bf_buf := [], bf_totalSize := 0, bf_pos := 0,
                              bf_header := (bf_header b)\<lparr>fh_TotalSize := 0\<rparr>\<rparr>))
      else if logicalSize \<ge> int (length (bf_buf b)) then (None, b)
      else if logicalSize < 0 then (Some ErrPanic, b)
      else (None, writeHeader (b\<lparr>bf_buf := take (nat logicalSize) (bf_buf b), bf_totalSize := logicalSize,
                                 bf_pos := logicalSize,
                                 bf_header := (bf_header b)\<lparr>fh_TotalSize := logicalSize\<rparr>\<rparr>)))"

definition truncate_all :: "BlockFile \<Rightarrow> bf_error option \<times> BlockFile" where
  "truncate_all b =
     (None, writeHeader (b\<lparr>bf_file := ftruncate HeaderSize (bf_file b), bf_index := [],
                           bf_dataWritePos := int HeaderSize,
                           bf_header := (bf_header b)\<lparr>fh_TotalSize := 0, fh_DataEnd := int HeaderSize,
                                                      fh_IndexOffset := 0, fh_TxState := TxDone\<rparr>,
                           bf_totalSize := 0, bf_pos := 0, bf_buf := [], bf_lastPhysicalPos := -1\<rparr>))"

text \<open>The block that holds the last kept byte is rewritten when only part of it is kept.\<close>

definition truncate_block :: "int \<Rightarrow> nat \<Rightarrow> bytes \<Rightarrow> BlockFile \<Rightarrow> bf_error option \<times> BlockFile" where
  "truncate_block logicalSize idx data b =
     (let ent = bf_index b ! idx; offsetInBlock = logicalSize - ix_RawOff ent in
      if offsetInBlock < int (length data) then
        (if offsetInBlock < 0 then (Some ErrPanic, b)
         else if ix_CompOff ent < 0 then (Some ErrInvalidOffset, b)
         else
           (let data' = take (nat offsetInBlock) data;
                frame = block_frame (bf_compressor b) data';
                newDataEnd = ix_CompOff ent + int (length frame);
                ent' = ent\<lparr>ix_CompLen := int (length frame), ix_Crc32 := crc32_ieee data'\<rparr>
            in (None, b\<lparr>bf_file := fput (nat (ix_CompOff ent)) frame (ftruncate (nat (ix_CompOff ent)) (bf_file b)),
                        bf_lastPhysicalPos := -1, bf_index := take (idx + 1) ((bf_index b)[idx := ent']),
                        bf_dataWritePos := newDataEnd,
                        bf_header := (bf_header b)\<lparr>fh_DataEnd := newDataEnd\<rparr>\<rparr>)))
      else
        (let newDataEnd = ix_CompOff ent + ix_CompLen ent
         in (None, b\<lparr>bf_index := take (idx + 1) (bf_index b), bf_dataWritePos := newDataEnd,
                     bf_header := (bf_header b)\<lparr>fh_DataEnd := newDataEnd\<rparr>\<rparr>)))"

text \<open>On success the file offset is set by the header write at the end, so the reads before it are not
  tracked in that case.\<close>

definition Truncate :: "int \<Rightarrow> BlockFile \<Rightarrow> bf_error option \<times> BlockFile" where
  "Truncate logicalSize b =
     (if bf_index b = [] then truncate_buffered logicalSize b
      else if logicalSize = 0 then truncate_all b
      else if logicalSize \<ge> bf_totalSize b then (None, b)
      else
        (let idx = findBlock b (logicalSize - 1) in
         if idx < 0 \<or> idx \<ge> int (length (bf_index b)) then (Some ErrInvalidTruncationPoint, b)
         else
           (let ent = bf_index b ! nat idx in
            if ix_CompOff ent + 4 < 0 then (Some ErrInvalidOffset, b)
            else if ix_CompLen ent - 4 < 0 then (Some ErrPanic, b)
            else
              (case fread (nat (ix_CompOff ent + 4)) (nat (ix_CompLen ent - 4)) (bf_file b) of
                 None \<Rightarrow> (Some (if ix_CompOff ent + 4 \<ge> int (length (bf_file b)) then ErrEOF else ErrUnexpectedEOF),
                          b\<lparr>bf_offset := max (ix_CompOff ent + 4) (int (length (bf_file b)))\<rparr>)
               | Some compressed \<Rightarrow>
                   (case bc_Decode (bf_compressor b) compressed of
                      None \<Rightarrow> (Some ErrDecode, b\<lparr>bf_offset := ix_CompOff ent + ix_CompLen ent\<rparr>)
                    | Some data \<Rightarrow>
                        (case truncate_block logicalSize (nat idx) data b of
                           (Some e, b1) \<Rightarrow> (Some e, b1)
                         | (None, b1) \<Rightarrow>
                             writeIndexLocked
                               (b1\<lparr>bf_header := (bf_header b1)\<lparr>fh_TotalSize := logicalSize, fh_IndexOffset := 0\<rparr>,
                                   bf_totalSize := logicalSize, bf_pos := min (bf_pos b1) logicalSize,
                                   bf_buf := []\<rparr>)))))))"

end
