(* ===== verification/Block_File_Spec.thy ===== *)
theory Block_File_Spec
  imports Block_File
begin

text \<open>
  What the file layer promises: a \<^verbatim>\<open>BlockFile\<close> stands for a sequence of bytes, its logical content.  The
  layout relation \<open>bf_repr\<close> ties the content to the blocks on disk, the index and the buffer; writing
  appends, reading returns slices, committing makes the content survive reopening, and recovery after a
  crash keeps a prefix of it.
\<close>

section \<open>Fixed-width records\<close>

lemma length_put_int64 [simp]: "length (put_int64 x) = 8"
  by (simp add: put_int64_def)

lemma get_put_int64: "- (2 ^ 63) \<le> x \<Longrightarrow> x < 2 ^ 63 \<Longrightarrow> get_int64 (put_int64 x) = x"
  by (simp add: get_int64_def put_int64_def le_get_put_full signed_of_int signed_take_bit_int_eq_self)

lemma length_encode_header [simp]: "length (encode_header h) = HeaderSize"
  by (simp add: encode_header_def HeaderSize_def)

lemma length_encode_entry [simp]: "length (encode_entry e) = 32"
  by (simp add: encode_entry_def)

lemma decode_encode_header_index:
  assumes "int64_range (fh_TotalSize h)" "int64_range (fh_DataEnd h)"
  shows "decode_header (encode_header h) = h\<lparr>fh_IndexOffset := get_int64 (put_int64 (fh_IndexOffset h))\<rparr>"
proof -
  let ?h = "encode_header h"
  have "take 4 ?h = le_put 4 (fh_Magic h)" "?h ! 4 = fh_Version h" "?h ! 5 = fh_TxState h" "?h ! 6 = fh_CodecID h"
    "take 4 (drop 7 ?h) = le_put 4 (fh_BlockSize h)" "take 8 (drop 11 ?h) = put_int64 (fh_TotalSize h)"
    "take 8 (drop 19 ?h) = put_int64 (fh_DataEnd h)" "take 8 (drop 27 ?h) = put_int64 (fh_IndexOffset h)"
    "take 4 (drop 35 ?h) = le_put 4 (fh_HeaderCrc h)"
    by (simp_all add: encode_header_def nth_append drop_Cons' nth_Cons')
  then show ?thesis using assms by (simp add: decode_header_def get_put_int64 le_get_put_full)
qed

lemma decode_encode_header:
  assumes "int64_range (fh_TotalSize h)" "int64_range (fh_DataEnd h)" "int64_range (fh_IndexOffset h)"
  shows "decode_header (encode_header h) = h"
  using assms by (simp add: decode_encode_header_index get_put_int64)

lemma decode_encode_entry:
  assumes "int64_range (ix_RawOff e)" "int64_range (ix_CompOff e)" "int64_range (ix_CompLen e)"
  shows "decode_entry (encode_entry e) = e"
  using assms by (simp add: decode_entry_def encode_entry_def get_put_int64 le_get_put_full)

section \<open>Writing into a file\<close>

lemma length_fput [simp]: "length (fput pos d f) = max (length f) (pos + length d)"
  by (auto simp: fput_def)

lemma fput_at: "length p = pos \<Longrightarrow> fput pos d (p @ t) = p @ d @ drop (length d) t"
  by (simp add: fput_def)

lemma fput_0: "length h = length d \<Longrightarrow> fput 0 d (h @ t) = d @ t"
  by (simp add: fput_def)

lemma fread_at: "length p = pos \<Longrightarrow> fread pos (length d) (p @ d @ t) = Some d"
  by (simp add: fread_def)

lemma ftruncate_at: "length p = n \<Longrightarrow> ftruncate n (p @ t) = p"
  by (simp add: ftruncate_def)

section \<open>The layout of a file\<close>

definition frames :: "compressor \<Rightarrow> bytes list \<Rightarrow> bytes" where
  "frames c blks = concat (map (block_frame c) blks)"

fun layout :: "compressor \<Rightarrow> nat \<Rightarrow> nat \<Rightarrow> bytes list \<Rightarrow> IndexEntry list" where
  "layout c pos raw [] = []"
| "layout c pos raw (r # rs) =
     \<lparr>ix_RawOff = int raw, ix_CompOff = int pos, ix_CompLen = int (length (block_frame c r)), ix_Crc32 = crc32_ieee r\<rparr>
       # layout c (pos + length (block_frame c r)) (raw + length r) rs"

definition disk_holds :: "compressor \<Rightarrow> bytes \<Rightarrow> bytes list \<Rightarrow> bool" where
  "disk_holds c f blks \<longleftrightarrow> (\<exists>hdr tail. f = hdr @ frames c blks @ tail \<and> length hdr = HeaderSize)"

definition blocks_ok :: "bytes list \<Rightarrow> bool" where
  "blocks_ok blks \<longleftrightarrow> list_all (\<lambda>r. r \<noteq> [] \<and> length r < 2 ^ 31) blks"

text \<open>The file object \<open>b\<close> holds the flushed blocks \<open>blks\<close>; \<open>bf_repr\<close> adds that the logical size counts them
  and what is buffered.\<close>

definition bf_core :: "BlockFile \<Rightarrow> bytes list \<Rightarrow> bool" where
  "bf_core b blks \<longleftrightarrow>
     blocks_ok blks \<and> disk_holds (bf_compressor b) (bf_file b) blks \<and>
     bf_index b = layout (bf_compressor b) HeaderSize 0 blks \<and>
     fh_Magic (bf_header b) = Magic \<and>
     fh_TotalSize (bf_header b) = int (length (concat blks)) \<and>
     fh_DataEnd (bf_header b) = int (HeaderSize + length (frames (bf_compressor b) blks)) \<and>
     bf_dataWritePos b = fh_DataEnd (bf_header b) \<and>
     0 < bf_blockSize b \<and> bf_blockSize b < 2 ^ 31 \<and> length (bf_buf b) \<le> bf_blockSize b \<and>
     (bf_lastPhysicalPos b \<le> 0 \<or> bf_offset b = bf_lastPhysicalPos b)"

definition bf_repr :: "BlockFile \<Rightarrow> bytes list \<Rightarrow> bool" where
  "bf_repr b blks \<longleftrightarrow> bf_core b blks \<and> bf_totalSize b = int (length (concat blks) + length (bf_buf b))"

text \<open>The logical content.\<close>

definition content :: "BlockFile \<Rightarrow> bytes list \<Rightarrow> bytes" where
  "content b blks = concat blks @ bf_buf b"

lemma frames_simps [simp]: "frames c [] = []" "frames c (r # rs) = block_frame c r @ frames c rs"
  "frames c (rs @ ss) = frames c rs @ frames c ss"
  by (simp_all add: frames_def)

lemma layout_append:
  "layout c pos raw (rs @ ss) = layout c pos raw rs @ layout c (pos + length (frames c rs)) (raw + length (concat rs)) ss"
  by (induction c pos raw rs rule: layout.induct) (auto simp: add.assoc)

lemma length_layout [simp]: "length (layout c pos raw rs) = length rs"
  by (induction c pos raw rs rule: layout.induct) auto

lemma nth_layout:
  "i < length rs \<Longrightarrow> layout c pos raw rs ! i =
     \<lparr>ix_RawOff = int (raw + length (concat (take i rs))), ix_CompOff = int (pos + length (frames c (take i rs))),
      ix_CompLen = int (length (block_frame c (rs ! i))), ix_Crc32 = crc32_ieee (rs ! i)\<rparr>"
  by (induction c pos raw rs arbitrary: i rule: layout.induct) (auto simp: nth_Cons' take_Cons' gr0_conv_Suc add.assoc)

lemma disk_holdsI: "f = hdr @ frames c blks @ t \<Longrightarrow> length hdr = HeaderSize \<Longrightarrow> disk_holds c f blks"
  unfolding disk_holds_def by blast

lemma disk_holdsE:
  assumes "disk_holds c f blks"
  obtains hdr t where "f = hdr @ frames c blks @ t" "length hdr = HeaderSize"
  using assms unfolding disk_holds_def by blast

lemma disk_holds_flush:
  assumes "disk_holds c f blks"
  shows "disk_holds c (fput (HeaderSize + length (frames c blks)) (block_frame c r) f) (blks @ [r])"
proof -
  obtain hdr t where f: "f = (hdr @ frames c blks) @ t" "length hdr = HeaderSize"
    using assms by (auto elim: disk_holdsE)
  then have "fput (HeaderSize + length (frames c blks)) (block_frame c r) f
               = hdr @ frames c (blks @ [r]) @ drop (length (block_frame c r)) t"
    unfolding f(1) by (subst fput_at) simp_all
  then show ?thesis using f(2) by (rule disk_holdsI)
qed

lemma disk_holds_tail:
  assumes "disk_holds c f blks"
  shows "disk_holds c (fput (HeaderSize + length (frames c blks)) d f) blks"
proof -
  obtain hdr t where f: "f = (hdr @ frames c blks) @ t" "length hdr = HeaderSize"
    using assms by (auto elim: disk_holdsE)
  then have "fput (HeaderSize + length (frames c blks)) d f = hdr @ frames c blks @ d @ drop (length d) t"
    unfolding f(1) by (subst fput_at) simp_all
  then show ?thesis using f(2) by (rule disk_holdsI)
qed

lemma disk_holds_header:
  assumes "disk_holds c f blks" "length h = HeaderSize"
  shows "disk_holds c (fput 0 h f) blks"
proof -
  obtain hdr t where "f = hdr @ frames c blks @ t" "length hdr = HeaderSize" using assms(1) by (rule disk_holdsE)
  then have "fput 0 h f = h @ frames c blks @ t" using assms(2) by (simp add: fput_0)
  then show ?thesis using assms(2) by (rule disk_holdsI)
qed

lemma disk_holds_prefix: "disk_holds c f (rs @ ss) \<Longrightarrow> disk_holds c f rs"
  by (auto elim!: disk_holdsE intro: disk_holdsI)

section \<open>Writing\<close>

lemma take_header_fput:
  assumes "disk_holds c f blks"
  shows "take HeaderSize (fput (HeaderSize + length (frames c blks)) d f) = take HeaderSize f"
proof -
  obtain hdr t where f: "f = hdr @ frames c blks @ t" "length hdr = HeaderSize" using assms by (rule disk_holdsE)
  then show ?thesis by (simp add: fput_def)
qed

lemma flushBlock_core:
  assumes r: "bf_core b blks" and ne: "bf_buf b \<noteq> []"
  shows "\<exists>b'. flushBlock b = (None, b') \<and> bf_core b' (blks @ [bf_buf b]) \<and> bf_buf b' = [] \<and>
           bf_closed b' = bf_closed b \<and> bf_compressor b' = bf_compressor b \<and>
           fh_TxState (bf_header b') = fh_TxState (bf_header b) \<and> bf_totalSize b' = bf_totalSize b \<and>
           bf_blockSize b' = bf_blockSize b \<and> bf_pos b' = bf_pos b \<and>
           take HeaderSize (bf_file b') = take HeaderSize (bf_file b)"
proof -
  let ?c = "bf_compressor b" and ?D = "HeaderSize + length (frames (bf_compressor b) blks)"
  have d: "disk_holds ?c (fput ?D (block_frame ?c (bf_buf b)) (bf_file b)) (blks @ [bf_buf b])"
    using r by (intro disk_holds_flush) (simp add: bf_core_def)
  have pos: "bf_dataWritePos b = int ?D" and tot: "fh_TotalSize (bf_header b) = int (length (concat blks))"
    and idx: "bf_index b = layout ?c HeaderSize 0 blks" and ok: "blocks_ok blks"
    and bs: "0 < bf_blockSize b" "bf_blockSize b < 2 ^ 31" "length (bf_buf b) \<le> bf_blockSize b"
    and rest: "fh_Magic (bf_header b) = Magic"
    using r by (simp_all add: bf_core_def)
  define frame where "frame = block_frame ?c (bf_buf b)"
  let ?b = "b\<lparr>bf_lastPhysicalPos := -1, bf_file := fput ?D frame (bf_file b),
       bf_offset := int ?D + int (length frame),
       bf_index := bf_index b @ [\<lparr>ix_RawOff = fh_TotalSize (bf_header b), ix_CompOff = int ?D,
                    ix_CompLen = int (length frame), ix_Crc32 = crc32_ieee (bf_buf b)\<rparr>],
       bf_header := (bf_header b)\<lparr>fh_TotalSize := fh_TotalSize (bf_header b) + int (length (bf_buf b)),
                               fh_DataEnd := int ?D + int (length frame)\<rparr>,
       bf_dataWritePos := int ?D + int (length frame), bf_buf := []\<rparr>"
  have np: "nat (bf_dataWritePos b) = ?D" "\<not> bf_dataWritePos b < 0" by (simp_all only: pos nat_int)
  have fl: "flushBlock b = (None, ?b)"
    unfolding flushBlock_def Let_def frame_def [symmetric] using ne np by (simp add: pos)
  have "blocks_ok (blks @ [bf_buf b])" using ok ne bs by (simp add: blocks_ok_def)
  then have "bf_core ?b (blks @ [bf_buf b])"
    unfolding bf_core_def using d bs rest by (simp add: idx tot layout_append frame_def)
  moreover have "take HeaderSize (fput ?D frame (bf_file b)) = take HeaderSize (bf_file b)"
    using r take_header_fput [of ?c "bf_file b" blks frame] by (simp add: bf_core_def)
  ultimately show ?thesis using fl by (intro exI [of _ ?b]) simp
qed

lemma writeHeader_core: "bf_core b blks \<Longrightarrow> bf_core (writeHeader b) blks"
  by (simp add: bf_core_def writeHeader_def disk_holds_header)

lemma TxState_core [simp]: "bf_core (b\<lparr>bf_header := (bf_header b)\<lparr>fh_TxState := t\<rparr>\<rparr>) blks = bf_core b blks"
  by (simp add: bf_core_def)

lemma writeHeader_sel [simp]:
  "bf_compressor (writeHeader b) = bf_compressor b" "bf_header (writeHeader b) = bf_header b"
  "bf_totalSize (writeHeader b) = bf_totalSize b" "bf_closed (writeHeader b) = bf_closed b"
  "bf_index (writeHeader b) = bf_index b" "bf_pos (writeHeader b) = bf_pos b"
  by (simp_all add: writeHeader_def)

text \<open>The header on disk is in an open transaction whose \<^verbatim>\<open>DataEnd\<close> covers the first \<open>k\<close> blocks.\<close>

definition disk_tx :: "BlockFile \<Rightarrow> bytes list \<Rightarrow> nat \<Rightarrow> bool" where
  "disk_tx b blks k \<longleftrightarrow> k \<le> length blks \<and>
     (\<exists>h. take HeaderSize (bf_file b) = encode_header h \<and> fh_Magic h = Magic \<and> fh_TxState h = TxActive \<and>
        fh_TotalSize h = int (length (concat (take k blks))) \<and>
        fh_DataEnd h = int (HeaderSize + length (frames (bf_compressor b) (take k blks))))"

text \<open>The file still starts with the blocks \<open>m\<close>, and while a transaction is open the on-disk header covers
  at least these.\<close>

definition tx_ok :: "bytes list \<Rightarrow> BlockFile \<Rightarrow> bytes list \<Rightarrow> bool" where
  "tx_ok m b blks \<longleftrightarrow> (\<exists>new. blks = m @ new) \<and>
     (fh_TxState (bf_header b) = TxActive \<longrightarrow> (\<exists>k \<ge> length m. disk_tx b blks k))"

lemma disk_tx_grow:
  assumes "disk_tx b blks k" "take HeaderSize (bf_file b') = take HeaderSize (bf_file b)" "bf_compressor b' = bf_compressor b"
  shows "disk_tx b' (blks @ new) k"
  using assms unfolding disk_tx_def by auto

lemma disk_tx_writeHeader:
  assumes "bf_core b blks" "fh_TxState (bf_header b) = TxActive"
  shows "disk_tx (writeHeader b) blks (length blks)"
proof -
  have "take HeaderSize (bf_file (writeHeader b)) = encode_header (bf_header b)"
    by (simp add: writeHeader_def fput_def)
  then show ?thesis using assms unfolding disk_tx_def bf_core_def by auto
qed

lemma write_loop_core:
  assumes "bf_core b blks"
  shows "\<exists>b' blks'. write_loop fw p b = Some (None, [], b') \<and> bf_core b' blks' \<and>
           content b' blks' = content b blks @ p \<and> bf_totalSize b' = bf_totalSize b \<and>
           bf_closed b' = bf_closed b \<and> bf_compressor b' = bf_compressor b \<and> (tx_ok m b blks \<longrightarrow> tx_ok m b' blks')"
  using assms
proof (induction fw p b arbitrary: blks rule: write_loop.induct)
  case (1 fw p b)
  have bs: "bf_blockSize b \<noteq> 0" using "1.prems" by (simp add: bf_core_def)
  consider (fin) "p = []" | (full) "p \<noteq> []" "bf_blockSize b \<le> length (bf_buf b)"
    | (room) "p \<noteq> []" "\<not> bf_blockSize b \<le> length (bf_buf b)" by blast
  then show ?case
  proof cases
    case fin
    then show ?thesis using "1.prems" by (intro exI [of _ b] exI [of _ blks]) (simp add: write_loop.simps [of fw "[]" b])
  next
    case full
    define b1 where "b1 = (if fw then b\<lparr>bf_header := (bf_header b)\<lparr>fh_TxState := TxActive\<rparr>\<rparr> else b)"
    have c1: "bf_core b1 blks" "bf_buf b1 = bf_buf b" "bf_totalSize b1 = bf_totalSize b" "bf_closed b1 = bf_closed b"
        "bf_compressor b1 = bf_compressor b"
      using "1.prems" by (auto simp: b1_def)
    have "bf_buf b1 \<noteq> []" using full bs c1(2) by auto
    then obtain b2 where b2: "flushBlock b1 = (None, b2)" "bf_core b2 (blks @ [bf_buf b])" "bf_buf b2 = []"
        "bf_closed b2 = bf_closed b" "bf_compressor b2 = bf_compressor b" "bf_totalSize b2 = bf_totalSize b"
        "fh_TxState (bf_header b2) = fh_TxState (bf_header b1)" "take HeaderSize (bf_file b2) = take HeaderSize (bf_file b1)"
      using flushBlock_core [OF c1(1)] c1 by auto
    define b3 where "b3 = (if fw then writeHeader b2 else b2)"
    have b3: "bf_core b3 (blks @ [bf_buf b])" "content b3 (blks @ [bf_buf b]) = content b blks"
        "bf_totalSize b3 = bf_totalSize b" "bf_closed b3 = bf_closed b" "bf_compressor b3 = bf_compressor b"
      using b2 writeHeader_core [OF b2(2)] by (auto simp: b3_def content_def)
    have tx: "tx_ok m b3 (blks @ [bf_buf b])" if "tx_ok m b blks"
    proof (cases fw)
      case True
      then show ?thesis
        using disk_tx_writeHeader [OF b2(2)] b2(7) that
        by (auto simp: tx_ok_def b1_def b3_def intro!: exI [of _ "length (blks @ [bf_buf b])"])
    next
      case False
      then have "b1 = b" "b3 = b2" by (simp_all add: b1_def b3_def)
      then show ?thesis using that b2 disk_tx_grow [of b blks _ b2 "[bf_buf b]"] by (auto simp: tx_ok_def)
    qed
    have eq: "write_loop fw p b = write_loop False p b3"
      using full bs b2(1) by (simp add: write_loop.simps [of fw p b] b1_def b3_def)
    show ?thesis
      using "1.IH"(1) [OF full(1) bs full(2) refl, of "(None, b2)" None b2 "blks @ [bf_buf b]"] b2(1) b3 tx eq
      by (auto simp: b1_def [symmetric] b3_def [symmetric])
  next
    case room
    let ?n = "min (bf_blockSize b - length (bf_buf b)) (length p)"
    let ?b = "b\<lparr>bf_buf := bf_buf b @ take ?n p\<rparr>"
    have c: "bf_core ?b blks" using "1.prems" room by (simp add: bf_core_def)
    have eq: "write_loop fw p b = write_loop fw (drop ?n p) ?b"
      using room bs by (simp add: write_loop.simps [of fw p b] Let_def)
    show ?thesis using "1.IH"(2) [OF room(1) bs room(2) refl c] eq
      by (auto simp: content_def tx_ok_def disk_tx_def)
  qed
qed

lemma Write_repr:
  assumes "bf_repr b blks" "\<not> bf_closed b"
  shows "\<exists>b' blks'. Write p b = Some (None, length p, b') \<and> bf_repr b' blks' \<and>
           content b' blks' = content b blks @ p \<and> bf_pos b' = bf_totalSize b' \<and>
           \<not> bf_closed b' \<and> bf_compressor b' = bf_compressor b \<and> (tx_ok m b blks \<longrightarrow> tx_ok m b' blks')"
proof -
  have core: "bf_core b blks" and tot: "bf_totalSize b = int (length (content b blks))"
    using assms by (simp_all add: bf_repr_def content_def)
  obtain b' blks' where w: "write_loop (fh_TxState (bf_header b) = TxDone) p b = Some (None, [], b')" "bf_core b' blks'"
      "content b' blks' = content b blks @ p" "bf_totalSize b' = bf_totalSize b" "bf_closed b' = bf_closed b"
      "bf_compressor b' = bf_compressor b" "tx_ok m b blks \<longrightarrow> tx_ok m b' blks'"
    using write_loop_core [OF core] by blast
  let ?t = "bf_totalSize b' + int (length p)"
  let ?b = "b'\<lparr>bf_totalSize := ?t, bf_pos := ?t\<rparr>"
  have "?t = int (length (content b' blks'))" using w(3,4) tot by simp
  then have "bf_repr ?b blks'" using w(2) by (simp add: bf_repr_def bf_core_def content_def)
  then show ?thesis using w assms(2)
    by (intro exI [of _ ?b] exI [of _ blks']) (simp add: Write_def content_def Let_def tx_ok_def disk_tx_def)
qed

section \<open>Reading\<close>

lemma find_loop_spec:
  assumes "0 \<le> lo" "hi < int n" "lo \<le> hi + 1"
    and "\<And>i j. i \<le> j \<Longrightarrow> j < n \<Longrightarrow> ix_RawOff (index ! j) \<le> off \<Longrightarrow> ix_RawOff (index ! i) \<le> off"
    and "\<And>i. int i < lo \<Longrightarrow> ix_RawOff (index ! i) \<le> off"
    and "\<And>i. hi < int i \<Longrightarrow> i < n \<Longrightarrow> \<not> ix_RawOff (index ! i) \<le> off"
  shows "let r = find_loop index off lo hi in
           -1 \<le> r \<and> r < int n \<and> (\<forall>i < n. int i \<le> r \<longleftrightarrow> ix_RawOff (index ! i) \<le> off)"
  using assms
proof (induction index off lo hi rule: find_loop.induct)
  case (1 index off lo hi)
  show ?case
  proof (cases "lo \<le> hi")
    case False
    have "int i \<le> hi \<longleftrightarrow> ix_RawOff (index ! i) \<le> off" if "i < n" for i
      using "1.prems"(5) [of i] "1.prems"(6) [of i] False that by (cases "int i \<le> hi") auto
    then show ?thesis using False "1.prems"(1,2,3) by (auto simp: find_loop.simps [of index off lo hi])
  next
    case True
    let ?m = "(lo + hi) div 2"
    have m: "lo \<le> ?m" "?m \<le> hi" using True by auto
    show ?thesis
    proof (cases "ix_RawOff (index ! nat ?m) \<le> off")
      case P: True
      have "ix_RawOff (index ! i) \<le> off" if "int i < ?m + 1" for i
        using "1.prems"(4) [of i "nat ?m"] P that m "1.prems"(1,2) by auto
      then show ?thesis
        using "1.IH"(1) [OF True refl P] "1.prems" m True P by (simp add: find_loop.simps [of index off lo hi])
    next
      case notP: False
      have "\<not> ix_RawOff (index ! i) \<le> off" if "?m - 1 < int i" "i < n" for i
        using "1.prems"(4) [of "nat ?m" i] notP that m "1.prems"(1) by (auto simp: nat_le_iff)
      then show ?thesis
        using "1.IH"(2) [OF True refl notP] "1.prems" m True notP by (simp add: find_loop.simps [of index off lo hi])
    qed
  qed
qed

text \<open>The start of block \<open>k\<close> in the logical content.\<close>

abbreviation block_start :: "bytes list \<Rightarrow> nat \<Rightarrow> nat" where
  "block_start blks k \<equiv> length (concat (take k blks))"

lemma block_start_mono: "i \<le> j \<Longrightarrow> block_start blks i \<le> block_start blks j"
  by (metis append_take_drop_id concat_append le_add1 length_append min.absorb1 take_take)

lemma take_block_start: "take (block_start blks k) (concat blks) = concat (take k blks)"
proof -
  have "concat (take k blks @ drop k blks) = concat (take k blks) @ concat (drop k blks)" by (rule concat_append)
  then have "concat blks = concat (take k blks) @ concat (drop k blks)" by simp
  then show ?thesis by (metis append_eq_conv_conj)
qed

lemma block_start_Suc: "k < length blks \<Longrightarrow> block_start blks (Suc k) = block_start blks k + length (blks ! k)"
  by (simp add: take_Suc_conv_app_nth)

lemma findBlock_layout:
  assumes "bf_index b = layout c HeaderSize 0 blks" "0 \<le> off" "off < int (length (concat blks))"
  shows "\<exists>k < length blks. findBlock b off = int k \<and> int (block_start blks k) \<le> off \<and>
           off < int (block_start blks k + length (blks ! k))"
proof -
  let ?n = "length blks" and ?ix = "bf_index b"
  let ?r = "findBlock b off"
  have raw: "ix_RawOff (?ix ! i) = int (block_start blks i)" if "i < ?n" for i
    using that assms(1) by (simp add: nth_layout)
  have len: "length ?ix = ?n" using assms(1) by simp
  have mono: "ix_RawOff (?ix ! i) \<le> off" if "i \<le> j" "j < ?n" "ix_RawOff (?ix ! j) \<le> off" for i j
    using that raw [of i] raw [of j] block_start_mono [OF that(1), of blks] by simp
  have spec: "-1 \<le> ?r \<and> ?r < int ?n \<and> (\<forall>i < ?n. int i \<le> ?r \<longleftrightarrow> ix_RawOff (?ix ! i) \<le> off)"
    using find_loop_spec [of 0 "int ?n - 1" ?n ?ix off] mono by (simp add: findBlock_def len Let_def)
  have n0: "0 < ?n" using assms(3) assms(2) by (cases blks) auto
  then have "ix_RawOff (?ix ! 0) \<le> off" using raw [OF n0] assms(2) by simp
  then have "int 0 \<le> ?r" using spec n0 by blast
  then have "0 \<le> ?r" by simp
  then obtain k where k: "?r = int k" "k < ?n" using spec by (metis nonneg_int_cases of_nat_less_iff)
  have lo: "int (block_start blks k) \<le> off" using spec raw [OF k(2)] k by auto
  have "off < int (block_start blks (Suc k))"
  proof (cases "Suc k < ?n")
    case True
    then have "\<not> int (Suc k) \<le> ?r" using k by simp
    then have "\<not> ix_RawOff (?ix ! Suc k) \<le> off" using spec True by blast
    then show ?thesis using raw [OF True] by simp
  next
    case False
    then have "Suc k = ?n" using k(2) by simp
    then show ?thesis using assms(3) by simp
  qed
  then show ?thesis using k lo block_start_Suc [OF k(2)] by auto
qed

lemma nth_frames_split:
  assumes "k < length blks"
  shows "frames c blks = frames c (take k blks) @ block_frame c (blks ! k) @ frames c (drop (Suc k) blks)"
  using id_take_nth_drop [OF assms] by (metis frames_simps(2) frames_simps(3))

lemma drop_in_block:
  assumes "k < length blks" "block_start blks k \<le> off" "off \<le> block_start blks k + length (blks ! k)"
  shows "drop off (concat blks @ buf) = drop (off - block_start blks k) (blks ! k)
           @ drop (block_start blks k + length (blks ! k)) (concat blks @ buf)"
proof -
  have "blks = take k blks @ [blks ! k] @ drop (Suc k) blks" using assms(1) by (simp add: id_take_nth_drop)
  then have "concat blks = concat (take k blks) @ blks ! k @ concat (drop (Suc k) blks)"
    by (metis append.right_neutral concat.simps(1) concat.simps(2) concat_append append.assoc)
  then show ?thesis using assms(2,3) by simp
qed

lemma take_chunk:
  assumes "drop p xs = ys @ zs"
  shows "take m (drop p xs) = take m ys @ take (m - length (take m ys)) (drop (p + length (take m ys)) xs)"
proof -
  have "drop (p + length (take m ys)) xs = drop (length (take m ys)) (drop p xs)" by (simp add: add.commute)
  then show ?thesis using assms by (cases "m \<le> length ys") simp_all
qed

text \<open>Reading changes only where the handle stands in the file.\<close>

definition same_handle :: "BlockFile \<Rightarrow> BlockFile \<Rightarrow> bool" where
  "same_handle b b' \<longleftrightarrow> bf_file b' = bf_file b \<and> bf_buf b' = bf_buf b \<and> bf_totalSize b' = bf_totalSize b \<and>
     bf_pos b' = bf_pos b \<and> bf_closed b' = bf_closed b \<and> bf_compressor b' = bf_compressor b"

lemma same_handle_refl [simp]: "same_handle b b"
  by (simp add: same_handle_def)

lemma same_handle_trans: "same_handle a b \<Longrightarrow> same_handle b d \<Longrightarrow> same_handle a d"
  by (simp add: same_handle_def)

context block_compressor
begin

lemma block_frame_read:
  assumes "disk_holds c f blks" "k < length blks"
  shows "fread (HeaderSize + length (frames c (take k blks)) + 4) (length (bc_Encode c (blks ! k))) f
           = Some (bc_Encode c (blks ! k))"
proof -
  obtain hdr t where f: "f = hdr @ frames c blks @ t" "length hdr = HeaderSize" using assms(1) by (rule disk_holdsE)
  let ?enc = "bc_Encode c (blks ! k)"
  have "f = (hdr @ frames c (take k blks) @ le_put 4 (of_nat (length ?enc) :: u32)) @ ?enc @ (frames c (drop (Suc k) blks) @ t)"
    unfolding f(1) nth_frames_split [OF assms(2), of c] by (simp add: block_frame_def Let_def)
  then show ?thesis using f(2) by (simp only:) (rule fread_at, simp)
qed

lemma blockData_core:
  assumes core: "bf_core b blks" and bc: "bf_compressor b = c" and off: "0 \<le> off" "off < int (length (concat blks))"
  shows "\<exists>k b'. k < length blks \<and> blockData off b = (Inr (blks ! k, int (block_start blks k)), b') \<and>
           int (block_start blks k) \<le> off \<and> off < int (block_start blks k + length (blks ! k)) \<and>
           bf_core b' blks \<and> bf_compressor b' = c \<and> bf_buf b' = bf_buf b \<and> bf_totalSize b' = bf_totalSize b \<and>
           bf_pos b' = bf_pos b \<and> bf_file b' = bf_file b \<and> bf_closed b' = bf_closed b"
proof -
  have idx: "bf_index b = layout c HeaderSize 0 blks" and disk: "disk_holds c (bf_file b) blks"
    and ok: "blocks_ok blks" and cur: "bf_lastPhysicalPos b \<le> 0 \<or> bf_offset b = bf_lastPhysicalPos b"
    using core bc by (auto simp: bf_core_def)
  obtain k where k: "k < length blks" "findBlock b off = int k" "int (block_start blks k) \<le> off"
      "off < int (block_start blks k + length (blks ! k))"
    using findBlock_layout [OF idx off] by blast
  let ?enc = "bc_Encode c (blks ! k)" and ?p = "HeaderSize + length (frames c (take k blks))"
  define ent where "ent = bf_index b ! k"
  have ent: "ix_RawOff ent = int (block_start blks k)" "ix_CompOff ent = int ?p"
      "ix_CompLen ent = 4 + int (length ?enc)" "ix_Crc32 ent = crc32_ieee (blks ! k)"
    using k(1) by (simp_all add: ent_def idx nth_layout block_frame_def Let_def)
  have at: "(if bf_lastPhysicalPos b \<noteq> ix_CompOff ent + 4 then ix_CompOff ent + 4 else bf_offset b) = int (?p + 4)"
    using cur ent(2) by auto
  have small: "length (blks ! k) < 2 ^ 31" using ok k(1) by (auto simp: blocks_ok_def list_all_length)
  have rd: "fread (?p + 4) (nat (ix_CompLen ent - 4)) (bf_file b) = Some ?enc"
    using block_frame_read [OF disk k(1)] unfolding ent(3) by (simp add: add.assoc)
  let ?b = "b\<lparr>bf_offset := int (?p + 4) + (ix_CompLen ent - 4), bf_lastPhysicalPos := ix_CompOff ent + ix_CompLen ent\<rparr>"
  have "blockData off b = (Inr (blks ! k, int (block_start blks k)), ?b)"
    unfolding blockData_def Let_def k(2) nat_int ent_def [symmetric] at rd option.case bc decode_encode [OF small]
    using k(1) ent idx by simp
  moreover have "bf_core ?b blks" using core ent by (simp add: bf_core_def)
  ultimately show ?thesis using k bc by (intro exI [of _ k] exI [of _ ?b]) simp
qed

lemma readAt_loop_repr:
  assumes "bf_repr b blks" "bf_compressor b = c" "0 \<le> off" "off \<le> bf_totalSize b" "length got \<le> n" "n - length got < fuel"
  shows "\<exists>b'. readAt_loop fuel n off got b
           = Some ((None, got @ take (n - length got) (drop (nat off) (content b blks))),
                   off + int (length (take (n - length got) (drop (nat off) (content b blks)))), b') \<and>
           bf_repr b' blks \<and> bf_compressor b' = c \<and> bf_buf b' = bf_buf b \<and> bf_pos b' = bf_pos b \<and>
           bf_totalSize b' = bf_totalSize b \<and> bf_file b' = bf_file b \<and> bf_closed b' = bf_closed b"
  using assms
proof (induction fuel arbitrary: off got b)
  case (Suc fuel)
  let ?C = "content b blks" and ?m = "n - length got" and ?bs = "bf_totalSize b - int (length (bf_buf b))"
  have tot: "bf_totalSize b = int (length ?C)" and bs: "?bs = int (length (concat blks))"
    using Suc.prems(1) by (simp_all add: bf_repr_def content_def)
  consider (stop) "\<not> (length got < n \<and> off < bf_totalSize b)"
    | (buf) "length got < n" "off < bf_totalSize b" "off \<ge> ?bs" "bf_buf b \<noteq> []"
    | (disk) "length got < n" "off < bf_totalSize b" "off < ?bs"
  proof -
    have "bf_buf b = [] \<Longrightarrow> off < bf_totalSize b \<Longrightarrow> off < ?bs" by simp
    then show ?thesis using that by fastforce
  qed
  then show ?case
  proof cases
    case stop
    then have "take ?m (drop (nat off) ?C) = []" using tot Suc.prems(3,5) by auto
    then show ?thesis using stop Suc.prems by (intro exI [of _ b]) (auto simp: Let_def)
  next
    case buf
    have "drop (nat (off - ?bs)) (bf_buf b) = drop (nat off) ?C"
      using buf(3) bs Suc.prems(3) by (simp add: content_def nat_diff_distrib)
    then show ?thesis using buf Suc.prems by (intro exI [of _ b]) (simp add: Let_def)
  next
    case disk
    have core: "bf_core b blks" using Suc.prems(1) by (simp add: bf_repr_def)
    obtain k b' where k: "k < length blks" "blockData off b = (Inr (blks ! k, int (block_start blks k)), b')"
        "int (block_start blks k) \<le> off" "off < int (block_start blks k + length (blks ! k))"
        "bf_core b' blks" "bf_compressor b' = c" "bf_buf b' = bf_buf b" "bf_totalSize b' = bf_totalSize b"
        "bf_pos b' = bf_pos b" "bf_file b' = bf_file b" "bf_closed b' = bf_closed b"
      using blockData_core [OF core Suc.prems(2,3)] disk(3) unfolding bs by blast
    let ?s = "block_start blks k" and ?r = "blks ! k"
    let ?d = "take ?m (drop (nat (off - int ?s)) ?r)"
    have r': "bf_repr b' blks" and C': "content b' blks = ?C" using k Suc.prems(1) by (simp_all add: bf_repr_def content_def)
    have d0: "?d \<noteq> []" and m0: "0 < ?m" using k disk(1) by auto
    have dlen: "length ?d = min ?m (?s + length ?r - nat off)" using k by auto
    have C: "drop (nat off) ?C = drop (nat off - ?s) ?r @ drop (?s + length ?r) ?C"
      unfolding content_def by (rule drop_in_block) (use k in auto)
    have off': "nat off - ?s = nat (off - int ?s)" using k(3) by (simp add: nat_diff_distrib)
    have le: "off + int (length ?d) \<le> bf_totalSize b'" "0 \<le> off + int (length ?d)"
    proof -
      have "nat off + length ?d \<le> ?s + length ?r" using k(3,4) by auto
      also have "\<dots> \<le> length ?C" using block_start_mono [of "Suc k" "length blks" blks] block_start_Suc [OF k(1)] k(1)
        by (simp add: content_def)
      finally show "off + int (length ?d) \<le> bf_totalSize b'" using tot k(8) Suc.prems(3) by simp
    qed (use Suc.prems(3) in simp)
    have "0 < length ?d" using d0 by (rule length_greater_0_conv [THEN iffD2])
    then have fu: "n - length (got @ ?d) < fuel" using Suc.prems(6) m0 unfolding length_append by linarith
    have gl: "length (got @ ?d) \<le> n" using Suc.prems(5) by simp
    obtain b'' where b'': "readAt_loop fuel n (off + int (length ?d)) (got @ ?d) b'
        = Some ((None, (got @ ?d) @ take (n - length (got @ ?d)) (drop (nat (off + int (length ?d))) ?C)),
               (off + int (length ?d)) + int (length (take (n - length (got @ ?d)) (drop (nat (off + int (length ?d))) ?C))), b'')"
        "bf_repr b'' blks" "bf_compressor b'' = c" "bf_buf b'' = bf_buf b'" "bf_pos b'' = bf_pos b'"
        "bf_totalSize b'' = bf_totalSize b'" "bf_file b'' = bf_file b'" "bf_closed b'' = bf_closed b'"
      using Suc.IH [OF r' k(6) le(2) le(1) gl fu] C' by auto
    have split: "take ?m (drop (nat off) ?C) = ?d @ take (n - length (got @ ?d)) (drop (nat (off + int (length ?d))) ?C)"
      using take_chunk [OF C [unfolded off'], of ?m] Suc.prems(3) by (simp add: nat_add_distrib)
    have no: "\<not> (bf_buf b \<noteq> [] \<and> off \<ge> ?bs)" "\<not> (off - int ?s \<ge> int (length ?r))" "length got < n \<and> off < bf_totalSize b"
      using disk k by auto
    have "readAt_loop (Suc fuel) n off got b = readAt_loop fuel n (off + int (length ?d)) (got @ ?d) b'"
      unfolding readAt_loop.simps Let_def k(2) prod.case sum.case if_not_P [OF no(1)] if_not_P [OF no(2)]
      using no(3) by (simp only: not_not if_False simp_thms)
    then show ?thesis using b'' split k(7-11) by (intro exI [of _ b'']) (simp only: append.assoc add.assoc length_append of_nat_add)
  qed
qed simp

lemma readAt_repr:
  assumes r: "bf_repr b blks" and bc: "bf_compressor b = c" and off: "0 \<le> off" "off \<le> bf_totalSize b" and fuel: "n < fuel"
  shows "\<exists>b'. readAt fuel n off b
           = Some ((if off < bf_totalSize b then None else Some ErrEOF, take n (drop (nat off) (content b blks))), b') \<and>
           bf_repr b' blks \<and> bf_compressor b' = c \<and> bf_buf b' = bf_buf b \<and> bf_pos b' = bf_pos b \<and>
           bf_totalSize b' = bf_totalSize b \<and> bf_file b' = bf_file b \<and> bf_closed b' = bf_closed b"
proof (cases "bf_index b = [] \<and> bf_buf b = []")
  case True
  then have "blks = []" using r by (cases blks) (auto simp: bf_repr_def bf_core_def)
  then show ?thesis using True r bc off by (intro exI [of _ b]) (simp add: readAt_def bf_repr_def content_def)
next
  case False
  let ?g = "take n (drop (nat off) (content b blks))"
  have tot: "bf_totalSize b = int (length (content b blks))" using r by (simp add: bf_repr_def content_def)
  obtain b' where b': "readAt_loop fuel n off [] b = Some ((None, ?g), off + int (length ?g), b')"
      "bf_repr b' blks" "bf_compressor b' = c" "bf_buf b' = bf_buf b" "bf_pos b' = bf_pos b"
      "bf_totalSize b' = bf_totalSize b" "bf_file b' = bf_file b" "bf_closed b' = bf_closed b"
    using readAt_loop_repr [OF r bc off, of "[]" n fuel] fuel by auto
  have "?g = [] \<and> off + int (length ?g) \<ge> bf_totalSize b' \<longleftrightarrow> \<not> off < bf_totalSize b"
    using b'(6) tot off by auto
  then show ?thesis using False b' by (intro exI [of _ b']) (auto simp: readAt_def)
qed

lemma bf_Read_repr:
  assumes r: "bf_repr b blks" and bc: "bf_compressor b = c" and op: "\<not> bf_closed b" and pos: "0 \<le> bf_pos b" and fuel: "n < fuel"
  shows "\<exists>b'. bf_Read fuel n b
           = Some ((if bf_pos b < bf_totalSize b then None else Some ErrEOF, take n (drop (nat (bf_pos b)) (content b blks))), b') \<and>
           bf_repr b' blks \<and> bf_compressor b' = c \<and> bf_buf b' = bf_buf b \<and>
           bf_pos b' = bf_pos b + int (length (take n (drop (nat (bf_pos b)) (content b blks)))) \<and>
           bf_totalSize b' = bf_totalSize b \<and> bf_file b' = bf_file b \<and> bf_closed b' = bf_closed b"
proof (cases "bf_pos b < bf_totalSize b")
  case True
  let ?g = "take n (drop (nat (bf_pos b)) (content b blks))"
  obtain b' where b': "readAt fuel n (bf_pos b) b = Some ((None, ?g), b')"
      "bf_repr b' blks" "bf_compressor b' = c" "bf_buf b' = bf_buf b" "bf_pos b' = bf_pos b"
      "bf_totalSize b' = bf_totalSize b" "bf_file b' = bf_file b" "bf_closed b' = bf_closed b"
    using readAt_repr [OF r bc pos _ fuel] True by auto
  let ?b = "b'\<lparr>bf_pos := bf_pos b' + int (length ?g)\<rparr>"
  have "bf_repr ?b blks" using b'(2) by (simp add: bf_repr_def bf_core_def)
  then show ?thesis using True op b' by (intro exI [of _ ?b]) (simp add: bf_Read_def)
next
  case False
  moreover have "take n (drop (nat (bf_pos b)) (content b blks)) = []"
    using False r pos by (auto simp: bf_repr_def content_def)
  ultimately show ?thesis using op r bc by (intro exI [of _ b]) (auto simp: bf_Read_def)
qed

lemma ReadBlockFrom_repr:
  assumes r: "bf_repr b blks" and bc: "bf_compressor b = c" and off: "0 \<le> off" "off < int (length (concat blks))"
  shows "\<exists>k d b'. k < length blks \<and> ReadBlockFrom off b = (Inr d, b') \<and> d \<noteq> [] \<and>
           int (block_start blks k) \<le> off \<and> off + int (length d) = int (block_start blks (Suc k)) \<and>
           d = take (length d) (drop (nat off) (content b blks)) \<and> bf_repr b' blks \<and> same_handle b b'"
proof -
  have core: "bf_core b blks" using r by (simp add: bf_repr_def)
  obtain k b' where k: "k < length blks" "blockData off b = (Inr (blks ! k, int (block_start blks k)), b')"
      "int (block_start blks k) \<le> off" "off < int (block_start blks k + length (blks ! k))"
      "bf_core b' blks" "bf_compressor b' = c" "bf_buf b' = bf_buf b" "bf_totalSize b' = bf_totalSize b" "bf_pos b' = bf_pos b"
      "bf_file b' = bf_file b" "bf_closed b' = bf_closed b"
    using blockData_core [OF core bc off] by blast
  then have same: "same_handle b b'" using bc by (simp add: same_handle_def)
  let ?s = "block_start blks k" and ?r = "blks ! k"
  let ?d = "drop (nat (off - int ?s)) ?r"
  have "drop (nat off) (content b blks) = ?d @ drop (?s + length ?r) (content b blks)"
    unfolding content_def using drop_in_block [OF k(1), of "nat off" "bf_buf b"] k(3,4) by (auto simp: nat_diff_distrib)
  then have "?d = take (length ?d) (drop (nat off) (content b blks))" by simp
  moreover have "ReadBlockFrom off b = (Inr ?d, b')" using k by (simp add: ReadBlockFrom_def)
  moreover have "bf_repr b' blks" using k r by (simp add: bf_repr_def)
  moreover have "?d \<noteq> []" "off + int (length ?d) = int (block_start blks (Suc k))"
    using k(3,4) block_start_Suc [OF k(1)] by auto
  ultimately show ?thesis using k(1,3) same by blast
qed

end

section \<open>Committing\<close>

lemma flush_all:
  assumes "bf_core b blks"
  shows "\<exists>b' blks'. flushBlock b = (None, b') \<and> bf_core b' blks' \<and> concat blks' = content b blks \<and> bf_buf b' = [] \<and>
           bf_closed b' = bf_closed b \<and> bf_compressor b' = bf_compressor b \<and> bf_totalSize b' = bf_totalSize b \<and>
           bf_pos b' = bf_pos b \<and> fh_TxState (bf_header b') = fh_TxState (bf_header b) \<and> (tx_ok m b blks \<longrightarrow> tx_ok m b' blks') \<and>
           (\<exists>new. blks' = blks @ new)"
proof (cases "bf_buf b = []")
  case True
  then show ?thesis using assms by (intro exI [of _ b] exI [of _ blks]) (simp add: flushBlock_def content_def)
next
  case False
  then obtain b' where "flushBlock b = (None, b')" "bf_core b' (blks @ [bf_buf b])" "bf_buf b' = []"
      "bf_closed b' = bf_closed b" "bf_compressor b' = bf_compressor b" "bf_totalSize b' = bf_totalSize b" "bf_pos b' = bf_pos b"
      "fh_TxState (bf_header b') = fh_TxState (bf_header b)" "take HeaderSize (bf_file b') = take HeaderSize (bf_file b)"
    using flushBlock_core [OF assms] by blast
  moreover from this have "tx_ok m b blks \<longrightarrow> tx_ok m b' (blks @ [bf_buf b])"
    using disk_tx_grow [of b blks _ b' "[bf_buf b]"] by (auto simp: tx_ok_def)
  ultimately show ?thesis by (intro exI [of _ b'] exI [of _ "blks @ [bf_buf b]"]) (simp add: content_def)
qed

lemma Sync_repr:
  assumes r: "bf_repr b blks" and op: "\<not> bf_closed b"
  shows "\<exists>b' blks'. Sync b = (None, b') \<and> bf_repr b' blks' \<and> content b' blks' = content b blks \<and> bf_buf b' = [] \<and>
           \<not> bf_closed b' \<and> bf_compressor b' = bf_compressor b \<and> bf_pos b' = bf_pos b \<and> (tx_ok m b blks \<longrightarrow> tx_ok m b' blks')"
proof -
  let ?act = "fh_TxState (bf_header b) = TxDone \<and> bf_buf b \<noteq> []"
  define b1 where "b1 = (if ?act then b\<lparr>bf_header := (bf_header b)\<lparr>fh_TxState := TxActive\<rparr>\<rparr> else b)"
  have b1: "bf_core b1 blks" "content b1 blks = content b blks" "bf_totalSize b1 = int (length (content b blks))"
      "bf_closed b1 = bf_closed b" "bf_compressor b1 = bf_compressor b" "bf_pos b1 = bf_pos b"
    using r by (auto simp: b1_def bf_repr_def content_def)
  obtain b2 blks' where b2: "flushBlock b1 = (None, b2)" "bf_core b2 blks'" "concat blks' = content b blks" "bf_buf b2 = []"
      "bf_closed b2 = bf_closed b" "bf_compressor b2 = bf_compressor b" "bf_totalSize b2 = int (length (content b blks))"
      "bf_pos b2 = bf_pos b" "fh_TxState (bf_header b2) = fh_TxState (bf_header b1)" "tx_ok m b1 blks \<longrightarrow> tx_ok m b2 blks'"
      "\<exists>new. blks' = blks @ new"
    using flush_all [OF b1(1)] b1 by metis
  let ?b = "if ?act then writeHeader b2 else b2"
  have "Sync b = (None, ?b)" using b2(1) op by (auto simp: Sync_def b1_def split: if_splits)
  moreover have "bf_repr ?b blks'" using writeHeader_core [OF b2(2)] b2 by (simp add: bf_repr_def)
  moreover have "tx_ok m ?b blks'" if "tx_ok m b blks"
  proof (cases ?act)
    case True
    then show ?thesis using disk_tx_writeHeader [OF b2(2)] b2(9,11) that
      by (auto simp: tx_ok_def b1_def intro!: exI [of _ "length blks'"])
  next
    case False
    then have "b1 = b" by (simp only: b1_def if_False)
    then show ?thesis using b2(10) that False by (simp only: if_False simp_thms)
  qed
  ultimately show ?thesis using b2 op by (intro exI [of _ ?b] exI [of _ blks']) (simp add: content_def)
qed

lemma writeIndexLocked_core:
  assumes core: "bf_core b blks"
  shows "\<exists>b'. writeIndexLocked b = (None, b') \<and> bf_core b' blks \<and> bf_buf b' = bf_buf b \<and> bf_closed b' = bf_closed b \<and>
           bf_compressor b' = bf_compressor b \<and> bf_totalSize b' = bf_totalSize b \<and> bf_pos b' = bf_pos b \<and>
           fh_TxState (bf_header b') = TxDone \<and> fh_IndexOffset (bf_header b') = fh_DataEnd (bf_header b') \<and>
           (\<exists>t. bf_file b' = encode_header (bf_header b') @ frames (bf_compressor b) blks @ index_bytes (bf_index b') @ t)"
proof -
  let ?c = "bf_compressor b" and ?F = "frames (bf_compressor b) blks"
  let ?D = "HeaderSize + length ?F"
  have D: "fh_DataEnd (bf_header b) = int ?D" using core by (simp add: bf_core_def)
  have "disk_holds ?c (bf_file b) blks" using core by (simp add: bf_core_def)
  then obtain hdr t where f: "bf_file b = (hdr @ ?F) @ t" "length hdr = HeaderSize" by (auto elim: disk_holdsE)
  let ?ix = "index_bytes (bf_index b)"
  let ?h = "(bf_header b)\<lparr>fh_IndexOffset := int ?D, fh_TxState := TxDone\<rparr>"
  let ?b = "writeHeader (b\<lparr>bf_file := fput ?D ?ix (bf_file b), bf_header := ?h\<rparr>)"
  have w: "writeIndexLocked b = (None, ?b)" by (simp add: writeIndexLocked_def Let_def D nat_add_distrib)
  have "fput ?D ?ix (bf_file b) = hdr @ ?F @ ?ix @ drop (length ?ix) t"
    unfolding f(1) using f(2) by (subst fput_at) simp_all
  then have fl: "bf_file ?b = encode_header ?h @ ?F @ ?ix @ drop (length ?ix) t"
    using f(2) by (simp add: writeHeader_def fput_0)
  have "bf_core (b\<lparr>bf_file := fput ?D ?ix (bf_file b), bf_header := ?h\<rparr>) blks"
    using core disk_holds_tail [of ?c "bf_file b" blks ?ix] by (simp add: bf_core_def)
  then have "bf_core ?b blks" by (rule writeHeader_core)
  then show ?thesis using w fl D by (intro exI [of _ ?b]) simp
qed

text \<open>Committing flushes the buffer and leaves a file whose header points at an index of all its blocks.\<close>

definition committed :: "BlockFile \<Rightarrow> bytes list \<Rightarrow> bool" where
  "committed b blks \<longleftrightarrow> bf_buf b = [] \<and> fh_TxState (bf_header b) = TxDone \<and>
     fh_IndexOffset (bf_header b) = fh_DataEnd (bf_header b) \<and>
     (\<exists>t. bf_file b = encode_header (bf_header b) @ frames (bf_compressor b) blks @ index_bytes (bf_index b) @ t)"

lemma Commit_repr:
  assumes r: "bf_repr b blks" and op: "\<not> bf_closed b"
  shows "\<exists>b' blks'. Commit b = (None, b') \<and> bf_repr b' blks' \<and> content b' blks' = content b blks \<and>
           committed b' blks' \<and> \<not> bf_closed b' \<and> bf_compressor b' = bf_compressor b \<and> bf_pos b' = bf_pos b \<and>
           (\<exists>new. blks' = blks @ new)"
proof -
  have core: "bf_core b blks" and tot: "bf_totalSize b = int (length (content b blks))"
    using r by (simp_all add: bf_repr_def content_def)
  obtain b1 blks' where b1: "flushBlock b = (None, b1)" "bf_core b1 blks'" "concat blks' = content b blks" "bf_buf b1 = []"
      "bf_closed b1 = bf_closed b" "bf_compressor b1 = bf_compressor b" "bf_totalSize b1 = bf_totalSize b" "bf_pos b1 = bf_pos b"
      "\<exists>new. blks' = blks @ new"
    using flush_all [OF core] by blast
  obtain b2 where b2: "writeIndexLocked b1 = (None, b2)" "bf_core b2 blks'" "bf_buf b2 = bf_buf b1" "bf_closed b2 = bf_closed b1"
      "bf_compressor b2 = bf_compressor b1" "bf_totalSize b2 = bf_totalSize b1" "bf_pos b2 = bf_pos b1" "committed b2 blks'"
    using writeIndexLocked_core [OF b1(2)] b1(4) unfolding committed_def by metis
  have "Commit b = (None, b2)" using b1 b2 op by (simp add: Commit_def)
  moreover have "bf_repr b2 blks'" "content b2 blks' = content b blks"
    using b1 b2 tot by (simp_all add: bf_repr_def content_def)
  ultimately show ?thesis using b1 b2 op by (intro exI [of _ b2] exI [of _ blks']) simp
qed

section \<open>Reopening\<close>

lemma load_entries_spec:
  assumes "bf_file b = p @ concat (map encode_entry es) @ t" "length p = pos"
    "list_all (\<lambda>e. int64_range (ix_RawOff e) \<and> int64_range (ix_CompOff e) \<and> int64_range (ix_CompLen e)) es"
  shows "load_entries (length es) pos b = (True, b\<lparr>bf_index := bf_index b @ es\<rparr>)"
  using assms
proof (induction es arbitrary: p pos b)
  case (Cons e es)
  have "fread pos (length (encode_entry e)) (p @ encode_entry e @ concat (map encode_entry es) @ t) = Some (encode_entry e)"
    using Cons.prems(2) by (rule fread_at)
  then have "fread pos 32 (bf_file b) = Some (encode_entry e)" using Cons.prems(1) by simp
  moreover have "decode_entry (encode_entry e) = e" using Cons.prems(3) by (intro decode_encode_entry) simp_all
  moreover have "load_entries (length es) (pos + 32) (b\<lparr>bf_index := bf_index b @ [e]\<rparr>)
                   = (True, b\<lparr>bf_index := bf_index b @ [e]\<rparr>\<lparr>bf_index := (bf_index b @ [e]) @ es\<rparr>)"
    using Cons.IH [of "b\<lparr>bf_index := bf_index b @ [e]\<rparr>" "p @ encode_entry e" "pos + 32"] Cons.prems by simp
  ultimately show ?case by simp
qed simp

lemma layout_range:
  assumes "pos + length (frames c blks) < 2 ^ 63" "raw + length (concat blks) < 2 ^ 63"
  shows "list_all (\<lambda>e. int64_range (ix_RawOff e) \<and> int64_range (ix_CompOff e) \<and> int64_range (ix_CompLen e)) (layout c pos raw blks)"
  using assms
proof (induction c pos raw blks rule: layout.induct)
  case (2 c pos raw r rs)
  have "int pos < 2 ^ 63" "int raw < 2 ^ 63" "int (length (block_frame c r)) < 2 ^ 63" using "2.prems" by simp_all
  then show ?case using 2 by (simp add: add.assoc)
qed simp

lemma concat_bound: "blocks_ok blks \<Longrightarrow> length (concat blks) \<le> 2 ^ 31 * length blks"
  by (induction blks) (auto simp: blocks_ok_def)

context block_compressor
begin

lemma frames_bound: "blocks_ok blks \<Longrightarrow> 5 * length blks \<le> length (frames c blks)"
proof (induction blks)
  case (Cons r rs)
  then have "bc_Encode c r \<noteq> []" using encode_nonempty by (simp add: blocks_ok_def)
  then have "5 \<le> length (block_frame c r)" by (cases "bc_Encode c r") (simp_all add: block_frame_def Let_def)
  moreover have "5 * length rs \<le> length (frames c rs)" using Cons by (simp add: blocks_ok_def)
  ultimately show ?case by simp
qed simp

lemma sizes_small:
  assumes "blocks_ok blks" "HeaderSize + length (frames c blks) < 2 ^ 34"
  shows "length blks < 2 ^ 32" "length (concat blks) < 2 ^ 63"
proof -
  show n: "length blks < 2 ^ 32" using frames_bound [OF assms(1)] assms(2) by simp
  have "length (concat blks) \<le> 2 ^ 31 * length blks" by (rule concat_bound [OF assms(1)])
  also have "\<dots> < 2 ^ 31 * 2 ^ 32" using n by simp
  finally show "length (concat blks) < 2 ^ 63" by simp
qed

text \<open>Opening a committed file restores its content.\<close>

lemma open_committed:
  assumes core: "bf_core b blks" and bc: "bf_compressor b = c" and com: "committed b blks"
    and small: "fh_DataEnd (bf_header b) < 2 ^ 34" and bs: "0 < bs" "bs < 2 ^ 31"
  shows "\<exists>b'. OpenBlockFile (bf_file b) c bs = Inr b' \<and> bf_repr b' blks \<and> content b' blks = concat blks \<and>
           bf_pos b' = 0 \<and> \<not> bf_closed b' \<and> bf_compressor b' = c \<and> bf_buf b' = [] \<and> bf_file b' = bf_file b \<and>
           committed b' blks"
proof -
  let ?h = "bf_header b" and ?F = "frames c blks" and ?ix = "layout c HeaderSize 0 blks"
  have ok: "blocks_ok blks" and idx: "bf_index b = ?ix" and mg: "fh_Magic ?h = Magic"
    and tot: "fh_TotalSize ?h = int (length (concat blks))" and D: "fh_DataEnd ?h = int (HeaderSize + length ?F)"
    using core bc by (simp_all add: bf_core_def)
  obtain t where f: "bf_file b = encode_header ?h @ ?F @ index_bytes ?ix @ t" and tx: "fh_TxState ?h = TxDone"
      and io: "fh_IndexOffset ?h = int (HeaderSize + length ?F)"
    using com idx bc D by (auto simp: committed_def)
  have sm: "HeaderSize + length ?F < 2 ^ 34" using small D by simp
  note sz = sizes_small [OF ok sm]
  have hd: "decode_header (encode_header ?h) = ?h"
    using sz sm by (intro decode_encode_header) (simp_all only: tot D io, simp_all)
  define b1 where "b1 = (new_file (bf_file b) c bs)\<lparr>bf_header := ?h, bf_offset := int HeaderSize\<rparr>"
  have fb1: "bf_file b1 = bf_file b" by (simp add: b1_def new_file_def)
  have r0: "fread 0 HeaderSize (bf_file b) = Some (encode_header ?h)"
    using fread_at [of "[]" 0 "encode_header ?h" "?F @ index_bytes ?ix @ t"] f by simp
  let ?cnt = "le_put 4 (of_nat (length blks) :: u32)"
  have f2: "bf_file b = (encode_header ?h @ ?F) @ ?cnt @ concat (map encode_entry ?ix) @ t"
    using f by (simp add: index_bytes_def)
  have r1: "fread (nat (fh_IndexOffset ?h)) 4 (bf_file b) = Some ?cnt"
    using fread_at [of "encode_header ?h @ ?F" "HeaderSize + length ?F" ?cnt "concat (map encode_entry ?ix) @ t"]
    unfolding f2 io nat_int by simp
  have cnt: "unat (le_get ?cnt :: u32) = length ?ix" using sz(1) by (simp add: le_get_put_full unat_of_nat_u32)
  have range: "list_all (\<lambda>e. int64_range (ix_RawOff e) \<and> int64_range (ix_CompOff e) \<and> int64_range (ix_CompLen e)) ?ix"
    using sm sz(2) by (intro layout_range) simp_all
  have le: "load_entries (length ?ix) (nat (fh_IndexOffset ?h) + 4) (b1\<lparr>bf_index := []\<rparr>) = (True, b1\<lparr>bf_index := ?ix\<rparr>)"
    using load_entries_spec [of "b1\<lparr>bf_index := []\<rparr>" "(encode_header ?h @ ?F) @ ?cnt" ?ix t "HeaderSize + length ?F + 4"]
      range fb1 f2 unfolding io nat_int by simp
  have iop: "fh_IndexOffset ?h > 0" using io by (simp add: HeaderSize_def)
  let ?b = "b1\<lparr>bf_index := ?ix, bf_dataWritePos := fh_DataEnd ?h, bf_totalSize := fh_TotalSize ?h, bf_pos := 0\<rparr>"
  have "loadAndRecover (new_file (bf_file b) c bs) = (None, ?b)"
    unfolding loadAndRecover_def
    using r0 r1 cnt le hd mg tx iop by (simp add: new_file_def b1_def load_done_def Let_def TxDone_def TxActive_def)
  then have op: "OpenBlockFile (bf_file b) c bs = Inr ?b" by (simp add: OpenBlockFile_def)
  have "disk_holds c (bf_file b) blks" using core bc by (simp add: bf_core_def)
  then have "bf_repr ?b blks"
    using ok mg tot D bs by (simp add: bf_repr_def bf_core_def b1_def new_file_def)
  moreover have "committed ?b blks"
    using f tx io D by (auto simp: committed_def b1_def new_file_def)
  ultimately show ?thesis using op by (intro exI [of _ ?b]) (simp add: content_def b1_def new_file_def)
qed

lemma rebuild_loop_spec:
  assumes "bf_file b = p @ frames c blks @ t" "length p = pos" "blocks_ok blks" "bf_compressor b = c"
    "fh_DataEnd (bf_header b) = int (pos + length (frames c blks))"
  shows "rebuild_loop pos (int raw) b
           = (False, pos + length (frames c blks), int (raw + length (concat blks)), b\<lparr>bf_index := bf_index b @ layout c pos raw blks\<rparr>)"
  using assms
proof (induction blks arbitrary: p pos raw b)
  case Nil
  then show ?case by (simp add: rebuild_loop.simps [of pos "int raw" b])
next
  case (Cons r rs)
  let ?enc = "bc_Encode c r" and ?fr = "block_frame c r"
  let ?l = "le_put 4 (of_nat (length ?enc) :: u32)"
  have rr: "r \<noteq> []" "length r < 2 ^ 31" and rs: "blocks_ok rs" using Cons.prems(3) by (simp_all add: blocks_ok_def)
  have n: "unat (le_get ?l :: u32) = length ?enc"
    using encode_small [OF rr(2)] by (simp add: le_get_put_full unat_of_nat_u32)
  have fr: "?fr = ?l @ ?enc" by (simp add: block_frame_def Let_def)
  have f1: "fread pos 4 (bf_file b) = Some ?l"
    using fread_at [OF Cons.prems(2), of ?l "?enc @ frames c rs @ t"] Cons.prems(1) fr by simp
  have f2: "fread (pos + 4) (length ?enc) (bf_file b) = Some ?enc"
    using fread_at [of "p @ ?l" "pos + 4" ?enc "frames c rs @ t"] Cons.prems(1,2) fr by simp
  have ne: "length ?enc \<noteq> 0" using encode_nonempty [OF rr(1)] by simp
  let ?b = "b\<lparr>bf_index := bf_index b @ [\<lparr>ix_RawOff = int raw, ix_CompOff = int pos, ix_CompLen = 4 + int (length ?enc),
                 ix_Crc32 = crc32_ieee r\<rparr>]\<rparr>"
  have de: "int pos < fh_DataEnd (bf_header b)" "\<not> int pos + 4 + int (length ?enc) > fh_DataEnd (bf_header b)"
    using Cons.prems(5) fr by simp_all
  have "rebuild_loop pos (int raw) b = rebuild_loop (pos + 4 + length ?enc) (int raw + int (length r)) ?b"
    unfolding rebuild_loop.simps [of pos "int raw" b] if_P [OF de(1)] f1 option.case Let_def n f2 Cons.prems(4)
      decode_encode [OF rr(2)]
    using ne de(2) by simp
  also have "\<dots> = rebuild_loop (pos + length ?fr) (int (raw + length r)) ?b" using fr by (simp add: add.assoc)
  also have "\<dots> = (False, pos + length ?fr + length (frames c rs), int (raw + length r + length (concat rs)),
                   ?b\<lparr>bf_index := bf_index ?b @ layout c (pos + length ?fr) (raw + length r) rs\<rparr>)"
    by (rule Cons.IH [of _ "p @ ?fr"]) (use Cons.prems rs in simp_all)
  finally show ?case using fr by (simp add: add.assoc)
qed

text \<open>Opening a file whose on-disk header is in an open transaction keeps exactly the blocks that header covers.\<close>

lemma open_active:
  assumes core: "bf_core b blks" and bc: "bf_compressor b = c" and tx: "disk_tx b blks k"
    and small: "fh_DataEnd (bf_header b) < 2 ^ 34" and bs: "0 < bs" "bs < 2 ^ 31"
  shows "\<exists>b'. OpenBlockFile (bf_file b) c bs = Inr b' \<and> bf_repr b' (take k blks) \<and> bf_buf b' = [] \<and> bf_pos b' = 0 \<and>
           \<not> bf_closed b' \<and> bf_compressor b' = c \<and> fh_TxState (bf_header b') = TxDone \<and> fh_IndexOffset (bf_header b') = 0 \<and>
           bf_file b' = encode_header (bf_header b') @ frames c (take k blks)"
proof -
  let ?K = "take k blks" and ?F = "frames c (take k blks)"
  have ok: "blocks_ok blks" and disk: "disk_holds c (bf_file b) blks" and D: "fh_DataEnd (bf_header b) = int (HeaderSize + length (frames c blks))"
    using core bc by (simp_all add: bf_core_def)
  have okK: "blocks_ok ?K" using ok by (auto simp: blocks_ok_def list_all_iff dest: in_set_takeD)
  obtain h where h: "take HeaderSize (bf_file b) = encode_header h" "fh_Magic h = Magic" "fh_TxState h = TxActive"
      "fh_TotalSize h = int (length (concat ?K))" "fh_DataEnd h = int (HeaderSize + length ?F)"
    using tx bc unfolding disk_tx_def by auto
  obtain t where f: "bf_file b = encode_header h @ ?F @ t"
  proof -
    have "disk_holds c (bf_file b) (?K @ drop k blks)" using disk by simp
    then obtain hdr t where "bf_file b = hdr @ ?F @ t" "length hdr = HeaderSize"
      using disk_holds_prefix by (blast elim: disk_holdsE)
    then show ?thesis using that h(1) by auto
  qed
  have "frames c blks = ?F @ frames c (drop k blks)" by (metis append_take_drop_id frames_simps(3))
  then have sm: "HeaderSize + length ?F < 2 ^ 34" using small D by simp
  note sz = sizes_small [OF okK sm]
  define h' where "h' = h\<lparr>fh_IndexOffset := get_int64 (put_int64 (fh_IndexOffset h))\<rparr>"
  have dec: "decode_header (encode_header h) = h'"
    unfolding h'_def using sz sm by (intro decode_encode_header_index) (simp_all only: h(4,5), simp_all)
  have rd: "fread 0 HeaderSize (bf_file b) = Some (encode_header h)"
    using fread_at [of "[]" 0 "encode_header h" "?F @ t"] f by simp
  have tr: "ftruncate (HeaderSize + length ?F) (bf_file b) = encode_header h @ ?F"
    using ftruncate_at [of "encode_header h @ ?F" "HeaderSize + length ?F" t] f by simp
  let ?h2 = "h'\<lparr>fh_TxState := TxDone, fh_IndexOffset := 0\<rparr>"
  define b2 where "b2 = (new_file (bf_file b) c bs)\<lparr>bf_header := ?h2, bf_offset := int HeaderSize, bf_file := encode_header h @ ?F\<rparr>"
  have "rebuild_loop HeaderSize (int 0) (b2\<lparr>bf_index := []\<rparr>)
          = (False, HeaderSize + length ?F, int (0 + length (concat ?K)),
             b2\<lparr>bf_index := []\<rparr>\<lparr>bf_index := bf_index (b2\<lparr>bf_index := []\<rparr>) @ layout c HeaderSize 0 ?K\<rparr>)"
    by (rule rebuild_loop_spec [where p = "encode_header h" and t = "[]"])
      (use okK h in \<open>simp_all add: b2_def new_file_def h'_def\<close>)
  then have rb: "rebuildIndex b2 = (False, b2\<lparr>bf_index := layout c HeaderSize 0 ?K\<rparr>)"
    using h by (simp add: rebuildIndex_def b2_def h'_def)
  let ?b3 = "b2\<lparr>bf_index := layout c HeaderSize 0 ?K\<rparr>"
  let ?b = "(writeHeader ?b3)\<lparr>bf_dataWritePos := fh_DataEnd ?h2, bf_totalSize := fh_TotalSize ?h2, bf_pos := 0\<rparr>"
  have hs: "fh_Magic h' = Magic" "fh_TxState h' = TxActive" "fh_DataEnd h' = int (HeaderSize + length ?F)"
      "fh_TotalSize h' = int (length (concat ?K))"
    using h by (simp_all add: h'_def)
  have load: "loadAndRecover (new_file (bf_file b) c bs) = (None, ?b)"
  proof -
    have n: "nat (fh_DataEnd h') = HeaderSize + length ?F" "\<not> fh_DataEnd h' < 0" unfolding hs(3) by simp_all
    have "(new_file (bf_file b) c bs)\<lparr>bf_header := h', bf_offset := int HeaderSize, bf_file := encode_header h @ ?F, bf_header := ?h2\<rparr> = b2"
      by (simp add: b2_def new_file_def)
    then show ?thesis
      unfolding loadAndRecover_def using rd dec hs(1,2) n tr rb
      by (simp add: new_file_def Let_def load_done_def b2_def)
  qed
  have fl: "bf_file ?b = encode_header ?h2 @ ?F" by (simp add: writeHeader_def b2_def fput_0)
  have "disk_holds c (bf_file ?b) ?K" by (rule disk_holdsI [of _ "encode_header ?h2" _ _ "[]"]) (use fl in simp_all)
  then have "bf_repr ?b ?K"
    using okK hs bs by (simp add: bf_repr_def bf_core_def b2_def new_file_def writeHeader_def)
  then show ?thesis
    using load fl by (intro exI [of _ ?b]) (simp add: OpenBlockFile_def b2_def new_file_def)
qed

end

section \<open>Truncating\<close>

lemma take_layout: "take k (layout c pos raw blks) = layout c pos raw (take k blks)"
proof (cases "k \<le> length blks")
  case True
  have "layout c pos raw (take k blks @ drop k blks)
          = layout c pos raw (take k blks) @ layout c (pos + length (frames c (take k blks))) (raw + length (concat (take k blks))) (drop k blks)"
    by (rule layout_append)
  then have "take k (layout c pos raw blks)
      = take k (layout c pos raw (take k blks) @ layout c (pos + length (frames c (take k blks))) (raw + length (concat (take k blks))) (drop k blks))"
    by simp
  then show ?thesis using True by simp
qed simp

lemma blocks_ok_take: "blocks_ok blks \<Longrightarrow> blocks_ok (take k blks)"
  by (auto simp: blocks_ok_def list_all_iff dest: in_set_takeD)

lemma truncate_all_repr:
  assumes "bf_repr b blks"
  shows "\<exists>b'. truncate_all b = (None, b') \<and> bf_repr b' [] \<and> content b' [] = [] \<and> bf_closed b' = bf_closed b \<and>
           bf_compressor b' = bf_compressor b"
proof -
  obtain hdr t where f: "bf_file b = hdr @ t" "length hdr = HeaderSize"
    using assms unfolding bf_repr_def bf_core_def by (auto elim: disk_holdsE)
  define b1 where "b1 = b\<lparr>bf_file := ftruncate HeaderSize (bf_file b), bf_index := [],
                           bf_dataWritePos := int HeaderSize,
                           bf_header := (bf_header b)\<lparr>fh_TotalSize := 0, fh_DataEnd := int HeaderSize,
                                                      fh_IndexOffset := 0, fh_TxState := TxDone\<rparr>,
                           bf_totalSize := 0, bf_pos := 0, bf_buf := [], bf_lastPhysicalPos := -1\<rparr>"
  have "disk_holds (bf_compressor b) (ftruncate HeaderSize (bf_file b)) []"
    by (rule disk_holdsI [of _ hdr _ _ "[]"]) (use f ftruncate_at [OF f(2), of t] in simp_all)
  then have "bf_core b1 []" using assms by (simp add: bf_repr_def bf_core_def b1_def blocks_ok_def)
  then have "bf_core (writeHeader b1) []" by (rule writeHeader_core)
  then have "bf_repr (writeHeader b1) []" by (simp add: bf_repr_def b1_def)
  then show ?thesis
    by (intro exI [of _ "writeHeader b1"]) (simp add: truncate_all_def b1_def content_def)
qed

text \<open>Cutting inside block \<open>k\<close>: the block is rewritten with its first \<open>m\<close> bytes.\<close>

lemma truncate_block_inside:
  assumes core: "bf_core b blks" and k: "k < length blks" and m: "0 < m" "m < length (blks ! k)"
    and n: "n = int (block_start blks k + m)"
  shows "\<exists>b'. truncate_block n k (blks ! k) b = (None, b') \<and>
           bf_core (b'\<lparr>bf_header := (bf_header b')\<lparr>fh_TotalSize := n, fh_IndexOffset := 0\<rparr>,
                       bf_totalSize := n, bf_pos := min (bf_pos b') n, bf_buf := []\<rparr>) (take k blks @ [take m (blks ! k)]) \<and>
           bf_closed b' = bf_closed b \<and> bf_compressor b' = bf_compressor b"
proof -
  let ?c = "bf_compressor b" and ?r = "blks ! k" and ?K = "take k blks"
  let ?p = "HeaderSize + length (frames (bf_compressor b) (take k blks))"
  let ?fr = "block_frame ?c (take m ?r)"
  have idx: "bf_index b = layout ?c HeaderSize 0 blks" and ok: "blocks_ok blks" and disk: "disk_holds ?c (bf_file b) blks"
    using core by (simp_all add: bf_core_def)
  define ent where "ent = bf_index b ! k"
  have ent: "ix_RawOff ent = int (block_start blks k)" "ix_CompOff ent = int ?p"
    using k by (simp_all add: ent_def idx nth_layout)
  have off: "n - ix_RawOff ent = int m" using n ent by simp
  obtain hdr t where f: "bf_file b = (hdr @ frames ?c ?K) @ t" "length hdr = HeaderSize"
  proof -
    have "disk_holds ?c (bf_file b) (?K @ drop k blks)" using disk by simp
    then obtain hdr t where "bf_file b = hdr @ frames ?c ?K @ t" "length hdr = HeaderSize"
      using disk_holds_prefix by (blast elim: disk_holdsE)
    then show ?thesis using that by simp
  qed
  let ?f = "fput ?p ?fr (ftruncate ?p (bf_file b))"
  have "ftruncate ?p (bf_file b) = hdr @ frames ?c ?K" unfolding f(1) using f(2) by (intro ftruncate_at) simp
  then have "?f = hdr @ frames ?c (?K @ [take m ?r]) @ []"
    using f(2) fput_at [of "hdr @ frames ?c ?K" ?p ?fr "[]"] by simp
  then have disk': "disk_holds ?c ?f (?K @ [take m ?r])" using f(2) by (rule disk_holdsI)
  let ?e = "ent\<lparr>ix_CompLen := int (length ?fr), ix_Crc32 := crc32_ieee (take m ?r)\<rparr>"
  have "take (k + 1) ((bf_index b)[k := ?e]) = take k (bf_index b) @ [?e]"
    using k by (simp add: idx take_Suc_conv_app_nth)
  also have "\<dots> = layout ?c HeaderSize 0 (?K @ [take m ?r])"
    using ent k by (simp add: idx take_layout layout_append)
  finally have idx': "take (k + 1) ((bf_index b)[k := ?e]) = layout ?c HeaderSize 0 (?K @ [take m ?r])" .
  have ok': "blocks_ok (?K @ [take m ?r])"
  proof -
    have "length ?r < 2 ^ 31" using ok k by (auto simp: blocks_ok_def list_all_length)
    moreover have "?r \<noteq> []" using m by auto
    ultimately show ?thesis using blocks_ok_take [OF ok] m by (simp add: blocks_ok_def)
  qed
  let ?b = "b\<lparr>bf_file := ?f, bf_lastPhysicalPos := -1, bf_index := take (k + 1) ((bf_index b)[k := ?e]),
              bf_dataWritePos := int ?p + int (length ?fr), bf_header := (bf_header b)\<lparr>fh_DataEnd := int ?p + int (length ?fr)\<rparr>\<rparr>"
  have "truncate_block n k ?r b = (None, ?b)"
    unfolding truncate_block_def Let_def ent_def [symmetric] off ent(2) nat_int using m by simp
  moreover have "bf_core (?b\<lparr>bf_header := (bf_header ?b)\<lparr>fh_TotalSize := n, fh_IndexOffset := 0\<rparr>,
                       bf_totalSize := n, bf_pos := min (bf_pos ?b) n, bf_buf := []\<rparr>) (?K @ [take m ?r])"
    using core ok' disk' idx' n m k by (simp add: bf_core_def)
  ultimately show ?thesis by (intro exI [of _ ?b]) simp
qed

text \<open>Cutting at the end of block \<open>k\<close>.\<close>

lemma truncate_block_boundary:
  assumes core: "bf_core b blks" and k: "k < length blks" and n: "n = int (block_start blks (Suc k))"
  shows "\<exists>b'. truncate_block n k (blks ! k) b = (None, b') \<and>
           bf_core (b'\<lparr>bf_header := (bf_header b')\<lparr>fh_TotalSize := n, fh_IndexOffset := 0\<rparr>,
                       bf_totalSize := n, bf_pos := min (bf_pos b') n, bf_buf := []\<rparr>) (take (Suc k) blks) \<and>
           bf_closed b' = bf_closed b \<and> bf_compressor b' = bf_compressor b"
proof -
  let ?c = "bf_compressor b" and ?K = "take (Suc k) blks"
  have idx: "bf_index b = layout ?c HeaderSize 0 blks" and ok: "blocks_ok blks" and disk: "disk_holds ?c (bf_file b) (?K @ drop (Suc k) blks)"
    using core by (simp_all add: bf_core_def)
  have disk': "disk_holds ?c (bf_file b) ?K" using disk by (rule disk_holds_prefix)
  define ent where "ent = bf_index b ! k"
  have ent: "ix_RawOff ent = int (block_start blks k)"
      "ix_CompOff ent + ix_CompLen ent = int (HeaderSize + length (frames ?c ?K))"
    using k by (simp_all add: ent_def idx nth_layout take_Suc_conv_app_nth)
  have off: "n - ix_RawOff ent = int (length (blks ! k))" using n ent(1) block_start_Suc [OF k] by simp
  let ?b = "b\<lparr>bf_index := take (k + 1) (bf_index b), bf_dataWritePos := int (HeaderSize + length (frames ?c ?K)),
              bf_header := (bf_header b)\<lparr>fh_DataEnd := int (HeaderSize + length (frames ?c ?K))\<rparr>\<rparr>"
  have "truncate_block n k (blks ! k) b = (None, ?b)"
    unfolding truncate_block_def Let_def ent_def [symmetric] off ent(2) by simp
  moreover have "bf_core (?b\<lparr>bf_header := (bf_header ?b)\<lparr>fh_TotalSize := n, fh_IndexOffset := 0\<rparr>,
                       bf_totalSize := n, bf_pos := min (bf_pos ?b) n, bf_buf := []\<rparr>) ?K"
    using core blocks_ok_take [OF ok, of "Suc k"] disk' n take_layout [of "Suc k" ?c HeaderSize 0 blks] idx by (simp add: bf_core_def)
  ultimately show ?thesis by (intro exI [of _ ?b]) simp
qed

context block_compressor
begin

lemma Truncate_repr:
  assumes r: "bf_repr b blks" and bc: "bf_compressor b = c" and n: "n \<le> length (concat blks)" and ne: "blks \<noteq> []"
  shows "\<exists>b' blks'. Truncate (int n) b = (None, b') \<and> bf_repr b' blks' \<and> content b' blks' = take n (content b blks) \<and>
           bf_closed b' = bf_closed b \<and> bf_compressor b' = c"
proof -
  have core: "bf_core b blks" and tot: "bf_totalSize b = int (length (content b blks))"
    using r by (simp_all add: bf_repr_def content_def)
  have idx: "bf_index b = layout c HeaderSize 0 blks" and ok: "blocks_ok blks" and disk: "disk_holds c (bf_file b) blks"
    using core bc by (simp_all add: bf_core_def)
  have ix: "bf_index b \<noteq> []" using ne idx by (cases blks) auto
  consider (zero) "n = 0" | (all) "0 < n" "int n \<ge> bf_totalSize b" | (part) "0 < n" "int n < bf_totalSize b" by linarith
  then show ?thesis
  proof cases
    case zero
    obtain b' where "truncate_all b = (None, b')" "bf_repr b' []" "content b' [] = []" "bf_closed b' = bf_closed b"
        "bf_compressor b' = c"
      using truncate_all_repr [OF r] bc by auto
    then show ?thesis using zero ix by (intro exI [of _ b'] exI [of _ "[]"]) (simp add: Truncate_def)
  next
    case all
    then have "take n (content b blks) = content b blks" using tot by simp
    then show ?thesis using all ix r bc by (intro exI [of _ b] exI [of _ blks]) (simp add: Truncate_def)
  next
    case part
    obtain k where k: "k < length blks" "findBlock b (int n - 1) = int k" "int (block_start blks k) \<le> int n - 1"
        "int n - 1 < int (block_start blks k + length (blks ! k))"
      using findBlock_layout [OF idx, of "int n - 1"] part n by auto
    let ?p = "HeaderSize + length (frames c (take k blks))" and ?r = "blks ! k"
    define ent where "ent = bf_index b ! k"
    have ent: "ix_CompOff ent = int ?p" "ix_CompLen ent = 4 + int (length (bc_Encode c ?r))"
      using k(1) by (simp_all add: ent_def idx nth_layout block_frame_def Let_def)
    have small: "length ?r < 2 ^ 31" using ok k(1) by (auto simp: blocks_ok_def list_all_length)
    have rd: "fread (nat (ix_CompOff ent + 4)) (nat (ix_CompLen ent - 4)) (bf_file b) = Some (bc_Encode c ?r)"
      using block_frame_read [OF disk k(1)] by (simp add: ent nat_add_distrib)
    obtain b1 blks' where b1: "truncate_block (int n) k ?r b = (None, b1)" "concat blks' = take n (concat blks)"
        "bf_core (b1\<lparr>bf_header := (bf_header b1)\<lparr>fh_TotalSize := int n, fh_IndexOffset := 0\<rparr>, bf_totalSize := int n,
                     bf_pos := min (bf_pos b1) (int n), bf_buf := []\<rparr>) blks'" "bf_closed b1 = bf_closed b" "bf_compressor b1 = c"
    proof (cases "n = block_start blks (Suc k)")
      case True
      have "concat (take (Suc k) blks) = take n (concat blks)"
        unfolding True by (rule take_block_start [symmetric])
      then show ?thesis using truncate_block_boundary [OF core k(1), of "int n"] True that bc by auto
    next
      case False
      define m where "m = n - block_start blks k"
      have m: "0 < m" "m < length ?r" "int n = int (block_start blks k + m)"
        using k(3,4) False block_start_Suc [OF k(1)] by (auto simp: m_def)
      have "concat (take k blks @ [take m ?r]) = take n (concat blks)"
      proof -
        have "concat blks = concat (take k blks) @ ?r @ concat (drop (Suc k) blks)"
          using id_take_nth_drop [OF k(1)] by (metis concat.simps(2) concat_append)
        then show ?thesis using m by (simp add: m_def)
      qed
      then show ?thesis using truncate_block_inside [OF core k(1) m] that bc by blast
    qed
    let ?b = "b1\<lparr>bf_header := (bf_header b1)\<lparr>fh_TotalSize := int n, fh_IndexOffset := 0\<rparr>, bf_totalSize := int n,
                     bf_pos := min (bf_pos b1) (int n), bf_buf := []\<rparr>"
    obtain b2 where b2: "writeIndexLocked ?b = (None, b2)" "bf_core b2 blks'" "bf_buf b2 = []" "bf_closed b2 = bf_closed b"
        "bf_compressor b2 = c" "bf_totalSize b2 = int n"
      using writeIndexLocked_core [OF b1(3)] b1(4,5) by auto
    have "Truncate (int n) b = (None, b2)"
    proof -
      have "\<not> int n = 0" "\<not> int n \<ge> bf_totalSize b" "\<not> (int k < 0 \<or> int k \<ge> int (length (bf_index b)))"
        using part k(1) idx by simp_all
      moreover have "\<not> ix_CompOff ent + 4 < 0" "\<not> ix_CompLen ent - 4 < 0" using ent by simp_all
      ultimately show ?thesis
        unfolding Truncate_def Let_def k(2) nat_int ent_def [symmetric] rd option.case bc decode_encode [OF small] b1(1) prod.case
        using ix b2(1) by (simp only: if_False)
    qed
    moreover have "content b2 blks' = take n (content b blks)" using b2(3) b1(2) n by (simp add: content_def)
    moreover have "bf_repr b2 blks'" using b2 b1(2) n by (simp add: bf_repr_def)
    ultimately show ?thesis using b2 by (intro exI [of _ b2] exI [of _ blks']) simp
  qed
qed

end

end
