(* ===== verification/Block_File_Props.thy ===== *)
theory Block_File_Props
  imports Block_File_Spec
begin

text \<open>
  The properties of the compressed file layer: refinement of a plain file of bytes for arbitrary sequences
  of operations, durability of commits, recovery of a prefix after a crash, truncation, the block search,
  and two behaviours that lose data.
\<close>

section \<open>A plain file as the specification\<close>

record plain_file =
  pf_bytes :: bytes
  pf_pos :: int

datatype file_op = FWrite bytes | FRead nat | FSeek int whence | FSync | FCommit

datatype file_result = RCount nat | RBytes "bf_error option" bytes | RPos "bf_error + int" | RDone "bf_error option"

fun plain_step :: "file_op \<Rightarrow> plain_file \<Rightarrow> file_result \<times> plain_file" where
  "plain_step (FWrite p) a =
     (RCount (length p), \<lparr>pf_bytes = pf_bytes a @ p, pf_pos = int (length (pf_bytes a @ p))\<rparr>)"
| "plain_step (FRead n) a =
     (let d = take n (drop (nat (pf_pos a)) (pf_bytes a))
      in (RBytes (if pf_pos a < int (length (pf_bytes a)) then None else Some ErrEOF) d,
          a\<lparr>pf_pos := pf_pos a + int (length d)\<rparr>))"
| "plain_step (FSeek off wh) a =
     (let go = (\<lambda>p. if p < 0 then (RPos (Inl ErrNegativePosition), a) else (RPos (Inr p), a\<lparr>pf_pos := p\<rparr>))
      in case wh of
           SeekStart \<Rightarrow> go off
         | SeekCurrent \<Rightarrow> go (pf_pos a + off)
         | SeekEnd \<Rightarrow> go (int (length (pf_bytes a)) + off)
         | SeekOther \<Rightarrow> (RPos (Inl ErrInvalidSeekMode), a))"
| "plain_step FSync a = (RDone None, a)"
| "plain_step FCommit a = (RDone None, a)"

text \<open>The same operations on a \<^verbatim>\<open>BlockFile\<close>; \<open>None\<close> is a write or read that does not return.\<close>

fun file_step :: "file_op \<Rightarrow> BlockFile \<Rightarrow> (file_result \<times> BlockFile) option" where
  "file_step (FWrite p) b =
     (case Write p b of None \<Rightarrow> None
      | Some (None, n, b') \<Rightarrow> Some (RCount n, b') | Some (Some e, n, b') \<Rightarrow> Some (RDone (Some e), b'))"
| "file_step (FRead n) b = map_option (\<lambda>((err, d), b'). (RBytes err d, b')) (bf_Read (Suc n) n b)"
| "file_step (FSeek off wh) b = (let (r, b') = bf_Seek off wh b in Some (RPos r, b'))"
| "file_step FSync b = (let (e, b') = Sync b in Some (RDone e, b'))"
| "file_step FCommit b = (let (e, b') = Commit b in Some (RDone e, b'))"

fun plain_run :: "file_op list \<Rightarrow> plain_file \<Rightarrow> file_result list \<times> plain_file" where
  "plain_run [] a = ([], a)"
| "plain_run (x # xs) a = (let (r, a') = plain_step x a; (rs, a'') = plain_run xs a' in (r # rs, a''))"

fun file_run :: "file_op list \<Rightarrow> BlockFile \<Rightarrow> (file_result list \<times> BlockFile) option" where
  "file_run [] b = Some ([], b)"
| "file_run (x # xs) b =
     (case file_step x b of None \<Rightarrow> None
      | Some (r, b') \<Rightarrow> (case file_run xs b' of None \<Rightarrow> None | Some (rs, b'') \<Rightarrow> Some (r # rs, b'')))"

definition file_sim :: "BlockFile \<Rightarrow> plain_file \<Rightarrow> bool" where
  "file_sim b a \<longleftrightarrow> \<not> bf_closed b \<and> 0 \<le> bf_pos b \<and> pf_pos a = bf_pos b \<and>
     (\<exists>blks. bf_repr b blks \<and> pf_bytes a = content b blks)"

lemma content_size: "bf_repr b blks \<Longrightarrow> bf_totalSize b = int (length (content b blks))"
  by (simp add: bf_repr_def content_def)

lemma bf_pos_repr [simp]: "bf_repr (b\<lparr>bf_pos := p\<rparr>) blks = bf_repr b blks" "content (b\<lparr>bf_pos := p\<rparr>) blks = content b blks"
  by (simp_all add: bf_repr_def bf_core_def content_def)

lemma file_step_sim:
  assumes law: "block_compressor (bf_compressor b)" and sim: "file_sim b a"
  shows "\<exists>b'. file_step x b = Some (fst (plain_step x a), b') \<and> file_sim b' (snd (plain_step x a)) \<and>
           bf_compressor b' = bf_compressor b"
proof -
  obtain blks where s: "\<not> bf_closed b" "0 \<le> bf_pos b" "pf_pos a = bf_pos b" "bf_repr b blks" "pf_bytes a = content b blks"
    using sim by (auto simp: file_sim_def)
  note size = content_size [OF s(4)]
  show ?thesis
  proof (cases x)
    case (FWrite p)
    obtain b' blks' where w: "Write p b = Some (None, length p, b')" "bf_repr b' blks'" "content b' blks' = content b blks @ p"
        "bf_pos b' = bf_totalSize b'" "\<not> bf_closed b'" "bf_compressor b' = bf_compressor b"
      using Write_repr [OF s(4,1)] by blast
    have "file_sim b' (snd (plain_step x a))"
      unfolding file_sim_def using w s content_size [OF w(2)] FWrite by (auto intro!: exI [of _ blks'])
    then show ?thesis using w FWrite by simp
  next
    case (FRead n)
    let ?d = "take n (drop (nat (bf_pos b)) (content b blks))"
    obtain b' where r: "bf_Read (Suc n) n b = Some ((if bf_pos b < bf_totalSize b then None else Some ErrEOF, ?d), b')"
        "bf_repr b' blks" "bf_compressor b' = bf_compressor b" "bf_buf b' = bf_buf b" "bf_pos b' = bf_pos b + int (length ?d)"
        "bf_closed b' = bf_closed b"
      using block_compressor.bf_Read_repr [OF law s(4) refl s(1,2)] by blast
    have "file_sim b' (snd (plain_step x a))"
      unfolding file_sim_def using r s FRead by (auto simp: Let_def content_def intro!: exI [of _ blks])
    then show ?thesis using r s size FRead by (simp add: Let_def)
  next
    case (FSeek off wh)
    then show ?thesis
      using s size by (cases wh) (auto simp: bf_Seek_def Let_def file_sim_def intro!: exI [of _ blks])
  next
    case FSync
    obtain b' blks' where "Sync b = (None, b')" "bf_repr b' blks'" "content b' blks' = content b blks" "\<not> bf_closed b'"
        "bf_compressor b' = bf_compressor b" "bf_pos b' = bf_pos b"
      using Sync_repr [OF s(4,1)] by blast
    then show ?thesis using s FSync by (auto simp: file_sim_def intro!: exI [of _ blks'])
  next
    case FCommit
    obtain b' blks' where "Commit b = (None, b')" "bf_repr b' blks'" "content b' blks' = content b blks" "\<not> bf_closed b'"
        "bf_compressor b' = bf_compressor b" "bf_pos b' = bf_pos b"
      using Commit_repr [OF s(4,1)] by blast
    then show ?thesis using s FCommit by (auto simp: file_sim_def intro!: exI [of _ blks'])
  qed
qed

lemma file_run_sim:
  assumes "block_compressor (bf_compressor b)" "file_sim b a"
  shows "\<exists>b'. file_run xs b = Some (fst (plain_run xs a), b') \<and> file_sim b' (snd (plain_run xs a)) \<and>
           bf_compressor b' = bf_compressor b"
  using assms
proof (induction xs arbitrary: b a)
  case (Cons x xs)
  obtain b1 where b1: "file_step x b = Some (fst (plain_step x a), b1)" "file_sim b1 (snd (plain_step x a))"
      "bf_compressor b1 = bf_compressor b"
    using file_step_sim [OF Cons.prems] by blast
  obtain b2 where "file_run xs b1 = Some (fst (plain_run xs (snd (plain_step x a))), b2)"
      "file_sim b2 (snd (plain_run xs (snd (plain_step x a))))" "bf_compressor b2 = bf_compressor b1"
    using Cons.IH [of b1] Cons.prems(1) b1 by auto
  then show ?case using b1 by (auto simp: Let_def case_prod_beta)
qed simp

section \<open>A new file\<close>

lemma open_new_eq: "OpenBlockFile [] c bs = Inr (initNew (new_file [] c bs))"
  by (simp add: OpenBlockFile_def loadAndRecover_def fread_def new_file_def HeaderSize_def)

lemma open_new:
  assumes "0 < bs" "bs < 2 ^ 31"
  shows "\<exists>b. OpenBlockFile [] c bs = Inr b \<and> bf_repr b [] \<and> content b [] = [] \<and> bf_pos b = 0 \<and> \<not> bf_closed b \<and>
           bf_compressor b = c \<and> fh_TxState (bf_header b) = TxDone"
proof -
  let ?b = "initNew (new_file [] c bs)"
  have op: "OpenBlockFile [] c bs = Inr ?b" by (rule open_new_eq)
  have "disk_holds c (bf_file ?b) []"
    by (rule disk_holdsI [of _ "bf_file ?b" _ _ "[]"]) (simp_all add: initNew_def writeHeader_def new_file_def)
  then have "bf_repr ?b []"
    using assms by (simp add: bf_repr_def bf_core_def initNew_def writeHeader_def new_file_def blocks_ok_def)
  then show ?thesis using op
    by (intro exI [of _ ?b]) (simp add: content_def initNew_def writeHeader_def new_file_def)
qed

text \<open>\<^bold>\<open>C6\<close>: a \<^verbatim>\<open>BlockFile\<close> opened on an empty path behaves exactly like a plain in-memory file of bytes under
  every sequence of writes, reads, seeks, syncs and commits: all results agree, whatever the block size and
  whatever the (reversible) compressor, and every operation returns.\<close>

theorem BlockFile_refines_plain_file:
  assumes "block_compressor c" "0 < bs" "bs < 2 ^ 31"
  shows "\<exists>b b'. OpenBlockFile [] c bs = Inr b \<and>
           file_run ops b = Some (fst (plain_run ops \<lparr>pf_bytes = [], pf_pos = 0\<rparr>), b') \<and>
           file_sim b' (snd (plain_run ops \<lparr>pf_bytes = [], pf_pos = 0\<rparr>))"
proof -
  obtain b where b: "OpenBlockFile [] c bs = Inr b" "bf_repr b []" "content b [] = []" "bf_pos b = 0" "\<not> bf_closed b"
      "bf_compressor b = c"
    using open_new assms by blast
  then have "file_sim b \<lparr>pf_bytes = [], pf_pos = 0\<rparr>" by (auto simp: file_sim_def intro!: exI [of _ "[]"])
  then show ?thesis using file_run_sim [of b "\<lparr>pf_bytes = [], pf_pos = 0\<rparr>" ops] b assms(1) by auto
qed

theorem BlockFile_refines_plain_file_witness:
  "\<exists>b b'. OpenBlockFile [] NoCompressor 2 = Inr b \<and>
     file_run [FWrite [1, 2, 3], FSeek 1 SeekStart, FRead 9] b = Some ([RCount 3, RPos (Inr 1), RBytes None [2, 3]], b')"
  using BlockFile_refines_plain_file [of NoCompressor 2 "[FWrite [1, 2, 3], FSeek 1 SeekStart, FRead 9]"]
    no_compressor.block_compressor_axioms
  by (auto simp: Let_def eval_nat_numeral)

section \<open>Durability and crash recovery\<close>

text \<open>\<^bold>\<open>C7\<close>: once \<^verbatim>\<open>Commit\<close> has returned, opening the bytes on disk again gives a file with exactly the same
  content, for files whose data ends below 16 GiB.\<close>

theorem Commit_durable:
  assumes "block_compressor c" "bf_repr b blks" "bf_compressor b = c" "\<not> bf_closed b" "0 < bs" "bs < 2 ^ 31"
    "fh_DataEnd (bf_header (snd (Commit b))) < 2 ^ 34"
  shows "\<exists>b' b2 blks'. Commit b = (None, b') \<and> OpenBlockFile (bf_file b') c bs = Inr b2 \<and>
           bf_repr b2 blks' \<and> content b2 blks' = content b blks \<and> bf_pos b2 = 0 \<and> bf_Size b2 = bf_Size b"
proof -
  obtain b' blks' where b': "Commit b = (None, b')" "bf_repr b' blks'" "content b' blks' = content b blks" "committed b' blks'"
      "bf_compressor b' = c"
    using Commit_repr [OF assms(2,4)] assms(3) by auto
  have core: "bf_core b' blks'" and buf: "content b' blks' = concat blks'"
    using b' by (simp_all add: bf_repr_def committed_def content_def)
  obtain b2 where b2: "OpenBlockFile (bf_file b') c bs = Inr b2" "bf_repr b2 blks'" "content b2 blks' = concat blks'" "bf_pos b2 = 0"
    using block_compressor.open_committed [OF assms(1) core b'(5,4) _ assms(5,6)] assms(7) b'(1) by auto
  have "bf_Size b2 = bf_Size b"
    unfolding bf_Size_def using content_size [OF assms(2)] content_size [OF b2(2)] b'(3) b2(3) buf by simp
  then show ?thesis using b' b2 buf by auto
qed

theorem Commit_durable_witness:
  "\<exists>b b' b2 blks'. OpenBlockFile [] NoCompressor 4 = Inr b \<and> Commit b = (None, b') \<and>
     OpenBlockFile (bf_file b') NoCompressor 4 = Inr b2 \<and> bf_repr b2 blks' \<and> content b2 blks' = []"
proof -
  obtain b where b: "OpenBlockFile [] NoCompressor 4 = Inr b" "bf_repr b []" "content b [] = []" "\<not> bf_closed b"
      "bf_compressor b = NoCompressor"
    using open_new [of 4 NoCompressor] by auto
  then have "bf_buf b = []" "fh_DataEnd (bf_header b) = 39"
    by (simp_all add: content_def bf_repr_def bf_core_def HeaderSize_def)
  then have "fh_DataEnd (bf_header (snd (Commit b))) < 2 ^ 34"
    using b(4) by (simp add: Commit_def flushBlock_def writeIndexLocked_def writeHeader_def Let_def)
  then show ?thesis
    using Commit_durable [OF no_compressor.block_compressor_axioms b(2,5,4), of 4] b by auto
qed

text \<open>Writes and syncs between two commits.\<close>

datatype tx_op = TxWrite bytes | TxSync

fun tx_run :: "tx_op list \<Rightarrow> BlockFile \<Rightarrow> BlockFile option" where
  "tx_run [] b = Some b"
| "tx_run (TxWrite p # xs) b = (case Write p b of Some (None, n, b') \<Rightarrow> tx_run xs b' | _ \<Rightarrow> None)"
| "tx_run (TxSync # xs) b = (case Sync b of (None, b') \<Rightarrow> tx_run xs b' | _ \<Rightarrow> None)"

fun tx_written :: "tx_op list \<Rightarrow> bytes" where
  "tx_written [] = []"
| "tx_written (TxWrite p # xs) = p @ tx_written xs"
| "tx_written (TxSync # xs) = tx_written xs"

lemma tx_run_repr:
  assumes "bf_repr b blks" "\<not> bf_closed b" "tx_ok m b blks"
  shows "\<exists>b' blks'. tx_run xs b = Some b' \<and> bf_repr b' blks' \<and> content b' blks' = content b blks @ tx_written xs \<and>
           \<not> bf_closed b' \<and> bf_compressor b' = bf_compressor b \<and> tx_ok m b' blks'"
  using assms
proof (induction xs b arbitrary: blks rule: tx_run.induct)
  case (2 p xs b)
  obtain b1 blks1 where b1: "Write p b = Some (None, length p, b1)" "bf_repr b1 blks1" "content b1 blks1 = content b blks @ p"
      "\<not> bf_closed b1" "bf_compressor b1 = bf_compressor b" "tx_ok m b1 blks1"
    using Write_repr [OF "2.prems"(1,2)] "2.prems"(3) by blast
  show ?case using "2.IH" [OF b1(1) refl refl refl b1(2,4,6)] b1 by auto
next
  case (3 xs b)
  obtain b1 blks1 where b1: "Sync b = (None, b1)" "bf_repr b1 blks1" "content b1 blks1 = content b blks"
      "\<not> bf_closed b1" "bf_compressor b1 = bf_compressor b" "tx_ok m b1 blks1"
    using Sync_repr [OF "3.prems"(1,2)] "3.prems"(3) by blast
  show ?case using "3.IH" [OF b1(1) [symmetric] refl b1(2,4,6)] b1 by auto
qed auto

text \<open>\<^bold>\<open>C11\<close>: when the process dies in the middle of a transaction whose header has reached the disk, opening
  the file recovers a prefix of everything written that still contains all blocks of before the transaction.\<close>

theorem crash_recovers_prefix:
  assumes "block_compressor c" "bf_repr b blks" "bf_compressor b = c" "\<not> bf_closed b"
    "fh_TxState (bf_header b) = TxDone" "0 < bs" "bs < 2 ^ 31"
  shows "\<exists>b' blks'. tx_run ops b = Some b' \<and> content b' blks' = content b blks @ tx_written ops \<and> bf_repr b' blks' \<and>
           (fh_TxState (bf_header b') = TxActive \<longrightarrow> fh_DataEnd (bf_header b') < 2 ^ 34 \<longrightarrow>
              (\<exists>b2 kept lost. OpenBlockFile (bf_file b') c bs = Inr b2 \<and> bf_repr b2 (blks @ kept) \<and>
                 bf_Size b2 = int (length (concat (blks @ kept))) \<and>
                 content b' blks' = concat (blks @ kept) @ lost))"
proof -
  have "tx_ok blks b blks" using assms(5) by (simp add: tx_ok_def TxDone_def TxActive_def)
  then obtain b' blks' where b': "tx_run ops b = Some b'" "bf_repr b' blks'" "content b' blks' = content b blks @ tx_written ops"
      "bf_compressor b' = c" "tx_ok blks b' blks'"
    using tx_run_repr [OF assms(2,4), of blks ops] assms(3) by auto
  have "\<exists>b2 kept lost. OpenBlockFile (bf_file b') c bs = Inr b2 \<and> bf_repr b2 (blks @ kept) \<and>
                 bf_Size b2 = int (length (concat (blks @ kept))) \<and> content b' blks' = concat (blks @ kept) @ lost"
    if act: "fh_TxState (bf_header b') = TxActive" and small: "fh_DataEnd (bf_header b') < 2 ^ 34"
  proof -
    obtain new k where k: "blks' = blks @ new" "length blks \<le> k" "disk_tx b' blks' k"
      using b'(5) act unfolding tx_ok_def by blast
    have core: "bf_core b' blks'" using b'(2) by (simp add: bf_repr_def)
    let ?kept = "take (k - length blks) new"
    have tk: "take k blks' = blks @ ?kept" using k by simp
    obtain b2 where b2: "OpenBlockFile (bf_file b') c bs = Inr b2" "bf_repr b2 (take k blks')" "bf_buf b2 = []"
      using block_compressor.open_active [OF assms(1) core b'(4) k(3) small assms(6,7)] by blast
    have "content b' blks' = concat (take k blks' @ drop k blks') @ bf_buf b'" by (simp add: content_def)
    also have "\<dots> = concat (take k blks') @ (concat (drop k blks') @ bf_buf b')" unfolding concat_append by simp
    finally have "content b' blks' = concat (blks @ ?kept) @ (concat (drop k blks') @ bf_buf b')" unfolding tk .
    moreover have "bf_Size b2 = int (length (concat (blks @ ?kept)))"
      unfolding bf_Size_def using b2(2,3) tk by (simp add: bf_repr_def)
    ultimately show ?thesis using b2 tk by auto
  qed
  then show ?thesis using b' by blast
qed

theorem crash_recovers_prefix_witness:
  "\<exists>b b' b2 kept lost. OpenBlockFile [] NoCompressor 2 = Inr b \<and> tx_run [TxWrite [1, 2], TxSync] b = Some b' \<and>
     fh_TxState (bf_header b') = TxActive \<and> OpenBlockFile (bf_file b') NoCompressor 2 = Inr b2 \<and>
     bf_repr b2 kept \<and> [1, 2] = concat kept @ lost"
proof -
  let ?b = "initNew (new_file [] NoCompressor 2)"
  obtain b where b: "OpenBlockFile [] NoCompressor 2 = Inr b" "bf_repr b []" "content b [] = []" "\<not> bf_closed b"
      "bf_compressor b = NoCompressor" "fh_TxState (bf_header b) = TxDone"
    using open_new [of 2 NoCompressor] by auto
  then have eq: "b = ?b" using open_new_eq [of NoCompressor 2] by simp
  have "case tx_run [TxWrite [1, 2], TxSync] ?b of
          Some b' \<Rightarrow> fh_TxState (bf_header b') = TxActive \<and> fh_DataEnd (bf_header b') < 2 ^ 34 | None \<Rightarrow> False"
    by code_simp
  moreover obtain b' blks' where b': "tx_run [TxWrite [1, 2], TxSync] b = Some b'"
      "content b' blks' = content b [] @ tx_written [TxWrite [1, 2], TxSync]"
      "fh_TxState (bf_header b') = TxActive \<longrightarrow> fh_DataEnd (bf_header b') < 2 ^ 34 \<longrightarrow>
         (\<exists>b2 kept lost. OpenBlockFile (bf_file b') NoCompressor 2 = Inr b2 \<and> bf_repr b2 ([] @ kept) \<and>
                 bf_Size b2 = int (length (concat ([] @ kept))) \<and> content b' blks' = concat ([] @ kept) @ lost)"
  proof -
    have bs: "0 < (2 :: int)" "(2 :: int) < 2 ^ 31" by simp_all
    show ?thesis
      using crash_recovers_prefix [OF no_compressor.block_compressor_axioms b(2,5,4,6) bs, of "[TxWrite [1, 2], TxSync]"] that
      by blast
  qed
  ultimately have "fh_TxState (bf_header b') = TxActive" "fh_DataEnd (bf_header b') < 2 ^ 34" using eq by simp_all
  moreover from this obtain b2 kept lost where "OpenBlockFile (bf_file b') NoCompressor 2 = Inr b2" "bf_repr b2 kept"
      "content b' blks' = concat kept @ lost"
    using b'(3) by auto
  moreover have "content b' blks' = [1, 2]" using b'(2) b(3) by simp
  ultimately show ?thesis using b(1) b'(1) by metis
qed

section \<open>Truncation and search\<close>

text \<open>\<^bold>\<open>C22\<close>: truncating to a size within the flushed blocks keeps exactly that many bytes of the content,
  also in the middle of a compressed block, and leaves a well-formed file.\<close>

theorem Truncate_keeps_prefix:
  assumes "block_compressor c" "bf_repr b blks" "bf_compressor b = c" "n \<le> length (concat blks)" "blks \<noteq> []"
  shows "\<exists>b' blks'. Truncate (int n) b = (None, b') \<and> bf_repr b' blks' \<and> content b' blks' = take n (content b blks) \<and>
           bf_Size b' = int n"
proof -
  obtain b' blks' where b': "Truncate (int n) b = (None, b')" "bf_repr b' blks'" "content b' blks' = take n (content b blks)"
    using block_compressor.Truncate_repr [OF assms] by blast
  moreover have "bf_Size b' = int n"
    unfolding bf_Size_def content_size [OF b'(2)] b'(3) using assms(4) by (simp add: content_def)
  ultimately show ?thesis by blast
qed

theorem Truncate_keeps_prefix_witness:
  "\<exists>b b' blks'. bf_repr b [[1, 2, 3]] \<and> Truncate 2 b = (None, b') \<and> bf_repr b' blks' \<and> content b' blks' = [1, 2]"
proof -
  obtain b where b: "bf_repr b []" "content b [] = []" "\<not> bf_closed b" "bf_compressor b = NoCompressor"
    using open_new [of 4 NoCompressor] by auto
  define b2 where "b2 = b\<lparr>bf_buf := [1, 2, 3], bf_totalSize := 3, bf_blockSize := 4\<rparr>"
  have core: "bf_core b2 []" using b(1) by (simp add: b2_def bf_repr_def bf_core_def)
  obtain b3 where b3: "bf_core b3 [[1, 2, 3]]" "bf_buf b3 = []" "bf_compressor b3 = NoCompressor" "bf_totalSize b3 = 3"
    using flushBlock_core [OF core] b(4) by (auto simp: b2_def)
  then have r: "bf_repr b3 [[1, 2, 3]]" by (simp add: bf_repr_def)
  then show ?thesis
    using Truncate_keeps_prefix [OF no_compressor.block_compressor_axioms r b3(3), of 2] b3(2) by (auto simp: content_def)
qed

text \<open>The binary search finds the one block that contains a logical offset.\<close>

theorem findBlock_correct:
  assumes "bf_repr b blks" "0 \<le> off" "off < int (length (concat blks))"
  shows "\<exists>k < length blks. findBlock b off = int k \<and> int (length (concat (take k blks))) \<le> off \<and>
           off < int (length (concat (take (Suc k) blks)))"
proof -
  have "bf_index b = layout (bf_compressor b) HeaderSize 0 blks" using assms(1) by (simp add: bf_repr_def bf_core_def)
  then show ?thesis using findBlock_layout assms(2,3) block_start_Suc by metis
qed

theorem findBlock_correct_witness:
  "let b = (initNew (new_file [] NoCompressor 4))\<lparr>bf_index := layout NoCompressor 39 0 [[1, 2], [3], [4, 5]]\<rparr>
   in findBlock b 2 = 1"
proof -
  let ?blks = "[[1, 2], [3], [4, 5]] :: bytes list"
  define b where "b = (initNew (new_file [] NoCompressor 4))\<lparr>bf_index := layout NoCompressor 39 0 ?blks,
      bf_file := replicate 39 0 @ frames NoCompressor ?blks,
      bf_header := \<lparr>fh_Magic = Magic, fh_Version = 1, fh_TxState = 0, fh_CodecID = 0, fh_BlockSize = 4, fh_TotalSize = 5,
                    fh_DataEnd = int (39 + length (frames NoCompressor ?blks)), fh_IndexOffset = 0, fh_HeaderCrc = 0\<rparr>,
      bf_dataWritePos := int (39 + length (frames NoCompressor ?blks)), bf_totalSize := 5\<rparr>"
  have "disk_holds NoCompressor (bf_file b) ?blks"
    by (rule disk_holdsI [of _ "replicate 39 0" _ _ "[]"]) (simp_all add: b_def HeaderSize_def)
  then have "bf_repr b ?blks"
    by (simp add: bf_repr_def bf_core_def b_def blocks_ok_def initNew_def writeHeader_def new_file_def HeaderSize_def)
  then have "\<exists>k < length ?blks. findBlock b 2 = int k \<and> int (length (concat (take k ?blks))) \<le> 2 \<and>
               2 < int (length (concat (take (Suc k) ?blks)))"
    by (rule findBlock_correct) simp_all
  then obtain k where k: "k < length ?blks" "findBlock b 2 = int k" "int (length (concat (take k ?blks))) \<le> 2"
      "2 < int (length (concat (take (Suc k) ?blks)))"
    by blast
  then have "k = 0 \<or> k = 1 \<or> k = 2" by auto
  then have "k = 1" using k(3,4) by auto
  then have "findBlock b 2 = 1" using k(2) by simp
  then show ?thesis by (simp add: findBlock_def b_def)
qed

section \<open>Behaviours that lose data\<close>

text \<open>What the second open of a recovered file sees: a header that counts the data, and no index.\<close>

lemma reopen_recovered:
  assumes law: "block_compressor c" and core: "bf_core b blks" and bc: "bf_compressor b = c"
    and tx: "disk_tx b blks k" and k: "0 < k" and small: "fh_DataEnd (bf_header b) < 2 ^ 34" and bs: "0 < bs" "bs < 2 ^ 31"
  shows "\<exists>b1 b2. OpenBlockFile (bf_file b) c bs = Inr b1 \<and> bf_repr b1 (take k blks) \<and> bf_buf b1 = [] \<and> \<not> bf_closed b1 \<and>
           0 < length (concat (take k blks)) \<and> length (concat (take k blks)) < 2 ^ 63 \<and>
           OpenBlockFile (bf_file b1) c bs = Inr b2 \<and> bf_file b2 = bf_file b1 \<and> bf_header b2 = bf_header b1 \<and>
           bf_file b1 = encode_header (bf_header b1) @ frames c (take k blks) \<and> bf_index b2 = [] \<and> bf_buf b2 = [] \<and>
           \<not> bf_closed b2 \<and> bf_totalSize b2 = int (length (concat (take k blks))) \<and> bf_pos b2 = 0 \<and>
           bf_blockSize b2 = nat bs \<and> bf_compressor b1 = c \<and> HeaderSize + length (frames c (take k blks)) < 2 ^ 34"
proof -
  let ?K = "take k blks"
  obtain b1 where b1: "OpenBlockFile (bf_file b) c bs = Inr b1" "bf_repr b1 ?K" "bf_buf b1 = []" "bf_compressor b1 = c"
      "fh_TxState (bf_header b1) = TxDone" "fh_IndexOffset (bf_header b1) = 0" "\<not> bf_closed b1"
      "bf_file b1 = encode_header (bf_header b1) @ frames c ?K"
    using block_compressor.open_active [OF law core bc tx small bs] by blast
  let ?h = "bf_header b1"
  have ok: "blocks_ok ?K" and h: "fh_Magic ?h = Magic" "fh_TotalSize ?h = int (length (concat ?K))"
      "fh_DataEnd ?h = int (HeaderSize + length (frames c ?K))"
    using b1(2,4) by (simp_all add: bf_repr_def bf_core_def)
  have "frames c blks = frames c ?K @ frames c (drop k blks)" by (metis append_take_drop_id frames_simps(3))
  then have sm: "HeaderSize + length (frames c ?K) < 2 ^ 34" using small core bc by (simp add: bf_core_def)
  note sz = block_compressor.sizes_small [OF law ok sm]
  have dec: "decode_header (encode_header ?h) = ?h"
    using sz sm by (intro decode_encode_header) (simp_all only: h b1(6), simp_all)
  have rd: "fread 0 HeaderSize (bf_file b1) = Some (encode_header ?h)"
    using fread_at [of "[]" 0 "encode_header ?h" "frames c ?K"] b1(8) by simp
  let ?b2 = "(new_file (bf_file b1) c bs)\<lparr>bf_header := ?h, bf_offset := int HeaderSize, bf_dataWritePos := fh_DataEnd ?h,
               bf_totalSize := fh_TotalSize ?h, bf_pos := 0\<rparr>"
  have op: "OpenBlockFile (bf_file b1) c bs = Inr ?b2"
    unfolding OpenBlockFile_def loadAndRecover_def using rd dec h(1) b1(5,6)
    by (simp add: new_file_def load_done_def Let_def TxDone_def TxActive_def)
  have "blks \<noteq> []" using tx k by (auto simp: disk_tx_def)
  then have "?K \<noteq> []" using k by auto
  then have pos: "0 < length (concat ?K)" using ok by (cases ?K) (auto simp: blocks_ok_def)
  show ?thesis
    using b1 op pos h sz(2) sm bs by (intro exI [of _ b1] exI [of _ ?b2]) (simp add: new_file_def)
qed

lemma no_index_no_read:
  assumes "bf_index b = []" "bf_buf b = []" "bf_pos b < bf_totalSize b" "\<not> bf_closed b"
  shows "bf_Read fuel n b = Some ((Some ErrEOF, []), b)"
  using assms by (simp add: bf_Read_def readAt_def)

text \<open>\<^bold>\<open>C26\<close>: recovery rewrites the header as committed with no index offset and does not write the index
  it rebuilt.  When the recovered file is opened again without a commit in between, the second open loads
  no index: the file reports its size but every read ends at once with end-of-file.\<close>

theorem recovered_file_reopened_is_unreadable:
  assumes law: "block_compressor c" and core: "bf_core b blks" and bc: "bf_compressor b = c"
    and tx: "disk_tx b blks k" and k: "0 < k" and small: "fh_DataEnd (bf_header b) < 2 ^ 34" and bs: "0 < bs" "bs < 2 ^ 31"
  shows "\<exists>b1 b2. OpenBlockFile (bf_file b) c bs = Inr b1 \<and> bf_repr b1 (take k blks) \<and>
           OpenBlockFile (bf_file b1) c bs = Inr b2 \<and> bf_Size b2 = bf_Size b1 \<and> 0 < bf_Size b2 \<and>
           (\<forall>fuel n. bf_Read fuel n b2 = Some ((Some ErrEOF, []), b2))"
proof -
  obtain b1 b2 where b: "OpenBlockFile (bf_file b) c bs = Inr b1" "bf_repr b1 (take k blks)" "bf_buf b1 = []"
      "0 < length (concat (take k blks))" "OpenBlockFile (bf_file b1) c bs = Inr b2" "bf_index b2 = []" "bf_buf b2 = []"
      "\<not> bf_closed b2" "bf_totalSize b2 = int (length (concat (take k blks)))" "bf_pos b2 = 0"
    using reopen_recovered [OF assms] by blast
  have "bf_Size b1 = int (length (concat (take k blks)))" using b(2,3) by (simp add: bf_Size_def bf_repr_def)
  then show ?thesis using b no_index_no_read [OF b(6,7)] by (intro exI [of _ b1] exI [of _ b2]) (simp add: bf_Size_def)
qed

text \<open>Truncating data that is still buffered (no block flushed yet) records the new size as the
  number of flushed bytes, so the next flush places the block at that logical offset and the kept bytes can
  no longer be found from offset 0.\<close>

theorem truncate_buffered_then_flush_unreadable:
  assumes "bf_index b = []" "0 < n" "n < length (bf_buf b)" "0 \<le> bf_dataWritePos b"
  shows "let b1 = snd (Truncate (int n) b); b2 = snd (flushBlock b1)
         in bf_buf b1 = take n (bf_buf b) \<and> bf_Size b2 = int n \<and> length (bf_index b2) = 1 \<and>
            blockData 0 b2 = (Inl ErrEOF, b2)"
proof -
  define b1 where "b1 = writeHeader (b\<lparr>bf_buf := take n (bf_buf b), bf_totalSize := int n, bf_pos := int n,
                                 bf_header := (bf_header b)\<lparr>fh_TotalSize := int n\<rparr>\<rparr>)"
  have t: "Truncate (int n) b = (None, b1)"
    using assms by (simp add: Truncate_def truncate_buffered_def b1_def)
  have ne: "bf_buf b1 = take n (bf_buf b)" "bf_buf b1 \<noteq> []" using assms(2,3) by (auto simp: b1_def)
  obtain b2 ent where b2: "flushBlock b1 = (None, b2)" "bf_index b2 = [ent]" "ix_RawOff ent = int n" "bf_totalSize b2 = int n"
    using ne(2) assms(1,4) by (auto simp: flushBlock_def Let_def b1_def writeHeader_def)
  have "findBlock b2 0 = -1"
    using assms(2) b2(2,3) by (simp add: findBlock_def find_loop.simps [of _ 0 0 0] find_loop.simps [of _ 0 0 "-1"])
  then show ?thesis using t ne(1) b2 by (simp add: Let_def blockData_def bf_Size_def)
qed

theorem truncate_buffered_then_flush_unreadable_witness:
  "let b = (initNew (new_file [] NoCompressor 8))\<lparr>bf_buf := [1, 2, 3, 4], bf_totalSize := 4\<rparr>;
       b1 = snd (Truncate 2 b); b2 = snd (flushBlock b1)
   in bf_buf b1 = [1, 2] \<and> bf_Size b2 = 2 \<and> blockData 0 b2 = (Inl ErrEOF, b2)"
proof -
  let ?b = "(initNew (new_file [] NoCompressor 8))\<lparr>bf_buf := [1, 2, 3, 4], bf_totalSize := 4\<rparr>"
  have "bf_index ?b = []" "0 \<le> bf_dataWritePos ?b" by (simp_all add: initNew_def writeHeader_def new_file_def)
  then show ?thesis using truncate_buffered_then_flush_unreadable [of ?b 2] by (simp add: Let_def)
qed

text \<open>A concrete file left by a crash: one block flushed and the header of the open transaction written.\<close>

lemma crashed_example:
  "\<exists>b. bf_core b [[7]] \<and> bf_compressor b = NoCompressor \<and> disk_tx b [[7]] 1 \<and> length (bf_file b) < 2 ^ 34"
proof -
  obtain b where b: "OpenBlockFile [] NoCompressor 4 = Inr b" "bf_core b []" "bf_compressor b = NoCompressor"
    using open_new [of 4 NoCompressor] by (auto simp: bf_repr_def)
  have len: "length (bf_file b) = 39" "bf_dataWritePos b = 39"
    using b(1) unfolding open_new_eq by (auto simp: initNew_def writeHeader_def new_file_def HeaderSize_def)
  define b0 where "b0 = b\<lparr>bf_buf := [7], bf_header := (bf_header b)\<lparr>fh_TxState := TxActive\<rparr>, bf_blockSize := 4\<rparr>"
  have core: "bf_core b0 []" using b(2) by (simp add: b0_def bf_core_def)
  obtain b3 where b3: "flushBlock b0 = (None, b3)" "bf_core b3 [[7]]" "bf_compressor b3 = NoCompressor"
      "fh_TxState (bf_header b3) = TxActive"
    using flushBlock_core [OF core] b(3) by (auto simp: b0_def)
  have "length (bf_file b3) = 44"
    using b3(1) len b(3) by (auto simp: flushBlock_def b0_def Let_def block_frame_def NoCompressor_def)
  then have "length (bf_file (writeHeader b3)) < 2 ^ 34" by (simp add: writeHeader_def HeaderSize_def)
  then show ?thesis
    using disk_tx_writeHeader [OF b3(2,4)] writeHeader_core [OF b3(2)] b3(3) by (intro exI [of _ "writeHeader b3"]) simp
qed

theorem recovered_file_reopened_is_unreadable_witness:
  "\<exists>(b :: BlockFile) b1 b2. OpenBlockFile (bf_file b) NoCompressor 2 = Inr b1 \<and> OpenBlockFile (bf_file b1) NoCompressor 2 = Inr b2 \<and>
     0 < bf_Size b2 \<and> (\<forall>fuel n. bf_Read fuel n b2 = Some ((Some ErrEOF, []), b2))"
proof -
  obtain b where b: "bf_core b [[7]]" "bf_compressor b = NoCompressor" "disk_tx b [[7]] 1"
    using crashed_example by blast
  have "fh_DataEnd (bf_header b) < 2 ^ 34" using b(1,2)
    by (simp add: bf_core_def block_frame_def NoCompressor_def HeaderSize_def Let_def)
  then obtain b1 b2 where "OpenBlockFile (bf_file b) NoCompressor 2 = Inr b1"
      "OpenBlockFile (bf_file b1) NoCompressor 2 = Inr b2" "0 < bf_Size b2"
      "\<forall>fuel n. bf_Read fuel n b2 = Some ((Some ErrEOF, []), b2)"
    using recovered_file_reopened_is_unreadable [OF no_compressor.block_compressor_axioms b, of 2] by auto
  then show ?thesis by (intro exI [of _ b] exI [of _ b1] exI [of _ b2]) simp
qed

end
