(* ===== verification/Segment_Index.thy ===== *)
theory Segment_Index
  imports Prelude
begin

text \<open>
  The block-level index of a data segment, \<^verbatim>\<open>tsdb/segment_index.go\<close>: the flat list of blocks in disk
  order, the derived per-tag position lists with the set of tags whose blocks are out of time order, the
  range lookup with its two binary searches, and the \<^verbatim>\<open>.idx\<close> file.  Times and offsets are \<open>int\<close>s: the
  code only compares and stores them.
\<close>

section \<open>Data\<close>

record BlockIndexEntry =
  be_Attribute :: u32
  be_MinTime :: int
  be_MaxTime :: int
  be_Offset :: int
  be_DataSize :: int

text \<open>A Go map is \<open>None\<close> when it is nil; a missing key reads as the empty slice.  \<^verbatim>\<open>unsortedTags\<close> is only
  ever tested for membership, which a nil map answers like an empty one.\<close>

record FileIndex =
  fi_MinTime :: int
  fi_MaxTime :: int
  fi_Blocks :: "BlockIndexEntry list"
  fi_tagBlocks :: "(u32 \<rightharpoonup> nat list) option"
  fi_unsortedTags :: "u32 set"

definition map_get :: "('k \<rightharpoonup> 'v list) \<Rightarrow> 'k \<Rightarrow> 'v list" where
  "map_get m k = (case m k of None \<Rightarrow> [] | Some v \<Rightarrow> v)"

text \<open>The capacity argument of \<^verbatim>\<open>newFileIndex\<close> only sizes an allocation.\<close>

definition newFileIndex :: FileIndex where
  "newFileIndex = \<lparr>fi_MinTime = 0, fi_MaxTime = 0, fi_Blocks = [], fi_tagBlocks = Some Map.empty, fi_unsortedTags = {}\<rparr>"

section \<open>Appending and rebuilding\<close>

definition out_of_order :: "BlockIndexEntry \<Rightarrow> BlockIndexEntry \<Rightarrow> bool" where
  "out_of_order block previous \<longleftrightarrow>
     be_MinTime block < be_MinTime previous \<or> be_MaxTime block < be_MaxTime previous"

text \<open>The body that \<^verbatim>\<open>appendBlock\<close> and the loop of \<^verbatim>\<open>rebuildTagIndex\<close> share: file the block at \<open>position\<close>
  under its tag, and mark the tag when the block is earlier than the tag's last one.\<close>

definition note_block ::
  "BlockIndexEntry list \<Rightarrow> nat \<Rightarrow> BlockIndexEntry \<Rightarrow> (u32 \<rightharpoonup> nat list) \<times> u32 set \<Rightarrow> (u32 \<rightharpoonup> nat list) \<times> u32 set" where
  "note_block blocks position block st =
     (let (tagBlocks, unsorted) = st;
          positions = map_get tagBlocks (be_Attribute block);
          unsorted' = (if positions \<noteq> [] \<and> out_of_order block (blocks ! last positions)
                       then insert (be_Attribute block) unsorted else unsorted)
      in (tagBlocks(be_Attribute block \<mapsto> positions @ [position]), unsorted'))"

definition rebuildTagIndex :: "FileIndex \<Rightarrow> FileIndex" where
  "rebuildTagIndex idx =
     (let (m, u) = fold (\<lambda>position. note_block (fi_Blocks idx) position (fi_Blocks idx ! position))
                     [0..<length (fi_Blocks idx)] (Map.empty, {})
      in idx\<lparr>fi_tagBlocks := Some m, fi_unsortedTags := u\<rparr>)"

definition with_tags :: "FileIndex \<Rightarrow> FileIndex" where
  "with_tags idx = (if fi_tagBlocks idx = None then rebuildTagIndex idx else idx)"

definition appendBlock :: "BlockIndexEntry \<Rightarrow> FileIndex \<Rightarrow> FileIndex" where
  "appendBlock block idx0 =
     (let idx = with_tags idx0;
          (m, u) = note_block (fi_Blocks idx) (length (fi_Blocks idx)) block
                     (the (fi_tagBlocks idx), fi_unsortedTags idx)
      in idx\<lparr>fi_Blocks := fi_Blocks idx @ [block], fi_tagBlocks := Some m, fi_unsortedTags := u\<rparr>)"

section \<open>Lookup\<close>

text \<open>\<^verbatim>\<open>matchingBlockPositions\<close>: the pointer may be nil; the call may build the tag index, so the updated
  index is returned with the positions.\<close>

definition matchingBlockPositions :: "u32 \<Rightarrow> int \<Rightarrow> int \<Rightarrow> FileIndex option \<Rightarrow> nat list \<times> FileIndex option" where
  "matchingBlockPositions tag startTime endTime idxp =
     (case idxp of
        None \<Rightarrow> ([], idxp)
      | Some idx0 \<Rightarrow>
          if fi_Blocks idx0 = [] then ([], idxp)
          else
            (let idx = with_tags idx0; blocks = fi_Blocks idx; positions = map_get (the (fi_tagBlocks idx)) tag in
             if positions = [] then ([], Some idx)
             else if tag \<in> fi_unsortedTags idx then
               (filter (\<lambda>p. startTime \<le> be_MaxTime (blocks ! p) \<and> endTime \<ge> be_MinTime (blocks ! p)) positions, Some idx)
             else
               (let first = sort_search (length positions) (\<lambda>i. be_MaxTime (blocks ! (positions ! i)) \<ge> startTime);
                    rest = drop first positions;
                    lst = sort_search (length rest) (\<lambda>i. be_MinTime (blocks ! (rest ! i)) > endTime)
                in (take lst rest, Some idx))))"

section \<open>The index file\<close>

definition indexMagic :: u32 where "indexMagic = 0x49445801"
definition indexHeaderSize :: nat where "indexHeaderSize = 4 + 4 + 8 + 8"
definition indexEntrySize :: nat where "indexEntrySize = 4 + 8 + 8 + 8 + 8"

definition be_int64 :: "int \<Rightarrow> bytes" where
  "be_int64 x = be_put 8 (of_int x :: u64)"

definition int64_be :: "bytes \<Rightarrow> int" where
  "int64_be b = sint (be_get b :: u64)"

definition index_entry_bytes :: "BlockIndexEntry \<Rightarrow> bytes" where
  "index_entry_bytes e =
     be_put 4 (be_Attribute e) @ be_int64 (be_MinTime e) @ be_int64 (be_MaxTime e) @ be_int64 (be_Offset e)
       @ be_int64 (be_DataSize e)"

text \<open>The bytes \<^verbatim>\<open>writeIndexFile\<close> leaves in the file it creates.\<close>

definition writeIndexFile :: "FileIndex \<Rightarrow> bytes" where
  "writeIndexFile idx =
     be_put 4 indexMagic @ be_put 4 (of_nat (length (fi_Blocks idx)) :: u32) @ be_int64 (fi_MinTime idx)
       @ be_int64 (fi_MaxTime idx) @ concat (map index_entry_bytes (fi_Blocks idx))"

definition index_entry_at :: "bytes \<Rightarrow> nat \<Rightarrow> BlockIndexEntry" where
  "index_entry_at data position =
     \<lparr>be_Attribute = be_get (take 4 (drop position data)),
      be_MinTime = int64_be (take 8 (drop (position + 4) data)),
      be_MaxTime = int64_be (take 8 (drop (position + 12) data)),
      be_Offset = int64_be (take 8 (drop (position + 20) data)),
      be_DataSize = int64_be (take 8 (drop (position + 28) data))\<rparr>"

primrec read_index_entries :: "nat \<Rightarrow> bytes \<Rightarrow> nat \<Rightarrow> FileIndex \<Rightarrow> FileIndex" where
  "read_index_entries 0 data position idx = idx"
| "read_index_entries (Suc n) data position idx =
     read_index_entries n data (position + indexEntrySize) (appendBlock (index_entry_at data position) idx)"

text \<open>\<open>None\<close> as the argument is a file that cannot be read.\<close>

definition readIndexFile :: "bytes option \<Rightarrow> FileIndex option" where
  "readIndexFile file_bytes =
     (case file_bytes of
        None \<Rightarrow> None
      | Some data \<Rightarrow>
          if length data < indexHeaderSize then None
          else if be_get (take 4 data) \<noteq> indexMagic then None
          else
            (let blockCount = unat (be_get (take 4 (drop 4 data)) :: u32) in
             if blockCount > (length data - indexHeaderSize) div indexEntrySize then None
             else Some (read_index_entries blockCount data indexHeaderSize
                          (newFileIndex\<lparr>fi_MinTime := int64_be (take 8 (drop 8 data)),
                                        fi_MaxTime := int64_be (take 8 (drop 16 data))\<rparr>))))"

section \<open>The invariant of the derived fields\<close>

definition tag_positions :: "BlockIndexEntry list \<Rightarrow> u32 \<Rightarrow> nat list" where
  "tag_positions blocks tag = filter (\<lambda>p. be_Attribute (blocks ! p) = tag) [0..<length blocks]"

definition in_order :: "BlockIndexEntry list \<Rightarrow> nat list \<Rightarrow> bool" where
  "in_order blocks ps = sorted_wrt (\<lambda>p q. \<not> out_of_order (blocks ! q) (blocks ! p)) ps"

definition tags_ok :: "BlockIndexEntry list \<Rightarrow> (u32 \<rightharpoonup> nat list) \<times> u32 set \<Rightarrow> bool" where
  "tags_ok blocks st \<longleftrightarrow>
     (\<forall>t. map_get (fst st) t = tag_positions blocks t \<and> (t \<in> snd st \<longleftrightarrow> \<not> in_order blocks (tag_positions blocks t)))"

definition index_ok :: "FileIndex \<Rightarrow> bool" where
  "index_ok idx \<longleftrightarrow>
     (case fi_tagBlocks idx of None \<Rightarrow> True | Some m \<Rightarrow> tags_ok (fi_Blocks idx) (m, fi_unsortedTags idx))"

text \<open>What the lookup is for: every block of the tag whose time range meets the query, in disk order.\<close>

definition overlapping_blocks :: "BlockIndexEntry list \<Rightarrow> u32 \<Rightarrow> int \<Rightarrow> int \<Rightarrow> nat list" where
  "overlapping_blocks blocks tag startTime endTime =
     filter (\<lambda>p. be_Attribute (blocks ! p) = tag \<and> startTime \<le> be_MaxTime (blocks ! p) \<and> be_MinTime (blocks ! p) \<le> endTime)
       [0..<length blocks]"

lemma tag_positions_bound: "p \<in> set (tag_positions blocks t) \<Longrightarrow> p < length blocks"
  by (simp add: tag_positions_def)

lemma tag_positions_snoc:
  "tag_positions (blocks @ [b]) t =
     tag_positions blocks t @ (if be_Attribute b = t then [length blocks] else [])"
  by (auto simp: tag_positions_def nth_append intro: filter_cong)

lemma in_order_snoc_blocks:
  "\<forall>p \<in> set ps. p < length blocks \<Longrightarrow> in_order (blocks @ [b]) ps = in_order blocks ps"
  unfolding in_order_def by (induction ps) (auto simp: nth_append)

lemma in_order_short [simp]: "in_order blocks []" "in_order blocks [p]"
  by (simp_all add: in_order_def)

lemma in_order_last:
  assumes "in_order blocks ps" "p \<in> set ps"
  shows "\<not> out_of_order (blocks ! last ps) (blocks ! p)"
  using assms by (induction ps rule: rev_induct) (auto simp: in_order_def sorted_wrt_append out_of_order_def)

lemma in_order_snoc:
  "in_order blocks (ps @ [q]) \<longleftrightarrow>
     in_order blocks ps \<and> (ps = [] \<or> \<not> out_of_order (blocks ! q) (blocks ! last ps))"
proof (cases "in_order blocks ps \<and> ps \<noteq> [] \<and> \<not> out_of_order (blocks ! q) (blocks ! last ps)")
  case True
  then have "\<forall>p \<in> set ps. \<not> out_of_order (blocks ! q) (blocks ! p)"
    using in_order_last [of blocks ps] by (fastforce simp: out_of_order_def)
  then show ?thesis using True by (auto simp: in_order_def sorted_wrt_append)
qed (auto simp: in_order_def sorted_wrt_append)

lemma note_block_ok:
  assumes "tags_ok blocks st"
  shows "tags_ok (blocks @ [b]) (note_block blocks (length blocks) b st)"
proof -
  obtain m u where st: "st = (m, u)" by (cases st)
  have m: "map_get m t = tag_positions blocks t" and u: "t \<in> u \<longleftrightarrow> \<not> in_order blocks (tag_positions blocks t)" for t
    using assms by (auto simp: tags_ok_def st)
  have bnd: "\<forall>p \<in> set (tag_positions blocks t). p < length blocks" for t
    using tag_positions_bound by blast
  have last_lt: "last (tag_positions blocks t) < length blocks" if "tag_positions blocks t \<noteq> []" for t
    using bnd last_in_set [OF that] by blast
  let ?a = "be_Attribute b"
  have "map_get (fst (note_block blocks (length blocks) b st)) t = tag_positions (blocks @ [b]) t" for t
    using m by (simp add: st note_block_def Let_def map_get_def tag_positions_snoc)
  moreover have "t \<in> snd (note_block blocks (length blocks) b st) \<longleftrightarrow>
      \<not> in_order (blocks @ [b]) (tag_positions (blocks @ [b]) t)" for t
    using m u bnd last_lt
    by (auto simp: st note_block_def Let_def tag_positions_snoc in_order_snoc in_order_snoc_blocks nth_append)
  ultimately show ?thesis by (simp add: tags_ok_def)
qed

lemma fold_note_block:
  assumes "n \<le> length blocks"
  shows "tags_ok (take n blocks)
           (fold (\<lambda>position. note_block blocks position (blocks ! position)) [0..<n] (Map.empty, {}))"
  using assms
proof (induction n)
  case 0
  then show ?case by (simp add: tags_ok_def map_get_def tag_positions_def in_order_def)
next
  case (Suc n)
  let ?st = "fold (\<lambda>position. note_block blocks position (blocks ! position)) [0..<n] (Map.empty, {})"
  have ok: "tags_ok (take n blocks) ?st" using Suc by simp
  have "note_block blocks n (blocks ! n) ?st = note_block (take n blocks) n (blocks ! n) ?st"
  proof -
    let ?ps = "map_get (fst ?st) (be_Attribute (blocks ! n))"
    have "?ps = tag_positions (take n blocks) (be_Attribute (blocks ! n))" using ok by (simp add: tags_ok_def)
    then have "?ps \<noteq> [] \<Longrightarrow> last ?ps < n"
      using tag_positions_bound [of "last ?ps" "take n blocks" "be_Attribute (blocks ! n)"] last_in_set [of ?ps] Suc.prems
      by simp
    then show ?thesis by (auto simp: note_block_def Let_def split_beta)
  qed
  then show ?case
    using note_block_ok [OF ok, of "blocks ! n"] Suc.prems by (simp add: take_Suc_conv_app_nth)
qed

lemma rebuildTagIndex_ok [inv_intros]: "index_ok (rebuildTagIndex idx)"
  using fold_note_block [of "length (fi_Blocks idx)" "fi_Blocks idx"]
  by (simp add: rebuildTagIndex_def index_ok_def split_beta)

lemma with_tags_ok:
  assumes "index_ok idx"
  shows "fi_tagBlocks (with_tags idx) \<noteq> None" "fi_Blocks (with_tags idx) = fi_Blocks idx"
    "tags_ok (fi_Blocks idx) (the (fi_tagBlocks (with_tags idx)), fi_unsortedTags (with_tags idx))"
    "index_ok (with_tags idx)" "fi_MinTime (with_tags idx) = fi_MinTime idx" "fi_MaxTime (with_tags idx) = fi_MaxTime idx"
proof -
  show blocks: "fi_Blocks (with_tags idx) = fi_Blocks idx"
    and "fi_MinTime (with_tags idx) = fi_MinTime idx" "fi_MaxTime (with_tags idx) = fi_MaxTime idx"
    and some: "fi_tagBlocks (with_tags idx) \<noteq> None"
    by (simp_all add: with_tags_def rebuildTagIndex_def split_beta)
  show ok: "index_ok (with_tags idx)" using assms rebuildTagIndex_ok by (simp add: with_tags_def)
  show "tags_ok (fi_Blocks idx) (the (fi_tagBlocks (with_tags idx)), fi_unsortedTags (with_tags idx))"
    using ok some blocks by (auto simp: index_ok_def)
qed

lemma newFileIndex_Blocks [simp]: "fi_Blocks newFileIndex = []"
  by (simp add: newFileIndex_def)

lemma newFileIndex_ok [inv_intros]: "index_ok newFileIndex"
  by (simp add: newFileIndex_def index_ok_def tags_ok_def map_get_def tag_positions_def in_order_def)

lemma appendBlock_ok [inv_intros]: "index_ok idx \<Longrightarrow> index_ok (appendBlock b idx)"
  using note_block_ok [OF with_tags_ok(3)] with_tags_ok
  by (simp add: appendBlock_def Let_def split_beta index_ok_def)

lemma appendBlock_fields [simp]:
  assumes "index_ok idx"
  shows "fi_Blocks (appendBlock b idx) = fi_Blocks idx @ [b]" "fi_MinTime (appendBlock b idx) = fi_MinTime idx"
    "fi_MaxTime (appendBlock b idx) = fi_MaxTime idx"
  using with_tags_ok [OF assms] by (simp_all add: appendBlock_def Let_def split_beta)

section \<open>The lookup is exact\<close>

lemma filter_tag_positions:
  "filter (\<lambda>p. startTime \<le> be_MaxTime (blocks ! p) \<and> be_MinTime (blocks ! p) \<le> endTime) (tag_positions blocks tag)
     = overlapping_blocks blocks tag startTime endTime"
  by (simp add: tag_positions_def overlapping_blocks_def conj_commute conj_left_commute)

lemma in_order_search:
  assumes "in_order blocks ps"
  shows "(let rest = drop (sort_search (length ps) (\<lambda>i. be_MaxTime (blocks ! (ps ! i)) \<ge> s)) ps
          in take (sort_search (length rest) (\<lambda>i. be_MinTime (blocks ! (rest ! i)) > e)) rest)
         = filter (\<lambda>p. s \<le> be_MaxTime (blocks ! p) \<and> be_MinTime (blocks ! p) \<le> e) ps"
proof -
  have ord: "be_MinTime (blocks ! (ps ! i)) \<le> be_MinTime (blocks ! (ps ! j))"
    "be_MaxTime (blocks ! (ps ! i)) \<le> be_MaxTime (blocks ! (ps ! j))" if "i \<le> j" "j < length ps" for i j
    using sorted_wrt_nth_less [OF assms [unfolded in_order_def], of i j] that
    by (cases "i = j"; simp add: out_of_order_def not_less)+
  let ?P = "\<lambda>p. be_MaxTime (blocks ! p) \<ge> s" and ?Q = "\<lambda>p. be_MinTime (blocks ! p) > e"
  have "upclosed (length ps) (\<lambda>i. ?P (ps ! i))"
    by (rule upclosedI) (use ord(2) in \<open>meson order_trans\<close>)
  then have "drop (sort_search (length ps) (\<lambda>i. ?P (ps ! i))) ps = filter ?P ps"
    by (rule drop_sort_search)
  then obtain k where k: "drop (sort_search (length ps) (\<lambda>i. ?P (ps ! i))) ps = drop k ps" "drop k ps = filter ?P ps"
    by metis
  have "upclosed (length (drop k ps)) (\<lambda>i. ?Q (drop k ps ! i))"
  proof (rule upclosedI)
    fix a b assume "a \<le> b" "b < length (drop k ps)" "?Q (drop k ps ! a)"
    moreover from this have "k + b < length ps" by simp
    ultimately show "?Q (drop k ps ! b)" using ord(1) [of "k + a" "k + b"] by simp
  qed
  then have "take (sort_search (length (drop k ps)) (\<lambda>i. ?Q (drop k ps ! i))) (drop k ps) = filter (\<lambda>p. \<not> ?Q p) (drop k ps)"
    by (rule take_sort_search)
  then show ?thesis using k by (simp add: Let_def not_less conj_commute)
qed

lemma matchingBlockPositions_spec:
  assumes "index_ok idx"
  shows "\<exists>idx'. matchingBlockPositions tag startTime endTime (Some idx)
                  = (overlapping_blocks (fi_Blocks idx) tag startTime endTime, Some idx')
                \<and> index_ok idx' \<and> fi_Blocks idx' = fi_Blocks idx"
proof (cases "fi_Blocks idx = []")
  case True
  then show ?thesis using assms by (simp add: matchingBlockPositions_def overlapping_blocks_def)
next
  case False
  let ?i = "with_tags idx"
  note w = with_tags_ok [OF assms]
  have ps: "map_get (the (fi_tagBlocks ?i)) tag = tag_positions (fi_Blocks idx) tag"
    and uns: "tag \<in> fi_unsortedTags ?i \<longleftrightarrow> \<not> in_order (fi_Blocks idx) (tag_positions (fi_Blocks idx) tag)"
    using w(3) by (auto simp: tags_ok_def)
  have "fst (matchingBlockPositions tag startTime endTime (Some idx)) = overlapping_blocks (fi_Blocks idx) tag startTime endTime"
    using in_order_search [of "fi_Blocks idx" "tag_positions (fi_Blocks idx) tag" startTime endTime, unfolded filter_tag_positions]
      filter_tag_positions [of startTime "fi_Blocks idx" endTime tag] False
    by (auto simp: matchingBlockPositions_def Let_def ps uns w(2))
  moreover have "snd (matchingBlockPositions tag startTime endTime (Some idx)) = Some ?i"
    using False by (simp add: matchingBlockPositions_def Let_def)
  ultimately show ?thesis using w by (intro exI [of _ ?i]) (simp add: prod_eq_iff)
qed

text \<open>\<^bold>\<open>C23\<close>. On every index whose derived fields are consistent, which every index built by appending or
  loading is, the lookup by tag and time range returns exactly the positions of that tag's blocks whose
  time range meets the query, in disk order, whether it takes the binary searches or the scan, and it
  leaves a consistent index with the same blocks.\<close>

theorem matchingBlockPositions_exact:
  assumes "index_ok idx"
  shows "\<exists>idx'. matchingBlockPositions tag startTime endTime (Some idx)
                  = (overlapping_blocks (fi_Blocks idx) tag startTime endTime, Some idx')
                \<and> index_ok idx' \<and> fi_Blocks idx' = fi_Blocks idx"
  using matchingBlockPositions_spec [OF assms] .

definition sample_index :: FileIndex where
  "sample_index =
     fold appendBlock
       [\<lparr>be_Attribute = 7, be_MinTime = 10, be_MaxTime = 20, be_Offset = 0, be_DataSize = 40\<rparr>,
        \<lparr>be_Attribute = 8, be_MinTime = 12, be_MaxTime = 19, be_Offset = 72, be_DataSize = 40\<rparr>,
        \<lparr>be_Attribute = 7, be_MinTime = 21, be_MaxTime = 30, be_Offset = 144, be_DataSize = 40\<rparr>,
        \<lparr>be_Attribute = 8, be_MinTime = 1, be_MaxTime = 5, be_Offset = 216, be_DataSize = 40\<rparr>]
       newFileIndex"

lemma sample_index_ok: "index_ok sample_index"
  by (simp add: sample_index_def inv_intros)

lemma sample_index_Blocks: "map be_Offset (fi_Blocks sample_index) = [0, 72, 144, 216]"
  "map be_Attribute (fi_Blocks sample_index) = [7, 8, 7, 8]"
  by (simp_all add: sample_index_def inv_intros)

theorem matchingBlockPositions_exact_witness:
  "index_ok sample_index \<and>
   (\<exists>idx'. matchingBlockPositions 8 2 12 (Some sample_index)
            = (overlapping_blocks (fi_Blocks sample_index) 8 2 12, Some idx')
          \<and> index_ok idx' \<and> fi_Blocks idx' = fi_Blocks sample_index)"
  using matchingBlockPositions_exact [OF sample_index_ok] sample_index_ok by simp

section \<open>The index file round trip\<close>

definition index_entry_fits :: "BlockIndexEntry \<Rightarrow> bool" where
  "index_entry_fits e \<longleftrightarrow>
     int64_range (be_MinTime e) \<and> int64_range (be_MaxTime e) \<and> int64_range (be_Offset e) \<and> int64_range (be_DataSize e)"

definition index_fits :: "FileIndex \<Rightarrow> bool" where
  "index_fits idx \<longleftrightarrow>
     int64_range (fi_MinTime idx) \<and> int64_range (fi_MaxTime idx) \<and> length (fi_Blocks idx) < 2 ^ 32
       \<and> list_all index_entry_fits (fi_Blocks idx)"

lemma length_be_int64 [simp]: "length (be_int64 x) = 8"
  by (simp add: be_int64_def)

lemma int64_be_be_int64 [codec_simps]: "int64_range x \<Longrightarrow> int64_be (be_int64 x) = x"
  by (simp add: int64_be_def be_int64_def codec_simps signed_of_int signed_take_bit_int_eq_self)

lemma length_index_entry_bytes [simp]: "length (index_entry_bytes e) = indexEntrySize"
  by (simp add: index_entry_bytes_def indexEntrySize_def)

lemma index_entry_at_bytes:
  assumes "index_entry_fits e" "drop position data = index_entry_bytes e @ rest"
  shows "index_entry_at data position = e"
proof -
  have "drop (position + k) data = drop k (index_entry_bytes e @ rest)" for k
    using assms(2) by (simp flip: assms(2) add: add.commute)
  then show ?thesis
    using assms by (simp add: index_entry_at_def index_entry_bytes_def index_entry_fits_def codec_simps)
qed

lemma read_index_entries_bytes:
  assumes "list_all index_entry_fits es" "drop position data = concat (map index_entry_bytes es) @ rest" "index_ok idx"
  shows "fi_Blocks (read_index_entries (length es) data position idx) = fi_Blocks idx @ es
     \<and> fi_MinTime (read_index_entries (length es) data position idx) = fi_MinTime idx
     \<and> fi_MaxTime (read_index_entries (length es) data position idx) = fi_MaxTime idx
     \<and> index_ok (read_index_entries (length es) data position idx)"
  using assms
proof (induction es arbitrary: position idx)
  case Nil
  then show ?case by simp
next
  case (Cons e es)
  have at: "index_entry_at data position = e"
    using Cons.prems by (intro index_entry_at_bytes [where rest = "concat (map index_entry_bytes es) @ rest"]) simp_all
  have "drop (position + indexEntrySize) data = drop indexEntrySize (drop position data)"
    by (simp add: add.commute)
  also have "\<dots> = concat (map index_entry_bytes es) @ rest" using Cons.prems(2) by simp
  finally show ?case using Cons.IH [of "position + indexEntrySize" "appendBlock e idx"] Cons.prems
    by (simp add: at inv_intros)
qed

lemma length_writeIndexFile: "length (writeIndexFile idx) = indexHeaderSize + length (fi_Blocks idx) * indexEntrySize"
  by (simp add: writeIndexFile_def indexHeaderSize_def length_concat comp_def sum_list_triv)

lemma writeIndexFile_count:
  assumes "length (fi_Blocks idx) < 2 ^ 32" "8 \<le> n"
  shows "unat (be_get (take 4 (drop 4 (take n (writeIndexFile idx)))) :: u32) = length (fi_Blocks idx)"
    "be_get (take 4 (take n (writeIndexFile idx))) = indexMagic"
  using assms by (simp_all add: writeIndexFile_def take_Cons' codec_simps unat_of_nat_u32 min_def)

text \<open>\<^bold>\<open>C35\<close>. Writing an index file and reading it back gives an index with the same time range and the
  same blocks in the same order, with consistent derived fields: the persisted index answers every lookup
  as the one in memory did.\<close>

theorem index_file_roundtrip:
  assumes "index_fits idx"
  shows "\<exists>idx'. readIndexFile (Some (writeIndexFile idx)) = Some idx' \<and> index_ok idx'
           \<and> fi_MinTime idx' = fi_MinTime idx \<and> fi_MaxTime idx' = fi_MaxTime idx \<and> fi_Blocks idx' = fi_Blocks idx
           \<and> fst (matchingBlockPositions tag startTime endTime (Some idx'))
               = overlapping_blocks (fi_Blocks idx) tag startTime endTime"
proof -
  let ?d = "writeIndexFile idx" and ?n = "length (fi_Blocks idx)"
  let ?new = "newFileIndex\<lparr>fi_MinTime := fi_MinTime idx, fi_MaxTime := fi_MaxTime idx\<rparr>"
  let ?i = "read_index_entries ?n ?d indexHeaderSize ?new"
  have fits: "list_all index_entry_fits (fi_Blocks idx)" and len: "?n < 2 ^ 32"
    and range: "int64_range (fi_MinTime idx)" "int64_range (fi_MaxTime idx)"
    using assms by (auto simp: index_fits_def)
  have times: "int64_be (take 8 (drop 8 ?d)) = fi_MinTime idx" "int64_be (take 8 (drop 16 ?d)) = fi_MaxTime idx"
    using range by (simp_all add: writeIndexFile_def codec_simps)
  have "index_ok ?new" using newFileIndex_ok by (simp add: index_ok_def newFileIndex_def)
  moreover have "drop indexHeaderSize ?d = concat (map index_entry_bytes (fi_Blocks idx)) @ []"
    by (simp add: writeIndexFile_def indexHeaderSize_def)
  ultimately have r: "fi_Blocks ?i = fi_Blocks idx" "fi_MinTime ?i = fi_MinTime idx" "fi_MaxTime ?i = fi_MaxTime idx" "index_ok ?i"
    using read_index_entries_bytes [OF fits, of indexHeaderSize ?d "[]" ?new] by (simp_all add: newFileIndex_def)
  have "readIndexFile (Some ?d) = Some ?i"
    using writeIndexFile_count [OF len, of "length ?d"] times
    by (simp add: readIndexFile_def length_writeIndexFile Let_def indexHeaderSize_def indexEntrySize_def)
  then show ?thesis using r matchingBlockPositions_spec [OF r(4), of tag startTime endTime] by auto
qed

theorem index_file_roundtrip_witness:
  "index_fits sample_index \<and>
   (\<exists>idx'. readIndexFile (Some (writeIndexFile sample_index)) = Some idx' \<and> index_ok idx'
      \<and> fi_MinTime idx' = fi_MinTime sample_index \<and> fi_MaxTime idx' = fi_MaxTime sample_index
      \<and> fi_Blocks idx' = fi_Blocks sample_index
      \<and> fst (matchingBlockPositions 8 2 12 (Some idx')) = overlapping_blocks (fi_Blocks sample_index) 8 2 12)"
proof -
  have "index_fits sample_index"
    by (simp add: sample_index_def index_fits_def index_entry_fits_def inv_intros) (simp add: newFileIndex_def)
  then show ?thesis using index_file_roundtrip [of sample_index 8 2 12] by simp
qed

text \<open>An index file that was cut short at any byte, in its header or among its entries, is rejected
  as a whole: no lookup ever runs on part of an index.\<close>

theorem torn_index_file_rejected:
  assumes "length (fi_Blocks idx) < 2 ^ 32" "n < length (writeIndexFile idx)"
  shows "readIndexFile (Some (take n (writeIndexFile idx))) = None"
proof (cases "n < indexHeaderSize")
  case True
  then show ?thesis by (simp add: readIndexFile_def min_less_iff_disj)
next
  case False
  then have "8 \<le> n" by (simp add: indexHeaderSize_def)
  moreover have "(n - indexHeaderSize) div indexEntrySize < length (fi_Blocks idx)"
    using assms(2) False by (simp add: length_writeIndexFile indexEntrySize_def div_less_iff_less_mult)
  ultimately show ?thesis
    using assms False writeIndexFile_count [OF assms(1)] by (simp add: readIndexFile_def min_def Let_def)
qed

theorem torn_index_file_rejected_witness:
  "length (fi_Blocks sample_index) < 2 ^ 32 \<and> 100 < length (writeIndexFile sample_index)
   \<and> readIndexFile (Some (take 100 (writeIndexFile sample_index))) = None"
proof -
  have "length (fi_Blocks sample_index) = 4"
    using arg_cong [OF sample_index_Blocks(1), of length] by simp
  then have "length (fi_Blocks sample_index) < 2 ^ 32" "100 < length (writeIndexFile sample_index)"
    by (simp_all add: length_writeIndexFile indexHeaderSize_def indexEntrySize_def)
  then show ?thesis using torn_index_file_rejected [of sample_index 100] by blast
qed

end
