(* ===== verification/Segment_Writer.thy ===== *)
theory Segment_Writer
  imports Block_File_Props
begin

text \<open>
  The writing side of a data segment, \<^verbatim>\<open>tsdb/segment_writer.go\<close>: a \<^verbatim>\<open>fileWriter\<close> owns a \<^verbatim>\<open>BlockFile\<close> on one
  path, appends to it, commits it softly (keeping it open) and rolls back to the size it had when the
  transaction was opened.  The bytes of the file at the path are a field of the state: the open \<^verbatim>\<open>BlockFile\<close>
  works on them, and they stay when it is closed or dropped.
\<close>

section \<open>The writer\<close>

datatype seg_error = ErrorWriterNotOpen | ErrorReaderNotOpened | ErrorNoTransaction | FileError bf_error

record fileWriter =
  fw_file :: bytes
  fw_bf :: "BlockFile option"
  fw_closed :: bool
  fw_writeOffset :: int
  fw_lastOpenWrtOffset :: int
  fw_compressor :: compressor

definition NewFileWriter :: "bytes \<Rightarrow> compressor \<Rightarrow> fileWriter" where
  "NewFileWriter disk cmp =
     \<lparr>fw_file = disk, fw_bf = None, fw_closed = True, fw_writeOffset = 0, fw_lastOpenWrtOffset = 0, fw_compressor = cmp\<rparr>"

text \<open>The open file sees the bytes at the path, and what it writes is there.\<close>

definition fw_at :: "fileWriter \<Rightarrow> BlockFile \<Rightarrow> BlockFile" where
  "fw_at w b = b\<lparr>bf_file := fw_file w\<rparr>"

definition fw_put :: "BlockFile \<Rightarrow> fileWriter \<Rightarrow> fileWriter" where
  "fw_put b w = w\<lparr>fw_bf := Some b, fw_file := bf_file b\<rparr>"

definition file_err :: "bf_error option \<Rightarrow> seg_error option" where
  "file_err e = map_option FileError e"

definition OpenWriter :: "fileWriter \<Rightarrow> seg_error option \<times> fileWriter" where
  "OpenWriter w =
     (if \<not> fw_closed w then
        (None, case fw_bf w of None \<Rightarrow> w | Some b \<Rightarrow> w\<lparr>fw_lastOpenWrtOffset := bf_Size b\<rparr>)
      else
        (case OpenBlockFile (fw_file w) (fw_compressor w) (int BlockSizeDef) of
           Inl e \<Rightarrow> (Some (FileError e), w)
         | Inr b \<Rightarrow>
             (let (r, b') = bf_Seek 0 SeekEnd b
              in (None, (fw_put b' w)\<lparr>fw_writeOffset := bf_Size b', fw_lastOpenWrtOffset := bf_Size b', fw_closed := False\<rparr>))))"

text \<open>The outer \<open>None\<close> is a write that does not return.\<close>

definition fw_Write :: "bytes \<Rightarrow> fileWriter \<Rightarrow> (seg_error option \<times> nat \<times> fileWriter) option" where
  "fw_Write p w =
     (case fw_bf w of
        None \<Rightarrow> Some (Some ErrorWriterNotOpen, 0, w)
      | Some b \<Rightarrow>
          if fw_closed w then Some (Some ErrorWriterNotOpen, 0, w)
          else
            (case Write p (fw_at w b) of
               None \<Rightarrow> None
             | Some (Some e, n, b') \<Rightarrow> Some (Some (FileError e), n, fw_put b' w)
             | Some (None, n, b') \<Rightarrow> Some (None, n, (fw_put b' w)\<lparr>fw_writeOffset := fw_writeOffset w + int n\<rparr>)))"

definition FlushBlock :: "fileWriter \<Rightarrow> seg_error option \<times> fileWriter" where
  "FlushBlock w =
     (case fw_bf w of
        None \<Rightarrow> (None, w)
      | Some b \<Rightarrow> (let (e, b') = Sync (fw_at w b) in (file_err e, fw_put b' w)))"

definition fw_Commit :: "fileWriter \<Rightarrow> seg_error option \<times> fileWriter" where
  "fw_Commit w =
     (case fw_bf w of
        None \<Rightarrow> (None, w)
      | Some b \<Rightarrow>
          if fw_closed w then (None, w) else (let (e, b') = Commit (fw_at w b) in (file_err e, fw_put b' w)))"

definition Cleanup :: "fileWriter \<Rightarrow> seg_error option \<times> fileWriter" where
  "Cleanup w =
     (case fw_bf w of
        None \<Rightarrow> (None, w)
      | Some b \<Rightarrow>
          if fw_closed w then (None, w)
          else
            (let (e, b') = Close (fw_at w b); w' = (fw_put b' w)\<lparr>fw_closed := True\<rparr>
             in case e of Some e' \<Rightarrow> (Some (FileError e'), w') | None \<Rightarrow> (None, w'\<lparr>fw_bf := None\<rparr>)))"

definition fw_Size :: "fileWriter \<Rightarrow> int" where
  "fw_Size w = fw_writeOffset w"

definition fw_PhysicalSize :: "fileWriter \<Rightarrow> int" where
  "fw_PhysicalSize w = (case fw_bf w of None \<Rightarrow> 0 | Some b \<Rightarrow> PhysicalSize b)"

text \<open>The current handle is dropped, not closed: nothing of its buffer reaches the file.  The deferred close of
  the second handle runs after the truncation and its error is ignored.\<close>

definition RollbackLastCommit :: "fileWriter \<Rightarrow> seg_error option \<times> fileWriter" where
  "RollbackLastCommit w0 =
     (let w = (if fw_bf w0 \<noteq> None \<and> \<not> fw_closed w0 then w0\<lparr>fw_bf := None, fw_closed := True\<rparr> else w0)
      in case OpenBlockFile (fw_file w) (fw_compressor w) (int BlockSizeDef) of
           Inl e \<Rightarrow> (Some (FileError e), w)
         | Inr b \<Rightarrow>
             (let (e, b1) = Truncate (fw_lastOpenWrtOffset w) b; (e2, b2) = Close b1
              in (file_err e, w\<lparr>fw_file := bf_file b2\<rparr>)))"

section \<open>What a file at a path holds\<close>

text \<open>A file is at rest when it is empty, holds a bare header, or was committed; \<open>stored\<close> says which bytes
  it stands for.\<close>

definition bare :: "BlockFile \<Rightarrow> bool" where
  "bare b \<longleftrightarrow> fh_TxState (bf_header b) = TxDone \<and> fh_IndexOffset (bf_header b) = 0 \<and>
     (\<exists>t. bf_file b = encode_header (bf_header b) @ t)"

definition quiet :: "BlockFile \<Rightarrow> bytes list \<Rightarrow> bool" where
  "quiet b blks \<longleftrightarrow> committed (b\<lparr>bf_buf := []\<rparr>) blks \<or> blks = [] \<and> bare b"

definition stored :: "compressor \<Rightarrow> bytes \<Rightarrow> bytes \<Rightarrow> bool" where
  "stored c f xs \<longleftrightarrow> f = [] \<and> xs = [] \<or>
     (\<exists>b blks. bf_core b blks \<and> bf_compressor b = c \<and> bf_buf b = [] \<and> quiet b blks \<and> bf_file b = f \<and> xs = concat blks)"

text \<open>Reading the file back: opening it succeeds and gives exactly these bytes.\<close>

definition reads_as :: "compressor \<Rightarrow> bytes \<Rightarrow> bytes \<Rightarrow> bool" where
  "reads_as c f xs \<longleftrightarrow>
     (\<exists>b blks. OpenBlockFile f c (int BlockSizeDef) = Inr b \<and> bf_repr b blks \<and> content b blks = xs \<and>
        bf_buf b = [] \<and> bf_pos b = 0 \<and> \<not> bf_closed b \<and> bf_compressor b = c)"

lemma BlockSizeDef_range: "0 < int BlockSizeDef" "int BlockSizeDef < 2 ^ 31" "0 < BlockSizeDef" "BlockSizeDef < 2 ^ 31"
  by (simp_all add: BlockSizeDef_def)

lemma bf_core_file_bound:
  assumes "bf_core b blks" "length (bf_file b) < 2 ^ 34"
  shows "fh_DataEnd (bf_header b) < 2 ^ 34"
proof -
  obtain hdr t where "bf_file b = hdr @ frames (bf_compressor b) blks @ t" "length hdr = HeaderSize"
    using assms(1) unfolding bf_core_def by (auto elim: disk_holdsE)
  then have "HeaderSize + length (frames (bf_compressor b) blks) \<le> length (bf_file b)" by simp
  then show ?thesis using assms by (simp add: bf_core_def)
qed

context block_compressor
begin

lemma open_bare:
  assumes core: "bf_core b []" and bc: "bf_compressor b = c" and bare: "bare b" and bs: "0 < bs" "bs < 2 ^ 31"
  shows "\<exists>b'. OpenBlockFile (bf_file b) c bs = Inr b' \<and> bf_repr b' [] \<and> bf_buf b' = [] \<and> bf_pos b' = 0 \<and>
           \<not> bf_closed b' \<and> bf_compressor b' = c \<and> bf_file b' = bf_file b \<and> quiet b' []"
proof -
  let ?h = "bf_header b"
  obtain t where f: "bf_file b = encode_header ?h @ t" using bare by (auto simp: bare_def)
  have h: "fh_Magic ?h = Magic" "fh_TotalSize ?h = 0" "fh_DataEnd ?h = int HeaderSize" "fh_TxState ?h = TxDone"
      "fh_IndexOffset ?h = 0"
    using core bare by (simp_all add: bf_core_def bare_def)
  have dec: "decode_header (encode_header ?h) = ?h"
    by (rule decode_encode_header) (simp_all add: h HeaderSize_def)
  have rd: "fread 0 HeaderSize (bf_file b) = Some (encode_header ?h)"
    using fread_at [of "[]" 0 "encode_header ?h" t] f by simp
  let ?b = "(new_file (bf_file b) c bs)\<lparr>bf_header := ?h, bf_offset := int HeaderSize, bf_dataWritePos := int HeaderSize,
               bf_totalSize := 0, bf_pos := 0\<rparr>"
  have op: "OpenBlockFile (bf_file b) c bs = Inr ?b"
    unfolding OpenBlockFile_def loadAndRecover_def using rd dec h
    by (simp add: new_file_def load_done_def Let_def TxDone_def TxActive_def)
  have "disk_holds c (bf_file b) []" using core bc by (simp add: bf_core_def)
  then have "bf_repr ?b []"
    using h bs by (simp add: bf_repr_def bf_core_def new_file_def blocks_ok_def)
  then show ?thesis using op h f
    by (intro exI [of _ ?b]) (simp add: new_file_def quiet_def bare_def)
qed

lemma open_quiet:
  assumes core: "bf_core b blks" and bc: "bf_compressor b = c" and q: "quiet b blks"
    and small: "fh_DataEnd (bf_header b) < 2 ^ 34" and bs: "0 < bs" "bs < 2 ^ 31"
  shows "\<exists>b'. OpenBlockFile (bf_file b) c bs = Inr b' \<and> bf_repr b' blks \<and> bf_buf b' = [] \<and> bf_pos b' = 0 \<and>
           \<not> bf_closed b' \<and> bf_compressor b' = c"
proof (cases "committed (b\<lparr>bf_buf := []\<rparr>) blks")
  case True
  have "bf_core (b\<lparr>bf_buf := []\<rparr>) blks" using core by (simp add: bf_core_def)
  then show ?thesis using open_committed [of "b\<lparr>bf_buf := []\<rparr>" blks bs] True bc small bs by auto
next
  case False
  then have "blks = []" "bare b" using q by (auto simp: quiet_def)
  then show ?thesis using open_bare [of b bs] core bc bs by auto
qed

end

section \<open>Between two commits the file on disk is at rest or in an open transaction\<close>

definition same_disk :: "BlockFile \<Rightarrow> BlockFile \<Rightarrow> bool" where
  "same_disk b b' \<longleftrightarrow> bf_file b' = bf_file b \<and> bf_header b' = bf_header b \<and> bf_index b' = bf_index b \<and>
     bf_compressor b' = bf_compressor b"

lemma same_disk_refl [simp]: "same_disk b b"
  by (simp add: same_disk_def)

lemma same_disk_quiet: "same_disk b b' \<Longrightarrow> quiet b blks \<Longrightarrow> quiet b' blks"
  by (simp add: same_disk_def quiet_def committed_def bare_def)

lemma flushBlock_tx: "flushBlock b = (None, b') \<Longrightarrow> fh_TxState (bf_header b') = fh_TxState (bf_header b)"
  by (auto simp: flushBlock_def Let_def split: if_splits)

lemma write_loop_quiet:
  assumes "write_loop fw p b = Some (None, rest, b')" "fw \<or> fh_TxState (bf_header b) = TxActive"
  shows "same_disk b b' \<or> fh_TxState (bf_header b') = TxActive"
  using assms
proof (induction fw p b rule: write_loop.induct)
  case (1 fw p b)
  let ?b1 = "if fw then b\<lparr>bf_header := (bf_header b)\<lparr>fh_TxState := TxActive\<rparr>\<rparr> else b"
  consider "p = []" | "p \<noteq> []" "bf_blockSize b = 0" | (flush) "p \<noteq> []" "bf_blockSize b \<noteq> 0" "bf_blockSize b \<le> length (bf_buf b)"
    | (copy) "p \<noteq> []" "bf_blockSize b \<noteq> 0" "\<not> bf_blockSize b \<le> length (bf_buf b)" by blast
  then show ?case
  proof cases
    case flush
    obtain e b2 where f: "flushBlock ?b1 = (e, b2)" by fastforce
    have eq: "write_loop fw p b = (case e of Some x \<Rightarrow> Some (Some x, p, b2)
        | None \<Rightarrow> write_loop False p (if fw then writeHeader b2 else b2))"
      using flush f by (subst write_loop.simps) (simp add: Let_def)
    then have e: "e = None" using "1.prems"(1) by (cases e) auto
    have act: "fh_TxState (bf_header (if fw then writeHeader b2 else b2)) = TxActive"
      using flushBlock_tx [of ?b1 b2] f e "1.prems"(2) by (auto split: if_splits)
    have "same_disk (if fw then writeHeader b2 else b2) b' \<or> fh_TxState (bf_header b') = TxActive"
      using "1.IH"(1) [OF flush refl refl f [symmetric] e] "1.prems"(1) eq e act by simp
    then show ?thesis using act by (auto simp: same_disk_def)
  next
    case copy
    let ?n = "min (bf_blockSize b - length (bf_buf b)) (length p)"
    have "same_disk (b\<lparr>bf_buf := bf_buf b @ take ?n p\<rparr>) b' \<or> fh_TxState (bf_header b') = TxActive"
      using "1.IH"(2) [OF copy refl] "1.prems" copy by (simp add: write_loop.simps [of fw p b] Let_def)
    then show ?thesis by (simp add: same_disk_def)
  qed (use "1.prems" in \<open>auto simp: write_loop.simps [of fw p b] write_loop.simps [of fw "[]" b]\<close>)
qed

lemma Write_quiet:
  assumes "Write p b = Some (None, n, b')" "fh_TxState (bf_header b) = TxActive \<or> fh_TxState (bf_header b) = TxDone"
  shows "same_disk b b' \<or> fh_TxState (bf_header b') = TxActive"
proof -
  obtain rest b1 where "write_loop (fh_TxState (bf_header b) = TxDone) p b = Some (None, rest, b1)"
      "b' = b1\<lparr>bf_totalSize := bf_totalSize b1 + int (length p), bf_pos := bf_totalSize b1 + int (length p)\<rparr>"
    using assms(1) by (auto simp: Write_def Let_def split: if_splits option.splits prod.splits)
  moreover from this(1) have "same_disk b b1 \<or> fh_TxState (bf_header b1) = TxActive"
    by (rule write_loop_quiet) (use assms(2) in blast)
  ultimately show ?thesis by (simp add: same_disk_def)
qed

lemma Sync_quiet:
  assumes "Sync b = (None, b')" "fh_TxState (bf_header b) = TxActive \<or> fh_TxState (bf_header b) = TxDone"
  shows "same_disk b b' \<or> fh_TxState (bf_header b') = TxActive"
proof -
  let ?act = "b\<lparr>bf_header := (bf_header b)\<lparr>fh_TxState := TxActive\<rparr>\<rparr>"
  have op: "\<not> bf_closed b" using assms(1) by (cases "bf_closed b") (simp_all add: Sync_def)
  show ?thesis
  proof (cases "fh_TxState (bf_header b) = TxDone \<and> bf_buf b \<noteq> []")
    case True
    obtain e b1 where f: "flushBlock ?act = (e, b1)" by fastforce
    then have "e = None" "b' = writeHeader b1" using assms(1) True op by (cases e; simp add: Sync_def)+
    then show ?thesis using flushBlock_tx [of ?act b1] f by simp
  next
    case False
    then have f: "flushBlock b = (None, b')" using assms(1) op by (simp only: Sync_def if_False)
    show ?thesis
    proof (cases "bf_buf b = []")
      case True
      then show ?thesis using f by (simp add: flushBlock_def)
    next
      case ne: False
      then show ?thesis using flushBlock_tx [OF f] False assms(2) by simp
    qed
  qed
qed

text \<open>The invariant of an open writer whose transaction started on the blocks \<open>m\<close>.\<close>

definition writer_ok :: "compressor \<Rightarrow> bytes list \<Rightarrow> fileWriter \<Rightarrow> BlockFile \<Rightarrow> bytes list \<Rightarrow> bool" where
  "writer_ok c m w b blks \<longleftrightarrow>
     fw_bf w = Some b \<and> \<not> fw_closed w \<and> fw_file w = bf_file b \<and> fw_compressor w = c \<and> fw_writeOffset w = bf_totalSize b \<and>
     bf_compressor b = c \<and> \<not> bf_closed b \<and> bf_repr b blks \<and> tx_ok m b blks \<and>
     (fh_TxState (bf_header b) = TxActive \<or> fh_TxState (bf_header b) = TxDone \<and> quiet b blks)"

text \<open>Between transactions a writer is closed with its file at rest, or kept open by the last commit.\<close>

definition writer_ready :: "compressor \<Rightarrow> fileWriter \<Rightarrow> bytes \<Rightarrow> bool" where
  "writer_ready c w xs \<longleftrightarrow>
     stored c (fw_file w) xs \<and> fw_closed w \<and> fw_compressor w = c \<and> length (fw_file w) < 2 ^ 34 \<or>
     (\<exists>b blks. writer_ok c blks w b blks \<and> concat blks = xs \<and> content b blks = xs)"

lemma writer_ready_closed:
  "stored c (fw_file w) xs \<Longrightarrow> fw_closed w \<Longrightarrow> fw_compressor w = c \<Longrightarrow> length (fw_file w) < 2 ^ 34 \<Longrightarrow> writer_ready c w xs"
  by (simp add: writer_ready_def)

datatype writer_op = WWrite bytes | WFlush | WCommit

fun writer_step :: "writer_op \<Rightarrow> fileWriter \<Rightarrow> (seg_error option \<times> fileWriter) option" where
  "writer_step (WWrite p) w = map_option (\<lambda>(e, n, w'). (e, w')) (fw_Write p w)"
| "writer_step WFlush w = Some (FlushBlock w)"
| "writer_step WCommit w = Some (fw_Commit w)"

fun writer_run :: "writer_op list \<Rightarrow> fileWriter \<Rightarrow> fileWriter option" where
  "writer_run [] w = Some w"
| "writer_run (x # xs) w = (case writer_step x w of Some (None, w') \<Rightarrow> writer_run xs w' | _ \<Rightarrow> None)"

fun writer_data :: "writer_op list \<Rightarrow> bytes" where
  "writer_data [] = []"
| "writer_data (WWrite p # xs) = p @ writer_data xs"
| "writer_data (WFlush # xs) = writer_data xs"
| "writer_data (WCommit # xs) = writer_data xs"

lemma fw_at_ok: "writer_ok c m w b blks \<Longrightarrow> fw_at w b = b"
  by (simp add: writer_ok_def fw_at_def)

lemma committed_quiet: "committed b blks \<Longrightarrow> quiet b blks"
  by (simp add: quiet_def committed_def)

lemma tx_ok_trans: "tx_ok m b blks \<Longrightarrow> tx_ok blks b' blks' \<Longrightarrow> tx_ok m b' blks'"
  unfolding tx_ok_def by (metis append.assoc le_add1 length_append order_trans)

lemma tx_ok_done: "fh_TxState (bf_header b) = TxDone \<Longrightarrow> tx_ok m b blks \<longleftrightarrow> (\<exists>new. blks = m @ new)"
  by (simp add: tx_ok_def TxDone_def TxActive_def)

text \<open>What every step between two commits does to the disk: it leaves it alone or the transaction is open.\<close>

lemma step_keeps_quiet:
  assumes "bf_repr b blks" "tx_ok m b blks" "fh_TxState (bf_header b) = TxActive \<or> fh_TxState (bf_header b) = TxDone \<and> quiet b blks"
    and step: "\<And>m. \<exists>blks'. bf_repr b' blks' \<and> content b' blks' = xs \<and> (tx_ok m b blks \<longrightarrow> tx_ok m b' blks')"
    and disk: "same_disk b b' \<or> fh_TxState (bf_header b') = TxActive"
  shows "\<exists>blks'. bf_repr b' blks' \<and> content b' blks' = xs \<and> tx_ok m b' blks' \<and>
           (fh_TxState (bf_header b') = TxActive \<or> fh_TxState (bf_header b') = TxDone \<and> quiet b' blks')"
proof (cases "fh_TxState (bf_header b) = TxActive")
  case True
  then have "fh_TxState (bf_header b') = TxActive" using disk by (auto simp: same_disk_def)
  then show ?thesis using step [of m] assms(2) by blast
next
  case False
  then have q: "fh_TxState (bf_header b) = TxDone" "quiet b blks" using assms(3) by simp_all
  have "tx_ok blks b blks" using q(1) by (simp add: tx_ok_done)
  then obtain blks' where b': "bf_repr b' blks'" "content b' blks' = xs" "tx_ok blks b' blks'" using step [of blks] by blast
  have "quiet b' blks' \<and> fh_TxState (bf_header b') = TxDone" if "same_disk b b'"
  proof -
    have "length (bf_index b) = length blks" "length (bf_index b') = length blks'"
      using assms(1) b'(1) by (simp_all add: bf_repr_def bf_core_def)
    then have "length blks' = length blks" using that by (simp add: same_disk_def)
    then have "blks' = blks" using b'(3) by (auto simp: tx_ok_def)
    then show ?thesis using same_disk_quiet [OF that q(2)] that q(1) by (simp add: same_disk_def)
  qed
  then show ?thesis using b' tx_ok_trans [OF assms(2) b'(3)] disk by blast
qed

lemma writer_step_ok:
  assumes "writer_ok c m w b blks"
  shows "\<exists>w' b' blks'. writer_step x w = Some (None, w') \<and> writer_ok c m w' b' blks' \<and>
           fw_lastOpenWrtOffset w' = fw_lastOpenWrtOffset w \<and> content b' blks' = content b blks @ writer_data [x]"
proof -
  note at = fw_at_ok [OF assms]
  have w: "fw_bf w = Some b" "\<not> fw_closed w" "fw_compressor w = c" "fw_writeOffset w = bf_totalSize b" "bf_compressor b = c"
      "\<not> bf_closed b" "bf_repr b blks" "tx_ok m b blks"
      "fh_TxState (bf_header b) = TxActive \<or> fh_TxState (bf_header b) = TxDone \<and> quiet b blks"
    using assms by (simp_all add: writer_ok_def)
  have tx: "fh_TxState (bf_header b) = TxActive \<or> fh_TxState (bf_header b) = TxDone" using w(9) by blast
  show ?thesis
  proof (cases x)
    case (WWrite p)
    obtain b' where b': "Write p b = Some (None, length p, b')" "\<not> bf_closed b'" "bf_compressor b' = c"
      using Write_repr [OF w(7,6)] w(5) by blast
    have "\<exists>blks'. bf_repr b' blks' \<and> content b' blks' = content b blks @ p \<and> (tx_ok m b blks \<longrightarrow> tx_ok m b' blks')" for m
      using Write_repr [OF w(7,6), of p m] b'(1) by auto
    from step_keeps_quiet [OF w(7-9) this Write_quiet [OF b'(1) tx]]
    obtain blks' where r: "bf_repr b' blks'" "content b' blks' = content b blks @ p" "tx_ok m b' blks'"
        "fh_TxState (bf_header b') = TxActive \<or> fh_TxState (bf_header b') = TxDone \<and> quiet b' blks'"
      by blast
    let ?w = "(fw_put b' w)\<lparr>fw_writeOffset := fw_writeOffset w + int (length p)\<rparr>"
    have "writer_ok c m ?w b' blks'"
      using r b' w content_size [OF r(1)] content_size [OF w(7)] by (simp add: writer_ok_def fw_put_def)
    then show ?thesis using r(2) b'(1) w at WWrite
      by (intro exI [of _ ?w] exI [of _ b'] exI [of _ blks']) (simp add: fw_Write_def fw_put_def)
  next
    case WFlush
    obtain b' where b': "Sync b = (None, b')" "\<not> bf_closed b'" "bf_compressor b' = c"
      using Sync_repr [OF w(7,6)] w(5) by blast
    have "\<exists>blks'. bf_repr b' blks' \<and> content b' blks' = content b blks \<and> (tx_ok m b blks \<longrightarrow> tx_ok m b' blks')" for m
      using Sync_repr [OF w(7,6), of m] b'(1) by auto
    from step_keeps_quiet [OF w(7-9) this Sync_quiet [OF b'(1) tx]]
    obtain blks' where r: "bf_repr b' blks'" "content b' blks' = content b blks" "tx_ok m b' blks'"
        "fh_TxState (bf_header b') = TxActive \<or> fh_TxState (bf_header b') = TxDone \<and> quiet b' blks'"
      by blast
    have "writer_ok c m (fw_put b' w) b' blks'"
      using r b' w content_size [OF r(1)] content_size [OF w(7)] by (simp add: writer_ok_def fw_put_def)
    then show ?thesis using r(2) b'(1) w at WFlush
      by (intro exI [of _ "fw_put b' w"] exI [of _ b'] exI [of _ blks']) (simp add: FlushBlock_def fw_put_def file_err_def)
  next
    case WCommit
    obtain b' blks' new where r: "Commit b = (None, b')" "bf_repr b' blks'" "content b' blks' = content b blks" "committed b' blks'"
        "\<not> bf_closed b'" "bf_compressor b' = c" "blks' = blks @ new"
      using Commit_repr [OF w(7,6)] w(5) by blast
    have done_: "fh_TxState (bf_header b') = TxDone" using r(4) by (simp add: committed_def)
    have "tx_ok m b' blks'" using w(8) r(7) done_ by (auto simp: tx_ok_done) (auto simp: tx_ok_def)
    then have "writer_ok c m (fw_put b' w) b' blks'"
      using r w content_size [OF r(2)] content_size [OF w(7)] done_ committed_quiet [OF r(4)] by (simp add: writer_ok_def fw_put_def)
    then show ?thesis using r w at WCommit
      by (intro exI [of _ "fw_put b' w"] exI [of _ b'] exI [of _ blks']) (simp add: fw_Commit_def fw_put_def file_err_def)
  qed
qed

lemma writer_data_Cons: "writer_data (x # xs) = writer_data [x] @ writer_data xs"
  by (cases x) simp_all

lemma writer_run_ok:
  assumes "writer_ok c m w b blks"
  shows "\<exists>w' b' blks'. writer_run xs w = Some w' \<and> writer_ok c m w' b' blks' \<and>
           fw_lastOpenWrtOffset w' = fw_lastOpenWrtOffset w \<and> content b' blks' = content b blks @ writer_data xs"
  using assms
proof (induction xs arbitrary: w b blks)
  case (Cons x xs)
  obtain w1 b1 blks1 where s: "writer_step x w = Some (None, w1)" "writer_ok c m w1 b1 blks1"
      "fw_lastOpenWrtOffset w1 = fw_lastOpenWrtOffset w" "content b1 blks1 = content b blks @ writer_data [x]"
    using writer_step_ok [OF Cons.prems] by blast
  show ?case using Cons.IH [OF s(2)] s writer_data_Cons [of x xs] by simp
qed auto

section \<open>Opening, closing and rolling back\<close>

lemma stored_committed:
  assumes "bf_core b blks" "bf_compressor b = c" "committed b blks"
  shows "stored c (bf_file b) (concat blks)"
proof -
  have "bf_buf b = []" "quiet b blks" using assms(3) committed_quiet by (simp_all add: committed_def)
  then show ?thesis using assms(1,2) unfolding stored_def by blast
qed

lemma Close_repr:
  assumes r: "bf_repr b blks" and op: "\<not> bf_closed b"
  shows "\<exists>b' blks'. Close b = (None, b') \<and> bf_core b' blks' \<and> committed b' blks' \<and> concat blks' = content b blks \<and>
           bf_compressor b' = bf_compressor b"
proof -
  have core: "bf_core (b\<lparr>bf_closed := True\<rparr>) blks" using r by (simp add: bf_repr_def bf_core_def)
  obtain b1 blks' where b1: "flushBlock (b\<lparr>bf_closed := True\<rparr>) = (None, b1)" "bf_core b1 blks'"
      "concat blks' = content (b\<lparr>bf_closed := True\<rparr>) blks" "bf_buf b1 = []" "bf_compressor b1 = bf_compressor b"
    using flush_all [OF core, of "[]"] by auto
  obtain b2 where b2: "writeIndexLocked b1 = (None, b2)" "bf_core b2 blks'" "bf_compressor b2 = bf_compressor b1" "committed b2 blks'"
    using writeIndexLocked_core [OF b1(2)] b1(4) unfolding committed_def by metis
  have "Close b = (None, b2)" using b1 b2 op by (simp add: Close_def)
  then show ?thesis using b1 b2 by (intro exI [of _ b2] exI [of _ blks']) (simp add: content_def)
qed

context block_compressor
begin

lemma open_stored:
  assumes st: "stored c f xs" and small: "length f < 2 ^ 34" and bs: "0 < bs" "bs < 2 ^ 31"
  shows "\<exists>b blks. OpenBlockFile f c bs = Inr b \<and> bf_repr b blks \<and> concat blks = xs \<and> bf_buf b = [] \<and> bf_pos b = 0 \<and>
           \<not> bf_closed b \<and> bf_compressor b = c \<and> fh_TxState (bf_header b) = TxDone \<and> quiet b blks"
proof -
  consider (empty) "f = []" "xs = []"
    | (disk) b blks where "bf_core b blks" "bf_compressor b = c" "bf_buf b = []" "quiet b blks" "bf_file b = f" "xs = concat blks"
    using st unfolding stored_def by blast
  then show ?thesis
  proof cases
    case empty
    obtain b where b: "OpenBlockFile [] c bs = Inr b" "bf_repr b []" "content b [] = []" "bf_pos b = 0" "\<not> bf_closed b"
        "bf_compressor b = c" "fh_TxState (bf_header b) = TxDone"
      using open_new [OF bs] by blast
    have eq: "b = initNew (new_file [] c bs)" using b(1) open_new_eq by simp
    have "bare b" unfolding bare_def using b(7) by (simp add: eq initNew_def writeHeader_def new_file_def fput_def HeaderSize_def)
    then show ?thesis using b empty by (intro exI [of _ b] exI [of _ "[]"]) (simp add: content_def quiet_def)
  next
    case disk
    show ?thesis
    proof (cases "committed b blks")
      case True
      have "fh_DataEnd (bf_header b) < 2 ^ 34" using bf_core_file_bound [OF disk(1)] disk(5) small by simp
      from open_committed [OF disk(1,2) True this bs] obtain b' where
        b': "OpenBlockFile f c bs = Inr b'" "bf_repr b' blks" "bf_pos b' = 0" "\<not> bf_closed b'" "bf_compressor b' = c"
          "bf_buf b' = []" "committed b' blks"
        using disk(5) by blast
      then show ?thesis using disk(6) committed_quiet [OF b'(7)]
        by (intro exI [of _ b'] exI [of _ blks]) (simp add: committed_def)
    next
      case False
      then have e: "blks = []" "bare b" using disk(3,4) by (auto simp: quiet_def committed_def)
      from open_bare [OF disk(1) [unfolded e(1)] disk(2) e(2) bs] obtain b' where
        b': "OpenBlockFile f c bs = Inr b'" "bf_repr b' []" "bf_buf b' = []" "bf_pos b' = 0" "\<not> bf_closed b'"
          "bf_compressor b' = c" "quiet b' []"
        using disk(5) by blast
      have "fh_TxState (bf_header b') = TxDone" using b'(7) by (auto simp: quiet_def committed_def bare_def)
      then show ?thesis using b' e disk(6) by (intro exI [of _ b'] exI [of _ "[]"]) simp
    qed
  qed
qed

lemma stored_reads: "stored c f xs \<Longrightarrow> length f < 2 ^ 34 \<Longrightarrow> reads_as c f xs"
  using open_stored [of f xs, OF _ _ BlockSizeDef_range(1,2)] unfolding reads_as_def content_def by fastforce

lemma OpenWriter_ok:
  assumes "stored c (fw_file w) xs" "fw_closed w" "fw_compressor w = c" "length (fw_file w) < 2 ^ 34"
  shows "\<exists>w' b blks. OpenWriter w = (None, w') \<and> writer_ok c blks w' b blks \<and> content b blks = xs \<and> concat blks = xs \<and>
           fw_lastOpenWrtOffset w' = int (length xs)"
proof -
  obtain b blks where b: "OpenBlockFile (fw_file w) c (int BlockSizeDef) = Inr b" "bf_repr b blks" "concat blks = xs" "bf_buf b = []"
      "\<not> bf_closed b" "bf_compressor b = c" "fh_TxState (bf_header b) = TxDone" "quiet b blks"
    using open_stored [OF assms(1,4) BlockSizeDef_range(1,2)] by blast
  have sz: "bf_totalSize b = int (length xs)" using b(2-4) by (simp add: bf_repr_def)
  let ?b = "b\<lparr>bf_pos := bf_totalSize b\<rparr>"
  let ?w = "(fw_put ?b w)\<lparr>fw_writeOffset := bf_Size ?b, fw_lastOpenWrtOffset := bf_Size ?b, fw_closed := False\<rparr>"
  have "OpenWriter w = (None, ?w)" using b sz assms(2,3) by (simp add: OpenWriter_def bf_Seek_def)
  moreover have "writer_ok c blks ?w ?b blks"
    using b assms(3) by (simp add: writer_ok_def fw_put_def bf_Size_def tx_ok_done quiet_def committed_def bare_def)
  moreover have "content ?b blks = xs" using b by (simp add: content_def)
  ultimately show ?thesis using sz b by (intro exI [of _ ?w] exI [of _ ?b] exI [of _ blks]) (simp add: bf_Size_def)
qed

text \<open>Dropping the handle at any moment and opening the file again recovers at least the blocks the
  transaction started on.\<close>

lemma reopen_dropped:
  assumes "writer_ok c m w b blks" "length (fw_file w) < 2 ^ 34"
  shows "\<exists>b2 new. OpenBlockFile (fw_file w) c (int BlockSizeDef) = Inr b2 \<and> bf_repr b2 (m @ new) \<and> bf_buf b2 = [] \<and>
           \<not> bf_closed b2 \<and> bf_compressor b2 = c"
proof -
  have w: "fw_file w = bf_file b" "bf_compressor b = c" "bf_repr b blks" "tx_ok m b blks"
      "fh_TxState (bf_header b) = TxActive \<or> fh_TxState (bf_header b) = TxDone \<and> quiet b blks"
    using assms(1) by (simp_all add: writer_ok_def)
  have core: "bf_core b blks" using w(3) by (simp add: bf_repr_def)
  have small: "fh_DataEnd (bf_header b) < 2 ^ 34" using bf_core_file_bound [OF core] assms(2) w(1) by simp
  show ?thesis
  proof (cases "fh_TxState (bf_header b) = TxActive")
    case True
    then obtain new k where k: "blks = m @ new" "length m \<le> k" "disk_tx b blks k" using w(4) unfolding tx_ok_def by blast
    obtain b2 where "OpenBlockFile (bf_file b) c (int BlockSizeDef) = Inr b2" "bf_repr b2 (take k blks)" "bf_buf b2 = []"
        "\<not> bf_closed b2" "bf_compressor b2 = c"
      using open_active [OF core w(2) k(3) small BlockSizeDef_range(1,2)] by blast
    moreover have "take k blks = m @ take (k - length m) new" using k by simp
    ultimately show ?thesis using w(1) by metis
  next
    case False
    then have "quiet b blks" using w(5) by blast
    from open_quiet [OF core w(2) this small BlockSizeDef_range(1,2)] show ?thesis using w(1,4) unfolding tx_ok_def by metis
  qed
qed

lemma truncate_and_close:
  assumes b2: "bf_repr b2 blks" "concat blks = ys @ zs" "bf_buf b2 = []" "\<not> bf_closed b2" "bf_compressor b2 = c"
  shows "\<exists>b3 b4. Truncate (int (length ys)) b2 = (None, b3) \<and> Close b3 = (None, b4) \<and> stored c (bf_file b4) ys"
proof -
  obtain b3 blks3 where b3: "Truncate (int (length ys)) b2 = (None, b3)" "bf_repr b3 blks3" "content b3 blks3 = ys"
      "bf_closed b3 = bf_closed b2" "bf_compressor b3 = c"
  proof (cases "blks = []")
    case True
    let ?b = "writeHeader (b2\<lparr>bf_buf := [], bf_totalSize := 0, bf_pos := 0, bf_header := (bf_header b2)\<lparr>fh_TotalSize := 0\<rparr>\<rparr>)"
    have "bf_core (b2\<lparr>bf_buf := [], bf_totalSize := 0, bf_pos := 0, bf_header := (bf_header b2)\<lparr>fh_TotalSize := 0\<rparr>\<rparr>) []"
      using b2(1) True by (simp add: bf_repr_def bf_core_def)
    then have "bf_core ?b []" by (rule writeHeader_core)
    moreover have "Truncate (int (length ys)) b2 = (None, ?b)"
      using b2(1,2) True by (simp add: Truncate_def truncate_buffered_def bf_repr_def bf_core_def)
    ultimately show ?thesis using that [of ?b "[]"] True b2(2,5) by (simp add: bf_repr_def content_def)
  next
    case False
    have "length ys \<le> length (concat blks)" by (simp add: b2(2))
    from Truncate_repr [OF b2(1,5) this False] show ?thesis
      using that b2(2,3) by (fastforce simp: content_def)
  qed
  obtain b4 blks4 where b4: "Close b3 = (None, b4)" "bf_core b4 blks4" "committed b4 blks4" "concat blks4 = ys"
      "bf_compressor b4 = c"
    using Close_repr [OF b3(2)] b3(3-5) b2(4) by auto
  then show ?thesis using b3(1) stored_committed [OF b4(2,5,3)] by auto
qed

lemma RollbackLastCommit_ok:
  assumes ok: "writer_ok c m w b blks" and last: "fw_lastOpenWrtOffset w = int (length (concat m))"
    and small: "length (fw_file w) < 2 ^ 34"
  shows "\<exists>w'. RollbackLastCommit w = (None, w') \<and> stored c (fw_file w') (concat m) \<and> fw_closed w' \<and> fw_compressor w' = c"
proof -
  have w: "fw_bf w \<noteq> None" "\<not> fw_closed w" "fw_compressor w = c" using ok by (simp_all add: writer_ok_def)
  obtain b2 new where b2: "OpenBlockFile (fw_file w) c (int BlockSizeDef) = Inr b2" "bf_repr b2 (m @ new)" "bf_buf b2 = []"
      "\<not> bf_closed b2" "bf_compressor b2 = c"
    using reopen_dropped [OF ok small] by blast
  obtain b3 b4 where "Truncate (int (length (concat m))) b2 = (None, b3)" "Close b3 = (None, b4)" "stored c (bf_file b4) (concat m)"
    using truncate_and_close [OF b2(2) _ b2(3-5), of "concat m" "concat new"] by auto
  then have "RollbackLastCommit w = (None, w\<lparr>fw_bf := None, fw_closed := True, fw_file := bf_file b4\<rparr>)" "stored c (bf_file b4) (concat m)"
    using w b2(1) last by (simp_all add: RollbackLastCommit_def file_err_def Let_def)
  then show ?thesis using w(3) by simp
qed

text \<open>A writer at rest, with what its transaction appended already closed into the file, rolls back the same way.\<close>

lemma RollbackLastCommit_closed:
  assumes "fw_bf w = None" "fw_compressor w = c" "stored c (fw_file w) (ys @ zs)" "fw_lastOpenWrtOffset w = int (length ys)"
    and small: "length (fw_file w) < 2 ^ 34"
  shows "\<exists>w'. RollbackLastCommit w = (None, w') \<and> stored c (fw_file w') ys \<and> fw_closed w' = fw_closed w \<and> fw_compressor w' = c"
proof -
  obtain b2 blks where b2: "OpenBlockFile (fw_file w) c (int BlockSizeDef) = Inr b2" "bf_repr b2 blks" "concat blks = ys @ zs"
      "bf_buf b2 = []" "\<not> bf_closed b2" "bf_compressor b2 = c"
    using open_stored [OF assms(3) small BlockSizeDef_range(1,2)] by blast
  obtain b3 b4 where "Truncate (int (length ys)) b2 = (None, b3)" "Close b3 = (None, b4)" "stored c (bf_file b4) ys"
    using truncate_and_close [OF b2(2-6)] by auto
  then have "RollbackLastCommit w = (None, w\<lparr>fw_file := bf_file b4\<rparr>)" "stored c (bf_file b4) ys"
    using assms(1,2,4) b2(1) by (simp_all add: RollbackLastCommit_def file_err_def Let_def)
  then show ?thesis using assms(2) by simp
qed

lemma Cleanup_ok:
  assumes ok: "writer_ok c m w b blks"
  shows "\<exists>w' zs. Cleanup w = (None, w') \<and> fw_bf w' = None \<and> fw_closed w' \<and> fw_compressor w' = c \<and>
           stored c (fw_file w') (concat m @ zs) \<and> content b blks = concat m @ zs \<and> fw_lastOpenWrtOffset w' = fw_lastOpenWrtOffset w"
proof -
  have w: "fw_bf w = Some b" "\<not> fw_closed w" "fw_compressor w = c" "bf_repr b blks" "\<not> bf_closed b" "bf_compressor b = c"
      "\<exists>new. blks = m @ new"
    using ok by (auto simp: writer_ok_def tx_ok_def)
  obtain b' blks' where b': "Close b = (None, b')" "bf_core b' blks'" "committed b' blks'" "concat blks' = content b blks"
      "bf_compressor b' = c"
    using Close_repr [OF w(4,5)] w(6) by auto
  obtain zs where zs: "content b blks = concat m @ zs" using w(7) by (auto simp: content_def)
  then have "stored c (bf_file b') (concat m @ zs)" using stored_committed [OF b'(2,5,3)] b'(4) by simp
  moreover have "Cleanup w = (None, ((fw_put b' w)\<lparr>fw_closed := True\<rparr>)\<lparr>fw_bf := None\<rparr>)"
    using w(1,2) b'(1) fw_at_ok [OF ok] by (simp add: Cleanup_def)
  ultimately show ?thesis using w(3) zs by (intro exI [of _ "((fw_put b' w)\<lparr>fw_closed := True\<rparr>)\<lparr>fw_bf := None\<rparr>"]) (auto simp: fw_put_def)
qed

lemma fw_Commit_ok:
  assumes "writer_ok c m w b blks"
  shows "\<exists>w' b' blks'. fw_Commit w = (None, w') \<and> writer_ok c blks' w' b' blks' \<and> content b' blks' = content b blks \<and>
           concat blks' = content b blks \<and> stored c (fw_file w') (content b blks) \<and> fw_Size w' = int (length (content b blks))"
proof -
  obtain b' blks' new where r: "Commit b = (None, b')" "bf_repr b' blks'" "content b' blks' = content b blks" "committed b' blks'"
      "\<not> bf_closed b'" "bf_compressor b' = c" "blks' = blks @ new"
    using Commit_repr [of b blks] assms by (auto simp: writer_ok_def)
  have w: "fw_bf w = Some b" "\<not> fw_closed w" "fw_compressor w = c" "fw_writeOffset w = bf_totalSize b" "bf_repr b blks"
    using assms by (simp_all add: writer_ok_def)
  have tx: "fh_TxState (bf_header b') = TxDone" and buf: "bf_buf b' = []" using r(4) by (simp_all add: committed_def)
  have c: "concat blks' = content b blks" using r(3) buf by (simp add: content_def)
  have "writer_ok c blks' (fw_put b' w) b' blks'"
    using r w tx committed_quiet [OF r(4)] content_size [OF r(2)] content_size [OF w(5)]
    by (simp add: writer_ok_def fw_put_def tx_ok_done)
  moreover have "stored c (bf_file b') (content b blks)"
    using stored_committed [of b' blks' c] r(2,4,6) c by (simp add: bf_repr_def)
  moreover have "fw_Commit w = (None, fw_put b' w)"
    using w r(1) fw_at_ok [OF assms] by (simp add: fw_Commit_def file_err_def)
  ultimately show ?thesis using r(3) c w content_size [OF w(5)]
    by (intro exI [of _ "fw_put b' w"] exI [of _ b'] exI [of _ blks']) (simp add: fw_put_def fw_Size_def)
qed

lemma writer_ready_committed: "writer_ok c m w b blks \<Longrightarrow> fw_Commit w = (e, w') \<Longrightarrow> writer_ready c w' (content b blks)"
  using fw_Commit_ok [of m w b blks] unfolding writer_ready_def by (metis prod.inject)

lemma OpenWriter_ready:
  assumes "writer_ready c w xs"
  shows "\<exists>w' b blks. OpenWriter w = (None, w') \<and> writer_ok c blks w' b blks \<and> content b blks = xs \<and> concat blks = xs \<and>
           fw_lastOpenWrtOffset w' = int (length xs)"
proof (cases "fw_closed w")
  case True
  then show ?thesis using assms OpenWriter_ok [of w xs] by (auto simp: writer_ready_def writer_ok_def)
next
  case False
  then obtain b blks where b: "writer_ok c blks w b blks" "concat blks = xs" "content b blks = xs" using assms by (auto simp: writer_ready_def)
  let ?w = "w\<lparr>fw_lastOpenWrtOffset := bf_Size b\<rparr>"
  have "bf_totalSize b = int (length xs)" using b content_size by (metis writer_ok_def)
  moreover have "OpenWriter w = (None, ?w)" "writer_ok c blks ?w b blks" using b(1) False by (simp_all add: OpenWriter_def writer_ok_def)
  ultimately show ?thesis using b by (intro exI [of _ ?w] exI [of _ b] exI [of _ blks]) (simp add: bf_Size_def)
qed

end

section \<open>Properties\<close>

text \<open>A transaction on a segment file that is at rest appends: after opening the writer, any sequence of
  writes, flushes and commits, and a final commit, all without error, the file read back is the old content
  followed by everything written, and the writer reports that size.\<close>

theorem writer_commit_appends:
  assumes "block_compressor c" "stored c (fw_file w) xs" "fw_closed w" "fw_compressor w = c" "length (fw_file w) < 2 ^ 34"
  shows "\<exists>w1 w2 w3. OpenWriter w = (None, w1) \<and> writer_run ops w1 = Some w2 \<and> fw_Commit w2 = (None, w3) \<and>
           fw_Size w3 = int (length (xs @ writer_data ops)) \<and> stored c (fw_file w3) (xs @ writer_data ops) \<and>
           (length (fw_file w3) < 2 ^ 34 \<longrightarrow> reads_as c (fw_file w3) (xs @ writer_data ops))"
proof -
  obtain w1 b blks where w1: "OpenWriter w = (None, w1)" "writer_ok c blks w1 b blks" "content b blks = xs"
    using block_compressor.OpenWriter_ok [OF assms] by blast
  obtain w2 b2 blks2 where w2: "writer_run ops w1 = Some w2" "writer_ok c blks w2 b2 blks2" "content b2 blks2 = xs @ writer_data ops"
    using writer_run_ok [OF w1(2)] w1(3) by blast
  obtain w3 where w3: "fw_Commit w2 = (None, w3)" "stored c (fw_file w3) (content b2 blks2)" "fw_Size w3 = int (length (content b2 blks2))"
    using block_compressor.fw_Commit_ok [OF assms(1) w2(2)] by blast
  show ?thesis using w1 w2 w3 block_compressor.stored_reads [OF assms(1)] by auto
qed

lemma new_writer_stored: "stored c (fw_file (NewFileWriter [] c)) []" "fw_closed (NewFileWriter [] c)"
  "fw_compressor (NewFileWriter [] c) = c" "length (fw_file (NewFileWriter [] c)) < 2 ^ 34"
  by (simp_all add: NewFileWriter_def stored_def)

lemma new_writer_ready: "writer_ready c (NewFileWriter [] c) []"
  using new_writer_stored by (rule writer_ready_closed)

theorem writer_commit_appends_witness:
  "\<exists>w1 w2 w3. OpenWriter (NewFileWriter [] NoCompressor) = (None, w1) \<and> writer_run [WWrite [1, 2], WFlush, WWrite [3]] w1 = Some w2 \<and>
     fw_Commit w2 = (None, w3) \<and> fw_Size w3 = 3 \<and> stored NoCompressor (fw_file w3) [1, 2, 3]"
  using writer_commit_appends [OF no_compressor.block_compressor_axioms new_writer_stored, of "[WWrite [1, 2], WFlush, WWrite [3]]"]
  by auto

text \<open>\<^bold>\<open>C10\<close>: rolling back undoes the whole transaction: whatever was written, flushed or even committed since the
  writer was opened, after \<^verbatim>\<open>RollbackLastCommit\<close> the file read back is exactly what it was when the
  transaction was opened.\<close>

theorem RollbackLastCommit_restores:
  assumes "block_compressor c" "stored c (fw_file w) xs" "fw_closed w" "fw_compressor w = c" "length (fw_file w) < 2 ^ 34"
  shows "\<exists>w1 w2. OpenWriter w = (None, w1) \<and> writer_run ops w1 = Some w2 \<and>
           (length (fw_file w2) < 2 ^ 34 \<longrightarrow>
              (\<exists>w3. RollbackLastCommit w2 = (None, w3) \<and> stored c (fw_file w3) xs \<and> fw_closed w3 \<and>
                 (length (fw_file w3) < 2 ^ 34 \<longrightarrow> reads_as c (fw_file w3) xs)))"
proof -
  obtain w1 b blks where w1: "OpenWriter w = (None, w1)" "writer_ok c blks w1 b blks" "concat blks = xs"
      "fw_lastOpenWrtOffset w1 = int (length xs)"
    using block_compressor.OpenWriter_ok [OF assms] by blast
  obtain w2 b2 blks2 where w2: "writer_run ops w1 = Some w2" "writer_ok c blks w2 b2 blks2" "fw_lastOpenWrtOffset w2 = int (length xs)"
    using writer_run_ok [OF w1(2)] w1(4) by metis
  have "\<exists>w3. RollbackLastCommit w2 = (None, w3) \<and> stored c (fw_file w3) xs \<and> fw_closed w3" if "length (fw_file w2) < 2 ^ 34"
    using block_compressor.RollbackLastCommit_ok [OF assms(1) w2(2) _ that] w2(3) w1(3) by auto
  then show ?thesis using w1(1) w2(1) block_compressor.stored_reads [OF assms(1)] by blast
qed

theorem RollbackLastCommit_restores_witness:
  "\<exists>w1 w2 w3. OpenWriter (NewFileWriter [] NoCompressor) = (None, w1) \<and> writer_run [WWrite [1, 2], WCommit, WWrite [3]] w1 = Some w2 \<and>
     RollbackLastCommit w2 = (None, w3) \<and> stored NoCompressor (fw_file w3) []"
proof -
  have "case OpenWriter (NewFileWriter [] NoCompressor) of (e, w1) \<Rightarrow>
          (case writer_run [WWrite [1, 2], WCommit, WWrite [3]] w1 of Some w2 \<Rightarrow> length (fw_file w2) < 2 ^ 34 | None \<Rightarrow> False)"
    by (simp add: OpenWriter_def NewFileWriter_def open_new_eq bf_Seek_def fw_Write_def fw_at_def Write_def write_loop.simps
      BlockSizeDef_def initNew_def new_file_def writeHeader_def fw_put_def bf_Size_def fw_Commit_def Commit_def flushBlock_def
      Let_def file_err_def writeIndexLocked_def HeaderSize_def TxDone_def TxActive_def block_frame_def NoCompressor_def index_bytes_def)
  then show ?thesis
    using RollbackLastCommit_restores [OF no_compressor.block_compressor_axioms new_writer_stored, of "[WWrite [1, 2], WCommit, WWrite [3]]"]
    by auto
qed

text \<open>On a file left by a crash the same rollback destroys what recovery kept: opening the writer repairs
  the header but not the index on disk, so when the transaction is rolled back before its first flush the
  rollback itself opens a file without an index and closes it with an empty one.  The rolled-back file
  still reports its size, and every read of it ends at once with end-of-file.\<close>

theorem rollback_after_crash_loses_data:
  assumes law: "block_compressor c" and core: "bf_core b blks" and bc: "bf_compressor b = c" and tx: "disk_tx b blks k"
    and k: "0 < k" and small: "length (bf_file b) < 2 ^ 34"
  shows "\<exists>w1 w2 b2. OpenWriter (NewFileWriter (bf_file b) c) = (None, w1) \<and> fw_Size w1 = int (length (concat (take k blks))) \<and>
           RollbackLastCommit w1 = (None, w2) \<and> OpenBlockFile (fw_file w2) c (int BlockSizeDef) = Inr b2 \<and>
           bf_Size b2 = fw_Size w1 \<and> 0 < bf_Size b2 \<and> (\<forall>fuel n. bf_Read fuel n b2 = Some ((Some ErrEOF, []), b2))"
proof -
  let ?n = "length (concat (take k blks))" and ?D = "HeaderSize + length (frames c (take k blks))"
  have "fh_DataEnd (bf_header b) < 2 ^ 34" using bf_core_file_bound [OF core small] .
  then obtain b1 b2 where b: "OpenBlockFile (bf_file b) c (int BlockSizeDef) = Inr b1" "bf_repr b1 (take k blks)" "bf_buf b1 = []"
      "\<not> bf_closed b1" "0 < ?n" "?n < 2 ^ 63" "OpenBlockFile (bf_file b1) c (int BlockSizeDef) = Inr b2" "bf_file b2 = bf_file b1"
      "bf_header b2 = bf_header b1" "bf_file b1 = encode_header (bf_header b1) @ frames c (take k blks)"
      "bf_index b2 = []" "bf_buf b2 = []" "\<not> bf_closed b2" "bf_totalSize b2 = int ?n" "bf_compressor b1 = c" "?D < 2 ^ 34"
    using reopen_recovered [OF law core bc tx k _ BlockSizeDef_range(1,2)] by blast
  have sz: "bf_totalSize b1 = int ?n" and D: "fh_DataEnd (bf_header b2) = int ?D" and mg: "fh_Magic (bf_header b2) = Magic"
      and tot: "fh_TotalSize (bf_header b2) = int ?n"
    using b(2,3,9,15) by (simp_all add: bf_repr_def bf_core_def)
  let ?w1 = "(fw_put (b1\<lparr>bf_pos := bf_totalSize b1\<rparr>) (NewFileWriter (bf_file b) c))
               \<lparr>fw_writeOffset := int ?n, fw_lastOpenWrtOffset := int ?n, fw_closed := False\<rparr>"
  have w1: "OpenWriter (NewFileWriter (bf_file b) c) = (None, ?w1)"
    using b(1,4) sz by (simp add: OpenWriter_def NewFileWriter_def bf_Seek_def bf_Size_def)
  let ?h = "(bf_header b2)\<lparr>fh_IndexOffset := int ?D, fh_TxState := TxDone\<rparr>"
  let ?b3 = "writeHeader (b2\<lparr>bf_closed := True, bf_file := fput ?D (index_bytes []) (bf_file b2), bf_header := ?h\<rparr>)"
  let ?w2 = "?w1\<lparr>fw_bf := None, fw_closed := True, fw_file := bf_file ?b3\<rparr>"
  have close: "Close b2 = (None, ?b3)"
    using b(11-13) D by (simp add: Close_def flushBlock_def writeIndexLocked_def Let_def del: of_nat_add)
  have trunc: "Truncate (int ?n) b2 = (None, b2)"
  proof -
    have "int ?n \<noteq> 0" using b(5) by linarith
    then show ?thesis using b(11,12) unfolding Truncate_def truncate_buffered_def by (simp only: if_True if_False) simp
  qed
  have w2: "RollbackLastCommit ?w1 = (None, ?w2)"
    using b(7) trunc close by (simp add: RollbackLastCommit_def fw_put_def NewFileWriter_def file_err_def Let_def)
  have "fput ?D (index_bytes []) (bf_file b2) = (encode_header (bf_header b1) @ frames c (take k blks)) @ index_bytes []"
    using fput_at [of "encode_header (bf_header b1) @ frames c (take k blks)" ?D "index_bytes []" "[]"] b(8,10) by simp
  then have f: "bf_file ?b3 = encode_header ?h @ frames c (take k blks) @ index_bytes []"
    by (simp add: writeHeader_def fput_0)
  have dec: "decode_header (encode_header ?h) = ?h"
    using b(6,16) D tot by (intro decode_encode_header) simp_all
  define f3 h3 where "f3 = bf_file ?b3" and "h3 = ?h"
  have r0: "fread 0 HeaderSize f3 = Some (encode_header h3)"
    using fread_at [of "[]" 0 "encode_header ?h" "frames c (take k blks) @ index_bytes []"] unfolding f3_def h3_def f by simp
  have r1: "fread ?D 4 f3 = Some (index_bytes [])"
    using fread_at [of "encode_header ?h @ frames c (take k blks)" ?D "index_bytes []" "[]"] unfolding f3_def f
    by (simp add: index_bytes_def)
  have h3: "fh_Magic h3 = Magic" "fh_TxState h3 = TxDone" "fh_IndexOffset h3 = int ?D" "fh_TotalSize h3 = int ?n"
      "decode_header (encode_header h3) = h3"
    using mg tot dec by (simp_all add: h3_def)
  let ?b4 = "(new_file f3 c (int BlockSizeDef))\<lparr>bf_header := h3, bf_offset := int HeaderSize, bf_dataWritePos := fh_DataEnd h3,
               bf_totalSize := int ?n, bf_pos := 0\<rparr>"
  have cnt: "unat (le_get (index_bytes []) :: u32) = 0" by (simp add: index_bytes_def le_get_put_full)
  have ip: "0 < fh_IndexOffset h3" "nat (fh_IndexOffset h3) = ?D" unfolding h3(3) by (simp_all add: HeaderSize_def)
  have open4: "OpenBlockFile f3 c (int BlockSizeDef) = Inr ?b4"
    unfolding OpenBlockFile_def loadAndRecover_def using r0 r1 h3(1,2,4,5) cnt ip
    by (simp add: new_file_def load_done_def Let_def TxDone_def TxActive_def)
  have rd: "bf_Read fuel n ?b4 = Some ((Some ErrEOF, []), ?b4)" for fuel n
    using b(5) by (intro no_index_no_read) (simp_all only: new_file_def, simp_all)
  have "fw_file ?w2 = f3" by (simp add: f3_def)
  moreover have "bf_Size ?b4 = int ?n" "fw_Size ?w1 = int ?n" by (simp_all add: bf_Size_def fw_Size_def)
  ultimately show ?thesis using w1 w2 open4 rd b(5) by (intro exI [of _ ?w1] exI [of _ ?w2] exI [of _ ?b4]) simp
qed

theorem rollback_after_crash_loses_data_witness:
  "\<exists>(b :: BlockFile) w1 w2 b2. OpenWriter (NewFileWriter (bf_file b) NoCompressor) = (None, w1) \<and> fw_Size w1 = 1 \<and>
     RollbackLastCommit w1 = (None, w2) \<and> OpenBlockFile (fw_file w2) NoCompressor (int BlockSizeDef) = Inr b2 \<and>
     bf_Size b2 = 1 \<and> (\<forall>fuel n. bf_Read fuel n b2 = Some ((Some ErrEOF, []), b2))"
proof -
  obtain b where b: "bf_core b [[7]]" "bf_compressor b = NoCompressor" "disk_tx b [[7]] 1" "length (bf_file b) < 2 ^ 34"
    using crashed_example by blast
  from rollback_after_crash_loses_data [OF no_compressor.block_compressor_axioms b(1-3) zero_less_one b(4)]
  show ?thesis by (elim exE conjE) (intro exI conjI; simp)
qed

end
