(* ===== verification/Segment_Reader.thy ===== *)
theory Segment_Reader
  imports Segment_Writer Segment_Index "HOL-Library.AList"
begin

text \<open>
  The reading side of a data segment: the 32-byte segment header of \<^verbatim>\<open>tsdb/segment.go\<close>, the cache of idle
  readers of \<^verbatim>\<open>tsdb/reader_cache.go\<close>, and the \<^verbatim>\<open>fileReader\<close> of \<^verbatim>\<open>tsdb/segment_reader.go\<close>, which walks the
  sequence of segment blocks of a file and splits each block into its time and value bytes.
\<close>

section \<open>The segment header\<close>

record SegmentHeader =
  sh_Attribute :: u32
  sh_MinTime :: int
  sh_MaxTime :: int
  sh_DataSize :: int
  sh_Crc :: u32

definition segmentHeaderRawSize :: nat where "segmentHeaderRawSize = 32"

definition encodeSegmentHeader :: "SegmentHeader \<Rightarrow> bytes" where
  "encodeSegmentHeader h =
     be_put 4 (sh_Attribute h) @ be_int64 (sh_MinTime h) @ be_int64 (sh_MaxTime h) @ be_int64 (sh_DataSize h)
       @ be_put 4 (sh_Crc h)"

definition decodeSegmentHeader :: "bytes \<Rightarrow> SegmentHeader" where
  "decodeSegmentHeader data =
     \<lparr>sh_Attribute = be_get (take 4 data), sh_MinTime = int64_be (take 8 (drop 4 data)),
      sh_MaxTime = int64_be (take 8 (drop 12 data)), sh_DataSize = int64_be (take 8 (drop 20 data)),
      sh_Crc = be_get (take 4 (drop 28 data))\<rparr>"

definition header_fits :: "SegmentHeader \<Rightarrow> bool" where
  "header_fits h \<longleftrightarrow> int64_range (sh_MinTime h) \<and> int64_range (sh_MaxTime h) \<and> int64_range (sh_DataSize h)"

lemma length_encodeSegmentHeader [simp]: "length (encodeSegmentHeader h) = segmentHeaderRawSize"
  by (simp add: encodeSegmentHeader_def segmentHeaderRawSize_def)

lemma decode_encodeSegmentHeader: "header_fits h \<Longrightarrow> decodeSegmentHeader (encodeSegmentHeader h) = h"
  by (simp add: decodeSegmentHeader_def encodeSegmentHeader_def header_fits_def codec_simps)

section \<open>The table information a reader needs\<close>

datatype ColumnType =
    ColumnTypeUnknown | ColumnTypeInt | ColumnTypeFloat | ColumnTypeString | ColumnTypeBool | ColumnTypeJson
  | ColumnTypeStructure

text \<open>\<^verbatim>\<open>ColumnAttribute\<close>: name, description, type, float precision and nested structure; \<^verbatim>\<open>TableInfo\<close> embeds one.\<close>

datatype ColumnAttribute =
  ColumnAttribute (ca_Name: string) (ca_Desc: string) (ca_Type: ColumnType) (ca_FloatPrecision: byte)
    (ca_Structure: "ColumnAttribute list")

type_synonym TableInfo = ColumnAttribute

section \<open>The reader cache\<close>

text \<open>Idle readers by path.  \<^verbatim>\<open>evictLocked\<close> drops whichever entry the map iteration yields first, which Go leaves
  open: the index \<open>victim\<close> (taken modulo the size) stands for that choice.  The operations that close
  handles also return the list of handles they drop.\<close>

record readerCache =
  rc_maxSize :: nat
  rc_readers :: "(string \<times> BlockFile) list"

definition defaultMaxOpenReaders :: nat where "defaultMaxOpenReaders = 64"

definition newReaderCache :: "int \<Rightarrow> readerCache" where
  "newReaderCache maxSize =
     \<lparr>rc_maxSize = (if maxSize \<le> 0 then defaultMaxOpenReaders else nat maxSize), rc_readers = []\<rparr>"

definition acquire :: "string \<Rightarrow> readerCache \<Rightarrow> BlockFile option \<times> readerCache" where
  "acquire filePath c =
     (case map_of (rc_readers c) filePath of
        None \<Rightarrow> (None, c)
      | Some bf \<Rightarrow> (Some bf, c\<lparr>rc_readers := AList.delete filePath (rc_readers c)\<rparr>))"

definition evictLocked :: "nat \<Rightarrow> readerCache \<Rightarrow> BlockFile list \<times> readerCache" where
  "evictLocked victim c =
     (case rc_readers c of
        [] \<Rightarrow> ([], c)
      | rs \<Rightarrow> (let (path, bf) = rs ! (victim mod length rs) in ([bf], c\<lparr>rc_readers := AList.delete path rs\<rparr>)))"

definition release :: "nat \<Rightarrow> string \<Rightarrow> BlockFile \<Rightarrow> readerCache \<Rightarrow> BlockFile list \<times> readerCache" where
  "release victim filePath bf c =
     (let old = (case map_of (rc_readers c) filePath of None \<Rightarrow> [] | Some o' \<Rightarrow> [o']);
          (dropped, c1) = (if length (rc_readers c) \<ge> rc_maxSize c then evictLocked victim c else ([], c))
      in (old @ dropped, c1\<lparr>rc_readers := AList.update filePath bf (rc_readers c1)\<rparr>))"

definition evict :: "string \<Rightarrow> readerCache \<Rightarrow> BlockFile list \<times> readerCache" where
  "evict filePath c =
     (case map_of (rc_readers c) filePath of
        None \<Rightarrow> ([], c)
      | Some bf \<Rightarrow> ([bf], c\<lparr>rc_readers := AList.delete filePath (rc_readers c)\<rparr>))"

definition closeAll :: "readerCache \<Rightarrow> BlockFile list \<times> readerCache" where
  "closeAll c = (map snd (rc_readers c), c\<lparr>rc_readers := []\<rparr>)"

definition cache_ok :: "readerCache \<Rightarrow> bool" where
  "cache_ok c \<longleftrightarrow> distinct (map fst (rc_readers c)) \<and> length (rc_readers c) \<le> rc_maxSize c \<and> 0 < rc_maxSize c"

section \<open>The reader\<close>

text \<open>The open \<^verbatim>\<open>BlockFile\<close> is kept with the path it is bound to.  The bytes at the reader's path are an argument of the
  operations that read them; opening can change them, by recovery or by initialising an empty file.  The
  cache is an argument too, \<open>None\<close> for a nil cache.\<close>

record fileReader =
  fr_filePath :: string
  fr_bf :: "(string \<times> BlockFile) option"
  fr_readEffectiveOffset :: int
  fr_compressor :: compressor
  fr_needSeek :: bool

definition NewFileReader :: "string \<Rightarrow> compressor \<Rightarrow> fileReader" where
  "NewFileReader filePath cmp =
     \<lparr>fr_filePath = filePath, fr_bf = None, fr_readEffectiveOffset = 0, fr_compressor = cmp, fr_needSeek = False\<rparr>"

text \<open>Getting a handle: from the cache or by opening the path.\<close>

definition reader_acquire :: "bytes \<Rightarrow> readerCache option \<Rightarrow> fileReader \<Rightarrow> seg_error option \<times> bytes \<times> readerCache option \<times> fileReader" where
  "reader_acquire disk cache r =
     (let path = fr_filePath r;
          (cached, cache') = (case cache of None \<Rightarrow> (None, None) | Some c \<Rightarrow> (case acquire path c of (b, c') \<Rightarrow> (b, Some c')))
      in case cached of
           Some bf \<Rightarrow> (None, disk, cache', r\<lparr>fr_bf := Some (path, bf)\<rparr>)
         | None \<Rightarrow>
             (case OpenBlockFile disk (fr_compressor r) (int BlockSizeDef) of
                Inl e \<Rightarrow> (Some (FileError e), disk, cache', r)
              | Inr bf \<Rightarrow> (None, bf_file bf, cache', r\<lparr>fr_bf := Some (path, bf)\<rparr>)))"

definition reader_rewind :: "fileReader \<Rightarrow> fileReader" where
  "reader_rewind r = r\<lparr>fr_readEffectiveOffset := 0, fr_needSeek := True\<rparr>"

definition OpenReader :: "bytes \<Rightarrow> readerCache option \<Rightarrow> fileReader \<Rightarrow> seg_error option \<times> bytes \<times> readerCache option \<times> fileReader" where
  "OpenReader disk cache r =
     (case fr_bf r of
        Some (path, bf) \<Rightarrow>
          if path \<noteq> fr_filePath r then
            (case Rebind disk (fr_compressor r) bf of
               (Some e, bf') \<Rightarrow> (Some (FileError e), disk, cache, r\<lparr>fr_bf := None\<rparr>)
             | (None, bf') \<Rightarrow> (None, bf_file bf', cache, reader_rewind (r\<lparr>fr_bf := Some (fr_filePath r, bf')\<rparr>)))
          else (None, disk, cache, reader_rewind r)
      | None \<Rightarrow>
          (case reader_acquire disk cache r of
             (Some e, disk', cache', r') \<Rightarrow> (Some e, disk', cache', r')
           | (None, disk', cache', r') \<Rightarrow> (None, disk', cache', reader_rewind r')))"

definition CloseReader :: "nat \<Rightarrow> readerCache option \<Rightarrow> fileReader \<Rightarrow> BlockFile list \<times> readerCache option \<times> fileReader" where
  "CloseReader victim cache r =
     (case fr_bf r of
        None \<Rightarrow> ([], cache, r)
      | Some (path, bf) \<Rightarrow>
          (let r' = r\<lparr>fr_bf := None, fr_readEffectiveOffset := 0\<rparr>
           in case cache of
                None \<Rightarrow> ([bf], None, r')
              | Some c \<Rightarrow> (case release victim (fr_filePath r) bf c of (dropped, c') \<Rightarrow> (dropped, Some c', r'))))"

section \<open>Reading blocks\<close>

lemma ReadBlockFrom_progress:
  "chunk \<noteq> [] \<Longrightarrow> int (length out) < sz \<Longrightarrow>
     nat (sz - int (length (out @ take (nat sz - length out) chunk))) < nat (sz - int (length out))"
  by (cases chunk) auto

function rb_loop :: "int \<Rightarrow> int \<Rightarrow> bytes \<Rightarrow> BlockFile \<Rightarrow> (bf_error + bytes) \<times> BlockFile" where
  "rb_loop off sz out b =
     (if int (length out) < sz then
        (case ReadBlockFrom (off + int (length out)) b of
           (Inl e, b') \<Rightarrow> (Inl e, b')
         | (Inr chunk, b') \<Rightarrow>
             if chunk = [] then (Inl ErrUnexpectedEOF, b')
             else rb_loop off sz (out @ take (nat sz - length out) chunk) b')
      else (Inr out, b))"
  by pat_completeness auto
termination
  by (relation "measure (\<lambda>(off, sz, out, b). nat (sz - int (length out)))") (auto simp: ReadBlockFrom_progress)

declare rb_loop.simps [simp del]

text \<open>A negative size panics on slicing.\<close>

definition readBlockRef :: "int \<Rightarrow> int \<Rightarrow> BlockFile \<Rightarrow> (bf_error + bytes) \<times> BlockFile" where
  "readBlockRef off sz b =
     (case ReadBlockFrom off b of
        (Inl e, b') \<Rightarrow> (Inl e, b')
      | (Inr data, b') \<Rightarrow>
          if int (length data) \<ge> sz then (if sz < 0 then (Inl ErrPanic, b') else (Inr (take (nat sz) data), b'))
          else rb_loop off sz data b')"

text \<open>The result is no header at the end mark, or the header with its payload when the payload is within the
  bytes at hand.\<close>

definition readSegmentHeader :: "int \<Rightarrow> BlockFile \<Rightarrow> (bf_error + (SegmentHeader \<times> bytes option) option) \<times> BlockFile" where
  "readSegmentHeader off b =
     (case ReadBlockFrom off b of
        (Inl e, b1) \<Rightarrow> (Inl e, b1)
      | (Inr data1, b1) \<Rightarrow>
          (case (if length data1 < segmentHeaderRawSize then readBlockRef off (int segmentHeaderRawSize) b1
                 else (Inr data1, b1)) of
             (Inl e, b2) \<Rightarrow> (Inl e, b2)
           | (Inr data, b2) \<Rightarrow>
               (let header = decodeSegmentHeader (take segmentHeaderRawSize data);
                    total = wrap64 (int segmentHeaderRawSize + sh_DataSize header)
                in if sh_Attribute header = 0 then (Inr None, b2)
                   else if int (length data) \<ge> total then
                     (if total < int segmentHeaderRawSize then (Inl ErrPanic, b2)
                      else (Inr (Some (header, Some (drop segmentHeaderRawSize (take (nat total) data)))), b2))
                   else (Inr (Some (header, None)), b2))))"

text \<open>\<^verbatim>\<open>parseBlock\<close>: a slice bound past the end of the block is a panic.  The sum over the columns wraps like
  \<^verbatim>\<open>int64\<close>.\<close>

definition struct_value_length :: "nat \<Rightarrow> bytes \<Rightarrow> int" where
  "struct_value_length n data =
     fold (\<lambda>i acc. wrap64 (acc + int64_be (take 8 (drop (i * 8 + 1) data)))) [0..<n] 0"

definition parseBlock :: "TableInfo \<Rightarrow> SegmentHeader \<Rightarrow> bytes \<Rightarrow> bf_error + (SegmentHeader \<times> bytes \<times> bytes)" where
  "parseBlock ti header data =
     (if ca_Type ti = ColumnTypeStructure then
        (let n = length (ca_Structure ti);
             timeDataOffset = wrap64 (int (1 + 8 * n) + struct_value_length n data)
         in if length data < 1 + 8 * n then Inl ErrPanic
            else if timeDataOffset < 0 \<or> timeDataOffset > int (length data) then Inl ErrPanic
            else Inr (header, drop (nat timeDataOffset) data, take (nat timeDataOffset) data))
      else
        (if length data < 8 then Inl ErrPanic
         else
           (let timeDataOffset = wrap64 (8 + int64_be (take 8 data)) in
            if timeDataOffset < 8 \<or> timeDataOffset > int (length data) then Inl ErrPanic
            else Inr (header, drop (nat timeDataOffset) data, drop 8 (take (nat timeDataOffset) data)))))"

text \<open>What \<^verbatim>\<open>NextRead\<close> and \<^verbatim>\<open>ReadAt\<close> do once they have a header: fetch the payload if it is not at hand and split
  it.\<close>

definition finish_block ::
  "int \<Rightarrow> TableInfo \<Rightarrow> SegmentHeader \<Rightarrow> bytes option \<Rightarrow> BlockFile \<Rightarrow> (seg_error + (SegmentHeader \<times> bytes \<times> bytes) option) \<times> BlockFile" where
  "finish_block off ti header payload b =
     (let parse = (\<lambda>data. case parseBlock ti header data of Inl e \<Rightarrow> Inl (FileError e) | Inr r \<Rightarrow> Inr (Some r)) in
      case payload of
        Some data \<Rightarrow> (parse data, b)
      | None \<Rightarrow>
          (case readBlockRef off (wrap64 (int segmentHeaderRawSize + sh_DataSize header)) b of
             (Inl e, b') \<Rightarrow> (Inl (FileError e), b')
           | (Inr data, b') \<Rightarrow>
               if length data < segmentHeaderRawSize then (Inl (FileError ErrPanic), b')
               else (parse (drop segmentHeaderRawSize data), b')))"

text \<open>The loop of \<^verbatim>\<open>NextRead\<close>.  A header with a negative data size can send it back, so it has fuel; the outer
  \<open>None\<close> is running out of it.\<close>

primrec NextRead_loop ::
  "nat \<Rightarrow> (SegmentHeader \<Rightarrow> bool) \<Rightarrow> TableInfo \<Rightarrow> string \<Rightarrow> BlockFile \<Rightarrow> fileReader \<Rightarrow>
     ((seg_error + (SegmentHeader \<times> bytes \<times> bytes) option) \<times> fileReader) option" where
  "NextRead_loop 0 checkHead ti path b r = None"
| "NextRead_loop (Suc fuel) checkHead ti path b r =
     (let put = (\<lambda>b r. r\<lparr>fr_bf := Some (path, b)\<rparr>) in
      if fr_readEffectiveOffset r \<ge> bf_Size b then Some (Inr None, put b r)
      else
        (case (if fr_needSeek r then bf_Seek (fr_readEffectiveOffset r) SeekStart b else (Inr 0, b)) of
           (Inl e, b1) \<Rightarrow> Some (Inl (FileError e), put b1 r)
         | (Inr x, b1) \<Rightarrow>
             (let r1 = r\<lparr>fr_needSeek := False\<rparr>; blockStart = fr_readEffectiveOffset r1
              in case readSegmentHeader blockStart b1 of
                   (Inl e, b2) \<Rightarrow> Some ((if e = ErrEOF then Inr None else Inl (FileError e)), put b2 r1)
                 | (Inr None, b2) \<Rightarrow> Some (Inr None, put b2 r1)
                 | (Inr (Some (header, payload)), b2) \<Rightarrow>
                     (let r2 = r1\<lparr>fr_readEffectiveOffset := blockStart + int segmentHeaderRawSize\<rparr>;
                          r3 = r2\<lparr>fr_readEffectiveOffset := fr_readEffectiveOffset r2 + sh_DataSize header\<rparr>
                      in if \<not> checkHead header then NextRead_loop fuel checkHead ti path b2 (r3\<lparr>fr_needSeek := True\<rparr>)
                         else
                           (case finish_block blockStart ti header payload b2 of
                              (Inl e, b3) \<Rightarrow> Some (Inl e, put b3 r2)
                            | (Inr block, b3) \<Rightarrow> Some (Inr block, put b3 r3))))))"

definition NextRead ::
  "nat \<Rightarrow> (SegmentHeader \<Rightarrow> bool) \<Rightarrow> TableInfo \<Rightarrow> bytes \<Rightarrow> fileReader \<Rightarrow>
     ((seg_error + (SegmentHeader \<times> bytes \<times> bytes) option) \<times> fileReader) option" where
  "NextRead fuel checkHead ti disk r =
     (case fr_bf r of
        None \<Rightarrow> Some (Inl ErrorReaderNotOpened, r)
      | Some (path, b) \<Rightarrow> NextRead_loop fuel checkHead ti path (b\<lparr>bf_file := disk\<rparr>) r)"

definition filter_head :: "u32 \<Rightarrow> int \<Rightarrow> int \<Rightarrow> SegmentHeader \<Rightarrow> bool" where
  "filter_head attribute starTime endTime header =
     (if sh_Attribute header \<noteq> attribute then False
      else if sh_MaxTime header \<noteq> 0 \<and> sh_MaxTime header < starTime then False
      else if sh_MinTime header > endTime then False
      else True)"

definition NextReadFilter ::
  "nat \<Rightarrow> u32 \<Rightarrow> int \<Rightarrow> int \<Rightarrow> TableInfo \<Rightarrow> bytes \<Rightarrow> fileReader \<Rightarrow>
     ((seg_error + (SegmentHeader \<times> bytes \<times> bytes) option) \<times> fileReader) option" where
  "NextReadFilter fuel attribute starTime endTime ti disk r =
     NextRead fuel (filter_head attribute starTime endTime) ti disk r"

definition GetReadEffectiveSize :: "fileReader \<Rightarrow> int" where
  "GetReadEffectiveSize r = fr_readEffectiveOffset r"

definition ReadAt ::
  "int \<Rightarrow> TableInfo \<Rightarrow> bytes \<Rightarrow> readerCache option \<Rightarrow> fileReader \<Rightarrow>
     (seg_error + (SegmentHeader \<times> bytes \<times> bytes) option) \<times> bytes \<times> readerCache option \<times> fileReader" where
  "ReadAt offset ti disk cache r =
     (case (if fr_bf r = None then reader_acquire disk cache r else (None, disk, cache, r)) of
        (Some e, disk', cache', r') \<Rightarrow> (Inl e, disk', cache', r')
      | (None, disk', cache', r') \<Rightarrow>
          (let r1 = r'\<lparr>fr_needSeek := True\<rparr>; (path, b) = the (fr_bf r1); put = (\<lambda>b. r1\<lparr>fr_bf := Some (path, b)\<rparr>)
           in case readSegmentHeader offset (b\<lparr>bf_file := disk'\<rparr>) of
                (Inl e, b1) \<Rightarrow> (Inl (FileError e), disk', cache', put b1)
              | (Inr None, b1) \<Rightarrow> (Inr None, disk', cache', put b1)
              | (Inr (Some (header, payload)), b1) \<Rightarrow>
                  (case finish_block offset ti header payload b1 of
                     (res, b2) \<Rightarrow> (res, disk', cache', put b2))))"

end
