(* ===== verification/Segment_Reader_Props.thy ===== *)
theory Segment_Reader_Props
  imports Segment_Reader
begin

text \<open>
  The properties of the reading side: the reader cache never holds two handles of one path nor more than its
  bound and loses no handle, and the reader finds in a file that stands for a sequence of segment blocks
  exactly these blocks, by offset and by scanning, across compressed-block boundaries.
\<close>

section \<open>The cache\<close>

lemma map_of_delete: "map_of (AList.delete k rs) = (map_of rs)(k := None)"
  by (rule AList.delete_conv')

lemma length_delete_le: "length (AList.delete k rs) \<le> length rs"
  by (induction rs) auto

lemma length_delete_less: "k \<in> fst ` set rs \<Longrightarrow> length (AList.delete k rs) < length rs"
  unfolding AList.delete_eq by (auto intro!: length_filter_less)

lemma length_update: "length (AList.update k v rs) = (if k \<in> fst ` set rs then length rs else Suc (length rs))"
  by (induction rs) auto

lemma newReaderCache_ok [inv_intros]: "cache_ok (newReaderCache n)"
  by (auto simp: cache_ok_def newReaderCache_def defaultMaxOpenReaders_def)

lemma acquire_ok [inv_intros]: "cache_ok c \<Longrightarrow> cache_ok (snd (acquire p c))"
  using length_delete_le [of p "rc_readers c"]
  by (auto simp: acquire_def cache_ok_def AList.distinct_delete split: option.splits)

lemma evict_ok [inv_intros]: "cache_ok c \<Longrightarrow> cache_ok (snd (evict p c))"
  using length_delete_le [of p "rc_readers c"]
  by (auto simp: evict_def cache_ok_def AList.distinct_delete split: option.splits)

lemma closeAll_ok [inv_intros]: "cache_ok c \<Longrightarrow> cache_ok (snd (closeAll c))"
  by (simp add: closeAll_def cache_ok_def)

lemma evictLocked_spec:
  assumes "distinct (map fst (rc_readers c))" "rc_readers c \<noteq> []"
  shows "\<exists>p b. (p, b) \<in> set (rc_readers c) \<and> evictLocked v c = ([b], c\<lparr>rc_readers := AList.delete p (rc_readers c)\<rparr>)"
proof -
  let ?rs = "rc_readers c"
  obtain p b where pb: "?rs ! (v mod length ?rs) = (p, b)" by fastforce
  moreover have "v mod length ?rs < length ?rs" using assms(2) by simp
  ultimately have "(p, b) \<in> set ?rs" by (metis nth_mem)
  then show ?thesis using pb assms(2)
    by (intro exI [of _ p] exI [of _ b]) (auto simp: evictLocked_def split: list.splits)
qed

lemma release_room:
  assumes "cache_ok c" "(dropped, c1) = (if length (rc_readers c) \<ge> rc_maxSize c then evictLocked v c else ([], c))"
  shows "distinct (map fst (rc_readers c1))" "length (rc_readers c1) < rc_maxSize c" "rc_maxSize c1 = rc_maxSize c"
    "\<And>p b. map_of (rc_readers c) p = Some b \<Longrightarrow> map_of (rc_readers c1) p = Some b \<or> b \<in> set dropped"
proof -
  have d: "distinct (map fst (rc_readers c))" and le: "length (rc_readers c) \<le> rc_maxSize c" and pos: "0 < rc_maxSize c"
    using assms(1) by (auto simp: cache_ok_def)
  have all: "distinct (map fst (rc_readers c1)) \<and> length (rc_readers c1) < rc_maxSize c \<and> rc_maxSize c1 = rc_maxSize c \<and>
    (\<forall>p b. map_of (rc_readers c) p = Some b \<longrightarrow> map_of (rc_readers c1) p = Some b \<or> b \<in> set dropped)"
  proof (cases "length (rc_readers c) \<ge> rc_maxSize c")
    case True
    then have "rc_readers c \<noteq> []" using pos by auto
    from evictLocked_spec [OF d this, of v] obtain p b where
      e: "(p, b) \<in> set (rc_readers c)" "evictLocked v c = ([b], c\<lparr>rc_readers := AList.delete p (rc_readers c)\<rparr>)" by blast
    then have c1: "dropped = [b]" "c1 = c\<lparr>rc_readers := AList.delete p (rc_readers c)\<rparr>" using assms(2) True by auto
    have "map_of (rc_readers c) p = Some b" using e(1) d by simp
    moreover have "p \<in> fst ` set (rc_readers c)" using e(1) by force
    moreover have "length (AList.delete p (rc_readers c)) < rc_maxSize c"
      using length_delete_less [of p "rc_readers c"] le calculation(2) by simp
    ultimately show ?thesis using d by (auto simp: c1 map_of_delete AList.distinct_delete dest: eq_key_imp_eq_value)
  qed (use assms(2) d in auto)
  then show "distinct (map fst (rc_readers c1))" "length (rc_readers c1) < rc_maxSize c" "rc_maxSize c1 = rc_maxSize c"
    "\<And>p b. map_of (rc_readers c) p = Some b \<Longrightarrow> map_of (rc_readers c1) p = Some b \<or> b \<in> set dropped"
    by blast+
qed

lemma release_ok [inv_intros]:
  assumes "cache_ok c"
  shows "cache_ok (snd (release v p b c))"
proof -
  obtain d c1 where c1: "(d, c1) = (if length (rc_readers c) \<ge> rc_maxSize c then evictLocked v c else ([], c))" by (metis surj_pair)
  note r = release_room [OF assms c1]
  show ?thesis using r(1-3) assms
    by (simp add: release_def c1 [symmetric] cache_ok_def AList.distinct_update length_update Let_def)
qed

lemma release_full:
  assumes "cache_ok c" "length (rc_readers c) = rc_maxSize c"
  shows "\<exists>q b0. map_of (rc_readers c) q = Some b0 \<and>
    fst (release v p b c) = (case map_of (rc_readers c) p of None \<Rightarrow> [] | Some o' \<Rightarrow> [o']) @ [b0] \<and>
    (q \<noteq> p \<longrightarrow> map_of (rc_readers (snd (release v p b c))) q = None)"
proof -
  have d: "distinct (map fst (rc_readers c))" and ne: "rc_readers c \<noteq> []" using assms by (auto simp: cache_ok_def)
  from evictLocked_spec [OF d ne, of v] obtain q b0 where
    e: "(q, b0) \<in> set (rc_readers c)" "evictLocked v c = ([b0], c\<lparr>rc_readers := AList.delete q (rc_readers c)\<rparr>)" by blast
  have "map_of (rc_readers c) q = Some b0" using e(1) d by simp
  then show ?thesis using e(2) assms(2)
    by (intro exI [of _ q] exI [of _ b0]) (simp add: release_def Let_def AList.update_conv' map_of_delete)
qed

text \<open>\<^bold>\<open>C39\<close>: handing a reader back.  The released handle is always kept, also by a full cache, which drops another handle for it: one that the map
  iteration picks, of whatever path.  (The comment on \<^verbatim>\<open>release\<close> says that a full cache drops the released handle instead.)  The cache stays well-formed, one
  handle per path and never more than its bound; the next acquire of the path gets exactly this handle and takes it out; the handle the cache held
  for the same path before is dropped; and no handle is lost, every other one is still there or was dropped.\<close>

theorem reader_cache_release:
  assumes "cache_ok c"
  shows "\<exists>dropped c'. release v p b c = (dropped, c') \<and> cache_ok c' \<and>
           fst (acquire p c') = Some b \<and> fst (acquire p (snd (acquire p c'))) = None \<and>
           (\<forall>q b0. map_of (rc_readers c) q = Some b0 \<longrightarrow> b0 \<in> set dropped \<or> q \<noteq> p \<and> map_of (rc_readers c') q = Some b0) \<and>
           (length (rc_readers c) = rc_maxSize c \<longrightarrow>
             (\<exists>q b0. map_of (rc_readers c) q = Some b0 \<and> dropped = (case map_of (rc_readers c) p of None \<Rightarrow> [] | Some o' \<Rightarrow> [o']) @ [b0] \<and>
                (q \<noteq> p \<longrightarrow> map_of (rc_readers c') q = None)))"
proof -
  obtain d c1 where c1: "(d, c1) = (if length (rc_readers c) \<ge> rc_maxSize c then evictLocked v c else ([], c))" by (metis surj_pair)
  note r = release_room [OF assms c1]
  let ?c' = "snd (release v p b c)"
  have rel: "release v p b c = (fst (release v p b c), ?c')" by simp
  have c': "rc_readers ?c' = AList.update p b (rc_readers c1)" by (simp add: release_def c1 [symmetric] Let_def)
  have "map_of (rc_readers ?c') q = Some b0 \<and> q \<noteq> p \<or> b0 \<in> set (fst (release v p b c))"
    if "map_of (rc_readers c) q = Some b0" for q b0
    using r(4) [OF that] that by (auto simp: c' AList.update_conv' release_def c1 [symmetric] Let_def)
  then have keep: "\<forall>q b0. map_of (rc_readers c) q = Some b0 \<longrightarrow>
      b0 \<in> set (fst (release v p b c)) \<or> q \<noteq> p \<and> map_of (rc_readers ?c') q = Some b0"
    by blast
  have "fst (acquire p ?c') = Some b" "fst (acquire p (snd (acquire p ?c'))) = None"
    by (simp_all add: acquire_def c' AList.update_conv' map_of_delete)
  moreover have "\<exists>q b0. map_of (rc_readers c) q = Some b0 \<and> fst (release v p b c) = (case map_of (rc_readers c) p of None \<Rightarrow> [] | Some o' \<Rightarrow> [o']) @ [b0] \<and>
      (q \<noteq> p \<longrightarrow> map_of (rc_readers ?c') q = None)" if "length (rc_readers c) = rc_maxSize c"
    by (rule release_full [OF assms that])
  ultimately show ?thesis using rel release_ok [OF assms] keep by blast
qed

theorem reader_cache_release_witness:
  "\<forall>b0 b1. \<exists>dropped c'. release 0 ''b.tsb'' b1 \<lparr>rc_maxSize = 1, rc_readers = [(''a.tsb'', b0)]\<rparr> = (dropped, c') \<and> dropped = [b0] \<and>
     fst (acquire ''b.tsb'' c') = Some b1 \<and> map_of (rc_readers c') ''a.tsb'' = None"
proof (intro allI)
  fix b0 b1 :: BlockFile
  have "cache_ok \<lparr>rc_maxSize = 1, rc_readers = [(''a.tsb'', b0)]\<rparr>" by (simp add: cache_ok_def)
  from reader_cache_release [OF this, of 0 "''b.tsb''" b1]
  show "\<exists>dropped c'. release 0 ''b.tsb'' b1 \<lparr>rc_maxSize = 1, rc_readers = [(''a.tsb'', b0)]\<rparr> = (dropped, c') \<and> dropped = [b0] \<and>
      fst (acquire ''b.tsb'' c') = Some b1 \<and> map_of (rc_readers c') ''a.tsb'' = None"
    by (auto split: if_splits)
qed

text \<open>A full cache drops a handle it does not have to: here the handle released replaces the one of its own path, and yet the handle of another
  path is dropped.\<close>

lemma release_evicts_needlessly:
  "release 1 ''a.tsb'' b2 \<lparr>rc_maxSize = 2, rc_readers = [(''a.tsb'', b0), (''b.tsb'', b1)]\<rparr> =
     ([b0, b1], \<lparr>rc_maxSize = 2, rc_readers = [(''a.tsb'', b2)]\<rparr>)"
  by (simp add: release_def evictLocked_def Let_def)

section \<open>Reading ranges\<close>

lemma same_handle_content: "same_handle b b' \<Longrightarrow> content b' blks = content b blks"
  by (simp add: same_handle_def content_def)

context block_compressor
begin

lemma ReadBlockFrom_ok:
  assumes "bf_repr b blks" "bf_compressor b = c" "bf_buf b = []" "off < length (concat blks)"
  shows "\<exists>d b'. ReadBlockFrom (int off) b = (Inr d, b') \<and> d \<noteq> [] \<and> off + length d \<le> length (concat blks) \<and>
           d = take (length d) (drop off (concat blks)) \<and> bf_repr b' blks \<and> same_handle b b'"
proof -
  obtain k d b' where k: "k < length blks" "ReadBlockFrom (int off) b = (Inr d, b')" "d \<noteq> []"
      "int off + int (length d) = int (block_start blks (Suc k))" "d = take (length d) (drop (nat (int off)) (content b blks))"
      "bf_repr b' blks" "same_handle b b'"
    using ReadBlockFrom_repr [OF assms(1,2), of "int off"] assms(4) by auto
  have "off + length d \<le> length (concat blks)"
    using k(4) block_start_mono [of "Suc k" "length blks" blks] k(1) by simp
  then show ?thesis using k assms(3) by (intro exI [of _ d] exI [of _ b']) (simp add: content_def)
qed

lemma rb_loop_ok:
  assumes "bf_repr b blks" "bf_compressor b = c" "bf_buf b = []" "out = take (length out) (drop off (concat blks))"
    "length out \<le> sz" "off + sz \<le> length (concat blks)"
  shows "\<exists>b'. rb_loop (int off) (int sz) out b = (Inr (take sz (drop off (concat blks))), b') \<and> bf_repr b' blks \<and> same_handle b b'"
  using assms
proof (induction "sz - length out" arbitrary: out b rule: less_induct)
  case less
  show ?case
  proof (cases "length out < sz")
    case False
    then show ?thesis using less.prems by (auto simp: rb_loop.simps [of "int off"])
  next
    case True
    let ?o = "off + length out"
    have "?o < length (concat blks)" using True less.prems(6) by simp
    then obtain d b1 where d: "ReadBlockFrom (int ?o) b = (Inr d, b1)" "d \<noteq> []" "d = take (length d) (drop ?o (concat blks))"
        "bf_repr b1 blks" "same_handle b b1"
      using ReadBlockFrom_ok [OF less.prems(1-3)] by blast
    let ?out = "out @ take (sz - length out) d"
    have len: "length out < length ?out" "length ?out \<le> sz" using d(2) True by (auto simp: min_def)
    have "take (length ?out) (drop off (concat blks)) = out @ take (length (take (sz - length out) d)) (drop ?o (concat blks))"
      by (subst (3) less.prems(4)) (simp add: take_add add.commute [of off] flip: less.prems(4))
    also have "take (length (take (sz - length out) d)) (drop ?o (concat blks)) = take (sz - length out) d"
    proof -
      have "take (length (take (sz - length out) d)) (drop ?o (concat blks))
          = take (sz - length out) (take (length d) (drop ?o (concat blks)))"
        by (simp add: min.commute)
      then show ?thesis by (simp only: d(3) [symmetric])
    qed
    finally have out: "?out = take (length ?out) (drop off (concat blks))" by simp
    have b1: "bf_compressor b1 = c" "bf_buf b1 = []" using d(5) less.prems(2,3) by (simp_all add: same_handle_def)
    obtain b2 where "rb_loop (int off) (int sz) ?out b1 = (Inr (take sz (drop off (concat blks))), b2)" "bf_repr b2 blks"
        "same_handle b1 b2"
    proof -
      have "sz - length ?out < sz - length out" using len True by linarith
      from less.hyps [OF this d(4) b1 out len(2) less.prems(6)] show ?thesis using that by blast
    qed
    then show ?thesis
      using d(1,2) True same_handle_trans [OF d(5)]
      by (subst rb_loop.simps) (auto simp: nat_diff_distrib)
  qed
qed

lemma readBlockRef_ok:
  assumes "bf_repr b blks" "bf_compressor b = c" "bf_buf b = []" "0 < sz" "off + sz \<le> length (concat blks)"
  shows "\<exists>b'. readBlockRef (int off) (int sz) b = (Inr (take sz (drop off (concat blks))), b') \<and> bf_repr b' blks \<and> same_handle b b'"
proof -
  have "off < length (concat blks)" using assms(4,5) by simp
  then obtain d b1 where d: "ReadBlockFrom (int off) b = (Inr d, b1)" "d = take (length d) (drop off (concat blks))"
      "bf_repr b1 blks" "same_handle b b1"
    using ReadBlockFrom_ok [OF assms(1-3)] by blast
  have b1: "bf_compressor b1 = c" "bf_buf b1 = []" using d(4) assms(2,3) by (simp_all add: same_handle_def)
  show ?thesis
  proof (cases "sz \<le> length d")
    case True
    have "take sz d = take sz (drop off (concat blks))" by (subst d(2)) (use True in simp)
    then show ?thesis using d(1,3,4) True by (simp add: readBlockRef_def)
  next
    case False
    obtain b2 where "rb_loop (int off) (int sz) d b1 = (Inr (take sz (drop off (concat blks))), b2)" "bf_repr b2 blks" "same_handle b1 b2"
      using rb_loop_ok [OF d(3) b1 d(2) _ assms(5)] False by auto
    then show ?thesis using d(1) False same_handle_trans [OF d(4)] by (auto simp: readBlockRef_def)
  qed
qed

end

section \<open>Files as sequences of segment blocks\<close>

lemma take_of_prefix:
  assumes "d = take (length d) xs" "n \<le> length d"
  shows "take n d = take n xs"
proof -
  have "take n (take (length d) xs) = take n xs" using assms(2) by (simp add: min_absorb1)
  then show ?thesis using assms(1) by simp
qed

text \<open>A segment block is a header and a payload; \<open>seg_ok\<close> says that it is what the column writer produces: the
  size field is the payload length, the tag is not the end mark, and the payload splits.\<close>

type_synonym seg = "SegmentHeader \<times> bytes"

definition seg_bytes :: "seg \<Rightarrow> bytes" where
  "seg_bytes s = encodeSegmentHeader (fst s) @ snd s"

definition seg_ok :: "TableInfo \<Rightarrow> seg \<Rightarrow> bool" where
  "seg_ok ti s \<longleftrightarrow> header_fits (fst s) \<and> sh_Attribute (fst s) \<noteq> 0 \<and> sh_DataSize (fst s) = int (length (snd s)) \<and>
     length (snd s) < 2 ^ 62 \<and> (\<exists>r. parseBlock ti (fst s) (snd s) = Inr r)"

definition seg_parsed :: "TableInfo \<Rightarrow> seg \<Rightarrow> SegmentHeader \<times> bytes \<times> bytes" where
  "seg_parsed ti s = (case parseBlock ti (fst s) (snd s) of Inr r \<Rightarrow> r)"

definition segs_bytes :: "seg list \<Rightarrow> bytes" where
  "segs_bytes ss = concat (map seg_bytes ss)"

definition seg_offset :: "seg list \<Rightarrow> nat \<Rightarrow> nat" where
  "seg_offset ss i = length (segs_bytes (take i ss))"

text \<open>How the two kinds of payload are laid out.\<close>

lemma parseBlock_flat:
  assumes "ca_Type ti \<noteq> ColumnTypeStructure" "length v + length t < 2 ^ 62"
  shows "parseBlock ti h (be_int64 (int (length v)) @ v @ t) = Inr (h, t, v)"
proof -
  have "int64_be (be_int64 (int (length v))) = int (length v)" using assms(2) by (intro int64_be_be_int64) simp
  moreover have "wrap64 (8 + int (length v)) = 8 + int (length v)" using assms(2) by (intro wrap64_id) simp_all
  ultimately show ?thesis using assms(1) by (simp add: parseBlock_def nat_add_distrib)
qed

lemma length_seg_bytes [simp]: "length (seg_bytes s) = segmentHeaderRawSize + length (snd s)"
  by (simp add: seg_bytes_def)

lemma segs_bytes_simps [simp]: "segs_bytes [] = []" "segs_bytes (s # ss) = seg_bytes s @ segs_bytes ss"
  "segs_bytes (ss @ rs) = segs_bytes ss @ segs_bytes rs"
  by (simp_all add: segs_bytes_def)

lemma drop_seg_offset: "i \<le> length ss \<Longrightarrow> drop (seg_offset ss i) (segs_bytes ss) = segs_bytes (drop i ss)"
proof -
  have "segs_bytes ss = segs_bytes (take i ss) @ segs_bytes (drop i ss)" by (metis append_take_drop_id segs_bytes_simps(3))
  then show ?thesis by (metis append_eq_conv_conj seg_offset_def)
qed

lemma seg_offset_Suc: "i < length ss \<Longrightarrow> seg_offset ss (Suc i) = seg_offset ss i + segmentHeaderRawSize + length (snd (ss ! i))"
  by (simp add: seg_offset_def take_Suc_conv_app_nth)

lemma drop_seg_nth: "i < length ss \<Longrightarrow> drop (seg_offset ss i) (segs_bytes ss) = seg_bytes (ss ! i) @ segs_bytes (drop (Suc i) ss)"
  using drop_seg_offset [of i ss] by (simp add: Cons_nth_drop_Suc [symmetric])

lemma seg_offset_end: "i < length ss \<Longrightarrow> seg_offset ss i + segmentHeaderRawSize + length (snd (ss ! i)) \<le> length (segs_bytes ss)"
proof -
  assume "i < length ss"
  then have "segs_bytes ss = segs_bytes (take i ss) @ seg_bytes (ss ! i) @ segs_bytes (drop (Suc i) ss)"
    by (metis id_take_nth_drop segs_bytes_simps(2,3))
  then show ?thesis by (simp add: seg_offset_def)
qed

text \<open>An open handle on a file that stands for the blocks \<open>ss\<close>.\<close>

definition handle_of :: "compressor \<Rightarrow> seg list \<Rightarrow> BlockFile \<Rightarrow> bool" where
  "handle_of c ss b \<longleftrightarrow> (\<exists>blks. bf_repr b blks \<and> concat blks = segs_bytes ss) \<and> bf_buf b = [] \<and> \<not> bf_closed b \<and> bf_compressor b = c"

lemma handle_of_same: "handle_of c ss b \<Longrightarrow> same_handle b b' \<Longrightarrow> \<exists>blks. bf_repr b' blks \<and> concat blks = segs_bytes ss \<Longrightarrow> handle_of c ss b'"
  by (auto simp: handle_of_def same_handle_def)

lemma handle_size: "handle_of c ss b \<Longrightarrow> bf_Size b = int (length (segs_bytes ss))"
  by (auto simp: handle_of_def bf_Size_def bf_repr_def)

lemma handle_pos [simp]: "handle_of c ss (b\<lparr>bf_pos := p\<rparr>) = handle_of c ss b"
  by (simp add: handle_of_def)

context block_compressor
begin

lemma handle_readBlockRef:
  assumes "handle_of c ss b" "0 < sz" "off + sz \<le> length (segs_bytes ss)"
  shows "\<exists>b'. readBlockRef (int off) (int sz) b = (Inr (take sz (drop off (segs_bytes ss))), b') \<and> handle_of c ss b' \<and> same_handle b b'"
proof -
  obtain blks where b: "bf_repr b blks" "concat blks = segs_bytes ss" "bf_buf b = []" "bf_compressor b = c"
    using assms(1) by (auto simp: handle_of_def)
  obtain b' where "readBlockRef (int off) (int sz) b = (Inr (take sz (drop off (concat blks))), b')" "bf_repr b' blks" "same_handle b b'"
    using readBlockRef_ok [OF b(1,4,3) assms(2), of off] assms(3) b(2) by auto
  then show ?thesis using handle_of_same [OF assms(1)] b(2) by (intro exI [of _ b']) auto
qed

lemma readSegmentHeader_ok:
  assumes h: "handle_of c ss b" and i: "i < length ss" and ok: "seg_ok ti (ss ! i)"
  shows "\<exists>p b'. readSegmentHeader (int (seg_offset ss i)) b = (Inr (Some (fst (ss ! i), p)), b') \<and>
           (p = None \<or> p = Some (snd (ss ! i))) \<and> handle_of c ss b' \<and> same_handle b b'"
proof -
  let ?off = "seg_offset ss i" and ?s = "ss ! i" and ?H = segmentHeaderRawSize
  have s: "header_fits (fst ?s)" "sh_Attribute (fst ?s) \<noteq> 0" "sh_DataSize (fst ?s) = int (length (snd ?s))" "length (snd ?s) < 2 ^ 62"
    using ok by (auto simp: seg_ok_def)
  obtain blks where b: "bf_repr b blks" "concat blks = segs_bytes ss" "bf_buf b = []" "bf_compressor b = c"
    using h by (auto simp: handle_of_def)
  have fits: "?off + ?H + length (snd ?s) \<le> length (segs_bytes ss)" by (rule seg_offset_end [OF i])
  then have "?off < length (concat blks)" by (simp add: b(2) segmentHeaderRawSize_def)
  then obtain d b1 where d: "ReadBlockFrom (int ?off) b = (Inr d, b1)" "d = take (length d) (drop ?off (segs_bytes ss))"
      "bf_repr b1 blks" "same_handle b b1"
    using ReadBlockFrom_ok [OF b(1,4,3)] b(2) by metis
  have h1: "handle_of c ss b1" using handle_of_same [OF h d(4)] d(3) b(2) by blast
  obtain d2 b2 where d2: "(if length d < ?H then readBlockRef (int ?off) (int ?H) b1 else (Inr d, b1)) = (Inr d2, b2)"
      "d2 = take (length d2) (drop ?off (segs_bytes ss))" "?H \<le> length d2" "handle_of c ss b2" "same_handle b b2"
  proof (cases "length d < ?H")
    case True
    obtain b2 where "readBlockRef (int ?off) (int ?H) b1 = (Inr (take ?H (drop ?off (segs_bytes ss))), b2)" "handle_of c ss b2" "same_handle b1 b2"
      using handle_readBlockRef [OF h1, of ?H ?off] fits by (auto simp: segmentHeaderRawSize_def)
    then show ?thesis using that [of "take ?H (drop ?off (segs_bytes ss))" b2] True same_handle_trans [OF d(4)] fits by simp
  next
    case False
    then show ?thesis using that [of d b1] d h1 by simp
  qed
  let ?rest = "segs_bytes (drop (Suc i) ss)"
  have d2': "d2 = take (length d2) (seg_bytes ?s @ ?rest)" using d2(2) drop_seg_nth [OF i] by simp
  then have "take ?H d2 = take ?H (seg_bytes ?s @ ?rest)" using d2(3) by (rule take_of_prefix)
  then have hd: "take ?H d2 = encodeSegmentHeader (fst ?s)" by (simp add: seg_bytes_def)
  let ?total = "?H + length (snd ?s)"
  have total: "wrap64 (int ?H + sh_DataSize (fst ?s)) = int ?total"
    using s(3,4) by (subst wrap64_id) (simp_all add: segmentHeaderRawSize_def)
  have pay: "drop ?H (take ?total d2) = snd ?s" if "?total \<le> length d2"
  proof -
    have "take ?total d2 = take ?total (seg_bytes ?s @ ?rest)" using d2' that by (rule take_of_prefix)
    then show ?thesis by (simp add: seg_bytes_def)
  qed
  have "readSegmentHeader (int ?off) b = (Inr (Some (fst ?s, if ?total \<le> length d2 then Some (snd ?s) else None)), b2)"
    unfolding readSegmentHeader_def d(1) prod.case sum.case d2(1) hd decode_encodeSegmentHeader [OF s(1)] Let_def total
    using s(2) pay by (simp add: nat_int_add)
  then show ?thesis using d2(4,5) by (intro exI [of _ "if ?total \<le> length d2 then Some (snd ?s) else None"] exI [of _ b2]) simp
qed

lemma finish_block_ok:
  assumes h: "handle_of c ss b" and i: "i < length ss" and ok: "seg_ok ti (ss ! i)" and p: "p = None \<or> p = Some (snd (ss ! i))"
  shows "\<exists>b'. finish_block (int (seg_offset ss i)) ti (fst (ss ! i)) p b = (Inr (Some (seg_parsed ti (ss ! i))), b') \<and>
           handle_of c ss b' \<and> same_handle b b'"
proof -
  let ?off = "seg_offset ss i" and ?s = "ss ! i" and ?H = segmentHeaderRawSize
  let ?total = "?H + length (snd ?s)"
  obtain r where r: "parseBlock ti (fst ?s) (snd ?s) = Inr r" and sz: "sh_DataSize (fst ?s) = int (length (snd ?s))" "length (snd ?s) < 2 ^ 62"
    using ok by (auto simp: seg_ok_def)
  have total: "wrap64 (int ?H + sh_DataSize (fst ?s)) = int ?total"
    using sz by (subst wrap64_id) (simp_all add: segmentHeaderRawSize_def)
  show ?thesis
  proof (cases p)
    case (Some d)
    then show ?thesis using p r h by (simp add: finish_block_def seg_parsed_def)
  next
    case None
    have pos: "0 < ?total" and fits: "?off + ?total \<le> length (segs_bytes ss)"
      using seg_offset_end [OF i] by (simp_all add: segmentHeaderRawSize_def)
    obtain b' where b': "readBlockRef (int ?off) (int ?total) b = (Inr (take ?total (drop ?off (segs_bytes ss))), b')"
        "handle_of c ss b'" "same_handle b b'"
      using handle_readBlockRef [OF h pos fits] by (elim exE conjE) (rule that)
    have "take ?total (drop ?off (segs_bytes ss)) = encodeSegmentHeader (fst ?s) @ snd ?s"
      unfolding drop_seg_nth [OF i] by (simp add: seg_bytes_def)
    then show ?thesis using b' r None unfolding finish_block_def total by (simp add: seg_parsed_def)
  qed
qed

end

section \<open>Reading by offset and scanning\<close>

text \<open>A reader that is open on the blocks \<open>ss\<close>, or closed on a file that stands for them.\<close>

definition reader_ready :: "compressor \<Rightarrow> seg list \<Rightarrow> bytes \<Rightarrow> fileReader \<Rightarrow> bool" where
  "reader_ready c ss disk r \<longleftrightarrow>
     fr_compressor r = c \<and>
     (case fr_bf r of
        None \<Rightarrow> stored c disk (segs_bytes ss) \<and> length disk < 2 ^ 34
      | Some (path, b) \<Rightarrow> path = fr_filePath r \<and> handle_of c ss (b\<lparr>bf_file := disk\<rparr>))"

definition cache_ready :: "compressor \<Rightarrow> seg list \<Rightarrow> bytes \<Rightarrow> string \<Rightarrow> readerCache option \<Rightarrow> bool" where
  "cache_ready c ss disk path cache \<longleftrightarrow>
     (case cache of None \<Rightarrow> True
      | Some rc \<Rightarrow> (case map_of (rc_readers rc) path of None \<Rightarrow> True | Some b \<Rightarrow> handle_of c ss (b\<lparr>bf_file := disk\<rparr>)))"

lemma same_file_id [simp]: "b\<lparr>bf_file := bf_file b\<rparr> = b"
  by simp

context block_compressor
begin

lemma reader_acquire_ok:
  assumes "reader_ready c ss disk r" "cache_ready c ss disk (fr_filePath r) cache" "fr_bf r = None"
  shows "\<exists>disk' cache' r' b. reader_acquire disk cache r = (None, disk', cache', r') \<and> fr_bf r' = Some (fr_filePath r, b) \<and>
           handle_of c ss (b\<lparr>bf_file := disk'\<rparr>) \<and> fr_filePath r' = fr_filePath r \<and> fr_compressor r' = c"
proof -
  let ?path = "fr_filePath r"
  have st: "stored c disk (segs_bytes ss)" "length disk < 2 ^ 34" and rc: "fr_compressor r = c"
    using assms(1,3) by (simp_all add: reader_ready_def)
  have miss: "\<exists>disk' cache' r' b. reader_acquire disk cache r = (None, disk', cache', r') \<and> fr_bf r' = Some (?path, b) \<and>
      handle_of c ss (b\<lparr>bf_file := disk'\<rparr>) \<and> fr_filePath r' = ?path \<and> fr_compressor r' = c"
    if "case cache of None \<Rightarrow> True | Some k \<Rightarrow> map_of (rc_readers k) ?path = None"
  proof -
    obtain b blks where b: "OpenBlockFile disk c (int BlockSizeDef) = Inr b" "bf_repr b blks" "concat blks = segs_bytes ss"
        "bf_buf b = []" "\<not> bf_closed b" "bf_compressor b = c"
      using open_stored [OF st BlockSizeDef_range(1,2)] by (elim exE conjE) (rule that)
    have h: "handle_of c ss b" using b(2-6) unfolding handle_of_def by blast
    have "reader_acquire disk cache r = (None, bf_file b, cache, r\<lparr>fr_bf := Some (?path, b)\<rparr>)"
      using that b(1) rc by (cases cache) (simp_all add: reader_acquire_def acquire_def Let_def)
    then show ?thesis using h rc by simp
  qed
  show ?thesis
  proof (cases cache)
    case (Some k)
    show ?thesis
    proof (cases "map_of (rc_readers k) ?path")
      case (Some b)
      then have "reader_acquire disk cache r
          = (None, disk, Some (k\<lparr>rc_readers := AList.delete ?path (rc_readers k)\<rparr>), r\<lparr>fr_bf := Some (?path, b)\<rparr>)"
        using \<open>cache = Some k\<close> by (simp add: reader_acquire_def acquire_def Let_def)
      moreover have "handle_of c ss (b\<lparr>bf_file := disk\<rparr>)"
        using assms(2) Some \<open>cache = Some k\<close> by (simp add: cache_ready_def)
      ultimately show ?thesis using rc by simp
    qed (use miss Some in simp)
  qed (use miss in simp)
qed

lemma ReadAt_ok:
  assumes ready: "reader_ready c ss disk r" and cache: "cache_ready c ss disk (fr_filePath r) cache"
    and i: "i < length ss" and ok: "seg_ok ti (ss ! i)"
  shows "\<exists>disk' cache' r'. ReadAt (int (seg_offset ss i)) ti disk cache r = (Inr (Some (seg_parsed ti (ss ! i))), disk', cache', r') \<and>
           reader_ready c ss disk' r'"
proof -
  let ?path = "fr_filePath r"
  obtain disk' cache' r' b where a: "(if fr_bf r = None then reader_acquire disk cache r else (None, disk, cache, r)) = (None, disk', cache', r')"
      "fr_bf r' = Some (?path, b)" "handle_of c ss (b\<lparr>bf_file := disk'\<rparr>)" "fr_filePath r' = ?path" "fr_compressor r' = c"
  proof (cases "fr_bf r = None")
    case True
    from reader_acquire_ok [OF ready cache True] show ?thesis by (elim exE conjE) (rule that, simp_all add: True)
  next
    case False
    then show ?thesis using that [of disk cache r] ready by (auto simp: reader_ready_def)
  qed
  let ?b = "b\<lparr>bf_file := disk'\<rparr>" and ?off = "int (seg_offset ss i)"
  obtain p b1 where b1: "readSegmentHeader ?off ?b = (Inr (Some (fst (ss ! i), p)), b1)" "p = None \<or> p = Some (snd (ss ! i))"
      "handle_of c ss b1" "same_handle ?b b1"
    using readSegmentHeader_ok [OF a(3) i ok] by (elim exE conjE) (rule that)
  obtain b2 where b2: "finish_block ?off ti (fst (ss ! i)) p b1 = (Inr (Some (seg_parsed ti (ss ! i))), b2)" "handle_of c ss b2" "same_handle b1 b2"
    using finish_block_ok [OF b1(3) i ok b1(2)] by (elim exE conjE) (rule that)
  let ?r = "r'\<lparr>fr_needSeek := True, fr_bf := Some (?path, b2)\<rparr>"
  have "ReadAt ?off ti disk cache r = (Inr (Some (seg_parsed ti (ss ! i))), disk', cache', ?r)"
    unfolding ReadAt_def a(1) using a(2) b1(1) b2(1) by (simp add: Let_def)
  moreover have "b2\<lparr>bf_file := disk'\<rparr> = b2" using b1(4) b2(3) by (simp add: same_handle_def)
  ultimately show ?thesis using b2(2) a(4,5)
    by (intro exI [of _ disk'] exI [of _ cache'] exI [of _ ?r]) (simp add: reader_ready_def)
qed

lemma NextRead_loop_ok:
  assumes "handle_of c ss b" "i \<le> length ss" "fr_readEffectiveOffset r = int (seg_offset ss i)" "length ss - i < fuel"
    and ok: "list_all (seg_ok ti) ss"
  shows "\<exists>res r' j b'. NextRead_loop fuel check ti path b r = Some (res, r') \<and> j \<le> length ss \<and>
           fr_readEffectiveOffset r' = int (seg_offset ss j) \<and> fr_bf r' = Some (path, b') \<and> handle_of c ss b' \<and>
           bf_file b' = bf_file b \<and> fr_filePath r' = fr_filePath r \<and> fr_compressor r' = fr_compressor r \<and>
           (res = Inr None \<and> filter (\<lambda>s. check (fst s)) (drop i ss) = [] \<or>
            (\<exists>s. res = Inr (Some (seg_parsed ti s)) \<and>
                 filter (\<lambda>s. check (fst s)) (drop i ss) = s # filter (\<lambda>s. check (fst s)) (drop j ss)))"
  using assms(1-4)
proof (induction fuel arbitrary: b i r)
  case 0
  then show ?case by simp
next
  case (Suc fuel)
  note size = handle_size [OF Suc.prems(1)]
  show ?case
  proof (cases "i = length ss")
    case True
    then have "fr_readEffectiveOffset r \<ge> bf_Size b" using Suc.prems(3) size by (simp add: seg_offset_def)
    then show ?thesis using Suc.prems True
      by (intro exI [of _ "Inr None"] exI [of _ "r\<lparr>fr_bf := Some (path, b)\<rparr>"] exI [of _ i] exI [of _ b]) simp
  next
    case False
    then have i: "i < length ss" using Suc.prems(2) by simp
    have s: "seg_ok ti (ss ! i)" using ok i by (simp add: list_all_length)
    then have dsz: "sh_DataSize (fst (ss ! i)) = int (length (snd (ss ! i)))" by (simp add: seg_ok_def)
    have notend: "\<not> fr_readEffectiveOffset r \<ge> bf_Size b"
      using seg_offset_end [OF i] Suc.prems(3) size by (simp add: segmentHeaderRawSize_def)
    let ?off = "int (seg_offset ss i)"
    define b1 where "b1 = (if fr_needSeek r then b\<lparr>bf_pos := ?off\<rparr> else b)"
    have h1: "handle_of c ss b1" "bf_file b1 = bf_file b" using Suc.prems(1) by (simp_all add: b1_def)
    obtain x where seek: "(if fr_needSeek r then bf_Seek (fr_readEffectiveOffset r) SeekStart b else (Inr 0, b)) = (Inr x, b1)"
      using that Suc.prems(1,3) by (cases "fr_needSeek r") (auto simp: b1_def bf_Seek_def handle_of_def)
    obtain p b2 where b2: "readSegmentHeader ?off b1 = (Inr (Some (fst (ss ! i), p)), b2)" "p = None \<or> p = Some (snd (ss ! i))"
        "handle_of c ss b2" "same_handle b1 b2"
      using readSegmentHeader_ok [OF h1(1) i s] by (elim exE conjE) (rule that)
    have next_off: "?off + int segmentHeaderRawSize + sh_DataSize (fst (ss ! i)) = int (seg_offset ss (Suc i))"
      using seg_offset_Suc [OF i] dsz by simp
    have drop: "drop i ss = ss ! i # drop (Suc i) ss" using i by (simp add: Cons_nth_drop_Suc)
    have f2: "bf_file b2 = bf_file b" using b2(4) h1(2) by (simp add: same_handle_def)
    show ?thesis
    proof (cases "check (fst (ss ! i))")
      case True
      obtain b3 where b3: "finish_block ?off ti (fst (ss ! i)) p b2 = (Inr (Some (seg_parsed ti (ss ! i))), b3)" "handle_of c ss b3"
          "same_handle b2 b3"
        using finish_block_ok [OF b2(3) i s b2(2)] by (elim exE conjE) (rule that)
      let ?r = "r\<lparr>fr_needSeek := False, fr_readEffectiveOffset := int (seg_offset ss (Suc i)), fr_bf := Some (path, b3)\<rparr>"
      have "NextRead_loop (Suc fuel) check ti path b r = Some (Inr (Some (seg_parsed ti (ss ! i))), ?r)"
        using notend seek b2(1) b3(1) True Suc.prems(3) next_off by (simp add: Let_def)
      then show ?thesis using b3 f2 i drop True
        by (intro exI [of _ "Inr (Some (seg_parsed ti (ss ! i)))"] exI [of _ ?r] exI [of _ "Suc i"] exI [of _ b3])
          (simp add: same_handle_def del: NextRead_loop.simps split_paired_Ex)
    next
      case False
      let ?r = "r\<lparr>fr_needSeek := False, fr_readEffectiveOffset := int (seg_offset ss (Suc i)), fr_needSeek := True\<rparr>"
      have "NextRead_loop (Suc fuel) check ti path b r = NextRead_loop fuel check ti path b2 ?r"
        using notend seek b2(1) False Suc.prems(3) next_off by (simp add: Let_def)
      moreover have "\<exists>res r' j b'. NextRead_loop fuel check ti path b2 ?r = Some (res, r') \<and> j \<le> length ss \<and>
           fr_readEffectiveOffset r' = int (seg_offset ss j) \<and> fr_bf r' = Some (path, b') \<and> handle_of c ss b' \<and>
           bf_file b' = bf_file b2 \<and> fr_filePath r' = fr_filePath ?r \<and> fr_compressor r' = fr_compressor ?r \<and>
           (res = Inr None \<and> filter (\<lambda>s. check (fst s)) (drop (Suc i) ss) = [] \<or>
            (\<exists>s. res = Inr (Some (seg_parsed ti s)) \<and>
                 filter (\<lambda>s. check (fst s)) (drop (Suc i) ss) = s # filter (\<lambda>s. check (fst s)) (drop j ss)))"
        by (rule Suc.IH) (use b2(3) i Suc.prems(4) in simp_all)
      ultimately show ?thesis using f2 drop False by (simp del: NextRead_loop.simps split_paired_Ex)
    qed
  qed
qed

end

text \<open>Reading until the end, with the same test on the headers.\<close>

primrec read_all ::
  "nat \<Rightarrow> nat \<Rightarrow> (SegmentHeader \<Rightarrow> bool) \<Rightarrow> TableInfo \<Rightarrow> bytes \<Rightarrow> fileReader \<Rightarrow> (SegmentHeader \<times> bytes \<times> bytes) list option" where
  "read_all 0 fuel check ti disk r = None"
| "read_all (Suc n) fuel check ti disk r =
     (case NextRead fuel check ti disk r of
        Some (Inr None, r') \<Rightarrow> Some []
      | Some (Inr (Some x), r') \<Rightarrow> map_option (Cons x) (read_all n fuel check ti disk r')
      | _ \<Rightarrow> None)"

context block_compressor
begin

lemma read_all_ok:
  assumes "fr_bf r = Some (path, b)" "handle_of c ss (b\<lparr>bf_file := disk\<rparr>)" "i \<le> length ss"
    "fr_readEffectiveOffset r = int (seg_offset ss i)" "length ss < fuel" "list_all (seg_ok ti) ss"
    "length (filter (\<lambda>s. check (fst s)) (drop i ss)) < n"
  shows "read_all n fuel check ti disk r = Some (map (seg_parsed ti) (filter (\<lambda>s. check (fst s)) (drop i ss)))"
  using assms
proof (induction n arbitrary: r b i)
  case 0
  then show ?case by simp
next
  case (Suc n)
  have fuel: "length ss - i < fuel" using Suc.prems(5) by simp
  obtain res r' j b' where res: "NextRead_loop fuel check ti path (b\<lparr>bf_file := disk\<rparr>) r = Some (res, r')" "j \<le> length ss"
      "fr_readEffectiveOffset r' = int (seg_offset ss j)" "fr_bf r' = Some (path, b')" "handle_of c ss b'" "bf_file b' = disk"
      "res = Inr None \<and> filter (\<lambda>s. check (fst s)) (drop i ss) = [] \<or>
            (\<exists>s. res = Inr (Some (seg_parsed ti s)) \<and>
                 filter (\<lambda>s. check (fst s)) (drop i ss) = s # filter (\<lambda>s. check (fst s)) (drop j ss))"
    using NextRead_loop_ok [OF Suc.prems(2,3,4) fuel Suc.prems(6), of check path] by auto
  have nr: "NextRead fuel check ti disk r = Some (res, r')" using Suc.prems(1) res(1) by (simp add: NextRead_def)
  from res(7) show ?case
  proof (elim disjE exE conjE)
    fix s assume s: "res = Inr (Some (seg_parsed ti s))" "filter (\<lambda>s. check (fst s)) (drop i ss) = s # filter (\<lambda>s. check (fst s)) (drop j ss)"
    have "b'\<lparr>bf_file := disk\<rparr> = b'" using res(6) by auto
    then have h: "handle_of c ss (b'\<lparr>bf_file := disk\<rparr>)" using res(5) by simp
    have "length (filter (\<lambda>s. check (fst s)) (drop j ss)) < n" using Suc.prems(7) s(2) by simp
    from Suc.IH [OF res(4) h res(2,3) Suc.prems(5,6) this] show ?thesis using nr s by simp
  qed (use nr in simp)
qed

lemma OpenReader_ok:
  assumes "reader_ready c ss disk r" "cache_ready c ss disk (fr_filePath r) cache"
  shows "\<exists>disk' cache' r' b. OpenReader disk cache r = (None, disk', cache', r') \<and> fr_bf r' = Some (fr_filePath r, b) \<and>
           handle_of c ss (b\<lparr>bf_file := disk'\<rparr>) \<and> fr_readEffectiveOffset r' = 0"
proof (cases "fr_bf r")
  case None
  from reader_acquire_ok [OF assms None] obtain disk' cache' r' b where a:
    "reader_acquire disk cache r = (None, disk', cache', r')" "fr_bf r' = Some (fr_filePath r, b)" "handle_of c ss (b\<lparr>bf_file := disk'\<rparr>)"
    by blast
  then show ?thesis using None
    by (intro exI [of _ disk'] exI [of _ cache'] exI [of _ "reader_rewind r'"] exI [of _ b]) (simp add: OpenReader_def reader_rewind_def)
next
  case (Some pb)
  obtain path b where pb: "pb = (path, b)" by (cases pb)
  then show ?thesis using assms(1) Some
    by (intro exI [of _ disk] exI [of _ cache] exI [of _ "reader_rewind r"] exI [of _ b])
      (simp add: OpenReader_def reader_rewind_def reader_ready_def)
qed

end

text \<open>A small file for the witnesses.\<close>

lemma stored_small:
  assumes "xs \<noteq> []" "length xs < BlockSizeDef"
  shows "\<exists>f. stored NoCompressor f xs \<and> length f < 2 ^ 34"
proof -
  obtain b where b: "OpenBlockFile [] NoCompressor (int BlockSizeDef) = Inr b" "bf_repr b []" "\<not> bf_closed b" "bf_compressor b = NoCompressor"
    using open_new [OF BlockSizeDef_range(1,2), of NoCompressor] by auto
  have len: "length (bf_file b) = 39" "bf_dataWritePos b = 39" "bf_blockSize b = BlockSizeDef" "bf_index b = []"
    using b(1) unfolding open_new_eq by (auto simp: initNew_def writeHeader_def new_file_def HeaderSize_def BlockSizeDef_def)
  define b1 where "b1 = b\<lparr>bf_buf := xs, bf_totalSize := int (length xs)\<rparr>"
  have r: "bf_repr b1 []" using b(2) assms len(3) by (simp add: bf_repr_def bf_core_def b1_def)
  obtain b2 blks where b2: "Commit b1 = (None, b2)" "bf_repr b2 blks" "content b2 blks = content b1 []" "committed b2 blks" "bf_compressor b2 = NoCompressor"
    using Commit_repr [OF r] b(3,4) by (auto simp: b1_def)
  have "length (bf_file b2) \<le> 39 + 39 + 4 + length xs + 4 + 32"
    using b2(1) b(3,4) len assms(1)
    by (auto simp: Commit_def flushBlock_def b1_def Let_def block_frame_def NoCompressor_def writeIndexLocked_def writeHeader_def
        index_bytes_def HeaderSize_def)
  then have "length (bf_file b2) < 2 ^ 34" using assms(2) by (simp add: BlockSizeDef_def)
  moreover have "stored NoCompressor (bf_file b2) (concat blks)"
    using stored_committed [of b2 blks] b2(2,4,5) by (simp add: bf_repr_def)
  moreover have "concat blks = xs" using b2(3,4) by (simp add: content_def committed_def b1_def)
  ultimately show ?thesis by blast
qed

definition sample_ti :: TableInfo where
  "sample_ti = ColumnAttribute [] [] ColumnTypeInt 0 []"

definition sample_seg :: "u32 \<Rightarrow> seg" where
  "sample_seg tag =
     (\<lparr>sh_Attribute = tag, sh_MinTime = 5, sh_MaxTime = 9, sh_DataSize = 11, sh_Crc = 0\<rparr>, be_int64 2 @ [0, 7] @ [1])"

lemma sample_seg_ok: "tag \<noteq> 0 \<Longrightarrow> seg_ok sample_ti (sample_seg tag)"
  "seg_parsed sample_ti (sample_seg tag) = (fst (sample_seg tag), [1], [0, 7])"
  using parseBlock_flat [of sample_ti "[0, 7]" "[1]"]
  by (simp_all add: seg_ok_def seg_parsed_def sample_seg_def sample_ti_def header_fits_def)

lemma sample_file: "\<exists>f. stored NoCompressor f (segs_bytes [sample_seg 3, sample_seg 4]) \<and> length f < 2 ^ 34"
  by (rule stored_small) (simp_all add: sample_seg_def BlockSizeDef_def segmentHeaderRawSize_def seg_bytes_def)

text \<open>\<^bold>\<open>C19\<close>: on a file that stands for a sequence of segment blocks, a read at the offset of any of them returns
  that block's header with exactly its time bytes and its value bytes, wherever the compressed-block
  boundaries fall, from a fresh handle, a cached one or one that is open, and leaves the reader ready.\<close>

theorem ReadAt_returns_block:
  assumes "block_compressor c" "reader_ready c ss disk r" "cache_ready c ss disk (fr_filePath r) cache" "i < length ss"
    "seg_ok ti (ss ! i)"
  shows "\<exists>disk' cache' r'. ReadAt (int (seg_offset ss i)) ti disk cache r = (Inr (Some (seg_parsed ti (ss ! i))), disk', cache', r') \<and>
           reader_ready c ss disk' r'"
  using assms by (rule block_compressor.ReadAt_ok)

theorem ReadAt_returns_block_witness:
  "\<exists>disk disk' cache' r'. ReadAt (int (seg_offset [sample_seg 3, sample_seg 4] 1)) sample_ti disk None (NewFileReader ''1.tsb'' NoCompressor)
     = (Inr (Some (fst (sample_seg 4), [1], [0, 7])), disk', cache', r')"
proof -
  obtain f where f: "stored NoCompressor f (segs_bytes [sample_seg 3, sample_seg 4])" "length f < 2 ^ 34" using sample_file by blast
  have "reader_ready NoCompressor [sample_seg 3, sample_seg 4] f (NewFileReader ''1.tsb'' NoCompressor)"
    using f by (simp add: reader_ready_def NewFileReader_def)
  moreover have "seg_ok sample_ti ([sample_seg 3, sample_seg 4] ! 1)" using sample_seg_ok(1) [of 4] by simp
  ultimately have "\<exists>disk' cache' r'. ReadAt (int (seg_offset [sample_seg 3, sample_seg 4] 1)) sample_ti f None (NewFileReader ''1.tsb'' NoCompressor)
      = (Inr (Some (seg_parsed sample_ti ([sample_seg 3, sample_seg 4] ! 1))), disk', cache', r') \<and> reader_ready NoCompressor [sample_seg 3, sample_seg 4] disk' r'"
    by (intro ReadAt_returns_block [OF no_compressor.block_compressor_axioms]) (simp_all add: cache_ready_def)
  then show ?thesis using sample_seg_ok(2) [of 4] by auto
qed

text \<open>\<^bold>\<open>C17\<close>: scanning with any test on the headers (such as the tag and time filter of \<^verbatim>\<open>NextReadFilter\<close>) returns, in file
  order, exactly the blocks whose header passes, and then reports the end: no block is skipped, repeated or
  torn, and the scan ends within as many steps as there are blocks.\<close>

theorem scan_returns_matching_blocks:
  assumes "block_compressor c" "reader_ready c ss disk r" "cache_ready c ss disk (fr_filePath r) cache" "list_all (seg_ok ti) ss"
    "length ss < fuel" "length ss < n"
  shows "\<exists>disk' cache' r'. OpenReader disk cache r = (None, disk', cache', r') \<and>
           read_all n fuel check ti disk' r' = Some (map (seg_parsed ti) (filter (\<lambda>s. check (fst s)) ss))"
proof -
  obtain disk' cache' r' b where o': "OpenReader disk cache r = (None, disk', cache', r')" "fr_bf r' = Some (fr_filePath r, b)"
      "handle_of c ss (b\<lparr>bf_file := disk'\<rparr>)" "fr_readEffectiveOffset r' = 0"
    using block_compressor.OpenReader_ok [OF assms(1-3)] by (elim exE conjE) (rule that)
  have "length (filter (\<lambda>s. check (fst s)) (drop 0 ss)) < n" 
    using assms(6) by (auto intro: le_less_trans [OF length_filter_le])
  then have "read_all n fuel check ti disk' r' = Some (map (seg_parsed ti) (filter (\<lambda>s. check (fst s)) (drop 0 ss)))"
    using block_compressor.read_all_ok [OF assms(1) o'(2,3) _ _ assms(5,4), of 0 check n] o'(4) by (simp add: seg_offset_def)
  then show ?thesis using o'(1) by simp
qed

theorem scan_returns_matching_blocks_witness:
  "\<exists>disk disk' cache' r'. OpenReader disk None (NewFileReader ''1.tsb'' NoCompressor) = (None, disk', cache', r') \<and>
     read_all 3 3 (filter_head 4 0 20) sample_ti disk' r' = Some [(fst (sample_seg 4), [1], [0, 7])]"
proof -
  obtain f where f: "stored NoCompressor f (segs_bytes [sample_seg 3, sample_seg 4])" "length f < 2 ^ 34" using sample_file by blast
  have "reader_ready NoCompressor [sample_seg 3, sample_seg 4] f (NewFileReader ''1.tsb'' NoCompressor)"
    using f by (simp add: reader_ready_def NewFileReader_def)
  then have "\<exists>disk' cache' r'. OpenReader f None (NewFileReader ''1.tsb'' NoCompressor) = (None, disk', cache', r') \<and>
     read_all 3 3 (filter_head 4 0 20) sample_ti disk' r'
       = Some (map (seg_parsed sample_ti) (filter (\<lambda>s. filter_head 4 0 20 (fst s)) [sample_seg 3, sample_seg 4]))"
    by (intro scan_returns_matching_blocks [OF no_compressor.block_compressor_axioms]) (simp_all add: cache_ready_def sample_seg_ok)
  moreover have "filter (\<lambda>s. filter_head 4 0 20 (fst s)) [sample_seg 3, sample_seg 4] = [sample_seg 4]"
    by (simp add: filter_head_def sample_seg_def)
  ultimately show ?thesis using sample_seg_ok(2) [of 4] by auto
qed

end
