(* ===== verification/Container.thy ===== *)
theory Container
  imports Prelude
begin

text \<open>
  The containers of \<^verbatim>\<open>container/\<close>: the direct-mapped string cache with its FNV-1a hash
  (\<^verbatim>\<open>string_cache.go\<close>) and the typed wrappers of \<^verbatim>\<open>sync.Map\<close> (\<^verbatim>\<open>sync_map.go\<close>).  What a client of a cache may
  rely on is the locale \<open>key_cache\<close>; its consequence, that a read-through cache never changes an answer, is
  proved in the locale once.  Strings are lists of bytes.
\<close>

section \<open>FNV-1a\<close>

definition fnv_offset64 :: u64 where "fnv_offset64 = 14695981039346656037"
definition fnv_prime64 :: u64 where "fnv_prime64 = 1099511628211"

definition HashString :: "bytes \<Rightarrow> u64" where
  "HashString s = foldl (\<lambda>h b. (h XOR ucast b) * fnv_prime64) fnv_offset64 s"

text \<open>The published test values for the empty string and for ``a''.\<close>

lemma HashString_check: "HashString [] = 0xcbf29ce484222325" "HashString [0x61] = 0xaf63dc4c8601ec8c"
  by (simp_all add: HashString_def fnv_offset64_def fnv_prime64_def)

section \<open>The contract of a cache\<close>

locale key_cache =
  fixes lookup :: "'c \<Rightarrow> bytes \<Rightarrow> u64 \<Rightarrow> 'v option"
    and store :: "'c \<Rightarrow> bytes \<Rightarrow> u64 \<Rightarrow> 'v \<Rightarrow> 'c"
  assumes lookup_store: "lookup (store c k h v) k' h' = Some w \<Longrightarrow> k' = k \<and> w = v \<or> lookup c k' h' = Some w"
begin

text \<open>Every answer of the cache is the map's answer.\<close>

definition agrees :: "'c \<Rightarrow> (bytes \<rightharpoonup> 'v) \<Rightarrow> bool" where
  "agrees c m \<longleftrightarrow> (\<forall>k h v. lookup c k h = Some v \<longrightarrow> m k = Some v)"

definition read_through :: "'c \<Rightarrow> (bytes \<rightharpoonup> 'v) \<Rightarrow> bytes \<Rightarrow> u64 \<Rightarrow> 'v option \<times> 'c" where
  "read_through c m k h =
     (case lookup c k h of
        Some v \<Rightarrow> (Some v, c)
      | None \<Rightarrow> (case m k of None \<Rightarrow> (None, c) | Some v \<Rightarrow> (Some v, store c k h v)))"

lemma read_through_correct: "agrees c m \<Longrightarrow> fst (read_through c m k h) = m k"
  by (auto simp: agrees_def read_through_def split: option.splits)

lemma read_through_agrees: "agrees c m \<Longrightarrow> agrees (snd (read_through c m k h)) m"
  using lookup_store by (fastforce simp: agrees_def read_through_def split: option.splits)

lemma agrees_extend: "agrees c m \<Longrightarrow> m k = None \<Longrightarrow> agrees c (m(k \<mapsto> v))"
  by (auto simp: agrees_def)

end

section \<open>The direct-mapped cache\<close>

record 'v StringKeyCache =
  sk_slots :: "(bytes \<times> 'v) option list"

definition NewStringKeyCache :: "nat \<Rightarrow> 'v StringKeyCache" where
  "NewStringKeyCache n = \<lparr>sk_slots = replicate n None\<rparr>"

definition slot_of :: "'v StringKeyCache \<Rightarrow> u64 \<Rightarrow> nat" where
  "slot_of c h = unat (h AND (of_nat (length (sk_slots c)) - 1))"

text \<open>A nil cache (\<open>None\<close>) never hits; with no slots the index is out of range.\<close>

definition LookupHash :: "'v StringKeyCache option \<Rightarrow> bytes \<Rightarrow> u64 \<Rightarrow> 'v option outcome" where
  "LookupHash cp key h =
     (case cp of
        None \<Rightarrow> Ok None
      | Some c \<Rightarrow>
          if slot_of c h \<ge> length (sk_slots c) then Panic
          else (case sk_slots c ! slot_of c h of
                  Some (k, v) \<Rightarrow> if k = key then Ok (Some v) else Ok None
                | None \<Rightarrow> Ok None))"

definition Lookup :: "'v StringKeyCache option \<Rightarrow> bytes \<Rightarrow> 'v option outcome" where
  "Lookup cp key = LookupHash cp key (HashString key)"

definition StoreHash :: "'v StringKeyCache option \<Rightarrow> bytes \<Rightarrow> u64 \<Rightarrow> 'v \<Rightarrow> 'v StringKeyCache option outcome" where
  "StoreHash cp key h v =
     (case cp of
        None \<Rightarrow> Ok None
      | Some c \<Rightarrow>
          if slot_of c h \<ge> length (sk_slots c) then Panic
          else Ok (Some (c\<lparr>sk_slots := (sk_slots c)[slot_of c h := Some (key, v)]\<rparr>)))"

definition StoreKey :: "'v StringKeyCache option \<Rightarrow> bytes \<Rightarrow> 'v \<Rightarrow> 'v StringKeyCache option outcome" where
  "StoreKey cp key v = StoreHash cp key (HashString key) v"

text \<open>The mask keeps every index in range, whatever the hash, as soon as there is a slot.\<close>

lemma slot_of_less:
  assumes "0 < length (sk_slots c)" "length (sk_slots c) < 2 ^ 64"
  shows "slot_of c h < length (sk_slots c)"
proof -
  have one: "(1 :: u64) \<le> of_nat (length (sk_slots c))"
    using assms by (simp add: word_le_nat_alt unat_of_nat_u64 Suc_le_eq)
  have "unat (h AND (of_nat (length (sk_slots c)) - 1)) \<le> unat (of_nat (length (sk_slots c)) - 1 :: u64)"
    by (simp add: word_and_le1 flip: word_le_nat_alt)
  also have "\<dots> = length (sk_slots c) - 1"
    using one assms by (simp add: unat_sub unat_of_nat_u64)
  finally show ?thesis using assms(1) unfolding slot_of_def by linarith
qed

text \<open>The operations as total functions on caches with slots, which is how the locale sees them.\<close>

definition cache_get :: "'v StringKeyCache \<Rightarrow> bytes \<Rightarrow> u64 \<Rightarrow> 'v option" where
  "cache_get c key h = (case LookupHash (Some c) key h of Ok r \<Rightarrow> r | _ \<Rightarrow> None)"

definition cache_put :: "'v StringKeyCache \<Rightarrow> bytes \<Rightarrow> u64 \<Rightarrow> 'v \<Rightarrow> 'v StringKeyCache" where
  "cache_put c key h v = (case StoreHash (Some c) key h v of Ok (Some c') \<Rightarrow> c' | _ \<Rightarrow> c)"

lemma LookupHash_total: "0 < length (sk_slots c) \<Longrightarrow> length (sk_slots c) < 2 ^ 64 \<Longrightarrow> LookupHash (Some c) k h = Ok (cache_get c k h)"
  using slot_of_less [of c h] by (auto simp: LookupHash_def cache_get_def split: option.splits prod.splits)

lemma StoreHash_total: "0 < length (sk_slots c) \<Longrightarrow> length (sk_slots c) < 2 ^ 64 \<Longrightarrow>
  StoreHash (Some c) k h v = Ok (Some (cache_put c k h v))"
  using slot_of_less [of c h] by (auto simp: StoreHash_def cache_put_def)

lemma length_cache_put [simp]: "length (sk_slots (cache_put c k h v)) = length (sk_slots c)"
  by (auto simp: cache_put_def StoreHash_def)

lemma cache_get_put: "cache_get (cache_put c k h v) k' h' = Some w \<Longrightarrow> k' = k \<and> w = v \<or> cache_get c k' h' = Some w"
  by (auto simp: cache_get_def cache_put_def LookupHash_def StoreHash_def slot_of_def nth_list_update
      split: if_splits option.splits prod.splits)

interpretation sk: key_cache cache_get cache_put
  by unfold_locales (rule cache_get_put)

lemma new_cache_agrees: "sk.agrees (NewStringKeyCache n) m"
  by (auto simp: sk.agrees_def cache_get_def LookupHash_def NewStringKeyCache_def split: option.splits)

text \<open>The direct-mapped cache is transparent.  A cache of any size that was created empty and filled
  by any sequence of lookups through it, for any hash values the callers pass, answers every lookup
  through it exactly as the map behind it does, and none of its operations indexes out of range.\<close>

theorem string_cache_transparent:
  assumes "0 < n" "n < 2 ^ 64"
  shows "\<exists>c. fold (\<lambda>(k, h) c. snd (sk.read_through c m k h)) queries (NewStringKeyCache n) = c \<and>
           fst (sk.read_through c m key h) = m key \<and>
           LookupHash (Some c) key h \<noteq> Panic \<and> (\<forall>v. StoreHash (Some c) key h v \<noteq> Panic)"
proof -
  have step: "length (sk_slots (snd (sk.read_through c m k h))) = length (sk_slots c)" for c k h
    by (simp add: sk.read_through_def split: option.splits)
  let ?run = "\<lambda>c. fold (\<lambda>(k, h) c. snd (sk.read_through c m k h)) queries c"
  have run: "sk.agrees (?run c) m \<and> length (sk_slots (?run c)) = length (sk_slots c)" if "sk.agrees c m" for c
    using that by (induction queries arbitrary: c) (auto simp: step sk.read_through_agrees)
  have "length (sk_slots (NewStringKeyCache n)) = n" by (simp add: NewStringKeyCache_def)
  then have "length (sk_slots (?run (NewStringKeyCache n))) = n" and ag: "sk.agrees (?run (NewStringKeyCache n)) m"
    using run [OF new_cache_agrees] by auto
  then have "LookupHash (Some (?run (NewStringKeyCache n))) key h \<noteq> Panic"
      "StoreHash (Some (?run (NewStringKeyCache n))) key h v \<noteq> Panic" for v
    using LookupHash_total StoreHash_total assms by (metis outcome.distinct(3))+
  then show ?thesis using sk.read_through_correct [OF ag] by blast
qed

theorem string_cache_transparent_witness:
  "fst (sk.read_through (snd (sk.read_through (NewStringKeyCache 1) [[1] \<mapsto> 5 :: nat, [2] \<mapsto> 6] [1] 7)) [[1] \<mapsto> 5, [2] \<mapsto> 6] [2] 7) = Some 6"
  using string_cache_transparent [of 1 "[[1] \<mapsto> 5 :: nat, [2] \<mapsto> 6]" "[([1], 7)]" "[2]" 7] by simp

section \<open>Concurrent maps and sets\<close>

text \<open>\<^verbatim>\<open>sync.Map\<close> is a map; its methods are atomic.  \<^verbatim>\<open>Range\<close> visits the keys in an order Go leaves open, given here as a
  list, and stops when the callback returns false; the result is the list of calls made.\<close>

definition sm_Load :: "('k \<rightharpoonup> 'v) \<Rightarrow> 'k \<Rightarrow> 'v option" where
  "sm_Load m k = m k"

definition sm_Store :: "('k \<rightharpoonup> 'v) \<Rightarrow> 'k \<Rightarrow> 'v \<Rightarrow> ('k \<rightharpoonup> 'v)" where
  "sm_Store m k v = m(k \<mapsto> v)"

definition sm_Delete :: "('k \<rightharpoonup> 'v) \<Rightarrow> 'k \<Rightarrow> ('k \<rightharpoonup> 'v)" where
  "sm_Delete m k = m(k := None)"

fun sm_Range :: "'k list \<Rightarrow> ('k \<Rightarrow> 'v \<Rightarrow> bool) \<Rightarrow> ('k \<rightharpoonup> 'v) \<Rightarrow> ('k \<times> 'v) list" where
  "sm_Range [] f m = []"
| "sm_Range (k # ks) f m =
     (case m k of None \<Rightarrow> sm_Range ks f m
      | Some v \<Rightarrow> (k, v) # (if f k v then sm_Range ks f m else []))"

text \<open>A \<^verbatim>\<open>SyncSet\<close> is a map to booleans: deleting stores false, clearing removes the key.\<close>

definition ss_Load :: "('k \<rightharpoonup> bool) \<Rightarrow> 'k \<Rightarrow> bool" where
  "ss_Load m k = (case m k of None \<Rightarrow> False | Some b \<Rightarrow> b)"

definition ss_Store :: "('k \<rightharpoonup> bool) \<Rightarrow> 'k \<Rightarrow> ('k \<rightharpoonup> bool)" where
  "ss_Store m k = m(k \<mapsto> True)"

definition ss_Delete :: "('k \<rightharpoonup> bool) \<Rightarrow> 'k \<Rightarrow> ('k \<rightharpoonup> bool)" where
  "ss_Delete m k = m(k \<mapsto> False)"

definition ss_Clear :: "('k \<rightharpoonup> bool) \<Rightarrow> 'k \<Rightarrow> ('k \<rightharpoonup> bool)" where
  "ss_Clear m k = m(k := None)"

fun ss_Range :: "'k list \<Rightarrow> ('k \<Rightarrow> bool) \<Rightarrow> ('k \<rightharpoonup> bool) \<Rightarrow> 'k list" where
  "ss_Range [] f m = []"
| "ss_Range (k # ks) f m =
     (if m k = Some True then k # (if f k then ss_Range ks f m else []) else ss_Range ks f m)"

definition ss_abs :: "('k \<rightharpoonup> bool) \<Rightarrow> 'k set" where
  "ss_abs m = {k. m k = Some True}"

datatype 'k set_op = SetStore 'k | SetDelete 'k | SetClear 'k

fun ss_step :: "'k set_op \<Rightarrow> ('k \<rightharpoonup> bool) \<Rightarrow> ('k \<rightharpoonup> bool)" where
  "ss_step (SetStore k) m = ss_Store m k"
| "ss_step (SetDelete k) m = ss_Delete m k"
| "ss_step (SetClear k) m = ss_Clear m k"

fun set_step :: "'k set_op \<Rightarrow> 'k set \<Rightarrow> 'k set" where
  "set_step (SetStore k) s = insert k s"
| "set_step (SetDelete k) s = s - {k}"
| "set_step (SetClear k) s = s - {k}"

lemma ss_step_abs: "ss_abs (ss_step x m) = set_step x (ss_abs m)"
  by (cases x) (auto simp: ss_abs_def ss_Store_def ss_Delete_def ss_Clear_def)

lemma ss_run_abs: "ss_abs (fold ss_step xs m) = fold set_step xs (ss_abs m)"
  by (induction xs arbitrary: m) (simp_all add: ss_step_abs)

lemma ss_Range_all: "(\<And>k. f k) \<Longrightarrow> ss_Range ks f m = filter (\<lambda>k. m k = Some True) ks"
  by (induction ks) auto

text \<open>A \<^verbatim>\<open>SyncSet\<close> refines a set: after any sequence of stores, deletes and clears it holds exactly the members
  of the set those operations build, and a full iteration, in whatever order, visits each member once and nothing else.\<close>

theorem sync_set_refines_set:
  assumes "distinct order" "set order = dom (fold ss_step xs Map.empty)"
  shows "(\<forall>k. ss_Load (fold ss_step xs Map.empty) k \<longleftrightarrow> k \<in> fold set_step xs {}) \<and>
         distinct (ss_Range order (\<lambda>_. True) (fold ss_step xs Map.empty)) \<and>
         set (ss_Range order (\<lambda>_. True) (fold ss_step xs Map.empty)) = fold set_step xs {}"
proof -
  let ?m = "fold ss_step xs Map.empty"
  have abs: "ss_abs ?m = fold set_step xs {}" using ss_run_abs [of xs Map.empty] by (simp add: ss_abs_def)
  have "ss_Range order (\<lambda>_. True) ?m = filter (\<lambda>k. ?m k = Some True) order" by (rule ss_Range_all) simp
  moreover have "set (filter (\<lambda>k. ?m k = Some True) order) = ss_abs ?m" using assms(2) by (auto simp: ss_abs_def)
  moreover have "ss_Load ?m k \<longleftrightarrow> k \<in> ss_abs ?m" for k by (simp add: ss_Load_def ss_abs_def split: option.splits)
  ultimately show ?thesis using assms(1) abs by simp
qed

theorem sync_set_refines_set_witness:
  "set (ss_Range [2, 1] (\<lambda>_. True) (fold ss_step [SetStore (1 :: nat), SetStore 2, SetDelete 1] Map.empty)) = {2}"
  using sync_set_refines_set [of "[2, 1]" "[SetStore (1 :: nat), SetStore 2, SetDelete 1]"]
  by (auto simp: ss_Store_def ss_Delete_def split: if_splits)

end
