(* ===== verification/Table_Meta.thy ===== *)
theory Table_Meta
  imports Container Segment_Index
begin

text \<open>
  The tag dictionary of a table, \<^verbatim>\<open>tsdb/table_meta.go\<close>, with its append-only file, and the two operations of
  \<^verbatim>\<open>tsdb/table.go\<close> that build on it, \<^verbatim>\<open>BuildColumn\<close> and \<^verbatim>\<open>CreateColumn\<close>.  Tags are byte strings.  The bytes of
  the file are a field of the state; operating-system calls on an open file succeed.
\<close>

section \<open>Rounding up to a power of two\<close>

definition defaultTagCacheSlots :: int where "defaultTagCacheSlots = 65536"

text \<open>The doubling loop on a 64-bit \<^verbatim>\<open>int\<close>; it can overflow and then never ends, so it has fuel and \<open>None\<close> is
  running out of it.\<close>

primrec npt_loop :: "nat \<Rightarrow> int \<Rightarrow> int \<Rightarrow> int option" where
  "npt_loop 0 n p = None"
| "npt_loop (Suc fuel) n p = (if p < n then npt_loop fuel n (wrap64 (p * 2)) else Some p)"

definition nextPowerOfTwo :: "nat \<Rightarrow> int \<Rightarrow> int option" where
  "nextPowerOfTwo fuel n = (if n \<le> 0 then Some defaultTagCacheSlots else npt_loop fuel n 1)"

section \<open>The dictionary\<close>

datatype meta_error = ErrorMetaFileFormat | ErrorPointQuantityExceedsLimit | ErrFileClosed

definition metaMagic :: u32 where "metaMagic = 0x4D455441"
definition metaHeadLen :: nat where "metaHeadLen = 4"

record Meta =
  mt_MaxPointDict :: u32
  mt_SyncMap :: "bytes \<rightharpoonup> u32"
  mt_file :: bytes
  mt_open :: bool
  mt_pending :: bytes
  mt_tagCache :: "u32 StringKeyCache"

definition loadHash :: "bytes \<Rightarrow> u64 \<Rightarrow> Meta \<Rightarrow> (u32 option \<times> Meta) outcome" where
  "loadHash tag hash s =
     (case LookupHash (Some (mt_tagCache s)) tag hash of
        Ok (Some code) \<Rightarrow> Ok (Some code, s)
      | Ok None \<Rightarrow>
          (case sm_Load (mt_SyncMap s) tag of
             None \<Rightarrow> Ok (None, s)
           | Some code \<Rightarrow>
               (case StoreHash (Some (mt_tagCache s)) tag hash code of
                  Ok (Some c) \<Rightarrow> Ok (Some code, s\<lparr>mt_tagCache := c\<rparr>)
                | _ \<Rightarrow> Panic))
      | _ \<Rightarrow> Panic)"

definition mt_Load :: "bytes \<Rightarrow> Meta \<Rightarrow> (u32 option \<times> Meta) outcome" where
  "mt_Load tag s = loadHash tag (HashString tag) s"

definition computeEntryCRC :: "bytes \<Rightarrow> bytes \<Rightarrow> bytes \<Rightarrow> u32" where
  "computeEntryCRC tagLen tag code = crc32_ieee (tagLen @ tag @ code)"

text \<open>The length field holds the low 16 bits of the length.\<close>

definition meta_entry :: "bytes \<Rightarrow> u32 \<Rightarrow> bytes" where
  "meta_entry tag code =
     (let body = be_put 2 (of_nat (length tag) :: 16 word) @ tag @ be_put 4 code
      in body @ be_put 4 (crc32_ieee body))"

definition addTag :: "bytes \<Rightarrow> Meta \<Rightarrow> u32 \<times> Meta" where
  "addTag tag s =
     (let code = mt_MaxPointDict s + 1
      in (code, s\<lparr>mt_MaxPointDict := code, mt_pending := mt_pending s @ meta_entry tag code,
                  mt_SyncMap := sm_Store (mt_SyncMap s) tag code\<rparr>))"

definition flushPendingLocked :: "Meta \<Rightarrow> meta_error option \<times> Meta" where
  "flushPendingLocked s =
     (if mt_pending s = [] then (None, s)
      else if \<not> mt_open s then (Some ErrFileClosed, s)
      else (None, s\<lparr>mt_file := mt_file s @ mt_pending s, mt_pending := []\<rparr>))"

definition FlushPending :: "Meta \<Rightarrow> meta_error option \<times> Meta" where
  "FlushPending s = flushPendingLocked s"

definition mt_Close :: "Meta \<Rightarrow> meta_error option \<times> Meta" where
  "mt_Close s =
     (if mt_open s then (let (err, s1) = flushPendingLocked s in (err, s1\<lparr>mt_open := False\<rparr>)) else (None, s))"

section \<open>Opening\<close>

definition initFile :: "Meta \<Rightarrow> Meta" where
  "initFile s = s\<lparr>mt_file := be_put 4 metaMagic, mt_open := True\<rparr>"

text \<open>The replay loop from byte \<open>pos\<close>; the third result is the file it leaves, cut at the start of an entry that is
  incomplete or whose checksum fails.\<close>

function readEntries :: "bytes \<Rightarrow> nat \<Rightarrow> (bytes \<rightharpoonup> u32) \<Rightarrow> u32 \<Rightarrow> (bytes \<rightharpoonup> u32) \<times> u32 \<times> bytes" where
  "readEntries d pos m maxCode =
     (let rest = drop pos d; cut = (m, maxCode, take pos d) in
      if rest = [] then (m, maxCode, d)
      else if length rest < 2 then cut
      else
        (let tagLen = unat (be_get (take 2 rest) :: 16 word) in
         if tagLen > 65535 then cut
         else if length rest < 2 + tagLen then cut
         else if length rest < 2 + tagLen + 4 then cut
         else if length rest < 2 + tagLen + 4 + 4 then cut
         else
           (let tagBytes = take tagLen (drop 2 rest);
                codeBuf = take 4 (drop (2 + tagLen) rest);
                crcBuf = take 4 (drop (2 + tagLen + 4) rest);
                code = be_get codeBuf
            in if computeEntryCRC (take 2 rest) tagBytes codeBuf \<noteq> be_get crcBuf then cut
               else readEntries d (pos + (2 + tagLen + 4 + 4)) (sm_Store m tagBytes code)
                      (if code > maxCode then code else maxCode))))"
  by pat_completeness auto
termination
  by (relation "measure (\<lambda>(d, pos, m, c). length d - pos)") auto

declare readEntries.simps [simp del]

definition fresh_meta :: "int \<Rightarrow> Meta" where
  "fresh_meta slots =
     \<lparr>mt_MaxPointDict = 0, mt_SyncMap = Map.empty, mt_file = [], mt_open = False, mt_pending = [],
      mt_tagCache = NewStringKeyCache (nat (if slots > 0 then slots else defaultTagCacheSlots))\<rparr>"

text \<open>\<open>None\<close> is a file that does not exist.\<close>

definition NewMeta :: "bytes option \<Rightarrow> int \<Rightarrow> meta_error + Meta" where
  "NewMeta disk slots =
     (let m = fresh_meta slots in
      case disk of
        None \<Rightarrow> Inr (initFile m)
      | Some d \<Rightarrow>
          if length d < metaHeadLen then Inr (initFile m)
          else if be_get (take 4 d) \<noteq> metaMagic then Inl ErrorMetaFileFormat
          else
            (let (tags, maxCode, d') = readEntries d metaHeadLen Map.empty 0
             in Inr (m\<lparr>mt_SyncMap := tags, mt_MaxPointDict := maxCode, mt_file := d', mt_open := True\<rparr>)))"

section \<open>The columns of a table\<close>

text \<open>The part of \<^verbatim>\<open>ssTable\<close> that these operations touch: the dictionary and, per position, the tag code of the
  column there (\<open>None\<close> for a nil pointer).\<close>

record tag_table =
  tt_Meta :: Meta
  tt_columns :: "u32 option list"

definition maxColumnTag :: u32 where "maxColumnTag = 255 * 255 * 255 * 255"

text \<open>\<^verbatim>\<open>BuildColumn\<close>: the order of the iteration does not matter, as every entry writes its own position;
  a code outside the array panics.\<close>

definition BuildColumn :: "bytes option \<Rightarrow> int \<Rightarrow> bytes list \<Rightarrow> (meta_error + tag_table) outcome" where
  "BuildColumn disk slots order =
     (case NewMeta disk slots of
        Inl e \<Rightarrow> Ok (Inl e)
      | Inr m \<Rightarrow>
          (let visited = sm_Range order (\<lambda>_ _. True) (mt_SyncMap m);
               n = unat (mt_MaxPointDict m)
           in if list_ex (\<lambda>(k, u). unat (u - 1) \<ge> n) visited then Panic
              else Ok (Inr \<lparr>tt_Meta = m,
                            tt_columns = fold (\<lambda>(k, u) cs. cs[unat (u - 1) := Some u]) visited (replicate n None)\<rparr>)))"

definition CreateColumn :: "bytes \<Rightarrow> tag_table \<Rightarrow> ((meta_error + u32) \<times> tag_table) outcome" where
  "CreateColumn tag s =
     (case mt_Load tag (tt_Meta s) of
        Ok (Some code, m) \<Rightarrow> Ok (Inr code, s\<lparr>tt_Meta := m\<rparr>)
      | Ok (None, m) \<Rightarrow>
          if mt_MaxPointDict m = maxColumnTag then Ok (Inl ErrorPointQuantityExceedsLimit, s\<lparr>tt_Meta := m\<rparr>)
          else
            (let (code, m') = addTag tag m
             in Ok (Inr code, s\<lparr>tt_Meta := m',
                  tt_columns := tt_columns s @ map (\<lambda>i. Some (of_nat i + 1)) [length (tt_columns s)..<unat code]\<rparr>))
      | _ \<Rightarrow> Panic)"

section \<open>The file as a log of entries\<close>

definition entries_bytes :: "(bytes \<times> u32) list \<Rightarrow> bytes" where
  "entries_bytes es = concat (map (\<lambda>(t, c). meta_entry t c) es)"

definition codes_from_1 :: "(bytes \<times> u32) list \<Rightarrow> bool" where
  "codes_from_1 es \<longleftrightarrow> map snd es = map (\<lambda>i. of_nat (Suc i)) [0..<length es] \<and> length es < 2 ^ 32"

definition log_ok :: "(bytes \<times> u32) list \<Rightarrow> bool" where
  "log_ok es \<longleftrightarrow> codes_from_1 es \<and> distinct (map fst es) \<and> list_all (\<lambda>(t, c). length t < 2 ^ 16) es"

definition meta_repr :: "Meta \<Rightarrow> (bytes \<times> u32) list \<Rightarrow> bool" where
  "meta_repr m es \<longleftrightarrow> log_ok es \<and> mt_SyncMap m = map_of es \<and> mt_MaxPointDict m = of_nat (length es) \<and>
     (\<exists>k \<le> length es. mt_file m = be_put 4 metaMagic @ entries_bytes (take k es) \<and> mt_pending m = entries_bytes (drop k es)) \<and>
     mt_open m \<and> sk.agrees (mt_tagCache m) (map_of es) \<and>
     0 < length (sk_slots (mt_tagCache m)) \<and> length (sk_slots (mt_tagCache m)) < 2 ^ 64"

lemma entries_bytes_simps [simp]: "entries_bytes [] = []" "entries_bytes ((t, c) # es) = meta_entry t c @ entries_bytes es"
  "entries_bytes (es @ fs) = entries_bytes es @ entries_bytes fs"
  by (simp_all add: entries_bytes_def)

lemma length_meta_entry [simp]: "length (meta_entry t c) = 10 + length t"
  by (simp add: meta_entry_def Let_def)

lemma readEntries_end: "length d \<le> pos \<Longrightarrow> readEntries d pos m mx = (m, mx, d)"
  by (subst readEntries.simps) simp

text \<open>One complete entry.\<close>

lemma readEntries_step:
  assumes "drop pos d = meta_entry t c @ rest" "length t < 2 ^ 16"
  shows "readEntries d pos m mx = readEntries d (pos + (10 + length t)) (m(t \<mapsto> c)) (if c > mx then c else mx)"
proof -
  have len: "unat (of_nat (length t) :: 16 word) = length t"
    using assms(2) by (simp add: unsigned_of_nat take_bit_nat_eq_self)
  have arith: "pos + (2 + length t + 4 + 4) = pos + (10 + length t)" by simp
  show ?thesis
    using assms(2) by (subst readEntries.simps)
      (simp add: assms(1) meta_entry_def Let_def len computeEntryCRC_def codec_simps sm_Store_def arith del: add_Suc_right)
qed

text \<open>An entry that is cut anywhere.\<close>

lemma readEntries_torn:
  assumes "drop pos d = take n (meta_entry t c)" "0 < n" "n < length (meta_entry t c)" "length t < 2 ^ 16"
  shows "readEntries d pos m mx = (m, mx, take pos d)"
proof -
  have len: "length (drop pos d) = n" using assms(1,3) by simp
  show ?thesis
  proof (cases "n < 2")
    case True
    then show ?thesis using len assms(2) by (subst readEntries.simps) (auto simp: Let_def)
  next
    case False
    have "take 2 (drop pos d) = be_put 2 (of_nat (length t) :: 16 word)"
      using False by (simp add: assms(1) meta_entry_def Let_def min_def)
    then have "unat (be_get (take 2 (drop pos d)) :: 16 word) = length t"
      using assms(4) by (simp add: codec_simps unsigned_of_nat take_bit_nat_eq_self)
    then show ?thesis using len assms(2,3) False by (subst readEntries.simps) (auto simp: Let_def)
  qed
qed

lemma readEntries_log:
  assumes "drop pos d = entries_bytes es @ rest" "list_all (\<lambda>(t, c). length t < 2 ^ 16) es" "pos \<le> length d"
  shows "readEntries d pos m mx
           = readEntries d (pos + length (entries_bytes es)) (m ++ map_of (rev es)) (fold (\<lambda>(t, c) x. if c > x then c else x) es mx)"
  using assms
proof (induction es arbitrary: pos m mx)
  case Nil
  then show ?case by simp
next
  case (Cons e es)
  obtain t c where e: "e = (t, c)" by (cases e)
  have at: "drop pos d = meta_entry t c @ (entries_bytes es @ rest)" using Cons.prems(1) by (simp add: e)
  have next': "drop (pos + (10 + length t)) d = entries_bytes es @ rest"
  proof -
    have "drop (pos + (10 + length t)) d = drop (length (meta_entry t c)) (drop pos d)" by (simp add: add.commute)
    then show ?thesis unfolding at by simp
  qed
  have "length (drop pos d) = length (meta_entry t c) + length (entries_bytes es @ rest)" by (simp only: at length_append)
  then have "pos + (10 + length t) \<le> length d" using Cons.prems(3) by simp
  then show ?case
    using readEntries_step [OF at, of m mx] Cons.IH [OF next'] Cons.prems(2)
    by (simp add: e add.assoc map_add_upd_left)
qed

lemma of_nat_u32_less: "n < m \<Longrightarrow> m < 2 ^ 32 \<Longrightarrow> (of_nat n :: u32) < of_nat m"
  by (simp add: word_less_nat_alt unat_of_nat_u32)

lemma codes_from_1_snoc: "codes_from_1 (es @ [(t, c)]) \<longleftrightarrow> codes_from_1 es \<and> c = of_nat (Suc (length es)) \<and> Suc (length es) < 2 ^ 32"
  by (auto simp: codes_from_1_def)

lemma take_upt_min: "take j [0..<n] = [0..<min n j]"
  by (cases "j \<le> n") (simp_all add: min_def)

lemma codes_from_1_take: "codes_from_1 es \<Longrightarrow> codes_from_1 (take j es)"
proof -
  assume a: "codes_from_1 es"
  have "map snd (take j es) = take j (map (\<lambda>i. of_nat (Suc i)) [0..<length es])" using a by (simp add: codes_from_1_def take_map [symmetric])
  also have "\<dots> = map (\<lambda>i. of_nat (Suc i)) [0..<length (take j es)]" by (simp only: take_map take_upt_min) simp
  finally show ?thesis using a by (simp add: codes_from_1_def min_less_iff_disj)
qed

lemma log_ok_take: "log_ok es \<Longrightarrow> log_ok (take j es)"
  by (auto simp: log_ok_def codes_from_1_take take_map [symmetric] list_all_iff dest: in_set_takeD)

lemma max_code: "codes_from_1 es \<Longrightarrow> fold (\<lambda>(t, c) x. if c > x then c else x) es 0 = of_nat (length es)"
proof (induction es rule: rev_induct)
  case (snoc e es)
  obtain t c where e: "e = (t, c)" by (cases e)
  have "(of_nat (length es) :: u32) < of_nat (Suc (length es))"
    using snoc.prems by (intro of_nat_u32_less) (simp_all add: e codes_from_1_snoc)
  then show ?case using snoc by (simp add: e codes_from_1_snoc)
qed simp

lemma map_of_rev_distinct: "distinct (map fst es) \<Longrightarrow> map_of (rev es) = map_of es"
proof (rule ext)
  fix k assume d: "distinct (map fst es)"
  then have d': "distinct (map fst (rev es))" by (simp add: rev_map [symmetric])
  show "map_of (rev es) k = map_of es k"
  proof (cases "map_of es k")
    case None
    then have "map_of (rev es) k = None" by (simp add: map_of_eq_None_iff)
    then show ?thesis using None by simp
  next
    case (Some v)
    then have "map_of (rev es) k = Some v" using d d' by (simp add: map_of_eq_Some_iff)
    then show ?thesis using Some by simp
  qed
qed

text \<open>A log cut at any byte is a prefix of its entries and the torn start of the next.\<close>

lemmas cut_log = cut_concat [of _ "\<lambda>(t, c). meta_entry t c", folded entries_bytes_def]

lemma replay:
  assumes ok: "log_ok es" and n: "n \<le> length (entries_bytes es)"
  shows "\<exists>j \<le> length es. readEntries (be_put 4 metaMagic @ take n (entries_bytes es)) metaHeadLen Map.empty 0
           = (map_of (take j es), of_nat j, be_put 4 metaMagic @ entries_bytes (take j es)) \<and>
           length (entries_bytes (take j es)) \<le> n \<and> (j < length es \<longrightarrow> n < length (entries_bytes (take (Suc j) es)))"
proof -
  obtain j r where j: "j \<le> length es" "take n (entries_bytes es) = entries_bytes (take j es) @ r"
      "r = [] \<or> (\<exists>k. j < length es \<and> 0 < k \<and> k < length (case es ! j of (t, c) \<Rightarrow> meta_entry t c) \<and> r = take k (case es ! j of (t, c) \<Rightarrow> meta_entry t c))"
      "length (entries_bytes (take j es)) \<le> n" "j < length es \<longrightarrow> n < length (entries_bytes (take (Suc j) es))"
    using cut_log [OF n] by (elim exE conjE) (rule that)
  let ?d = "be_put 4 metaMagic @ take n (entries_bytes es)" and ?E = "entries_bytes (take j es)"
  let ?pos = "metaHeadLen + length ?E"
  have okj: "log_ok (take j es)" by (rule log_ok_take [OF ok])
  have small: "list_all (\<lambda>(t, c). length t < 2 ^ 16) (take j es)" using okj by (simp add: log_ok_def)
  have at: "drop metaHeadLen ?d = ?E @ r" using j(2) by (simp add: metaHeadLen_def)
  have "readEntries ?d metaHeadLen Map.empty 0 = readEntries ?d ?pos (map_of (rev (take j es))) (of_nat (length (take j es)))"
    using readEntries_log [OF at small, of Map.empty 0] max_code [of "take j es"] okj
    by (simp add: log_ok_def metaHeadLen_def)
  moreover have "map_of (rev (take j es)) = map_of (take j es)" using okj by (intro map_of_rev_distinct) (simp add: log_ok_def)
  moreover have "length (take j es) = j" using j(1) by simp
  moreover have "readEntries ?d ?pos m mx = (m, mx, be_put 4 metaMagic @ ?E)" for m mx
  proof (cases "r = []")
    case True
    then show ?thesis using j(2) by (simp add: readEntries_end metaHeadLen_def)
  next
    case False
    then obtain k t c where r: "j < length es" "es ! j = (t, c)" "0 < k" "k < length (meta_entry t c)" "r = take k (meta_entry t c)"
      using j(3) by (cases "es ! j") auto
    have "length t < 2 ^ 16" using ok r(1,2) by (auto simp: log_ok_def list_all_length)
    moreover have "drop ?pos ?d = take k (meta_entry t c)" using j(2) r(5) by (simp add: metaHeadLen_def)
    ultimately have "readEntries ?d ?pos m mx = (m, mx, take ?pos ?d)" using readEntries_torn r(3,4) by blast
    then show ?thesis using j(2) by (simp add: metaHeadLen_def)
  qed
  ultimately show ?thesis using j by auto
qed

lemma NewMeta_log:
  assumes ok: "log_ok es" and n: "n \<le> length (entries_bytes es)" and slots: "slots < 2 ^ 64"
  shows "\<exists>j \<le> length es. \<exists>m. NewMeta (Some (be_put 4 metaMagic @ take n (entries_bytes es))) slots = Inr m \<and> meta_repr m (take j es) \<and>
           mt_pending m = [] \<and> length (entries_bytes (take j es)) \<le> n \<and> (j < length es \<longrightarrow> n < length (entries_bytes (take (Suc j) es)))"
proof -
  obtain j where j: "j \<le> length es" "readEntries (be_put 4 metaMagic @ take n (entries_bytes es)) metaHeadLen Map.empty 0
           = (map_of (take j es), of_nat j, be_put 4 metaMagic @ entries_bytes (take j es))"
      "length (entries_bytes (take j es)) \<le> n" "j < length es \<longrightarrow> n < length (entries_bytes (take (Suc j) es))"
    using replay [OF ok n] by blast
  let ?m = "(fresh_meta slots)\<lparr>mt_SyncMap := map_of (take j es), mt_MaxPointDict := of_nat j,
               mt_file := be_put 4 metaMagic @ entries_bytes (take j es), mt_open := True\<rparr>"
  have "NewMeta (Some (be_put 4 metaMagic @ take n (entries_bytes es))) slots = Inr ?m"
    using j(2) by (simp add: NewMeta_def Let_def metaHeadLen_def codec_simps)
  moreover have "meta_repr ?m (take j es)"
  proof -
    let ?s = "nat (if slots > 0 then slots else defaultTagCacheSlots)"
    have "0 < ?s" "?s < 2 ^ 64" using slots by (auto simp: defaultTagCacheSlots_def nat_less_iff)
    moreover have "mt_tagCache ?m = NewStringKeyCache ?s" "length (sk_slots (mt_tagCache ?m)) = ?s"
      by (simp_all add: fresh_meta_def NewStringKeyCache_def)
    ultimately show ?thesis unfolding meta_repr_def
      using log_ok_take [OF ok, of j] j(1)
      by (intro conjI exI [of _ j]) (simp_all add: fresh_meta_def min_def new_cache_agrees)
  qed
  ultimately show ?thesis using j by (intro exI [of _ j]) (simp add: fresh_meta_def)
qed

end
