(* ===== verification/Table_Meta_Props.thy ===== *)
theory Table_Meta_Props
  imports Table_Meta
begin

text \<open>
  The contract of the tag dictionary: it hands out the codes 1, 2, 3, \<dots> in the order tags first appear, and what was
  flushed survives a crash.  The abstract dictionary is the list of tags in that order; a table refines it.
\<close>

section \<open>The abstract dictionary\<close>

definition spec_code :: "bytes list \<Rightarrow> bytes \<Rightarrow> nat" where
  "spec_code d tag = Suc (length (takeWhile ((\<noteq>) tag) d))"

definition spec_create :: "bytes \<Rightarrow> bytes list \<Rightarrow> (meta_error + u32) \<times> bytes list" where
  "spec_create tag d =
     (if tag \<in> set d then (Inr (of_nat (spec_code d tag)), d)
      else if length d = unat maxColumnTag then (Inl ErrorPointQuantityExceedsLimit, d)
      else (Inr (of_nat (Suc (length d))), d @ [tag]))"

definition dict_log :: "bytes list \<Rightarrow> (bytes \<times> u32) list" where
  "dict_log d = map (\<lambda>i. (d ! i, of_nat (Suc i))) [0..<length d]"

definition dict_columns :: "bytes list \<Rightarrow> u32 option list" where
  "dict_columns d = map (\<lambda>i. Some (of_nat (Suc i))) [0..<length d]"

definition table_refines :: "tag_table \<Rightarrow> bytes list \<Rightarrow> bool" where
  "table_refines t d \<longleftrightarrow> meta_repr (tt_Meta t) (dict_log d) \<and> tt_columns t = dict_columns d \<and> length d \<le> unat maxColumnTag"

lemma max_tag: "unat maxColumnTag = 4228250625" by (simp add: maxColumnTag_def)

lemma length_dict_log [simp]: "length (dict_log d) = length d" by (simp add: dict_log_def)

lemma dict_log_snoc: "dict_log (d @ [t]) = dict_log d @ [(t, of_nat (Suc (length d)))]"
  by (simp add: dict_log_def nth_append)

lemma dict_log_tags [simp]: "map fst (dict_log d) = d"
  by (simp add: dict_log_def comp_def map_nth)

lemma dict_log_codes: "length d < 2 ^ 32 \<Longrightarrow> codes_from_1 (dict_log d)"
  by (simp add: codes_from_1_def dict_log_def comp_def)

lemma dict_log_of_log: "codes_from_1 es \<Longrightarrow> es = dict_log (map fst es)"
proof -
  assume "codes_from_1 es"
  then have c: "map snd es = map (\<lambda>i. of_nat (Suc i)) [0..<length es]" by (simp add: codes_from_1_def)
  have "snd (es ! i) = of_nat (Suc i)" if "i < length es" for i
    using arg_cong [OF c, of "\<lambda>l. l ! i"] that by simp
  then show ?thesis by (intro nth_equalityI) (simp_all add: dict_log_def prod_eq_iff)
qed

lemma take_dict_log: "take j (dict_log d) = dict_log (take j d)"
  by (simp add: dict_log_def take_map take_upt_min min.commute)

lemma spec_code_snoc: "spec_code (d @ [x]) tag = (if tag \<in> set d then spec_code d tag else if tag = x then Suc (length d) else Suc (Suc (length d)))"
  by (auto simp: spec_code_def takeWhile_append)

lemma map_of_dict_log: "distinct d \<Longrightarrow> map_of (dict_log d) tag = (if tag \<in> set d then Some (of_nat (spec_code d tag)) else None)"
proof (induction d rule: rev_induct)
  case (snoc x d)
  then have x: "x \<notin> set d" and IH: "map_of (dict_log d) tag = (if tag \<in> set d then Some (of_nat (spec_code d tag)) else None)"
    by simp_all
  show ?case unfolding dict_log_snoc map_of_append spec_code_snoc using x IH by (auto simp: map_add_def)
qed (simp add: dict_log_def)

lemma list_all_fst: "list_all (\<lambda>(t, c). P t) es \<longleftrightarrow> list_all P (map fst es)"
  by (induction es) auto

lemma log_ok_dict_log: "log_ok (dict_log d) \<longleftrightarrow> distinct d \<and> length d < 2 ^ 32 \<and> list_all (\<lambda>t. length t < 2 ^ 16) d"
  unfolding log_ok_def list_all_fst dict_log_tags using dict_log_codes [of d] by (auto simp: codes_from_1_def)

section \<open>The operations refine it\<close>

lemma mt_Load_repr:
  assumes r: "meta_repr m es"
  shows "\<exists>c. mt_Load tag m = Ok (map_of es tag, m\<lparr>mt_tagCache := c\<rparr>) \<and> meta_repr (m\<lparr>mt_tagCache := c\<rparr>) es"
proof -
  let ?c = "mt_tagCache m" and ?h = "HashString tag"
  have slots: "0 < length (sk_slots ?c)" "length (sk_slots ?c) < 2 ^ 64" and ag: "sk.agrees ?c (map_of es)" and mp: "mt_SyncMap m = map_of es"
    using r by (auto simp: meta_repr_def)
  let ?c' = "snd (sk.read_through ?c (map_of es) tag ?h)"
  have "fst (sk.read_through ?c (map_of es) tag ?h) = map_of es tag" by (rule sk.read_through_correct [OF ag])
  then have "mt_Load tag m = Ok (map_of es tag, m\<lparr>mt_tagCache := ?c'\<rparr>)"
    by (auto simp: mt_Load_def loadHash_def LookupHash_total [OF slots] StoreHash_total [OF slots] sk.read_through_def mp sm_Load_def
        split: option.splits)
  moreover have "length (sk_slots ?c') = length (sk_slots ?c)" by (simp add: sk.read_through_def split: option.splits)
  then have "meta_repr (m\<lparr>mt_tagCache := ?c'\<rparr>) es"
    using r sk.read_through_agrees [OF ag, of tag ?h] by (simp add: meta_repr_def)
  ultimately show ?thesis by blast
qed

lemma addTag_repr:
  assumes r: "meta_repr m (dict_log d)" and new: "tag \<notin> set d" and len: "length tag < 2 ^ 16" "Suc (length d) < 2 ^ 32"
  shows "fst (addTag tag m) = of_nat (Suc (length d)) \<and> meta_repr (snd (addTag tag m)) (dict_log (d @ [tag]))"
proof -
  have d: "distinct d \<and> list_all (\<lambda>t. length t < 2 ^ 16) d" using r by (simp add: meta_repr_def log_ok_dict_log)
  have code: "mt_MaxPointDict m + 1 = of_nat (Suc (length d))" using r by (simp add: meta_repr_def)
  obtain k where k: "k \<le> length d" "mt_file m = be_put 4 metaMagic @ entries_bytes (take k (dict_log d))"
      "mt_pending m = entries_bytes (drop k (dict_log d))"
    using r by (auto simp: meta_repr_def)
  have none: "map_of (dict_log d) tag = None" using new d by (simp add: map_of_dict_log)
  have mo: "map_of (dict_log (d @ [tag])) = (map_of (dict_log d))(tag \<mapsto> of_nat (Suc (length d)))"
    using none by (auto simp: dict_log_snoc map_add_def split: option.splits)
  have log: "take k (dict_log (d @ [tag])) = take k (dict_log d)"
      "entries_bytes (drop k (dict_log (d @ [tag]))) = entries_bytes (drop k (dict_log d)) @ meta_entry tag (of_nat (Suc (length d)))"
    using k(1) by (simp_all add: dict_log_snoc)
  have "log_ok (dict_log (d @ [tag]))" using d new len by (simp add: log_ok_dict_log)
  moreover have "sk.agrees (mt_tagCache m) (map_of (dict_log (d @ [tag])))"
    unfolding mo using r none by (intro sk.agrees_extend) (auto simp: meta_repr_def)
  ultimately show ?thesis using r k unfolding addTag_def Let_def code meta_repr_def
    by (intro conjI exI [of _ k]) (simp_all add: mo log sm_Store_def)
qed

lemma CreateColumn_refines:
  assumes r: "table_refines t d" and len: "length tag < 2 ^ 16"
  shows "\<exists>t'. CreateColumn tag t = Ok (fst (spec_create tag d), t') \<and> table_refines t' (snd (spec_create tag d)) \<and>
           mt_file (tt_Meta t') = mt_file (tt_Meta t)"
proof -
  let ?m = "tt_Meta t"
  have mr: "meta_repr ?m (dict_log d)" and cols: "tt_columns t = dict_columns d" and mx: "length d \<le> unat maxColumnTag"
    using r by (auto simp: table_refines_def)
  have d: "distinct d" using mr by (simp add: meta_repr_def log_ok_dict_log)
  obtain c where c: "mt_Load tag ?m = Ok (map_of (dict_log d) tag, ?m\<lparr>mt_tagCache := c\<rparr>)" "meta_repr (?m\<lparr>mt_tagCache := c\<rparr>) (dict_log d)"
    using mt_Load_repr [OF mr] by blast
  have MPD: "mt_MaxPointDict ?m = of_nat (length d)" using mr by (simp add: meta_repr_def)
  have full: "mt_MaxPointDict ?m = maxColumnTag \<longleftrightarrow> length d = unat maxColumnTag"
    using mx unfolding MPD word_unat_eq_iff by (simp add: unat_of_nat_u32 max_tag)
  consider (old) "tag \<in> set d" | (full) "tag \<notin> set d" "length d = unat maxColumnTag" | (new) "tag \<notin> set d" "length d < unat maxColumnTag"
    using mx by linarith
  then show ?thesis
  proof cases
    case old
    then show ?thesis using c r by (simp add: CreateColumn_def map_of_dict_log [OF d] spec_create_def table_refines_def)
  next
    case full
    then show ?thesis using c r \<open>mt_MaxPointDict ?m = maxColumnTag \<longleftrightarrow> _\<close>
      by (simp add: CreateColumn_def map_of_dict_log [OF d] spec_create_def table_refines_def)
  next
    case new
    let ?a = "addTag tag (?m\<lparr>mt_tagCache := c\<rparr>)"
    have a: "fst ?a = of_nat (Suc (length d))" "meta_repr (snd ?a) (dict_log (d @ [tag]))"
      using addTag_repr [OF c(2) new(1) len] new(2) by (simp_all add: max_tag)
    have u: "unat (of_nat (Suc (length d)) :: u32) = Suc (length d)" using new(2) by (intro unat_of_nat_u32) (simp add: max_tag)
    have cc: "tt_columns t @ map (\<lambda>i. Some (of_nat i + 1)) [length (tt_columns t)..<Suc (length d)] = dict_columns (d @ [tag])"
      by (simp add: cols dict_columns_def add.commute)
    have "mt_file (snd ?a) = mt_file ?m" by (simp add: addTag_def Let_def)
    then show ?thesis
      using c new a u cc full by (simp add: CreateColumn_def map_of_dict_log [OF d] spec_create_def table_refines_def case_prod_beta del: of_nat_Suc)
  qed
qed

lemma FlushPending_repr:
  assumes r: "meta_repr m (dict_log d)"
  shows "FlushPending m = (None, m\<lparr>mt_file := be_put 4 metaMagic @ entries_bytes (dict_log d), mt_pending := []\<rparr>)"
    and "meta_repr (snd (FlushPending m)) (dict_log d)"
proof -
  obtain k where k: "k \<le> length d" "mt_file m = be_put 4 metaMagic @ entries_bytes (take k (dict_log d))"
      "mt_pending m = entries_bytes (drop k (dict_log d))"
    using r by (auto simp: meta_repr_def)
  have "entries_bytes (take k (dict_log d)) @ entries_bytes (drop k (dict_log d)) = entries_bytes (dict_log d)"
    by (simp flip: entries_bytes_simps(3))
  then show eq: "FlushPending m = (None, m\<lparr>mt_file := be_put 4 metaMagic @ entries_bytes (dict_log d), mt_pending := []\<rparr>)"
    using r k by (cases m) (auto simp: FlushPending_def flushPendingLocked_def meta_repr_def)
  show "meta_repr (snd (FlushPending m)) (dict_log d)"
    using r unfolding eq by (auto simp: meta_repr_def intro!: exI [of _ "length d"])
qed

lemma set_sm_Range: "set (sm_Range order (\<lambda>_ _. True) m) = {(k, v). k \<in> set order \<and> m k = Some v}"
  by (induction order) (auto split: option.splits)

lemma fold_place_columns:
  "length (fold (\<lambda>(k, u) cs. cs[unat (u - 1) := Some u]) vs cs) = length cs"
  "i < length cs \<Longrightarrow> fold (\<lambda>(k, u) cs. cs[unat (u - 1) := Some u]) vs cs ! i
     = (if \<exists>(k, u) \<in> set vs. unat (u - 1 :: u32) = i then Some (of_nat (Suc i)) else cs ! i)"
proof (induction vs arbitrary: cs)
  case (Cons v vs)
  obtain k u where v: "v = (k, u)" by (cases v)
  {
    case 1 then show ?case using Cons.IH(1) by (simp add: v)
  next
    case 2
    have "u = of_nat (Suc i)" if "unat (u - 1) = i" using that by (auto simp del: unat_1 unat_sub_if_size)
    then show ?case using 2 Cons.IH(2) by (auto simp: v nth_list_update split: if_splits)
  }
qed auto

lemma BuildColumn_repr:
  assumes new: "NewMeta disk slots = Inr m" "meta_repr m (dict_log d)" and mx: "length d \<le> unat maxColumnTag" and order: "set d \<subseteq> set order"
  shows "\<exists>t. BuildColumn disk slots order = Ok (Inr t) \<and> tt_Meta t = m \<and> table_refines t d"
proof -
  have dist: "distinct d" using new(2) by (simp add: meta_repr_def log_ok_dict_log)
  have map: "mt_SyncMap m = map_of (dict_log d)" and n: "unat (mt_MaxPointDict m) = length d"
    using new(2) mx by (simp_all add: meta_repr_def unat_of_nat_u32 max_tag)
  let ?vs = "sm_Range order (\<lambda>_ _. True) (mt_SyncMap m)"
  have vs: "set ?vs = set (dict_log d)"
    using order dist unfolding set_sm_Range map
    by (auto simp: map_of_eq_Some_iff) (metis dict_log_tags image_eqI list.set_map fst_conv subsetD)
  have pos: "unat ((of_nat (Suc i) :: u32) - 1) = i" if "i < length d" for i
    using that mx by (simp add: unat_of_nat_u32 max_tag)
  have safe: "\<not> list_ex (\<lambda>(k, u). unat (u - 1) \<ge> length d) ?vs"
    unfolding list_ex_iff vs using pos by (auto simp: dict_log_def simp del: of_nat_Suc)
  have hit: "\<exists>(k, u) \<in> set ?vs. unat (u - 1) = i" if "i < length d" for i
    unfolding vs using pos [OF that] that by (auto simp: dict_log_def simp del: of_nat_Suc intro!: bexI [of _ "(d ! i, of_nat (Suc i))"])
  have "fold (\<lambda>(k, u) cs. cs[unat (u - 1) := Some u]) ?vs (replicate (length d) None) = dict_columns d"
    using hit by (intro nth_equalityI) (simp_all add: fold_place_columns dict_columns_def del: of_nat_Suc)
  then show ?thesis using new mx safe n by (simp add: BuildColumn_def Let_def table_refines_def)
qed

section \<open>Runs, crashes and reopening\<close>

datatype tag_op = OpCreate bytes | OpFlush

fun tag_step :: "tag_op \<Rightarrow> tag_table \<Rightarrow> tag_table" where
  "tag_step (OpCreate tag) t = (case CreateColumn tag t of Ok (_, t') \<Rightarrow> t' | _ \<Rightarrow> t)"
| "tag_step OpFlush t = t\<lparr>tt_Meta := snd (FlushPending (tt_Meta t))\<rparr>"

fun spec_step :: "tag_op \<Rightarrow> bytes list \<Rightarrow> bytes list" where
  "spec_step (OpCreate tag) d = snd (spec_create tag d)"
| "spec_step OpFlush d = d"

fun short_op :: "tag_op \<Rightarrow> bool" where
  "short_op (OpCreate tag) \<longleftrightarrow> length tag < 2 ^ 16"
| "short_op OpFlush \<longleftrightarrow> True"

definition open_table :: "bytes option \<Rightarrow> int \<Rightarrow> bytes list \<Rightarrow> tag_table" where
  "open_table disk slots order = (case BuildColumn disk slots order of Ok (Inr t) \<Rightarrow> t | _ \<Rightarrow> undefined)"

lemma tag_step_refines: "table_refines t d \<Longrightarrow> short_op x \<Longrightarrow> table_refines (tag_step x t) (spec_step x d)"
  by (cases x) (auto dest: CreateColumn_refines, auto simp: table_refines_def FlushPending_repr(2))

lemma tag_steps_refine: "table_refines t d \<Longrightarrow> list_all short_op xs \<Longrightarrow> table_refines (fold tag_step xs t) (fold spec_step xs d)"
  by (induction xs arbitrary: t d) (auto dest: tag_step_refines)

lemma spec_steps_extend: "\<exists>ys. fold spec_step xs d = d @ ys"
proof (induction xs arbitrary: d)
  case (Cons x xs)
  have "\<exists>zs. snd (spec_create tag d) = d @ zs" for tag by (auto simp: spec_create_def)
  then obtain zs where "spec_step x d = d @ zs" by (cases x) auto
  then show ?case using Cons.IH [of "d @ zs"] by auto
qed simp

lemma NewMeta_none: "slots < 2 ^ 64 \<Longrightarrow> NewMeta None slots = Inr (initFile (fresh_meta slots)) \<and> meta_repr (initFile (fresh_meta slots)) (dict_log [])"
proof -
  assume "slots < 2 ^ 64"
  then have "0 < nat (if slots > 0 then slots else defaultTagCacheSlots)" "nat (if slots > 0 then slots else defaultTagCacheSlots) < 2 ^ 64"
    by (auto simp: defaultTagCacheSlots_def nat_less_iff)
  moreover have "sk.agrees (NewStringKeyCache n) (map_of (dict_log []))" "log_ok (dict_log [])" for n
    by (simp_all add: new_cache_agrees log_ok_dict_log)
  ultimately show ?thesis unfolding NewMeta_def meta_repr_def initFile_def fresh_meta_def Let_def
    by (intro conjI exI [of _ 0]) (simp_all add: dict_log_def NewStringKeyCache_def)
qed

lemma open_table_none: "slots < 2 ^ 64 \<Longrightarrow> BuildColumn None slots order = Ok (Inr (open_table None slots order)) \<and> table_refines (open_table None slots order) []"
  using BuildColumn_repr [of None slots _ "[]" order] NewMeta_none [of slots] by (auto simp: open_table_def)

text \<open>The file after any operations holds a prefix of the log, and after a flush all of it.\<close>

lemma meta_file: "meta_repr m es \<Longrightarrow> \<exists>k \<le> length es. mt_file m = be_put 4 metaMagic @ entries_bytes (take k es)"
  by (auto simp: meta_repr_def)

lemma open_cut_table:
  assumes r: "table_refines t d" and n: "metaHeadLen \<le> n" "n \<le> length (mt_file (tt_Meta t))" and slots: "slots < 2 ^ 64" and order: "set d \<subseteq> set order"
  shows "\<exists>t' j. BuildColumn (Some (take n (mt_file (tt_Meta t)))) slots order = Ok (Inr t') \<and> table_refines t' (take j d) \<and> j \<le> length d \<and>
           (j < length d \<longrightarrow> n < metaHeadLen + length (entries_bytes (dict_log (take (Suc j) d))))"
proof -
  have mr: "meta_repr (tt_Meta t) (dict_log d)" and mx: "length d \<le> unat maxColumnTag" using r by (auto simp: table_refines_def)
  obtain k where k: "k \<le> length d" "mt_file (tt_Meta t) = be_put 4 metaMagic @ entries_bytes (take k (dict_log d))"
    using meta_file [OF mr] by auto
  let ?n = "n - metaHeadLen"
  have whole: "entries_bytes (dict_log d) = entries_bytes (take k (dict_log d)) @ entries_bytes (drop k (dict_log d))"
    by (simp flip: entries_bytes_simps(3))
  have nk: "?n \<le> length (entries_bytes (take k (dict_log d)))" using n k(2) by (simp add: metaHeadLen_def)
  then have "?n \<le> length (entries_bytes (dict_log d))" unfolding whole by simp
  moreover have "log_ok (dict_log d)" using mr by (simp add: meta_repr_def)
  ultimately obtain j m where j: "j \<le> length d" "NewMeta (Some (be_put 4 metaMagic @ take ?n (entries_bytes (dict_log d)))) slots = Inr m"
      "meta_repr m (take j (dict_log d))" "j < length d \<longrightarrow> ?n < length (entries_bytes (take (Suc j) (dict_log d)))"
    using NewMeta_log [of "dict_log d" ?n slots] slots by auto
  have "take n (mt_file (tt_Meta t)) = be_put 4 metaMagic @ take ?n (entries_bytes (dict_log d))"
    using n(1) nk unfolding k(2) whole by (simp add: metaHeadLen_def)
  moreover have "set (take j d) \<subseteq> set order" using order set_take_subset [of j d] by blast
  moreover obtain t' where "BuildColumn (Some (be_put 4 metaMagic @ take ?n (entries_bytes (dict_log d)))) slots order = Ok (Inr t')"
      "table_refines t' (take j d)"
    using BuildColumn_repr [OF j(2), of "take j d" order] j(3) mx \<open>set (take j d) \<subseteq> set order\<close>
    by (auto simp: take_dict_log min.coboundedI1)
  ultimately show ?thesis
    using j(1,4) n(1) by (intro exI [of _ t'] exI [of _ j]) (auto simp: take_dict_log)
qed

text \<open>\<^bold>\<open>C21\<close>: the tag dictionary of a new table is a dictionary: after any sequence of column creations (of tags shorter
  than 64 KiB) and flushes, creating a column never panics and answers as the abstract dictionary does.  A tag already known
  gets the code it got first, whatever the hot-tag cache holds, a new one the next code in order, and the limit on the number of columns is an
  error; and the column array has the column of every code at its position.\<close>

theorem tag_codes_are_stable:
  assumes "slots < 2 ^ 64" "list_all short_op ops" "length tag < 2 ^ 16"
  shows "\<exists>t0 t. BuildColumn None slots order = Ok (Inr t0) \<and>
           CreateColumn tag (fold tag_step ops t0) = Ok (fst (spec_create tag (fold spec_step ops [])), t) \<and>
           tt_columns t = dict_columns (snd (spec_create tag (fold spec_step ops [])))"
  using CreateColumn_refines [OF tag_steps_refine [OF conjunct2 [OF open_table_none [OF assms(1)]] assms(2)] assms(3), of order]
    open_table_none [OF assms(1), of order]
  by (auto simp: table_refines_def)

theorem tag_codes_are_stable_witness:
  "\<exists>t0 t. BuildColumn None 4 [] = Ok (Inr t0) \<and>
     CreateColumn [1] (fold tag_step [OpCreate [1], OpFlush, OpCreate [2]] t0) = Ok (Inr 1, t) \<and> tt_columns t = [Some 1, Some 2]"
proof -
  have "fst (spec_create [1] (fold spec_step [OpCreate [1], OpFlush, OpCreate [2]] [])) = Inr 1"
    "dict_columns (snd (spec_create [1] (fold spec_step [OpCreate [1], OpFlush, OpCreate [2]] []))) = [Some 1, Some 2]"
    by (simp_all add: spec_create_def spec_code_def dict_columns_def max_tag)
  then show ?thesis using tag_codes_are_stable [of 4 "[OpCreate [1], OpFlush, OpCreate [2]]" "[1]" "[]"] by simp
qed

text \<open>\<^bold>\<open>C20\<close>: what was flushed survives a crash.  After operations \<open>xs\<close>, a flush and operations \<open>ys\<close>, a crash leaves the file cut at any byte
  from where the flush left it; reopening then succeeds without a panic and gives a dictionary that starts with every tag known at
  the flush, holds only tags that had been created, with the codes they had, and has its columns in place.\<close>

theorem flushed_tags_survive:
  assumes "slots < 2 ^ 64" "list_all short_op (xs @ ys)"
    and t1: "t1 = fold tag_step (xs @ [OpFlush]) (open_table None slots [])" and d1: "d1 = fold spec_step xs []"
    and n: "length (mt_file (tt_Meta t1)) \<le> n" "n \<le> length (mt_file (tt_Meta (fold tag_step ys t1)))"
    and order: "set (fold spec_step ys d1) \<subseteq> set order"
  shows "\<exists>t' added rest. BuildColumn (Some (take n (mt_file (tt_Meta (fold tag_step ys t1))))) slots order = Ok (Inr t') \<and>
           table_refines t' (d1 @ added) \<and> d1 @ added @ rest = fold spec_step ys d1"
proof -
  let ?t2 = "fold tag_step ys t1" and ?d2 = "fold spec_step ys d1"
  let ?t = "fold tag_step xs (open_table None slots [])"
  have rt: "table_refines ?t d1" unfolding d1 using open_table_none [OF assms(1), of "[]"] assms(2) by (intro tag_steps_refine) auto
  have r1: "table_refines t1 d1" unfolding t1 using tag_step_refines [OF rt, of OpFlush] by simp
  have r2: "table_refines ?t2 ?d2" using r1 assms(2) by (intro tag_steps_refine) auto
  have "mt_file (tt_Meta t1) = be_put 4 metaMagic @ entries_bytes (dict_log d1)"
    using FlushPending_repr(1) [of "tt_Meta ?t" d1] rt by (simp add: t1 table_refines_def)
  then have len1: "length (mt_file (tt_Meta t1)) = metaHeadLen + length (entries_bytes (dict_log d1))" by (simp add: metaHeadLen_def)
  obtain t' j where t': "BuildColumn (Some (take n (mt_file (tt_Meta ?t2)))) slots order = Ok (Inr t')" "table_refines t' (take j ?d2)" "j \<le> length ?d2"
      "j < length ?d2 \<longrightarrow> n < metaHeadLen + length (entries_bytes (dict_log (take (Suc j) ?d2)))"
    using open_cut_table [OF r2 _ n(2) assms(1) order] n(1) len1 by auto
  obtain e where e: "?d2 = d1 @ e" using spec_steps_extend by blast
  have "length d1 \<le> j"
  proof (rule ccontr)
    assume "\<not> length d1 \<le> j"
    then have j: "Suc j \<le> length d1" by simp
    then have "take (Suc j) ?d2 = take (Suc j) d1" by (simp add: e)
    moreover have "entries_bytes (dict_log d1) = entries_bytes (take (Suc j) (dict_log d1)) @ entries_bytes (drop (Suc j) (dict_log d1))"
      by (simp flip: entries_bytes_simps(3))
    ultimately show False using t'(4) j n(1) len1 e by (simp add: take_dict_log)
  qed
  then have "take j ?d2 = d1 @ take (j - length d1) e" "d1 @ take (j - length d1) e @ drop (j - length d1) e = ?d2" by (simp_all add: e)
  then show ?thesis using t'(1,2) by metis
qed

text \<open>A crash while the entry of the tag \<open>[2]\<close> is being written: the flushed tag \<open>[1]\<close> is recovered.\<close>

theorem flushed_tags_survive_witness:
  "\<exists>t' added rest. BuildColumn (Some (take 17 (mt_file (tt_Meta (fold tag_step [OpCreate [2], OpFlush] (fold tag_step [OpCreate [1], OpFlush] (open_table None 4 []))))))) 4 [[1], [2]]
     = Ok (Inr t') \<and> table_refines t' ([[1]] @ added) \<and> [[1]] @ added @ rest = [[1], [2]]"
proof -
  let ?t1 = "fold tag_step ([OpCreate [1]] @ [OpFlush]) (open_table None 4 [])" and ?t2 = "fold tag_step [OpCreate [2], OpFlush]"
  have d1: "fold spec_step [OpCreate [1]] [] = [[1]]" and d2: "fold spec_step [OpCreate [2], OpFlush] [[1]] = [[1], [2]]"
    by (simp_all add: spec_create_def max_tag)
  have r0: "table_refines (open_table None 4 []) []" using open_table_none [of 4 "[]"] by simp
  have log: "mt_file (tt_Meta (fold tag_step (xs @ [OpFlush]) t)) = be_put 4 metaMagic @ entries_bytes (dict_log (fold spec_step xs d))"
    if "table_refines t d" "list_all short_op xs" for xs t d
    using FlushPending_repr(1) [of "tt_Meta (fold tag_step xs t)" "fold spec_step xs d"] tag_steps_refine [OF that] by (simp add: table_refines_def)
  have f1: "length (mt_file (tt_Meta ?t1)) = 15" using log [OF r0, of "[OpCreate [1]]"] d1 by (simp add: dict_log_def)
  have r1: "table_refines ?t1 [[1]]" using tag_steps_refine [OF r0, of "[OpCreate [1]] @ [OpFlush]"] d1 by simp
  have f2: "length (mt_file (tt_Meta (?t2 ?t1))) = 26"
    using log [OF r1, of "[OpCreate [2]]"] d2 by (simp add: dict_log_def)
  show ?thesis
    using flushed_tags_survive [of 4 "[OpCreate [1]]" "[OpCreate [2], OpFlush]" ?t1 "[[1]]" 17 "[[1], [2]]"] d1 d2 f1 f2 by simp
qed

section \<open>Two limits the code does not check\<close>

lemma readEntries_unfold:
  "fst (readEntries d pos m mx) = m \<or>
   (\<exists>tag code pos' mx'. pos < length d \<and> pos < pos' \<and> length tag < 65536 \<and>
      readEntries d pos m mx = readEntries d pos' (m(tag \<mapsto> code)) mx')"
proof -
  let ?rest = "drop pos d" let ?tl = "unat (be_get (take 2 ?rest) :: 16 word)"
  let ?go = "?rest \<noteq> [] \<and> 2 \<le> length ?rest \<and> ?tl \<le> 65535 \<and> 2 + ?tl + 4 + 4 \<le> length ?rest \<and>
     computeEntryCRC (take 2 ?rest) (take ?tl (drop 2 ?rest)) (take 4 (drop (2 + ?tl) ?rest)) = be_get (take 4 (drop (2 + ?tl + 4) ?rest))"
  show ?thesis
  proof (cases ?go)
    case False
    then have "fst (readEntries d pos m mx) = m" by (subst readEntries.simps) (auto simp: Let_def)
    then show ?thesis ..
  next
    case True
    then have "2 + ?tl \<le> length ?rest" "2 + ?tl + 4 \<le> length ?rest" by linarith+
    with True have "readEntries d pos m mx = readEntries d (pos + (2 + ?tl + 4 + 4)) (m(take ?tl (drop 2 ?rest) \<mapsto> be_get (take 4 (drop (2 + ?tl) ?rest))))
        (if be_get (take 4 (drop (2 + ?tl) ?rest)) > mx then be_get (take 4 (drop (2 + ?tl) ?rest)) else mx)"
      by (subst readEntries.simps) (simp only: Let_def sm_Store_def if_False if_True not_less [symmetric] simp_thms)
    moreover have "pos < length d" "pos < pos + (2 + ?tl + 4 + 4)" "length (take ?tl (drop 2 ?rest)) < 65536" using True by auto
    ultimately show ?thesis by metis
  qed
qed

lemma readEntries_short_tags:
  "\<forall>t c. m t = Some c \<longrightarrow> length t < 65536 \<Longrightarrow> fst (readEntries d pos m mx) t = Some c \<Longrightarrow> length t < 65536"
proof (induction "length d - pos" arbitrary: pos m mx rule: less_induct)
  case less
  consider (stop) "fst (readEntries d pos m mx) = m"
    | (step) tag code pos' mx' where "pos < length d" "pos < pos'" "length tag < 65536"
        "readEntries d pos m mx = readEntries d pos' (m(tag \<mapsto> code)) mx'"
    using readEntries_unfold [of d pos m mx] by (elim disjE exE conjE) (rule that; assumption)+
  then show ?case
  proof cases
    case stop
    then show ?thesis using less.prems by simp
  next
    case step
    then have "length d - pos' < length d - pos" by linarith
    moreover have "\<forall>t c. (m(tag \<mapsto> code)) t = Some c \<longrightarrow> length t < 65536" using less.prems(1) step(3) by auto
    ultimately show ?thesis using less.hyps less.prems(2) step(4) by metis
  qed
qed

text \<open>A tag of 64 KiB or more is accepted and lost.  On any table such a run reaches, creating a column for a new tag whose length does
  not fit the 16-bit length field succeeds like any other and the flush that follows reports success, but no opening of
  the resulting file, or of any file at all, brings the tag back.\<close>

theorem long_tag_is_lost:
  assumes r: "table_refines t d" and new: "tag \<notin> set d" "length d < unat maxColumnTag" and long: "2 ^ 16 \<le> length tag"
  shows "\<exists>t' m'. CreateColumn tag t = Ok (Inr (of_nat (Suc (length d))), t') \<and> mt_SyncMap (tt_Meta t') tag \<noteq> None \<and>
           FlushPending (tt_Meta t') = (None, m') \<and>
           (case NewMeta (Some (mt_file m')) slots of Inl e \<Rightarrow> True | Inr m'' \<Rightarrow> mt_SyncMap m'' tag = None)"
proof -
  let ?m = "tt_Meta t"
  have mr: "meta_repr ?m (dict_log d)" and open': "mt_open ?m" using r by (auto simp: table_refines_def meta_repr_def)
  have d: "distinct d" using mr by (simp add: meta_repr_def log_ok_dict_log)
  obtain c where c: "mt_Load tag ?m = Ok (map_of (dict_log d) tag, ?m\<lparr>mt_tagCache := c\<rparr>)" "meta_repr (?m\<lparr>mt_tagCache := c\<rparr>) (dict_log d)"
    using mt_Load_repr [OF mr] by blast
  have MPD: "mt_MaxPointDict ?m = of_nat (length d)" using mr by (simp add: meta_repr_def)
  have "mt_MaxPointDict ?m \<noteq> maxColumnTag"
    using new(2) unfolding MPD word_unat_eq_iff by (simp add: unat_of_nat_u32 max_tag)
  then obtain t' where t': "CreateColumn tag t = Ok (Inr (of_nat (Suc (length d))), t')" "mt_SyncMap (tt_Meta t') tag \<noteq> None" "mt_open (tt_Meta t')"
    using c new(1) MPD open' by (auto simp: CreateColumn_def map_of_dict_log [OF d] addTag_def Let_def sm_Store_def add.commute)
  have lost: "mt_SyncMap m'' tag = None" if "NewMeta (Some f) slots = Inr m''" for f m''
    using that readEntries_short_tags [of Map.empty f metaHeadLen 0 tag] long
    by (auto simp: NewMeta_def Let_def initFile_def fresh_meta_def split: if_splits prod.splits intro: option.exhaust [of "_ tag"])
  have "\<exists>m'. FlushPending (tt_Meta t') = (None, m')" using t'(3) by (auto simp: FlushPending_def flushPendingLocked_def)
  then show ?thesis using t' lost by (auto split: sum.splits)
qed

theorem long_tag_is_lost_witness:
  "\<exists>t' m'. CreateColumn (replicate 70000 1) (open_table None 4 []) = Ok (Inr 1, t') \<and> FlushPending (tt_Meta t') = (None, m') \<and>
     (case NewMeta (Some (mt_file m')) 4 of Inl e \<Rightarrow> True | Inr m'' \<Rightarrow> mt_SyncMap m'' (replicate 70000 1) = None)"
proof -
  have "(replicate 70000 1 :: bytes) \<notin> set []" "2 ^ 16 \<le> length (replicate 70000 1 :: bytes)" by simp_all
  then show ?thesis
    using long_tag_is_lost [OF conjunct2 [OF open_table_none [of 4 "[]"]], of "replicate 70000 1" 4] by (auto simp: max_tag)
qed

lemma npt_loop_step: "p < n \<Longrightarrow> 2 * p < 2 ^ 63 \<Longrightarrow> 0 < p \<Longrightarrow> npt_loop (Suc f) n p = npt_loop f n (2 * p)"
  by (simp add: wrap64_id mult.commute)

lemma npt_loop_finds:
  "n \<le> 2 ^ 62 \<Longrightarrow> k + f = 64 \<Longrightarrow> k \<le> 62 \<Longrightarrow> k = 0 \<or> (2 :: int) ^ (k - 1) < n \<Longrightarrow> 1 \<le> n \<Longrightarrow>
   \<exists>j \<le> 62. npt_loop f n (2 ^ k) = Some (2 ^ j) \<and> n \<le> 2 ^ j \<and> (j = 0 \<or> 2 ^ (j - 1) < n)"
proof (induction f arbitrary: k)
  case (Suc f)
  show ?case
  proof (cases "(2 :: int) ^ k < n")
    case True
    then have "(2 :: int) ^ k < 2 ^ 62" using Suc.prems(1) by linarith
    then have "k < 62" by (rule power_less_imp_less_exp [rotated]) simp
    then have k: "Suc k \<le> 62" by simp
    have "(2 :: int) ^ Suc k < 2 ^ 63" using k by (intro power_strict_increasing) simp_all
    then show ?thesis
      using Suc.IH [of "Suc k"] Suc.prems k True npt_loop_step [of "2 ^ k" n f] by (simp del: npt_loop.simps)
  next
    case False
    then show ?thesis using Suc.prems by auto
  qed
qed simp

lemma npt_zero: "0 < n \<Longrightarrow> npt_loop f n 0 = None"
  by (induction f) (simp_all add: wrap64_def)

lemma npt_overflows:
  assumes "2 ^ 62 < n" "n < 2 ^ 63"
  shows "k \<le> 62 \<Longrightarrow> npt_loop f n (2 ^ k) = None"
proof (induction f arbitrary: k)
  case (Suc f)
  have "(2 :: int) ^ k \<le> 2 ^ 62" using Suc.prems by (intro power_increasing) simp_all
  then have lt: "(2 :: int) ^ k < n" using assms by linarith
  show ?case
  proof (cases "k = 62")
    case True
    have "npt_loop f n (- (2 ^ 63)) = None"
      using assms(1) by (cases f) (simp_all add: wrap64_def npt_zero)
    moreover have "wrap64 (2 ^ 62 * 2) = - (2 ^ 63)" by (simp add: wrap64_def)
    ultimately show ?thesis using lt True by simp
  next
    case False
    then have k: "Suc k \<le> 62" using Suc.prems by simp
    have "(2 :: int) ^ Suc k < 2 ^ 63" using k by (intro power_strict_increasing) simp_all
    then show ?thesis using Suc.IH [OF k] lt npt_loop_step [of "2 ^ k" n f] by (simp del: npt_loop.simps)
  qed
qed simp

text \<open>\<^bold>\<open>C40\<close>: the rounding of the cache size ends and is exact for every request up to $2^{62}$: it gives the least power of two that is not below it
  (65536 for none), so the cache's index mask is right; for a larger request the doubling overflows to zero and the loop never ends.\<close>

theorem nextPowerOfTwo_ends:
  "(1 \<le> n \<and> n \<le> 2 ^ 62 \<longrightarrow> (\<exists>j \<le> 62. nextPowerOfTwo 64 n = Some (2 ^ j) \<and> n \<le> 2 ^ j \<and> (j = 0 \<or> 2 ^ (j - 1) < n))) \<and>
   (n \<le> 0 \<longrightarrow> nextPowerOfTwo 64 n = Some (2 ^ 16)) \<and>
   (2 ^ 62 < n \<and> n < 2 ^ 63 \<longrightarrow> (\<forall>fuel. nextPowerOfTwo fuel n = None))"
  using npt_loop_finds [of n 0 64] npt_overflows [of n 0] by (auto simp: nextPowerOfTwo_def defaultTagCacheSlots_def)

theorem nextPowerOfTwo_ends_witness: "\<exists>j \<le> 62. nextPowerOfTwo 64 1000 = Some (2 ^ j) \<and> 1000 \<le> (2 :: int) ^ j \<and> (j = 0 \<or> 2 ^ (j - 1) < (1000 :: int))"
  using nextPowerOfTwo_ends [of 1000] by simp

end
