(* ===== verification/Wal_Buffer.thy ===== *)
theory Wal_Buffer
  imports Prelude
begin

text \<open>
  The in-memory read cache of the write-ahead log, \<^verbatim>\<open>walReadBuffer\<close> of \<^verbatim>\<open>tsdb/file_wal.go\<close>: chunks of three parallel
  arrays, a lazily built index per full chunk, and reuse after a rotation.  Its contract is that it is a list of entries.  Values are
  dynamically typed variants, a parameter; sizes are natural numbers.
\<close>

section \<open>The external \<^verbatim>\<open>variant\<close> package, as the log uses it\<close>

record 'v wal_ops =
  wv_Zero :: 'v
  wv_AppendBinary :: "'v \<Rightarrow> bytes"
  wv_IsBinaryFormat :: "bytes \<Rightarrow> bool"
  wv_UnmarshalBinary :: "bytes \<Rightarrow> 'v option"
  wv_UnmarshalJSON :: "bytes \<Rightarrow> 'v option"
  wv_IsEqual :: "'v \<Rightarrow> 'v \<Rightarrow> bool"
  wv_IsReference :: "'v \<Rightarrow> bool"
  wv_Size :: nat

section \<open>Entries and calls that may stop\<close>

record 'v walDataEntry =
  we_EndPosition :: int
  we_Key :: u32
  we_Timestamp :: int
  we_Value :: 'v

type_synonym 'v wal_item = "u32 \<times> int \<times> 'v"

text \<open>Go's iteration with a callback: it stops when the callback returns false, and the callback updates the caller's state.\<close>

fun each_until :: "('e \<Rightarrow> 's \<Rightarrow> bool \<times> 's) \<Rightarrow> 'e list \<Rightarrow> 's \<Rightarrow> bool \<times> 's" where
  "each_until f [] s = (True, s)"
| "each_until f (e # es) s = (case f e s of (True, s') \<Rightarrow> each_until f es s' | (False, s') \<Rightarrow> (False, s'))"

lemma each_until_append:
  "each_until f (xs @ ys) s = (case each_until f xs s of (True, s') \<Rightarrow> each_until f ys s' | (False, s') \<Rightarrow> (False, s'))"
  by (induction xs arbitrary: s) (auto split: prod.splits bool.splits)

lemma each_until_all: "(\<And>e s. fst (f e s)) \<Longrightarrow> each_until f es s = (True, fold (\<lambda>e s. snd (f e s)) es s)"
proof (induction es arbitrary: s)
  case (Cons e es)
  obtain s' where "f e s = (True, s')" using Cons.prems [of e s] by (cases "f e s") auto
  then show ?case using Cons by simp
qed simp

section \<open>Chunks\<close>

record 'v walReadChunk =
  wc_keys :: "u32 list"
  wc_timestamps :: "int list"
  wc_values :: "'v list"

type_synonym walReadChunkIndex = "u32 \<rightharpoonup> nat list"

record 'v walReadBuffer =
  rb_chunks :: "'v walReadChunk list"
  rb_activeChunks :: nat
  rb_total :: nat
  rb_chunkCap :: nat
  rb_hasReferences :: bool
  rb_tagIndexes :: "walReadChunkIndex option list"
  rb_tagIndexSize :: nat

definition maxWALTagIndexBytes :: nat where "maxWALTagIndexBytes = 8 * 2 ^ 20"
definition minIndexedChunkEntries :: nat where "minIndexedChunkEntries = 512"
definition maxRetainedWALReadBufferBytes :: nat where "maxRetainedWALReadBufferBytes = 12 * 2 ^ 20"

definition empty_chunk :: "'v walReadChunk" where
  "empty_chunk = \<lparr>wc_keys = [], wc_timestamps = [], wc_values = []\<rparr>"

definition newWalReadBuffer :: "nat \<Rightarrow> 'v walReadBuffer" where
  "newWalReadBuffer cap = \<lparr>rb_chunks = [], rb_activeChunks = 0, rb_total = 0, rb_chunkCap = cap, rb_hasReferences = False,
     rb_tagIndexes = [], rb_tagIndexSize = 0\<rparr>"

definition chunk_push :: "u32 \<Rightarrow> int \<Rightarrow> 'v \<Rightarrow> 'v walReadChunk \<Rightarrow> 'v walReadChunk" where
  "chunk_push k t v c = \<lparr>wc_keys = wc_keys c @ [k], wc_timestamps = wc_timestamps c @ [t], wc_values = wc_values c @ [v]\<rparr>"

text \<open>\<open>ensure_room\<close> is the first half of \<^verbatim>\<open>appendValue\<close>: a new active chunk when there is none or the last is full.\<close>

definition ensure_room :: "'v walReadBuffer \<Rightarrow> 'v walReadBuffer" where
  "ensure_room b =
     (if rb_activeChunks b = 0 \<or> rb_chunkCap b \<le> length (wc_keys (rb_chunks b ! (rb_activeChunks b - 1)))
      then b\<lparr>rb_chunks := (if rb_activeChunks b = length (rb_chunks b) then rb_chunks b @ [empty_chunk] else rb_chunks b),
              rb_activeChunks := Suc (rb_activeChunks b)\<rparr>
      else b)"

definition appendValue :: "'v wal_ops \<Rightarrow> u32 \<Rightarrow> int \<Rightarrow> 'v \<Rightarrow> 'v walReadBuffer \<Rightarrow> 'v walReadBuffer" where
  "appendValue V k t v b0 =
     (let b = ensure_room b0; i = rb_activeChunks b - 1
      in b\<lparr>rb_chunks := (rb_chunks b)[i := chunk_push k t v (rb_chunks b ! i)],
           rb_hasReferences := (if \<not> rb_hasReferences b then wv_IsReference V v else True),
           rb_total := Suc (rb_total b)\<rparr>)"

definition rb_append :: "'v wal_ops \<Rightarrow> 'v walDataEntry \<Rightarrow> 'v walReadBuffer \<Rightarrow> 'v walReadBuffer" where
  "rb_append V e b = appendValue V (we_Key e) (we_Timestamp e) (we_Value e) b"

text \<open>The index of a chunk: for every key the ascending positions it is at.\<close>

definition index_of_keys :: "u32 list \<Rightarrow> walReadChunkIndex" where
  "index_of_keys keys =
     fold (\<lambda>(j, k) m. m(k \<mapsto> (case m k of None \<Rightarrow> [] | Some ps \<Rightarrow> ps) @ [j])) (enumerate 0 keys) Map.empty"

definition tagIndex :: "nat \<Rightarrow> u32 list \<Rightarrow> 'v walReadBuffer \<Rightarrow> walReadChunkIndex option \<times> 'v walReadBuffer" where
  "tagIndex c keys b =
     (if c < length (rb_tagIndexes b) \<and> rb_tagIndexes b ! c \<noteq> None then (rb_tagIndexes b ! c, b)
      else if length keys < minIndexedChunkEntries \<or> maxWALTagIndexBytes \<le> rb_tagIndexSize b then (None, b)
      else
        (let idx = index_of_keys keys;
             ixs = rb_tagIndexes b @ replicate (Suc c - length (rb_tagIndexes b)) None
         in (Some idx, b\<lparr>rb_tagIndexes := ixs[c := Some idx],
                         rb_tagIndexSize := rb_tagIndexSize b + card (set keys) * 56 + length keys * 4\<rparr>)))"

definition clear_chunk :: "'v walReadChunk \<Rightarrow> 'v walReadChunk" where
  "clear_chunk c = \<lparr>wc_keys = [], wc_timestamps = [], wc_values = []\<rparr>"

definition resetForReuse :: "'v wal_ops \<Rightarrow> nat \<Rightarrow> 'v walReadBuffer \<Rightarrow> 'v walReadBuffer" where
  "resetForReuse V maxRetained b =
     (let cleared = map clear_chunk (take (rb_activeChunks b) (rb_chunks b)) @ drop (rb_activeChunks b) (rb_chunks b);
          chunkBytes = rb_chunkCap b * (4 + 8 + wv_Size V);
          maxChunks = (if 0 < chunkBytes \<and> 0 < maxRetained then min (length (rb_chunks b)) (maxRetained div chunkBytes) else 0)
      in b\<lparr>rb_tagIndexes := [], rb_tagIndexSize := 0, rb_chunks := take maxChunks cleared,
           rb_activeChunks := 0, rb_total := 0, rb_hasReferences := False\<rparr>)"

definition chunk_items :: "'v walReadChunk \<Rightarrow> 'v wal_item list" where
  "chunk_items c = zip (wc_keys c) (zip (wc_timestamps c) (wc_values c))"

fun forEach_chunks :: "('v wal_item \<Rightarrow> 's \<Rightarrow> bool \<times> 's) \<Rightarrow> 'v walReadChunk list \<Rightarrow> 's \<Rightarrow> bool \<times> 's" where
  "forEach_chunks f [] s = (True, s)"
| "forEach_chunks f (c # cs) s =
     (case each_until f (chunk_items c) s of (True, s') \<Rightarrow> forEach_chunks f cs s' | (False, s') \<Rightarrow> (False, s'))"

definition rb_forEach :: "('v wal_item \<Rightarrow> 's \<Rightarrow> bool \<times> 's) \<Rightarrow> 'v walReadBuffer \<Rightarrow> 's \<Rightarrow> bool \<times> 's" where
  "rb_forEach f b = forEach_chunks f (take (rb_activeChunks b) (rb_chunks b))"

definition appendMatching :: "(int \<times> 'v) list \<Rightarrow> u32 \<Rightarrow> int \<Rightarrow> int \<Rightarrow> 'v walReadBuffer \<Rightarrow> (int \<times> 'v) list" where
  "appendMatching dst tag st en b =
     fold (\<lambda>c dst. fold (\<lambda>(k, t, v) dst. if k \<noteq> tag then dst else if st \<le> t \<and> t \<le> en then dst @ [(t, v)] else dst) (chunk_items c) dst)
       (take (rb_activeChunks b) (rb_chunks b)) dst"

section \<open>A buffer is a list of entries\<close>

definition chunk_ok :: "nat \<Rightarrow> 'v walReadChunk \<Rightarrow> bool" where
  "chunk_ok cap c \<longleftrightarrow> length (wc_timestamps c) = length (wc_keys c) \<and> length (wc_values c) = length (wc_keys c) \<and> length (wc_keys c) \<le> cap"

definition rb_items :: "'v walReadBuffer \<Rightarrow> 'v wal_item list" where
  "rb_items b = concat (map chunk_items (take (rb_activeChunks b) (rb_chunks b)))"

definition rb_ok :: "'v wal_ops \<Rightarrow> 'v walReadBuffer \<Rightarrow> bool" where
  "rb_ok V b \<longleftrightarrow> rb_activeChunks b \<le> length (rb_chunks b) \<and> 0 < rb_chunkCap b \<and> list_all (chunk_ok (rb_chunkCap b)) (rb_chunks b) \<and>
     list_all (\<lambda>c. c = empty_chunk) (drop (rb_activeChunks b) (rb_chunks b)) \<and>
     (\<forall>i. Suc i < rb_activeChunks b \<longrightarrow> length (wc_keys (rb_chunks b ! i)) = rb_chunkCap b) \<and>
     rb_total b = length (rb_items b) \<and>
     (rb_hasReferences b \<longleftrightarrow> (\<exists>(k, t, v) \<in> set (rb_items b). wv_IsReference V v)) \<and>
     (\<forall>c < length (rb_tagIndexes b). \<forall>idx. rb_tagIndexes b ! c = Some idx \<longrightarrow>
        Suc c < rb_activeChunks b \<and> idx = index_of_keys (wc_keys (rb_chunks b ! c)))"

lemma length_chunk_items: "chunk_ok cap c \<Longrightarrow> length (chunk_items c) = length (wc_keys c)"
  by (simp add: chunk_items_def chunk_ok_def)

lemma chunk_items_push: "chunk_ok cap c \<Longrightarrow> chunk_items (chunk_push k t v c) = chunk_items c @ [(k, t, v)]"
  by (simp add: chunk_items_def chunk_push_def chunk_ok_def)

lemma chunk_items_empty [simp]: "chunk_items empty_chunk = []"
  by (simp add: chunk_items_def empty_chunk_def)

lemma newWalReadBuffer_ok: "0 < cap \<Longrightarrow> rb_ok V (newWalReadBuffer cap) \<and> rb_items (newWalReadBuffer cap :: 'v walReadBuffer) = []"
  for V :: "'v wal_ops"
  by (simp add: newWalReadBuffer_def rb_ok_def rb_items_def)

lemma chunk_push_ok: "chunk_ok cap c \<Longrightarrow> length (wc_keys c) < cap \<Longrightarrow> chunk_ok cap (chunk_push k t v c)"
  by (simp add: chunk_ok_def chunk_push_def)

lemma ensure_room_ok:
  assumes ok: "rb_ok V b"
  shows "rb_ok V (ensure_room b) \<and> rb_items (ensure_room b) = rb_items b \<and> 0 < rb_activeChunks (ensure_room b) \<and>
           length (wc_keys (rb_chunks (ensure_room b) ! (rb_activeChunks (ensure_room b) - 1))) < rb_chunkCap b \<and>
           rb_chunkCap (ensure_room b) = rb_chunkCap b"
proof (cases "rb_activeChunks b = 0 \<or> rb_chunkCap b \<le> length (wc_keys (rb_chunks b ! (rb_activeChunks b - 1)))")
  case False
  then show ?thesis using ok by (simp add: ensure_room_def)
next
  case True
  let ?n = "rb_activeChunks b" and ?cs = "if rb_activeChunks b = length (rb_chunks b) then rb_chunks b @ [empty_chunk] else rb_chunks b"
  have er: "ensure_room b = b\<lparr>rb_chunks := ?cs, rb_activeChunks := Suc ?n\<rparr>" using True by (simp add: ensure_room_def)
  have n: "?n \<le> length (rb_chunks b)" and cap: "0 < rb_chunkCap b" and all: "list_all (chunk_ok (rb_chunkCap b)) (rb_chunks b)"
    and idle: "list_all (\<lambda>c. c = empty_chunk) (drop ?n (rb_chunks b))"
    and full: "\<And>i. Suc i < ?n \<Longrightarrow> length (wc_keys (rb_chunks b ! i)) = rb_chunkCap b"
    using ok by (auto simp: rb_ok_def)
  have len: "Suc ?n \<le> length ?cs" using n by auto
  have at: "?cs ! ?n = empty_chunk"
  proof (cases "?n = length (rb_chunks b)")
    case False
    then have "drop ?n (rb_chunks b) = rb_chunks b ! ?n # drop (Suc ?n) (rb_chunks b)" using n by (simp add: Cons_nth_drop_Suc)
    then show ?thesis using idle False by simp
  qed simp
  have same: "take ?n ?cs = take ?n (rb_chunks b)" by simp
  have tk: "take (Suc ?n) ?cs = take ?n (rb_chunks b) @ [empty_chunk]"
    using len at by (subst take_Suc_conv_app_nth) auto
  then have items: "rb_items (ensure_room b) = rb_items b" by (simp add: er rb_items_def)
  have nth: "?cs ! i = rb_chunks b ! i" if "i < ?n" for i using that n by (auto simp: nth_append)
  have full': "length (wc_keys (?cs ! i)) = rb_chunkCap b" if "Suc i < Suc ?n" for i
  proof (cases "Suc i = ?n")
    case False
    then show ?thesis using full [of i] nth [of i] that by simp
  next
    case last: True
    then have "length (wc_keys (rb_chunks b ! i)) \<le> rb_chunkCap b" using all n by (auto simp: list_all_length chunk_ok_def)
    moreover have "rb_activeChunks b - 1 = i" using last by simp
    ultimately show ?thesis using True last nth [of i] by auto
  qed
  have idx: "Suc c < Suc ?n \<and> idx = index_of_keys (wc_keys (?cs ! c))"
    if "c < length (rb_tagIndexes b)" "rb_tagIndexes b ! c = Some idx" for c idx
    using ok that nth [of c] by (auto simp: rb_ok_def)
  have "list_all (chunk_ok (rb_chunkCap b)) ?cs" using all by (simp add: chunk_ok_def empty_chunk_def)
  moreover have "list_all (\<lambda>c. c = empty_chunk) (drop (Suc ?n) ?cs)" using idle n by (auto simp: list_all_iff dest: set_drop_subset_set_drop [THEN subsetD, OF le_SucI [OF le_refl]])
  ultimately have "rb_ok V (ensure_room b)"
    unfolding rb_ok_def items using len cap full' idx ok by (simp add: er rb_ok_def)
  then show ?thesis using items at cap by (simp add: er empty_chunk_def)
qed

lemma appendValue_ok:
  assumes ok: "rb_ok V b"
  shows "rb_ok V (appendValue V k t v b) \<and> rb_items (appendValue V k t v b) = rb_items b @ [(k, t, v)]
    \<and> rb_chunkCap (appendValue V k t v b) = rb_chunkCap b"
proof -
  define e where "e = ensure_room b"
  define i where "i = rb_activeChunks e - 1"
  have e: "rb_ok V e" "rb_items e = rb_items b" "0 < rb_activeChunks e" "length (wc_keys (rb_chunks e ! i)) < rb_chunkCap e"
      "rb_chunkCap e = rb_chunkCap b"
    using ensure_room_ok [OF ok] by (auto simp: e_def i_def)
  let ?c = "chunk_push k t v (rb_chunks e ! i)"
  have i: "i < length (rb_chunks e)" "Suc i = rb_activeChunks e" using e(1,3) by (auto simp: i_def rb_ok_def)
  have av: "appendValue V k t v b = e\<lparr>rb_chunks := (rb_chunks e)[i := ?c],
      rb_hasReferences := (if \<not> rb_hasReferences e then wv_IsReference V v else True), rb_total := Suc (rb_total e)\<rparr>"
    by (simp add: appendValue_def Let_def e_def i_def)
  have cok: "chunk_ok (rb_chunkCap e) (rb_chunks e ! i)" using e(1) i by (auto simp: rb_ok_def list_all_length)
  have tk: "take (Suc i) ((rb_chunks e)[i := ?c]) = take i (rb_chunks e) @ [?c]" "take (Suc i) (rb_chunks e) = take i (rb_chunks e) @ [rb_chunks e ! i]"
    using i(1) by (simp_all add: take_Suc_conv_app_nth take_update_cancel)
  have items: "rb_items (appendValue V k t v b) = rb_items e @ [(k, t, v)]"
    by (simp add: av rb_items_def i(2) [symmetric] tk chunk_items_push [OF cok])
  let ?cs = "(rb_chunks e)[i := ?c]"
  have "\<forall>c \<in> set (rb_chunks e). chunk_ok (rb_chunkCap e) c" using e(1) by (simp add: rb_ok_def list_all_iff)
  then have 1: "list_all (chunk_ok (rb_chunkCap e)) ?cs"
    using chunk_push_ok [OF cok e(4), of k t v] set_update_subset_insert [of "rb_chunks e" i ?c]
    by (auto simp: list_all_iff)
  have "drop (Suc i) ?cs = drop (Suc i) (rb_chunks e)" by (rule drop_update_cancel) simp
  then have 2: "list_all (\<lambda>c. c = empty_chunk) (drop (rb_activeChunks e) ?cs)" using e(1) i(2) by (simp add: rb_ok_def)
  have 3: "\<forall>j. Suc j < rb_activeChunks e \<longrightarrow> length (wc_keys (?cs ! j)) = rb_chunkCap e"
  proof (intro allI impI)
    fix j assume j: "Suc j < rb_activeChunks e"
    then have "?cs ! j = rb_chunks e ! j" using i(2) by simp
    then show "length (wc_keys (?cs ! j)) = rb_chunkCap e" using e(1) j by (simp add: rb_ok_def)
  qed
  have 4: "\<forall>c < length (rb_tagIndexes e). \<forall>idx. rb_tagIndexes e ! c = Some idx \<longrightarrow>
      Suc c < rb_activeChunks e \<and> idx = index_of_keys (wc_keys (?cs ! c))"
  proof (intro allI impI)
    fix c idx assume c: "c < length (rb_tagIndexes e)" "rb_tagIndexes e ! c = Some idx"
    then have "Suc c < rb_activeChunks e" "idx = index_of_keys (wc_keys (rb_chunks e ! c))" using e(1) by (auto simp: rb_ok_def)
    then show "Suc c < rb_activeChunks e \<and> idx = index_of_keys (wc_keys (?cs ! c))" using i(2) by auto
  qed
  have 5: "(if \<not> rb_hasReferences e then wv_IsReference V v else True) = (\<exists>(k, t, v) \<in> set (rb_items e @ [(k, t, v)]). wv_IsReference V v)"
    using e(1) by (auto simp: rb_ok_def)
  have 6: "rb_activeChunks e \<le> length (rb_chunks e)" "0 < rb_chunkCap e" "rb_total e = length (rb_items e)" using e(1) by (auto simp: rb_ok_def)
  have "rb_ok V (appendValue V k t v b)"
    unfolding rb_ok_def items unfolding av using 1 2 3 4 5 6 by simp
  then show ?thesis using items e(2,5) by (simp add: av)
qed

text \<open>Iterating over a buffer is iterating over its entries, and a lookup filters them.\<close>

lemma forEach_chunks_concat: "forEach_chunks f cs s = each_until f (concat (map chunk_items cs)) s"
  by (induction cs arbitrary: s) (auto simp: each_until_append split: prod.splits bool.splits)

lemma rb_forEach_items: "rb_forEach f b = each_until f (rb_items b)"
  by (rule ext) (simp add: rb_forEach_def rb_items_def forEach_chunks_concat)

definition item_in :: "u32 \<Rightarrow> int \<Rightarrow> int \<Rightarrow> 'v wal_item \<Rightarrow> bool" where
  "item_in tag st en = (\<lambda>(k, t, v). k = tag \<and> st \<le> t \<and> t \<le> en)"

lemma appendMatching_items: "appendMatching dst tag st en b = dst @ map snd (filter (item_in tag st en) (rb_items b))"
proof -
  have chunk: "fold (\<lambda>(k, t, v) dst. if k \<noteq> tag then dst else if st \<le> t \<and> t \<le> en then dst @ [(t, v)] else dst) xs dst
      = dst @ map snd (filter (item_in tag st en) xs)" for xs :: "'a wal_item list" and dst
    by (induction xs arbitrary: dst) (auto simp: item_in_def split: if_splits)
  have "fold (\<lambda>c dst. fold (\<lambda>(k, t, v) dst. if k \<noteq> tag then dst else if st \<le> t \<and> t \<le> en then dst @ [(t, v)] else dst) (chunk_items c) dst) cs dst
      = dst @ map snd (filter (item_in tag st en) (concat (map chunk_items cs)))" for cs :: "'a walReadChunk list" and dst
    by (induction cs arbitrary: dst) (simp_all add: chunk)
  then show ?thesis by (simp add: appendMatching_def rb_items_def)
qed

lemma resetForReuse_ok:
  assumes "rb_ok V b"
  shows "rb_ok V (resetForReuse V n b) \<and> rb_items (resetForReuse V n b) = [] \<and> rb_chunkCap (resetForReuse V n b) = rb_chunkCap b \<and>
           length (rb_chunks (resetForReuse V n b)) * (rb_chunkCap b * (4 + 8 + wv_Size V)) \<le> n"
proof -
  let ?cb = "rb_chunkCap b * (4 + 8 + wv_Size V)"
  have "\<forall>c \<in> set (rb_chunks (resetForReuse V n b)). c = empty_chunk"
    using assms by (auto simp: resetForReuse_def Let_def rb_ok_def list_all_iff clear_chunk_def empty_chunk_def dest!: in_set_takeD)
  then have "list_all (\<lambda>c. c = empty_chunk) (rb_chunks (resetForReuse V n b))" "list_all (chunk_ok (rb_chunkCap b)) (rb_chunks (resetForReuse V n b))"
    by (auto simp: list_all_iff chunk_ok_def empty_chunk_def)
  moreover have "length (rb_chunks (resetForReuse V n b)) * ?cb \<le> n"
  proof -
    have "length (rb_chunks (resetForReuse V n b)) \<le> (if 0 < ?cb \<and> 0 < n then n div ?cb else 0)"
      using assms by (auto simp: resetForReuse_def Let_def rb_ok_def min_le_iff_disj)
    also have "\<dots> * ?cb \<le> n" by auto
    finally (mult_le_mono1 [THEN le_trans]) show ?thesis .
  qed
  ultimately show ?thesis using assms by (simp add: rb_ok_def rb_items_def resetForReuse_def Let_def)
qed

text \<open>The index of a chunk answers which positions hold a key.\<close>

lemma index_of_keys_positions:
  "index_of_keys keys k = (if k \<in> set keys then Some (filter (\<lambda>j. keys ! j = k) [0..<length keys]) else None)"
proof (induction keys rule: rev_induct)
  case (snoc x xs)
  have "index_of_keys (xs @ [x]) = (index_of_keys xs)(x \<mapsto> (case index_of_keys xs x of None \<Rightarrow> [] | Some ps \<Rightarrow> ps) @ [length xs])"
    by (simp add: index_of_keys_def enumerate_append_eq)
  moreover have "filter (\<lambda>j. (xs @ [x]) ! j = k) [0..<length xs] = filter (\<lambda>j. xs ! j = k) [0..<length xs]"
    by (rule filter_cong) (auto simp: nth_append)
  moreover have "k \<notin> set xs \<Longrightarrow> filter (\<lambda>j. xs ! j = k) [0..<length xs] = []"
    by (auto simp: filter_empty_conv)
  ultimately show ?case using snoc.IH by auto
qed (simp add: index_of_keys_def)

text \<open>The cached index of a full chunk is the index of its keys, however often it was asked for.\<close>

lemma tagIndex_ok:
  assumes ok: "rb_ok V b" and c: "Suc c < rb_activeChunks b" "keys = wc_keys (rb_chunks b ! c)"
  shows "rb_ok V (snd (tagIndex c keys b)) \<and> rb_items (snd (tagIndex c keys b)) = rb_items b \<and>
           (fst (tagIndex c keys b) = None \<or> fst (tagIndex c keys b) = Some (index_of_keys keys))"
proof -
  have known: "Suc d < rb_activeChunks b \<and> idx = index_of_keys (wc_keys (rb_chunks b ! d))"
    if "d < length (rb_tagIndexes b)" "rb_tagIndexes b ! d = Some idx" for d idx
    using ok that by (auto simp: rb_ok_def)
  let ?ixs = "(rb_tagIndexes b @ replicate (Suc c - length (rb_tagIndexes b)) None)[c := Some (index_of_keys keys)]"
  have new: "Suc d < rb_activeChunks b \<and> idx = index_of_keys (wc_keys (rb_chunks b ! d))"
    if "d < length ?ixs" "?ixs ! d = Some idx" for d idx
    using that known [of d idx] c by (cases "d = c") (auto simp: nth_append split: if_splits)
  show ?thesis
  proof (cases "c < length (rb_tagIndexes b) \<and> rb_tagIndexes b ! c \<noteq> None")
    case True
    then show ?thesis using ok c known [of c] by (auto simp: tagIndex_def)
  next
    case False
    have "rb_ok V (b\<lparr>rb_tagIndexes := ?ixs, rb_tagIndexSize := n\<rparr>)" for n
      using ok new unfolding rb_ok_def rb_items_def by simp
    then show ?thesis using False ok by (auto simp: tagIndex_def Let_def rb_items_def)
  qed
qed

end
