(* ===== verification/Wal.thy ===== *)
theory Wal
  imports Wal_Buffer
begin

text \<open>
  The write-ahead log of a table, \<^verbatim>\<open>tsdb/file_wal.go\<close>: the record format, the per-tag state, writing with the
  sampling and deduplication policies, rotation, reading, the hand-over of complete files to the flush, and recovery.  The directory is
  an association list from the number in a file's name to its bytes; appends to an open file succeed.  A time is an
  \<open>int\<close> in the range of \<^verbatim>\<open>int64\<close> whose differences wrap.
\<close>

datatype wal_error = ErrorWALClose | ErrorWALCacheFull | ErrorWALDataCorruption | ErrEOF | ErrUnexpectedEOF | ErrUnmarshal | ErrNoFile

section \<open>The record format\<close>

definition wal_record :: "'v wal_ops \<Rightarrow> u32 \<Rightarrow> int \<Rightarrow> 'v \<Rightarrow> bytes" where
  "wal_record V key timestamp v =
     (let body = be_put 4 key @ be_put 8 (of_int timestamp :: u64) @ wv_AppendBinary V v
      in be_put 4 (of_nat (length body) :: u32) @ body)"

definition appendSerialized :: "'v wal_ops \<Rightarrow> bytes \<Rightarrow> u32 \<Rightarrow> int \<Rightarrow> 'v \<Rightarrow> bytes \<times> int" where
  "appendSerialized V dst key timestamp v =
     (let body = be_put 4 key @ be_put 8 (of_int timestamp :: u64) @ wv_AppendBinary V v
      in (dst @ be_put 4 (of_nat (length body) :: u32) @ body, int (4 + length body)))"

definition decode_value :: "'v wal_ops \<Rightarrow> bytes \<Rightarrow> 'v option" where
  "decode_value V bs = (if wv_IsBinaryFormat V bs then wv_UnmarshalBinary V bs else wv_UnmarshalJSON V bs)"

text \<open>\<^verbatim>\<open>getAllData\<close> from byte \<open>pos\<close>: the buffer, the offset behind the last record it read and the error.  At a clean end the error is
  \<^verbatim>\<open>io.EOF\<close>; a length of 12 or less ends it without one; a value that cannot be unmarshalled ends it after its offset was
  counted.\<close>

function getAllData_loop :: "'v wal_ops \<Rightarrow> bytes \<Rightarrow> nat \<Rightarrow> 'v walReadBuffer \<Rightarrow> 'v walReadBuffer \<times> nat \<times> wal_error option" where
  "getAllData_loop V d pos b =
     (let rest = drop pos d in
      if rest = [] then (b, pos, Some ErrEOF)
      else if length rest < 4 then (b, pos, Some ErrUnexpectedEOF)
      else
        (let n = unat (be_get (take 4 rest) :: u32) in
         if n \<le> 12 then (b, pos, None)
         else if length rest < 4 + n then (b, pos, Some (if length rest = 4 then ErrEOF else ErrUnexpectedEOF))
         else
           (let data = take n (drop 4 rest); pos' = pos + (4 + n) in
            case decode_value V (drop 12 data) of
              None \<Rightarrow> (b, pos', Some ErrUnmarshal)
            | Some v \<Rightarrow>
                getAllData_loop V d pos'
                  (rb_append V \<lparr>we_EndPosition = int pos', we_Key = be_get (take 4 data),
                                we_Timestamp = sint (be_get (take 8 (drop 4 data)) :: u64), we_Value = v\<rparr> b))))"
  by pat_completeness auto
termination
  by (relation "measure (\<lambda>(V, d, pos, b). length d - pos)") auto

declare getAllData_loop.simps [simp del]

definition getAllData :: "'v wal_ops \<Rightarrow> bytes \<Rightarrow> nat \<Rightarrow> 'v walReadBuffer \<times> nat \<times> wal_error option" where
  "getAllData V d chunkCap = getAllData_loop V d 0 (newWalReadBuffer chunkCap)"

text \<open>\<^verbatim>\<open>forEachWalFile\<close>; the callback gets the offset behind the record, and \<open>None\<close> is success or a stop.\<close>

function forEachWalFile :: "'v wal_ops \<Rightarrow> (u32 \<Rightarrow> int \<Rightarrow> 'v \<Rightarrow> nat \<Rightarrow> 's \<Rightarrow> bool \<times> 's) \<Rightarrow> bytes \<Rightarrow> nat \<Rightarrow> 's \<Rightarrow> wal_error option \<times> 's" where
  "forEachWalFile V fc d pos s =
     (let rest = drop pos d in
      if rest = [] then (None, s)
      else if length rest < 4 then (Some ErrUnexpectedEOF, s)
      else
        (let n = unat (be_get (take 4 rest) :: u32) in
         if n \<le> 12 then (Some ErrorWALDataCorruption, s)
         else if length rest < 4 + n then (Some (if length rest = 4 then ErrEOF else ErrUnexpectedEOF), s)
         else
           (let data = take n (drop 4 rest); pos' = pos + (4 + n) in
            case decode_value V (drop 12 data) of
              None \<Rightarrow> (Some ErrUnmarshal, s)
            | Some v \<Rightarrow>
                (case fc (be_get (take 4 data)) (sint (be_get (take 8 (drop 4 data)) :: u64)) v pos' s of
                   (True, s') \<Rightarrow> forEachWalFile V fc d pos' s'
                 | (False, s') \<Rightarrow> (None, s')))))"
  by pat_completeness auto
termination
  by (relation "measure (\<lambda>(V, fc, d, pos, s). length d - pos)") auto

declare forEachWalFile.simps [simp del]

section \<open>The log and its directory\<close>

record WalConfig =
  wc_MaxFileSize :: int
  wc_MaxFileNumber :: int
  wc_CloseBuffer :: bool
  wc_MaxBufferBatchSize :: int

definition setDefaultValues :: "WalConfig \<Rightarrow> WalConfig" where
  "setDefaultValues c =
     (let c1 = (if wc_MaxFileSize c \<le> 0 then c\<lparr>wc_MaxFileSize := 64 * 1024 * 1024\<rparr> else c)
      in if wc_MaxBufferBatchSize c1 \<le> 0 then c1\<lparr>wc_MaxBufferBatchSize := 4096\<rparr> else c1)"

record 'v walFileEnty =
  wf_fileName :: int
  wf_length :: int
  wf_readBuffer :: "'v walReadBuffer"
  wf_needsSort :: bool

record 'v walTagState =
  ts_maxTimestamp :: int
  ts_lastValue :: 'v
  ts_known :: bool

type_synonym wal_dir = "(int \<times> bytes) list"

record 'v walFile =
  ws_walFiles :: "'v walFileEnty list"
  ws_spareReadBuffer :: "'v walReadBuffer option"
  ws_tagStates :: "'v walTagState list"
  ws_tagMaxTimestamp :: "u32 \<rightharpoonup> int"
  ws_tagLastValue :: "u32 \<rightharpoonup> 'v"
  ws_tagStateCount :: nat
  ws_open :: bool
  ws_dedupWindowMs :: int
  ws_minIntervalMs :: int
  ws_config :: WalConfig
  ws_dir :: wal_dir

definition maxDenseWALTagCode :: u32 where "maxDenseWALTagCode = 1048576"

definition dir_append :: "int \<Rightarrow> bytes \<Rightarrow> wal_dir \<Rightarrow> wal_dir" where
  "dir_append name bs d = map (\<lambda>(n, c). if n = name then (n, c @ bs) else (n, c)) d"

text \<open>Truncation to a size behind the end extends the file with zeros.\<close>

definition file_resize :: "nat \<Rightarrow> bytes \<Rightarrow> bytes" where
  "file_resize n c = take n c @ replicate (n - length c) 0"

definition dir_truncate :: "int \<Rightarrow> nat \<Rightarrow> wal_dir \<Rightarrow> wal_dir" where
  "dir_truncate name n d = map (\<lambda>(m, c). if m = name then (m, file_resize n c) else (m, c)) d"

definition dir_remove :: "int \<Rightarrow> wal_dir \<Rightarrow> wal_dir" where
  "dir_remove name d = filter (\<lambda>(m, c). m \<noteq> name) d"

section \<open>The state of a tag\<close>

definition loadTagState :: "u32 \<Rightarrow> 'v walFile \<Rightarrow> (int \<times> 'v) option" where
  "loadTagState key ws =
     (if key \<le> maxDenseWALTagCode \<and> unat key < length (ws_tagStates ws) \<and> ts_known (ws_tagStates ws ! unat key)
      then Some (ts_maxTimestamp (ws_tagStates ws ! unat key), ts_lastValue (ws_tagStates ws ! unat key))
      else (case ws_tagMaxTimestamp ws key of
              None \<Rightarrow> None
            | Some m \<Rightarrow> Some (m, the (ws_tagLastValue ws key))))"

text \<open>The doubling starts at 64 or more, so it ends.\<close>

function grow_to :: "nat \<Rightarrow> nat \<Rightarrow> nat" where
  "grow_to index n = (if 0 < n \<and> n \<le> index then grow_to index (n * 2) else n)"
  by pat_completeness auto
termination
  by (relation "measure (\<lambda>(index, n). Suc index - n)") auto

declare grow_to.simps [simp del]

definition storeTagState :: "'v wal_ops \<Rightarrow> u32 \<Rightarrow> int \<Rightarrow> 'v \<Rightarrow> 'v walFile \<Rightarrow> 'v walFile" where
  "storeTagState V key maxTs lastValue ws =
     (if key \<le> maxDenseWALTagCode then
        (let index = unat key;
             states0 = ws_tagStates ws;
             known = (index < length states0 \<and> ts_known (states0 ! index));
             newLength = min (grow_to index (max 64 (length states0 * 2))) (unat maxDenseWALTagCode + 1);
             states = (if length states0 \<le> index
                       then states0 @ replicate (newLength - length states0) \<lparr>ts_maxTimestamp = 0, ts_lastValue = wv_Zero V, ts_known = False\<rparr>
                       else states0)
         in ws\<lparr>ws_tagStates := states[index := \<lparr>ts_maxTimestamp = maxTs, ts_lastValue = lastValue, ts_known = True\<rparr>],
               ws_tagStateCount := (if \<not> known then Suc (ws_tagStateCount ws) else ws_tagStateCount ws)\<rparr>)
      else
        ws\<lparr>ws_tagStateCount := (if ws_tagMaxTimestamp ws key = None then Suc (ws_tagStateCount ws) else ws_tagStateCount ws),
           ws_tagMaxTimestamp := (ws_tagMaxTimestamp ws)(key \<mapsto> maxTs),
           ws_tagLastValue := (ws_tagLastValue ws)(key \<mapsto> lastValue)\<rparr>)"

definition updateWalConfig :: "WalConfig \<Rightarrow> 'v walFile \<Rightarrow> 'v walFile" where
  "updateWalConfig cfg0 ws =
     (let cfg = setDefaultValues cfg0;
          keep = (case ws_spareReadBuffer ws of None \<Rightarrow> None
                  | Some b \<Rightarrow> if wc_CloseBuffer cfg \<or> int (rb_chunkCap b) \<noteq> wc_MaxBufferBatchSize cfg then None else Some b)
      in ws\<lparr>ws_config := cfg, ws_spareReadBuffer := keep\<rparr>)"

section \<open>Writing\<close>

text \<open>\<open>rejects\<close> is the policy of \<^verbatim>\<open>dedupRuns\<close> against the state of the tag, \<open>None\<close> when it is not known.\<close>

definition rejects :: "'v wal_ops \<Rightarrow> int \<Rightarrow> int \<Rightarrow> (int \<times> 'v) option \<Rightarrow> int \<Rightarrow> 'v \<Rightarrow> bool" where
  "rejects V minI dedupW cur t v =
     (case cur of
        None \<Rightarrow> False
      | Some (curMax, curLast) \<Rightarrow>
          if t < curMax then minI > 0 \<or> dedupW > 0
          else (minI > 0 \<and> wrap64 (t - curMax) < minI) \<or>
               (dedupW > 0 \<and> wrap64 (t - curMax) \<le> dedupW \<and> wv_IsEqual V curLast v))"

definition is_late :: "(int \<times> 'v) option \<Rightarrow> int \<Rightarrow> bool" where
  "is_late cur t = (case cur of None \<Rightarrow> False | Some (curMax, _) \<Rightarrow> t < curMax)"

definition advance :: "(int \<times> 'v) option \<Rightarrow> int \<Rightarrow> 'v \<Rightarrow> (int \<times> 'v) option" where
  "advance cur t v = (if is_late cur t then cur else Some (t, v))"

text \<open>The end of a run: its state is stored once.\<close>

definition publish :: "'v wal_ops \<Rightarrow> (u32 \<times> (int \<times> 'v) option) option \<Rightarrow> 'v walFile \<Rightarrow> 'v walFile" where
  "publish V run ws =
     (case run of
        None \<Rightarrow> ws
      | Some (key, None) \<Rightarrow> storeTagState V key 0 (wv_Zero V) ws
      | Some (key, Some (m, l)) \<Rightarrow> storeTagState V key m l ws)"

definition next_run :: "'v wal_ops \<Rightarrow> u32 \<Rightarrow> (u32 \<times> (int \<times> 'v) option) option \<Rightarrow> 'v walFile \<Rightarrow> (int \<times> 'v) option \<times> 'v walFile" where
  "next_run V key run ws =
     (case run of
        Some (k, cur) \<Rightarrow> if k = key then (cur, ws) else (let ws' = publish V run ws in (loadTagState key ws', ws'))
      | None \<Rightarrow> (loadTagState key ws, ws))"

fun dedupRuns :: "'v wal_ops \<Rightarrow> 'v walDataEntry list \<Rightarrow> (u32 \<times> (int \<times> 'v) option) option \<Rightarrow> bytes \<Rightarrow> int \<Rightarrow> bool \<Rightarrow> 'v walFile \<Rightarrow>
    'v walDataEntry list \<times> bytes \<times> int \<times> bool \<times> 'v walFile" where
  "dedupRuns V [] run buf len needsSort ws = ([], buf, len, needsSort, publish V run ws)"
| "dedupRuns V (e # es) run buf len needsSort ws =
     (let (cur, ws1) = next_run V (we_Key e) run ws in
      if rejects V (ws_minIntervalMs ws1) (ws_dedupWindowMs ws1) cur (we_Timestamp e) (we_Value e)
      then (let (es', r) = dedupRuns V es (Some (we_Key e, cur)) buf len needsSort ws1 in (e # es', r))
      else
        (let (buf', n) = appendSerialized V buf (we_Key e) (we_Timestamp e) (we_Value e);
             len' = len + n;
             (es', r) = dedupRuns V es (Some (we_Key e, advance cur (we_Timestamp e) (we_Value e))) buf' len'
                          (needsSort \<or> is_late cur (we_Timestamp e)) ws1
         in (e\<lparr>we_EndPosition := len'\<rparr> # es', r)))"

text \<open>A file name that is not taken, from the clock upwards.\<close>

function fresh_name :: "wal_dir \<Rightarrow> int \<Rightarrow> int" where
  "fresh_name d tm = (if tm \<in> set (map fst d) then fresh_name d (tm + 1) else tm)"
  by pat_completeness auto
termination
proof (relation "measure (\<lambda>(d, tm). length (filter (\<lambda>n. tm \<le> n) (map fst d)))", goal_cases)
  case (2 d tm)
  have "filter (\<lambda>n. tm + 1 \<le> n) xs = filter (\<lambda>n. tm + 1 \<le> n) (filter (\<lambda>n. tm \<le> n) xs)" for xs
    by (induction xs) auto
  moreover have "tm \<in> set (filter (\<lambda>n. tm \<le> n) (map fst d))" using 2 by auto
  ultimately show ?case by (simp only: in_measure case_prod_conv) (metis (no_types, lifting) add_le_same_cancel1 length_filter_less not_one_le_zero)
qed simp

declare fresh_name.simps [simp del]

definition addWalFile :: "int \<Rightarrow> 'v walFile \<Rightarrow> 'v walFile" where
  "addWalFile now ws =
     (let name = fresh_name (ws_dir ws) now;
          cap = nat (wc_MaxBufferBatchSize (ws_config ws));
          (rb, spare) = (case ws_spareReadBuffer ws of
                           None \<Rightarrow> (newWalReadBuffer cap, None)
                         | Some b \<Rightarrow> if int (rb_chunkCap b) \<noteq> wc_MaxBufferBatchSize (ws_config ws)
                                      then (newWalReadBuffer cap, Some b) else (b, None))
      in ws\<lparr>ws_dir := ws_dir ws @ [(name, [])], ws_spareReadBuffer := spare,
            ws_walFiles := ws_walFiles ws @ [\<lparr>wf_fileName = name, wf_length = 0, wf_readBuffer = rb, wf_needsSort = False\<rparr>]\<rparr>)"

definition rotateIfFull :: "int \<Rightarrow> 'v walFile \<Rightarrow> 'v walFile" where
  "rotateIfFull now ws =
     (if wf_length (last (ws_walFiles ws)) \<ge> wc_MaxFileSize (ws_config ws) then
        (if wc_MaxFileNumber (ws_config ws) > 0 \<and> int (length (ws_walFiles ws)) \<ge> wc_MaxFileNumber (ws_config ws) then ws
         else addWalFile now ws)
      else ws)"

definition wal_is_full :: "'v walFile \<Rightarrow> bool" where
  "wal_is_full ws \<longleftrightarrow> wc_MaxFileNumber (ws_config ws) > 0 \<and> wf_length (last (ws_walFiles ws)) \<ge> wc_MaxFileSize (ws_config ws) \<and>
     int (length (ws_walFiles ws)) \<ge> wc_MaxFileNumber (ws_config ws)"

definition set_last_file :: "('v walFileEnty \<Rightarrow> 'v walFileEnty) \<Rightarrow> 'v walFile \<Rightarrow> 'v walFile" where
  "set_last_file f ws = ws\<lparr>ws_walFiles := (ws_walFiles ws)[length (ws_walFiles ws) - 1 := f (last (ws_walFiles ws))]\<rparr>"

definition writeBatchLocked :: "'v wal_ops \<Rightarrow> int \<Rightarrow> 'v walDataEntry list \<Rightarrow> 'v walFile \<Rightarrow> nat \<times> wal_error option \<times> 'v walFile" where
  "writeBatchLocked V now entries ws =
     (if \<not> ws_open ws then (0, Some ErrorWALClose, ws)
      else if entries = [] then (0, None, ws)
      else if wal_is_full ws then (0, Some ErrorWALCacheFull, ws)
      else
        (let ent = last (ws_walFiles ws);
             startLength = wf_length ent;
             (entries', batchBuf, newLength, ns, ws1) =
               dedupRuns V (map (\<lambda>e. e\<lparr>we_EndPosition := 0\<rparr>) entries) None [] startLength (wf_needsSort ent) ws;
             accepted = filter (\<lambda>e. \<not> we_EndPosition e \<le> startLength) entries';
             rb = (if wc_CloseBuffer (ws_config ws1) then wf_readBuffer ent else fold (rb_append V) accepted (wf_readBuffer ent));
             ws2 = set_last_file (\<lambda>ent. ent\<lparr>wf_needsSort := ns, wf_length := newLength, wf_readBuffer := rb\<rparr>)
                     (ws1\<lparr>ws_dir := dir_append (wf_fileName ent) batchBuf (ws_dir ws1)\<rparr>)
         in (length accepted, None, rotateIfFull now ws2)))"

definition WriteBatch :: "'v wal_ops \<Rightarrow> int \<Rightarrow> 'v walDataEntry list \<Rightarrow> 'v walFile \<Rightarrow> nat \<times> wal_error option \<times> 'v walFile" where
  "WriteBatch V now entries ws = writeBatchLocked V now entries ws"

definition wal_Write :: "'v wal_ops \<Rightarrow> int \<Rightarrow> u32 \<Rightarrow> int \<Rightarrow> 'v \<Rightarrow> 'v walFile \<Rightarrow> (bool \<times> int \<times> wal_error option) \<times> 'v walFile" where
  "wal_Write V now key timestamp v ws =
     (let (written, err, ws') = WriteBatch V now [\<lparr>we_EndPosition = 0, we_Key = key, we_Timestamp = timestamp, we_Value = v\<rparr>] ws
      in ((written = 1, int (length (ws_walFiles ws')) - 1, err), ws'))"

record 'v walDataRun =
  wr_Key :: u32
  wr_Points :: "(int \<times> 'v) list"

text \<open>The points of one run in \<^verbatim>\<open>WriteRuns\<close>, without a policy.\<close>

fun run_points :: "'v wal_ops \<Rightarrow> u32 \<Rightarrow> (int \<times> 'v) list \<Rightarrow> (int \<times> 'v) option \<Rightarrow> bytes \<Rightarrow> int \<Rightarrow> nat \<Rightarrow> bool \<Rightarrow>
    (int \<times> 'v) option \<times> bytes \<times> int \<times> nat \<times> bool" where
  "run_points V key [] cur buf len written ns = (cur, buf, len, written, ns)"
| "run_points V key ((t, v) # ps) cur buf len written ns =
     (let (buf', n) = appendSerialized V buf key t v
      in run_points V key ps (advance cur t v) buf' (len + n) (Suc written) (ns \<or> is_late cur t))"

fun write_runs :: "'v wal_ops \<Rightarrow> 'v walDataRun list \<Rightarrow> bytes \<Rightarrow> int \<Rightarrow> nat \<Rightarrow> bool \<Rightarrow> 'v walFile \<Rightarrow> bytes \<times> int \<times> nat \<times> bool \<times> 'v walFile" where
  "write_runs V [] buf len written ns ws = (buf, len, written, ns, ws)"
| "write_runs V (r # rs) buf len written ns ws =
     (let (cur, buf', len', written', ns') = run_points V (wr_Key r) (wr_Points r) (loadTagState (wr_Key r) ws) buf len written ns
      in write_runs V rs buf' len' written' ns' (case cur of None \<Rightarrow> ws | Some (m, l) \<Rightarrow> storeTagState V (wr_Key r) m l ws))"

definition runs_entries :: "'v walDataRun list \<Rightarrow> 'v walDataEntry list" where
  "runs_entries runs = concat (map (\<lambda>r. map (\<lambda>(t, v). \<lparr>we_EndPosition = 0, we_Key = wr_Key r, we_Timestamp = t, we_Value = v\<rparr>) (wr_Points r)) runs)"

definition WriteRuns :: "'v wal_ops \<Rightarrow> int \<Rightarrow> 'v walDataRun list \<Rightarrow> 'v walFile \<Rightarrow> nat \<times> wal_error option \<times> 'v walFile" where
  "WriteRuns V now runs ws =
     (if runs = [] then (0, None, ws)
      else if ws_minIntervalMs ws > 0 \<or> ws_dedupWindowMs ws > 0 then writeBatchLocked V now (runs_entries runs) ws
      else if \<not> ws_open ws then (0, Some ErrorWALClose, ws)
      else if wal_is_full ws then (0, Some ErrorWALCacheFull, ws)
      else
        (let ent = last (ws_walFiles ws);
             (batchBuf, newLength, written, ns, ws1) = write_runs V runs [] (wf_length ent) 0 (wf_needsSort ent) ws;
             rb = (if wc_CloseBuffer (ws_config ws1) then wf_readBuffer ent
                   else fold (\<lambda>r b. fold (\<lambda>(t, v) b. appendValue V (wr_Key r) t v b) (wr_Points r) b) runs (wf_readBuffer ent));
             ws2 = set_last_file (\<lambda>ent. ent\<lparr>wf_needsSort := ns, wf_length := newLength, wf_readBuffer := rb\<rparr>)
                     (ws1\<lparr>ws_dir := dir_append (wf_fileName ent) batchBuf (ws_dir ws1)\<rparr>)
         in (written, None, rotateIfFull now ws2)))"

section \<open>Reading\<close>

definition file_bytes :: "int \<Rightarrow> wal_dir \<Rightarrow> bytes option" where
  "file_bytes name d = map_of d name"

text \<open>The scan of the active chunk starts from the state of the tag, or from 0.\<close>

definition GetTagMaxTimestamp :: "u32 \<Rightarrow> 'v walFile \<Rightarrow> (int \<times> 'v) option" where
  "GetTagMaxTimestamp key ws =
     (let state = loadTagState key ws;
          rb = wf_readBuffer (last (ws_walFiles ws));
          items = (if rb_activeChunks rb > 0 then chunk_items (rb_chunks rb ! (rb_activeChunks rb - 1)) else [])
      in fold (\<lambda>(k, t, v) cur. if k = key \<and> t \<ge> (case cur of None \<Rightarrow> 0 | Some (m, _) \<Rightarrow> m) then Some (t, v) else cur) items state)"

definition SetLastPoint :: "'v wal_ops \<Rightarrow> u32 \<Rightarrow> int \<Rightarrow> 'v \<Rightarrow> 'v walFile \<Rightarrow> 'v walFile" where
  "SetLastPoint V key t v ws =
     (case loadTagState key ws of
        None \<Rightarrow> storeTagState V key t v ws
      | Some (lp, _) \<Rightarrow> if t > lp then storeTagState V key t v ws else ws)"

definition NeedFlush :: "'v walFile \<Rightarrow> bool" where
  "NeedFlush ws \<longleftrightarrow> length (ws_walFiles ws) > 1"

text \<open>One file of \<^verbatim>\<open>ReadByTime\<close>: from the read cache, or record by record from the file.  A file that cannot be opened is an error; the
  error of a later file replaces that of an earlier one.\<close>

definition read_file_by_time :: "'v wal_ops \<Rightarrow> u32 \<Rightarrow> int \<Rightarrow> int \<Rightarrow> 'v walFile \<Rightarrow> 'v walFileEnty \<Rightarrow> (int \<times> 'v) list \<times> wal_error option \<Rightarrow>
    (int \<times> 'v) list \<times> wal_error option" where
  "read_file_by_time V tag st en ws f acc =
     (case acc of (entries, err) \<Rightarrow>
        if \<not> wc_CloseBuffer (ws_config ws) then (appendMatching entries tag st en (wf_readBuffer f), err)
        else
          (case file_bytes (wf_fileName f) (ws_dir ws) of
             None \<Rightarrow> (entries, Some ErrNoFile)
           | Some d \<Rightarrow>
               (let (err', entries') = forEachWalFile V
                      (\<lambda>k t v off es. (True, if k = tag \<and> t \<ge> st \<and> t \<le> en then es @ [(t, v)] else es)) d 0 entries
                in (entries', err'))))"

text \<open>\<^verbatim>\<open>sort.Slice\<close> does not keep the order of equal times, so the sort is a parameter.\<close>

definition ReadByTime :: "((int \<times> 'v) list \<Rightarrow> (int \<times> 'v) list) \<Rightarrow> 'v wal_ops \<Rightarrow> u32 \<Rightarrow> int \<Rightarrow> int \<Rightarrow> 'v walFile \<Rightarrow>
    (int \<times> 'v) list \<times> wal_error option" where
  "ReadByTime srt V tag st en ws =
     (let (entries, err) = fold (read_file_by_time V tag st en ws) (ws_walFiles ws) ([], None)
      in (if entries \<noteq> [] then srt entries else entries, err))"

section \<open>Handing complete files to the flush\<close>

definition completeFileState :: "'v walFile \<Rightarrow> nat \<times> bool" where
  "completeFileState ws =
     (let count = length (ws_walFiles ws) - 1
      in (count, list_ex wf_needsSort (take count (ws_walFiles ws))))"

text \<open>The visit of the files; the count of files completed comes back, and an error.\<close>

fun visit_files :: "'v wal_ops \<Rightarrow> (nat \<Rightarrow> u32 \<Rightarrow> int \<Rightarrow> 'v \<Rightarrow> nat \<Rightarrow> 's \<Rightarrow> bool \<times> 's) \<Rightarrow> 'v walFile \<Rightarrow> nat \<Rightarrow> 'v walFileEnty list \<Rightarrow> 's \<Rightarrow>
    nat \<times> wal_error option \<times> 's" where
  "visit_files V fc ws i [] s = (i, None, s)"
| "visit_files V fc ws i (f # fs) s =
     (if wc_CloseBuffer (ws_config ws) then
        (case file_bytes (wf_fileName f) (ws_dir ws) of
           None \<Rightarrow> (i, Some ErrNoFile, s)
         | Some d \<Rightarrow>
             (case forEachWalFile V (\<lambda>k t v off (stopped, s). (let (go, s') = fc i k t v off s in (go, (\<not> go, s')))) d 0 (False, s) of
                (Some e, (stopped, s')) \<Rightarrow> (i, Some e, s')
              | (None, (stopped, s')) \<Rightarrow> if stopped then (i, None, s') else visit_files V fc ws (Suc i) fs s'))
      else
        (case rb_forEach (\<lambda>(k, t, v). fc i k t v 0) (wf_readBuffer f) s of
           (True, s') \<Rightarrow> visit_files V fc ws (Suc i) fs s'
         | (False, s') \<Rightarrow> (i, None, s')))"

definition forEachCompleteFile :: "'v wal_ops \<Rightarrow> int \<Rightarrow> (nat \<Rightarrow> u32 \<Rightarrow> int \<Rightarrow> 'v \<Rightarrow> nat \<Rightarrow> 's \<Rightarrow> bool \<times> 's) \<Rightarrow> 'v walFile \<Rightarrow> 's \<Rightarrow>
    nat \<times> wal_error option \<times> 's" where
  "forEachCompleteFile V limit fc ws s =
     (let available = length (ws_walFiles ws) - 1;
          n = (if limit < 0 \<or> limit > int available then available else nat limit)
      in visit_files V fc ws 0 (take n (ws_walFiles ws)) s)"

definition retainWalFilePrefix :: "nat \<Rightarrow> nat \<Rightarrow> 'v walFile \<Rightarrow> 'v walFile" where
  "retainWalFilePrefix index truncateSize ws =
     ws\<lparr>ws_dir := dir_truncate (wf_fileName (ws_walFiles ws ! index)) truncateSize (ws_dir ws)\<rparr>"

definition wal_truncate :: "'v wal_ops \<Rightarrow> int \<Rightarrow> 'v walFile \<Rightarrow> 'v walFile" where
  "wal_truncate V n0 ws =
     (if n0 \<le> 0 then ws
      else
        (let n = (if n0 \<ge> int (length (ws_walFiles ws)) then length (ws_walFiles ws) - 1 else nat n0) in
         if n = 0 then ws
         else
           (let spare = (if \<not> wc_CloseBuffer (ws_config ws) \<and> ws_spareReadBuffer ws = None
                         then Some (resetForReuse V maxRetainedWALReadBufferBytes (wf_readBuffer (ws_walFiles ws ! (n - 1))))
                         else ws_spareReadBuffer ws)
            in ws\<lparr>ws_spareReadBuffer := spare,
                  ws_dir := fold dir_remove (map wf_fileName (take n (ws_walFiles ws))) (ws_dir ws),
                  ws_walFiles := drop n (ws_walFiles ws)\<rparr>)))"

definition removeOrphanedFiles :: "'v walFile \<Rightarrow> 'v walFile" where
  "removeOrphanedFiles ws =
     ws\<lparr>ws_dir := filter (\<lambda>(n, c). n \<in> set (map wf_fileName (ws_walFiles ws))) (ws_dir ws)\<rparr>"

text \<open>The write buffer is empty between operations and is never taken away, not even by \<^verbatim>\<open>Close\<close>, so this always succeeds.\<close>

definition wal_FlushPending :: "'v walFile \<Rightarrow> wal_error option \<times> 'v walFile" where
  "wal_FlushPending ws = (None, ws)"

definition wal_Close :: "'v walFile \<Rightarrow> 'v walFile" where
  "wal_Close ws = (if \<not> ws_open ws then ws else ws\<lparr>ws_open := False, ws_spareReadBuffer := None\<rparr>)"

section \<open>Recovery\<close>

definition GetWalFileTms :: "wal_dir \<Rightarrow> int list" where
  "GetWalFileTms d = sort (map fst d)"

text \<open>The state of the tags while the files are replayed: a later time wins, the first of equal times stays.\<close>

definition replay_item :: "'v wal_item \<Rightarrow> (u32 \<rightharpoonup> int) \<times> (u32 \<rightharpoonup> 'v) \<times> bool \<Rightarrow> (u32 \<rightharpoonup> int) \<times> (u32 \<rightharpoonup> 'v) \<times> bool" where
  "replay_item it acc =
     (case it of (key, t, v) \<Rightarrow> case acc of (mx, lst, ns) \<Rightarrow>
        (let ns' = (case mx key of None \<Rightarrow> ns | Some m \<Rightarrow> ns \<or> t < m)
         in if (case mx key of None \<Rightarrow> True | Some m \<Rightarrow> t > m) then (mx(key \<mapsto> t), lst(key \<mapsto> v), ns') else (mx, lst, ns')))"

text \<open>One file: it is cut behind the last record when \<^verbatim>\<open>getAllData\<close> reports an error.\<close>

definition recover_file :: "'v wal_ops \<Rightarrow> WalConfig \<Rightarrow> int \<Rightarrow> 'v walFileEnty list \<times> (u32 \<rightharpoonup> int) \<times> (u32 \<rightharpoonup> 'v) \<times> wal_dir \<Rightarrow>
    'v walFileEnty list \<times> (u32 \<rightharpoonup> int) \<times> (u32 \<rightharpoonup> 'v) \<times> wal_dir" where
  "recover_file V cfg name acc =
     (case acc of (files, mx, lst, d) \<Rightarrow>
        (let cap = nat (wc_MaxBufferBatchSize cfg);
             (rb, len, err) = getAllData V (the (file_bytes name d)) cap;
             d' = (if err \<noteq> None then dir_truncate name len d else d);
             (mx', lst', ns) = snd (rb_forEach (\<lambda>it acc. (True, replay_item it acc)) rb (mx, lst, False))
         in (files @ [\<lparr>wf_fileName = name, wf_length = int len,
                        wf_readBuffer = (if wc_CloseBuffer cfg then newWalReadBuffer cap else rb), wf_needsSort = ns\<rparr>], mx', lst', d')))"

text \<open>The dense codes leave the recovery maps, in the order Go's map iteration visits them (\<open>order\<close>).\<close>

definition move_dense :: "'v wal_ops \<Rightarrow> u32 \<Rightarrow> 'v walFile \<Rightarrow> 'v walFile" where
  "move_dense V key ws =
     (case ws_tagMaxTimestamp ws key of
        None \<Rightarrow> ws
      | Some m \<Rightarrow>
          if key > maxDenseWALTagCode then ws
          else (let ws' = storeTagState V key m (the (ws_tagLastValue ws key)) ws
                in ws'\<lparr>ws_tagMaxTimestamp := (ws_tagMaxTimestamp ws')(key := None), ws_tagLastValue := (ws_tagLastValue ws')(key := None)\<rparr>))"

definition NewWalFile :: "'v wal_ops \<Rightarrow> u32 list \<Rightarrow> int \<Rightarrow> wal_dir \<Rightarrow> int \<Rightarrow> int \<Rightarrow> WalConfig \<Rightarrow> 'v walFile" where
  "NewWalFile V order now d0 dedupW minI cfg0 =
     (let cfg = setDefaultValues cfg0;
          d = (if GetWalFileTms d0 = [] then [(now, [])] else d0);
          tms = (if GetWalFileTms d0 = [] then [now] else GetWalFileTms d0);
          (files, mx, lst, d') = fold (recover_file V cfg) tms ([], Map.empty, Map.empty, d);
          ws = \<lparr>ws_walFiles = files, ws_spareReadBuffer = None, ws_tagStates = [], ws_tagMaxTimestamp = mx, ws_tagLastValue = lst,
                ws_tagStateCount = 0, ws_open = True, ws_dedupWindowMs = dedupW, ws_minIntervalMs = minI, ws_config = cfg, ws_dir = d'\<rparr>;
          ws1 = fold (move_dense V) order ws
      in ws1\<lparr>ws_tagStateCount := ws_tagStateCount ws1 + length (filter (\<lambda>k. ws_tagMaxTimestamp ws1 k \<noteq> None) order)\<rparr>)"

end
