(* ===== verification/Wal_Props.thy ===== *)
theory Wal_Props
  imports Wal
begin

text \<open>
  What the write-ahead log guarantees.  A log stands for a list of lists of points, one per file; writing appends the points
  that a per-entry reference policy accepts, reading returns the points of a tag sorted by time, the flush sees
  exactly the complete files, and recovery gives back every complete record.
\<close>

section \<open>Records\<close>

definition wal_law :: "'v wal_ops \<Rightarrow> bool" where
  "wal_law V \<longleftrightarrow> (\<forall>v. wv_AppendBinary V v \<noteq> [] \<and> wv_IsBinaryFormat V (wv_AppendBinary V v) \<and>
     wv_UnmarshalBinary V (wv_AppendBinary V v) = Some v)"

fun item_fits :: "'v wal_ops \<Rightarrow> 'v wal_item \<Rightarrow> bool" where
  "item_fits V (k, t, v) \<longleftrightarrow> int64_range t \<and> 12 + length (wv_AppendBinary V v) < 2 ^ 32"

definition wal_log :: "'v wal_ops \<Rightarrow> 'v wal_item list \<Rightarrow> bytes" where
  "wal_log V its = concat (map (\<lambda>(k, t, v). wal_record V k t v) its)"

fun push_item :: "'v wal_ops \<Rightarrow> 'v wal_item \<Rightarrow> 'v walReadBuffer \<Rightarrow> 'v walReadBuffer" where
  "push_item V (k, t, v) b = appendValue V k t v b"

lemma wal_log_simps [simp]: "wal_log V [] = []" "wal_log V ((k, t, v) # its) = wal_record V k t v @ wal_log V its"
  "wal_log V (as @ bs) = wal_log V as @ wal_log V bs"
  by (simp_all add: wal_log_def)

lemma appendSerialized_record: "appendSerialized V dst k t v = (dst @ wal_record V k t v, int (length (wal_record V k t v)))"
  by (simp add: appendSerialized_def wal_record_def Let_def)

lemma length_wal_record: "length (wal_record V k t v) = 16 + length (wv_AppendBinary V v)"
  by (simp add: wal_record_def Let_def)

lemma push_items_ok:
  "rb_ok V b \<Longrightarrow> rb_ok V (fold (push_item V) its b) \<and> rb_items (fold (push_item V) its b) = rb_items b @ its
     \<and> rb_chunkCap (fold (push_item V) its b) = rb_chunkCap b"
proof (induction its arbitrary: b)
  case (Cons it its)
  obtain k t v where it: "it = (k, t, v)" by (cases it)
  show ?case using Cons.IH [of "appendValue V k t v b"] appendValue_ok [OF Cons.prems, of k t v] by (simp add: it)
qed simp

text \<open>The fields of a record that stands at \<open>pos\<close>.\<close>

lemma record_fields:
  assumes law: "wal_law V" and fits: "item_fits V (k, t, v)" and rest0: "rest = wal_record V k t v @ more'"
  defines "n \<equiv> 12 + length (wv_AppendBinary V v)"
  shows "unat (be_get (take 4 rest) :: u32) = n" "12 < n" "4 + n \<le> length rest" "length (wal_record V k t v) = 4 + n"
    "be_get (take 4 (take n (drop 4 rest))) = k" "sint (be_get (take 8 (drop 4 (take n (drop 4 rest)))) :: u64) = t"
    "decode_value V (drop 12 (take n (drop 4 rest))) = Some v"
proof -
  let ?body = "be_put 4 k @ be_put 8 (of_int t :: u64) @ wv_AppendBinary V v"
  have ne: "wv_AppendBinary V v \<noteq> []" using law by (simp add: wal_law_def)
  have rest: "rest = be_put 4 (of_nat n :: u32) @ ?body @ more'" by (simp add: rest0 n_def wal_record_def Let_def)
  have nn: "n < 2 ^ 32" using fits by (simp add: n_def)
  have body: "take n (drop 4 rest) = ?body" by (simp add: rest n_def)
  show "unat (be_get (take 4 rest) :: u32) = n" using nn by (simp add: rest codec_simps unat_of_nat_u32)
  show "12 < n" using ne by (simp add: n_def)
  show "4 + n \<le> length rest" by (simp add: rest n_def)
  show "length (wal_record V k t v) = 4 + n" by (simp add: length_wal_record n_def)
  show "be_get (take 4 (take n (drop 4 rest))) = k" unfolding body by (simp add: codec_simps)
  show "sint (be_get (take 8 (drop 4 (take n (drop 4 rest)))) :: u64) = t"
    using fits unfolding body by (simp add: codec_simps signed_of_int signed_take_bit_int_eq_self)
  show "decode_value V (drop 12 (take n (drop 4 rest))) = Some v"
    unfolding body using law by (simp add: decode_value_def wal_law_def)
qed

lemma getAllData_step:
  assumes law: "wal_law V" and fits: "item_fits V (k, t, v)" and at: "drop pos d = wal_record V k t v @ rest"
  shows "getAllData_loop V d pos b = getAllData_loop V d (pos + length (wal_record V k t v)) (appendValue V k t v b)"
proof -
  note f = record_fields [OF law fits at]
  have "drop pos d \<noteq> []" "\<not> length (drop pos d) < 4" using f(3) by auto
  then show ?thesis
    using f by (subst getAllData_loop.simps) (simp add: Let_def rb_append_def not_le not_less)
qed

lemma forEachWalFile_step:
  assumes law: "wal_law V" and fits: "item_fits V (k, t, v)" and at: "drop pos d = wal_record V k t v @ rest"
  shows "forEachWalFile V fc d pos s =
     (case fc k t v (pos + length (wal_record V k t v)) s of
        (True, s') \<Rightarrow> forEachWalFile V fc d (pos + length (wal_record V k t v)) s' | (False, s') \<Rightarrow> (None, s'))"
proof -
  define n where "n = 12 + length (wv_AppendBinary V v)"
  note f = record_fields [OF law fits at, folded n_def]
  have "drop pos d \<noteq> []" "\<not> length (drop pos d) < 4" using f(3) by auto
  then show ?thesis
    using f(1-3,5-7) unfolding f(4) by (subst forEachWalFile.simps) (simp add: Let_def not_le not_less)
qed

text \<open>A record cut anywhere, and the end of the file.\<close>

lemma torn_record:
  assumes law: "wal_law V" and fits: "item_fits V (k, t, v)" and at: "rest = take m (wal_record V k t v)" and m: "0 < m" "m < length (wal_record V k t v)"
  shows "rest \<noteq> [] \<and> (length rest < 4 \<or> 12 < unat (be_get (take 4 rest) :: u32) \<and> length rest < 4 + unat (be_get (take 4 rest) :: u32))"
proof -
  note f = record_fields [OF law fits append_Nil2 [symmetric]]
  have len: "length rest = m" using at m by simp
  show ?thesis
  proof (cases "m < 4")
    case True
    then show ?thesis using len m by auto
  next
    case False
    then have "take 4 rest = take 4 (wal_record V k t v)" by (simp add: at min_def)
    then show ?thesis using f(1,2,4) len m by auto
  qed
qed

lemma getAllData_torn:
  assumes "wal_law V" "item_fits V (k, t, v)" "drop pos d = take m (wal_record V k t v)" "0 < m" "m < length (wal_record V k t v)"
  shows "\<exists>e. getAllData_loop V d pos b = (b, pos, Some e)"
  using torn_record [OF assms] by (subst getAllData_loop.simps) (auto simp: Let_def)

lemma getAllData_end: "drop pos d = [] \<Longrightarrow> getAllData_loop V d pos b = (b, pos, Some ErrEOF)"
  by (subst getAllData_loop.simps) simp

lemma drop_past: "drop pos d = xs @ ys \<Longrightarrow> drop (pos + length xs) d = ys"
  by (metis append_eq_conv_conj drop_drop add.commute)

lemma getAllData_log:
  assumes "wal_law V" "list_all (item_fits V) its" "drop pos d = wal_log V its @ rest"
  shows "getAllData_loop V d pos b = getAllData_loop V d (pos + length (wal_log V its)) (fold (push_item V) its b)"
  using assms(2,3)
proof (induction its arbitrary: pos b)
  case (Cons it its)
  obtain k t v where it: "it = (k, t, v)" by (cases it)
  have at: "drop pos d = wal_record V k t v @ (wal_log V its @ rest)" using Cons.prems(2) by (simp add: it)
  show ?case
    using getAllData_step [OF assms(1) _ at, of b] Cons.IH [OF _ drop_past [OF at]] Cons.prems(1) by (simp add: it add.assoc)
qed simp

text \<open>Recovery of a file cut at any byte: the complete records, and the offset behind them.\<close>

lemma getAllData_cut:
  assumes law: "wal_law V" and fits: "list_all (item_fits V) its" and n: "n \<le> length (wal_log V its)" and cap: "0 < cap"
  shows "\<exists>j rb e. j \<le> length its \<and> getAllData V (take n (wal_log V its)) cap = (rb, length (wal_log V (take j its)), Some e) \<and>
           rb_ok V rb \<and> rb_items rb = take j its \<and> rb_chunkCap rb = cap \<and>
           take (length (wal_log V (take j its))) (take n (wal_log V its)) = wal_log V (take j its) \<and>
           (j < length its \<longrightarrow> n < length (wal_log V (take (Suc j) its)))"
proof -
  obtain j r where j: "j \<le> length its" "take n (wal_log V its) = wal_log V (take j its) @ r"
      "r = [] \<or> (\<exists>k. j < length its \<and> 0 < k \<and> k < length (case its ! j of (k, t, v) \<Rightarrow> wal_record V k t v) \<and>
         r = take k (case its ! j of (k, t, v) \<Rightarrow> wal_record V k t v))"
      "length (wal_log V (take j its)) \<le> n" "j < length its \<longrightarrow> n < length (wal_log V (take (Suc j) its))"
    using cut_concat [of n "\<lambda>(k, t, v). wal_record V k t v" its, folded wal_log_def, OF n] by (elim exE conjE) (rule that)
  let ?d = "take n (wal_log V its)" and ?p = "length (wal_log V (take j its))"
  have fits': "list_all (item_fits V) (take j its)" using fits by (auto simp: list_all_iff dest: in_set_takeD)
  have "getAllData V ?d cap = getAllData_loop V ?d ?p (fold (push_item V) (take j its) (newWalReadBuffer cap))"
    unfolding getAllData_def using getAllData_log [OF law fits', of 0 ?d r] j(2) by simp
  moreover have "\<exists>e. getAllData_loop V ?d ?p b = (b, ?p, Some e)" for b
  proof (cases "r = []")
    case True
    then show ?thesis using getAllData_end [of ?p ?d V b] j(2) by auto
  next
    case False
    obtain k t v where it: "its ! j = (k, t, v)" by (cases "its ! j")
    obtain m where m: "j < length its" "0 < m" "m < length (wal_record V k t v)" "r = take m (wal_record V k t v)"
      using j(3) False it by auto
    have "item_fits V (k, t, v)" using fits m(1) it by (metis list_all_length)
    moreover have "drop ?p ?d = take m (wal_record V k t v)" using j(2) m(4) by simp
    ultimately show ?thesis using getAllData_torn [OF law _ _ m(2,3)] by blast
  qed
  moreover have "take ?p ?d = wal_log V (take j its)" using j(2) by simp
  ultimately obtain e where "getAllData V ?d cap = (fold (push_item V) (take j its) (newWalReadBuffer cap), ?p, Some e)"
      "take ?p ?d = wal_log V (take j its)"
    by metis
  moreover have "rb_chunkCap (newWalReadBuffer cap) = cap" by (simp add: newWalReadBuffer_def)
  ultimately show ?thesis
    using j(1,5) push_items_ok [of V "newWalReadBuffer cap" "take j its"] newWalReadBuffer_ok [OF cap, of V]
    by (intro exI [of _ j] exI [of _ "fold (push_item V) (take j its) (newWalReadBuffer cap)"] exI [of _ e]) simp
qed

lemma forEachWalFile_log:
  assumes "wal_law V" "list_all (item_fits V) its" "drop pos d = wal_log V its"
    and "\<And>k t v off s. fst (fc k t v off s) \<and> snd (fc k t v off s) = g (k, t, v) s"
  shows "forEachWalFile V fc d pos s = (None, fold g its s)"
  using assms(2,3)
proof (induction its arbitrary: pos s)
  case Nil
  then show ?case by (subst forEachWalFile.simps) simp
next
  case (Cons it its)
  obtain k t v where it: "it = (k, t, v)" by (cases it)
  have at: "drop pos d = wal_record V k t v @ wal_log V its" using Cons.prems(2) by (simp add: it)
  have "fc k t v (pos + length (wal_record V k t v)) s = (True, g (k, t, v) s)" by (simp add: prod_eq_iff assms(4))
  then show ?case
    using forEachWalFile_step [OF assms(1) _ at, of fc s] Cons.IH [OF _ drop_past [OF at]] Cons.prems(1) by (simp add: it)
qed

section \<open>The state of the tags\<close>

text \<open>What the writers rely on: a store that answers with what was last put under a key.\<close>

locale tag_store =
  fixes get :: "'k \<Rightarrow> 's \<Rightarrow> 'w option" and put :: "'k \<Rightarrow> 'w \<Rightarrow> 's \<Rightarrow> 's"
  assumes get_put: "get k' (put k w s) = (if k' = k then Some w else get k' s)"
begin

definition view :: "'s \<Rightarrow> 'k \<Rightarrow> 'w option" where
  "view s = (\<lambda>k. get k s)"

text \<open>The store with the state of one key held in local variables.\<close>

definition run_view :: "('k \<times> 'w option) option \<Rightarrow> 's \<Rightarrow> 'k \<Rightarrow> 'w option" where
  "run_view run s = (case run of None \<Rightarrow> view s | Some (k, cur) \<Rightarrow> (view s)(k := cur))"

lemma view_put: "view (put k w s) = (view s)(k := Some w)"
  by (auto simp: view_def get_put)

lemma run_view_store: "run_view (Some (k, Some w)) s = view (put k w s)"
  by (simp add: run_view_def view_put)

lemma run_view_load: "run_view (Some (k, get k s)) s = view s"
  by (auto simp: run_view_def view_def)

lemma run_view_upd: "run_view (Some (k, w)) s = (run_view (Some (k, w')) s)(k := w)"
  by (simp add: run_view_def)

end

lemma grow_to_gt: "0 < n \<Longrightarrow> index < grow_to index n"
  by (induction index n rule: grow_to.induct) (subst grow_to.simps, auto)

lemma loadTagState_store:
  "loadTagState k' (storeTagState V k m l ws) = (if k' = k then Some (m, l) else loadTagState k' ws)"
proof (cases "k \<le> maxDenseWALTagCode")
  case False
  then show ?thesis by (auto simp: loadTagState_def storeTagState_def split: option.splits)
next
  case True
  let ?len = "length (ws_tagStates ws)"
  let ?new = "min (grow_to (unat k) (max 64 (?len * 2))) (unat maxDenseWALTagCode + 1)"
  have k: "unat k \<le> unat maxDenseWALTagCode" using True by (simp add: word_le_nat_alt)
  have "unat k < ?new" using grow_to_gt [of "max 64 (?len * 2)" "unat k"] k by simp
  moreover have inj: "unat a = unat b \<longleftrightarrow> a = b" for a b :: u32 by (simp add: word_unat_eq_iff)
  ultimately show ?thesis using True
    by (auto simp: loadTagState_def storeTagState_def Let_def nth_append nth_list_update inj split: option.splits)
qed

interpretation ts: tag_store loadTagState "\<lambda>k w. storeTagState V k (fst w) (snd w)" for V
  by unfold_locales (simp add: loadTagState_store)

text \<open>The part of a log that the state of the tags is not.\<close>

definition same_log :: "'v walFile \<Rightarrow> 'v walFile \<Rightarrow> bool" where
  "same_log a b \<longleftrightarrow> ws_walFiles a = ws_walFiles b \<and> ws_spareReadBuffer a = ws_spareReadBuffer b \<and> ws_open a = ws_open b \<and>
     ws_dedupWindowMs a = ws_dedupWindowMs b \<and> ws_minIntervalMs a = ws_minIntervalMs b \<and> ws_config a = ws_config b \<and> ws_dir a = ws_dir b"

lemma same_log_refl [simp]: "same_log a a" by (simp add: same_log_def)

lemma same_log_trans: "same_log a b \<Longrightarrow> same_log b c \<Longrightarrow> same_log a c" by (simp add: same_log_def)

lemma same_log_store [simp]: "same_log (storeTagState V k m l ws) ws"
  by (simp add: same_log_def storeTagState_def Let_def)

section \<open>The policy, entry by entry\<close>

fun spec_batch :: "'v wal_ops \<Rightarrow> int \<Rightarrow> int \<Rightarrow> 'v wal_item list \<Rightarrow> (u32 \<Rightarrow> (int \<times> 'v) option) \<Rightarrow> 'v wal_item list \<times> (u32 \<Rightarrow> (int \<times> 'v) option)" where
  "spec_batch V minI dedupW [] st = ([], st)"
| "spec_batch V minI dedupW ((k, t, v) # its) st =
     (if rejects V minI dedupW (st k) t v then spec_batch V minI dedupW its st
      else (let (r, st') = spec_batch V minI dedupW its (st(k := advance (st k) t v)) in ((k, t, v) # r, st')))"

text \<open>Whether an accepted point is older than the state of its tag, which makes the file need a sort.\<close>

fun spec_late :: "'v wal_ops \<Rightarrow> int \<Rightarrow> int \<Rightarrow> 'v wal_item list \<Rightarrow> (u32 \<Rightarrow> (int \<times> 'v) option) \<Rightarrow> bool" where
  "spec_late V minI dedupW [] st \<longleftrightarrow> False"
| "spec_late V minI dedupW ((k, t, v) # its) st \<longleftrightarrow>
     (if rejects V minI dedupW (st k) t v then spec_late V minI dedupW its st
      else is_late (st k) t \<or> spec_late V minI dedupW its (st(k := advance (st k) t v)))"

definition entry_item :: "'v walDataEntry \<Rightarrow> 'v wal_item" where
  "entry_item e = (we_Key e, we_Timestamp e, we_Value e)"

lemma entry_item_simps [simp]: "entry_item \<lparr>we_EndPosition = p, we_Key = k, we_Timestamp = t, we_Value = v\<rparr> = (k, t, v)"
  "entry_item (e\<lparr>we_EndPosition := p\<rparr>) = entry_item e"
  by (simp_all add: entry_item_def)

lemma spec_batch_append:
  "spec_batch V mi dw (xs @ ys) st = (let (a, st1) = spec_batch V mi dw xs st; (b, st2) = spec_batch V mi dw ys st1 in (a @ b, st2))"
  by (induction xs arbitrary: st) (auto simp: Let_def split: prod.splits)

lemma publish_view:
  "(case run of Some (k, None) \<Rightarrow> False | _ \<Rightarrow> True) \<Longrightarrow> ts.view (publish V run ws) = ts.run_view run ws \<and> same_log (publish V run ws) ws"
  using ts.run_view_store [where V = V]
  by (auto simp: publish_def ts.run_view_def split: option.splits prod.splits)

lemma next_run_view:
  assumes "(case run of Some (k, None) \<Rightarrow> False | _ \<Rightarrow> True)" "next_run V key run ws = (cur, ws1)"
  shows "ts.run_view (Some (key, cur)) ws1 = ts.run_view run ws \<and> cur = ts.run_view run ws key \<and> same_log ws1 ws"
proof -
  consider (same) cur' where "run = Some (key, cur')" | (none) "run = None" | (other) k cur' where "run = Some (k, cur')" "k \<noteq> key"
    by (cases run) auto
  then show ?thesis
  proof cases
    case same
    then show ?thesis using assms(2) by (simp add: next_run_def ts.run_view_def)
  next
    case none
    then show ?thesis using assms(2) by (auto simp: next_run_def ts.run_view_def ts.view_def)
  next
    case other
    then have "ws1 = publish V run ws" "cur = loadTagState key ws1" using assms(2) by (auto simp: next_run_def Let_def)
    then show ?thesis using publish_view [OF assms(1), of V ws] ts.run_view_load [of key ws1]
      by (auto simp: ts.view_def dest: fun_cong [of _ _ key])
  qed
qed

lemma advance_known: "(case cur of None \<Rightarrow> rejects V mi dw cur t v | Some _ \<Rightarrow> True) \<Longrightarrow> cur \<noteq> None"
  by (cases cur) (simp_all add: rejects_def)

text \<open>One pass with the state of the current run in local variables is the entry-by-entry policy.\<close>

lemma dedupRuns_spec:
  assumes "(case run of Some (k, None) \<Rightarrow> False | _ \<Rightarrow> True)" "0 \<le> start" "start \<le> len" "\<forall>e \<in> set es. we_EndPosition e = 0"
    "dedupRuns V es run buf len ns ws = (es', buf', len', ns', ws')"
    "spec_batch V (ws_minIntervalMs ws) (ws_dedupWindowMs ws) (map entry_item es) (ts.run_view run ws) = (acc, st')"
  shows "buf' = buf @ wal_log V acc \<and> len' = len + int (length (wal_log V acc)) \<and> ts.view ws' = st' \<and> same_log ws' ws \<and>
           map entry_item (filter (\<lambda>e. \<not> we_EndPosition e \<le> start) es') = acc \<and>
           ns' = (ns \<or> spec_late V (ws_minIntervalMs ws) (ws_dedupWindowMs ws) (map entry_item es) (ts.run_view run ws))"
  using assms
proof (induction es arbitrary: run buf len ns ws es' buf' len' ns' ws' acc st')
  case Nil
  then show ?case using publish_view [of run V ws] by auto
next
  case (Cons e es)
  let ?k = "we_Key e" and ?t = "we_Timestamp e" and ?v = "we_Value e"
  obtain cur ws1 where nr: "next_run V ?k run ws = (cur, ws1)" by (cases "next_run V ?k run ws")
  have view: "ts.run_view (Some (?k, cur)) ws1 = ts.run_view run ws" "ts.run_view run ws ?k = cur" "same_log ws1 ws"
    using next_run_view [OF Cons.prems(1) nr] by auto
  have pol: "ws_minIntervalMs ws1 = ws_minIntervalMs ws" "ws_dedupWindowMs ws1 = ws_dedupWindowMs ws" using view(3) by (simp_all add: same_log_def)
  let ?mi = "ws_minIntervalMs ws" and ?dw = "ws_dedupWindowMs ws"
  have zero: "we_EndPosition e = 0" and zeros: "\<forall>e \<in> set es. we_EndPosition e = 0" using Cons.prems(4) by auto
  show ?case
  proof (cases "rejects V ?mi ?dw cur ?t ?v")
    case True
    then have known: "case Some (?k, cur) of Some (k, None) \<Rightarrow> False | _ \<Rightarrow> True" by (cases cur) (simp_all add: rejects_def)
    obtain es1 where rec: "dedupRuns V es (Some (?k, cur)) buf len ns ws1 = (es1, buf', len', ns', ws')" "es' = e # es1"
      using Cons.prems(5) True by (auto simp: nr pol split: prod.splits)
    have "spec_batch V ?mi ?dw (map entry_item es) (ts.run_view (Some (?k, cur)) ws1) = (acc, st')"
      using Cons.prems(6) True by (simp add: entry_item_def [of e] view)
    from Cons.IH [OF known Cons.prems(2,3) zeros rec(1), unfolded pol, OF this] show ?thesis
      using rec(2) zero Cons.prems(2) same_log_trans view(3) True by (auto simp: view(1,2) entry_item_def [of e])
  next
    case False
    let ?cur = "advance cur ?t ?v" and ?rec = "wal_record V ?k ?t ?v"
    have known: "case Some (?k, ?cur) of Some (k, None) \<Rightarrow> False | _ \<Rightarrow> True" by (cases cur) (simp_all add: advance_def is_late_def)
    obtain es1 where rec: "dedupRuns V es (Some (?k, ?cur)) (buf @ ?rec) (len + int (length ?rec)) (ns \<or> is_late cur ?t) ws1 = (es1, buf', len', ns', ws')"
        "es' = e\<lparr>we_EndPosition := len + int (length ?rec)\<rparr> # es1"
      using Cons.prems(5) False by (auto simp: nr pol appendSerialized_record Let_def split: prod.splits)
    obtain acc1 where acc: "spec_batch V ?mi ?dw (map entry_item es) (ts.run_view (Some (?k, ?cur)) ws1) = (acc1, st')" "acc = (?k, ?t, ?v) # acc1"
      using Cons.prems(6) False ts.run_view_upd [of ?k ?cur ws1 cur] by (auto simp: entry_item_def [of e] view Let_def split: prod.splits)
    have late: "spec_late V ?mi ?dw (map entry_item (e # es)) (ts.run_view run ws) \<longleftrightarrow>
        is_late cur ?t \<or> spec_late V ?mi ?dw (map entry_item es) (ts.run_view (Some (?k, ?cur)) ws1)"
      using False view(1,2) ts.run_view_upd [of ?k ?cur ws1 cur] by (simp add: entry_item_def [of e])
    have "start \<le> len + int (length ?rec)" using Cons.prems(3) by simp
    from Cons.IH [OF known Cons.prems(2) this zeros rec(1), unfolded pol, OF acc(1)] show ?thesis
      using rec(2) acc(2) Cons.prems(3) same_log_trans view(3) unfolding late by (auto simp: length_wal_record entry_item_def [of e])
  qed
qed

section \<open>What a log stands for\<close>

definition file_repr :: "'v wal_ops \<Rightarrow> bool \<Rightarrow> 'v walFileEnty \<Rightarrow> 'v wal_item list \<Rightarrow> bool" where
  "file_repr V closeBuffer f its \<longleftrightarrow> wf_length f = int (length (wal_log V its)) \<and> rb_ok V (wf_readBuffer f) \<and>
     rb_items (wf_readBuffer f) = (if closeBuffer then [] else its)"

definition wal_repr :: "'v wal_ops \<Rightarrow> 'v walFile \<Rightarrow> 'v wal_item list list \<Rightarrow> bool" where
  "wal_repr V ws logs \<longleftrightarrow> ws_open ws \<and> ws_walFiles ws \<noteq> [] \<and>
     ws_dir ws = map2 (\<lambda>f its. (wf_fileName f, wal_log V its)) (ws_walFiles ws) logs \<and>
     sorted_wrt (<) (map wf_fileName (ws_walFiles ws)) \<and>
     list_all2 (file_repr V (wc_CloseBuffer (ws_config ws))) (ws_walFiles ws) logs \<and>
     list_all (list_all (item_fits V)) logs \<and> 0 < wc_MaxFileSize (ws_config ws) \<and> 0 < wc_MaxBufferBatchSize (ws_config ws) \<and>
     (case ws_spareReadBuffer ws of None \<Rightarrow> True | Some b \<Rightarrow> rb_ok V b \<and> rb_items b = [])"

definition names_below :: "'v walFile \<Rightarrow> int \<Rightarrow> bool" where
  "names_below ws now \<longleftrightarrow> (\<forall>f \<in> set (ws_walFiles ws). wf_fileName f < now)"

lemma names_below_map: "names_below ws now \<longleftrightarrow> list_all (\<lambda>n. n < now) (map wf_fileName (ws_walFiles ws))"
  by (auto simp: names_below_def list_all_iff)

lemma fresh_name_free: "now \<notin> set (map fst d) \<Longrightarrow> fresh_name d now = now"
  by (subst fresh_name.simps) simp

lemma wal_repr_lists: "wal_repr V ws logs \<Longrightarrow> length logs = length (ws_walFiles ws) \<and> logs \<noteq> []"
  by (auto simp: wal_repr_def dest: list_all2_lengthD)

lemma wal_repr_last:
  assumes "wal_repr V ws logs"
  obtains fs f ls l where "ws_walFiles ws = fs @ [f]" "logs = ls @ [l]" "length fs = length ls"
proof -
  have "length logs = length (ws_walFiles ws)" "logs \<noteq> []" "ws_walFiles ws \<noteq> []"
    using wal_repr_lists [OF assms] by auto
  then show ?thesis using that [of "butlast (ws_walFiles ws)" "last (ws_walFiles ws)" "butlast logs" "last logs"] by simp
qed

lemma dir_append_last: "name \<notin> set (map fst d) \<Longrightarrow> dir_append name bs (d @ [(name, c)]) = d @ [(name, c @ bs)]"
  by (induction d) (auto simp: dir_append_def)

lemma map_fst_map2: "length xs = length ys \<Longrightarrow> map fst (map2 (\<lambda>x y. (f x, g x y)) xs ys) = map f xs"
  by (induction xs ys rule: list_induct2) auto

lemma view_cong: "ws_tagStates a = ws_tagStates b \<Longrightarrow> ws_tagMaxTimestamp a = ws_tagMaxTimestamp b \<Longrightarrow>
  ws_tagLastValue a = ws_tagLastValue b \<Longrightarrow> ts.view a = ts.view b"
  by (simp add: ts.view_def loadTagState_def cong: option.case_cong if_cong)

text \<open>Appending accepted points to the last file.\<close>

lemma append_repr:
  assumes r: "wal_repr V ws (ls @ [l])" and files: "ws_walFiles ws = fs @ [f]" and len: "length fs = length ls"
    and same: "same_log ws1 ws" and fits: "list_all (item_fits V) acc"
    and rb: "rb = (if wc_CloseBuffer (ws_config ws) then wf_readBuffer f else fold (push_item V) acc (wf_readBuffer f))"
    and ws2: "ws2 = set_last_file (\<lambda>f. f\<lparr>wf_needsSort := ns, wf_length := wf_length f + int (length (wal_log V acc)), wf_readBuffer := rb\<rparr>)
               (ws1\<lparr>ws_dir := dir_append (wf_fileName f) (wal_log V acc) (ws_dir ws1)\<rparr>)"
  shows "wal_repr V ws2 (ls @ [l @ acc]) \<and> ts.view ws2 = ts.view ws1 \<and> ws_config ws2 = ws_config ws \<and>
           ws_minIntervalMs ws2 = ws_minIntervalMs ws \<and> ws_dedupWindowMs ws2 = ws_dedupWindowMs ws \<and>
           map wf_fileName (ws_walFiles ws2) = map wf_fileName (ws_walFiles ws)"
proof -
  let ?g = "f\<lparr>wf_needsSort := ns, wf_length := wf_length f + int (length (wal_log V acc)), wf_readBuffer := rb\<rparr>"
  let ?d = "map2 (\<lambda>f its. (wf_fileName f, wal_log V its)) fs ls"
  have s: "ws_walFiles ws1 = fs @ [f]" "ws_config ws1 = ws_config ws" "ws_dir ws1 = ?d @ [(wf_fileName f, wal_log V l)]"
      "ws_open ws1" "ws_spareReadBuffer ws1 = ws_spareReadBuffer ws"
      "ws_minIntervalMs ws1 = ws_minIntervalMs ws" "ws_dedupWindowMs ws1 = ws_dedupWindowMs ws"
    using same files r len by (auto simp: same_log_def wal_repr_def)
  have sorted: "sorted_wrt (<) (map wf_fileName (fs @ [f]))" using r files by (simp add: wal_repr_def)
  have "map fst ?d = map wf_fileName fs" using len by (rule map_fst_map2)
  then have new: "wf_fileName f \<notin> set (map fst ?d)" using sorted by (auto simp: sorted_wrt_append)
  have eq: "ws2 = ws1\<lparr>ws_dir := ?d @ [(wf_fileName f, wal_log V (l @ acc))], ws_walFiles := fs @ [?g]\<rparr>"
    unfolding ws2 by (simp add: set_last_file_def s dir_append_last [OF new])
  have fr: "list_all2 (file_repr V (wc_CloseBuffer (ws_config ws))) fs ls" "file_repr V (wc_CloseBuffer (ws_config ws)) f l"
    using r files len by (auto simp: wal_repr_def list_all2_append)
  have "file_repr V (wc_CloseBuffer (ws_config ws)) ?g (l @ acc)"
    using fr(2) push_items_ok [of V "wf_readBuffer f" acc] by (simp add: file_repr_def rb)
  then have "wal_repr V ws2 (ls @ [l @ acc])"
    using r fr(1) fits files len sorted unfolding wal_repr_def eq by (auto simp: s list_all2_append)
  moreover have "ts.view ws2 = ts.view ws1" unfolding eq by (rule view_cong) simp_all
  ultimately show ?thesis using s files unfolding eq by simp
qed

lemma rotate_repr:
  assumes r: "wal_repr V ws logs" and now: "names_below ws now"
  shows "(wal_repr V (rotateIfFull now ws) logs \<or> wal_repr V (rotateIfFull now ws) (logs @ [[]])) \<and>
     ts.view (rotateIfFull now ws) = ts.view ws \<and> ws_config (rotateIfFull now ws) = ws_config ws \<and>
     ws_minIntervalMs (rotateIfFull now ws) = ws_minIntervalMs ws \<and> ws_dedupWindowMs (rotateIfFull now ws) = ws_dedupWindowMs ws \<and>
     (\<forall>t > now. names_below (rotateIfFull now ws) t)"
proof (cases "rotateIfFull now ws = ws")
  case True
  then show ?thesis using assms by (auto simp: names_below_def)
next
  case False
  then have rot: "rotateIfFull now ws = addWalFile now ws" by (auto simp: rotateIfFull_def split: if_splits)
  let ?cap = "nat (wc_MaxBufferBatchSize (ws_config ws))"
  have dom: "map fst (ws_dir ws) = map wf_fileName (ws_walFiles ws)"
    using r wal_repr_lists [OF r] map_fst_map2 [of "ws_walFiles ws" logs wf_fileName "\<lambda>_. wal_log V"] by (simp add: wal_repr_def)
  have nm: "fresh_name (ws_dir ws) now = now" using now unfolding dom [symmetric] names_below_def
    by (intro fresh_name_free) (auto simp: dom)
  obtain rb spare where add: "addWalFile now ws = ws\<lparr>ws_dir := ws_dir ws @ [(now, [])], ws_spareReadBuffer := spare,
      ws_walFiles := ws_walFiles ws @ [\<lparr>wf_fileName = now, wf_length = 0, wf_readBuffer = rb, wf_needsSort = False\<rparr>]\<rparr>"
    and rb: "rb_ok V rb" "rb_items rb = []" and spare: "case spare of None \<Rightarrow> True | Some b \<Rightarrow> rb_ok V b \<and> rb_items b = []"
  proof -
    have cap: "rb_ok V (newWalReadBuffer ?cap)" "rb_items (newWalReadBuffer ?cap :: 'a walReadBuffer) = []"
      using newWalReadBuffer_ok [of ?cap V] r by (auto simp: wal_repr_def)
    show ?thesis
    proof (cases "ws_spareReadBuffer ws")
      case None
      then show ?thesis using that [of "newWalReadBuffer ?cap" None] cap by (simp add: addWalFile_def nm Let_def)
    next
      case (Some b)
      then have "rb_ok V b \<and> rb_items b = []" using r by (simp add: wal_repr_def)
      then show ?thesis using Some cap that [of "newWalReadBuffer ?cap" "Some b"] that [of b None]
        by (cases "int (rb_chunkCap b) \<noteq> wc_MaxBufferBatchSize (ws_config ws)") (simp_all add: addWalFile_def nm Let_def)
    qed
  qed
  have "wal_repr V (addWalFile now ws) (logs @ [[]])"
    using r rb spare now wal_repr_lists [OF r] unfolding wal_repr_def add
    by (auto simp: list_all2_append file_repr_def sorted_wrt_append names_below_def)
  moreover have "ts.view (addWalFile now ws) = ts.view ws" unfolding add by (rule view_cong) simp_all
  ultimately show ?thesis using now unfolding rot by (auto simp: add names_below_def)
qed

lemma spec_batch_subset: "spec_batch V mi dw its st = (acc, st') \<Longrightarrow> set acc \<subseteq> set its"
  by (induction its arbitrary: st acc st') (force simp: Let_def split: if_splits prod.splits)+

lemma fold_rb_append: "fold (rb_append V) es b = fold (push_item V) (map entry_item es) b"
  by (induction es arbitrary: b) (simp_all add: rb_append_def entry_item_def)

text \<open>A batch: refused and without an effect, or its accepted points are appended.\<close>

lemma WriteBatch_repr:
  assumes law: "wal_repr V ws logs" and now: "names_below ws now" and fits: "list_all (item_fits V) (map entry_item es)"
    and wb: "WriteBatch V now es ws = (n, err, ws')"
    and spec: "spec_batch V (ws_minIntervalMs ws) (ws_dedupWindowMs ws) (map entry_item es) (ts.view ws) = (acc, st')"
  shows "(err = Some ErrorWALCacheFull \<and> n = 0 \<and> ws' = ws) \<or>
     (err = None \<and> n = length acc \<and> ts.view ws' = st' \<and>
      (\<exists>logs'. wal_repr V ws' logs' \<and> (logs' = butlast logs @ [last logs @ acc] \<or> logs' = butlast logs @ [last logs @ acc, []] \<or> logs' = logs \<and> acc = [])) \<and>
      ws_config ws' = ws_config ws \<and> ws_minIntervalMs ws' = ws_minIntervalMs ws \<and> ws_dedupWindowMs ws' = ws_dedupWindowMs ws \<and>
      (\<forall>t > now. names_below ws' t))"
proof -
  have opened: "ws_open ws" using law by (simp add: wal_repr_def)
  obtain fs f ls l where fl: "ws_walFiles ws = fs @ [f]" "logs = ls @ [l]" "length fs = length ls"
    using wal_repr_last [OF law] .
  consider (at_limit) "wal_is_full ws" "es \<noteq> []" | (nothing) "es = []" | (fits_in) "\<not> wal_is_full ws" "es \<noteq> []" by blast
  then show ?thesis
  proof cases
    case at_limit
    then show ?thesis using wb opened by (simp add: WriteBatch_def writeBatchLocked_def)
  next
    case nothing
    then show ?thesis using wb opened spec law now by (auto simp: WriteBatch_def writeBatchLocked_def names_below_def)
  next
    case fits_in
    let ?es = "map (\<lambda>e. e\<lparr>we_EndPosition := 0\<rparr>) es"
    obtain es' buf len ns ws1 where dd: "dedupRuns V ?es None [] (wf_length f) (wf_needsSort f) ws = (es', buf, len, ns, ws1)"
      by (cases "dedupRuns V ?es None [] (wf_length f) (wf_needsSort f) ws") auto
    have items: "map entry_item ?es = map entry_item es" by (induction es) simp_all
    have "0 \<le> wf_length f" using law fl by (auto simp: wal_repr_def list_all2_append file_repr_def)
    from dedupRuns_spec [OF _ this order_refl _ dd, unfolded items, of acc st'] spec
    have dr: "buf = wal_log V acc" "len = wf_length f + int (length (wal_log V acc))" "ts.view ws1 = st'" "same_log ws1 ws"
        "map entry_item (filter (\<lambda>e. \<not> we_EndPosition e \<le> wf_length f) es') = acc"
      by (simp_all add: ts.run_view_def)
    let ?acc = "filter (\<lambda>e. \<not> we_EndPosition e \<le> wf_length f) es'"
    let ?rb = "if wc_CloseBuffer (ws_config ws) then wf_readBuffer f else fold (push_item V) acc (wf_readBuffer f)"
    define ws2 where "ws2 = set_last_file (\<lambda>f. f\<lparr>wf_needsSort := ns, wf_length := wf_length f + int (length (wal_log V acc)), wf_readBuffer := ?rb\<rparr>)
               (ws1\<lparr>ws_dir := dir_append (wf_fileName f) (wal_log V acc) (ws_dir ws1)\<rparr>)"
    have lastf: "last (ws_walFiles ws) = f" "last (ws_walFiles ws1) = f" "ws_config ws1 = ws_config ws" using fl dr(4) by (simp_all add: same_log_def)
    have "set_last_file (\<lambda>ent. ent\<lparr>wf_needsSort := ns, wf_length := len, wf_readBuffer := ?rb\<rparr>) w = ws2"
      if "w = ws1\<lparr>ws_dir := dir_append (wf_fileName f) buf (ws_dir ws1)\<rparr>" for w
      using that by (simp add: set_last_file_def lastf dr(1,2) ws2_def)
    then have res: "n = length ?acc" "err = None" "ws' = rotateIfFull now ws2"
      using wb opened fits_in dr(5) by (auto simp: WriteBatch_def writeBatchLocked_def dd lastf Let_def fold_rb_append)
    have "list_all (item_fits V) acc" using fits spec_batch_subset [OF spec] by (auto simp: list_all_iff)
    note ap = append_repr [OF law [unfolded fl(2)] fl(1,3) dr(4) this refl ws2_def]
    have "map wf_fileName (ws_walFiles ws2) = map wf_fileName (ws_walFiles ws)" using ap by (elim conjE)
    then have nb: "names_below ws2 now" using now by (simp only: names_below_map)
    note rr = rotate_repr [OF conjunct1 [OF ap] nb, folded res(3)]
    have "n = length acc" using res(1) dr(5) by (metis length_map)
    moreover have "\<exists>logs'. wal_repr V ws' logs' \<and> (logs' = butlast logs @ [last logs @ acc] \<or> logs' = butlast logs @ [last logs @ acc, []] \<or> logs' = logs \<and> acc = [])"
      using conjunct1 [OF rr] unfolding fl(2) by auto
    moreover have "ts.view ws' = st'" "ws_config ws' = ws_config ws" "ws_minIntervalMs ws' = ws_minIntervalMs ws"
        "ws_dedupWindowMs ws' = ws_dedupWindowMs ws" "\<forall>t > now. names_below ws' t"
      using ap rr dr(3) by simp_all
    ultimately show ?thesis using res(2) by blast
  qed
qed

end
