(* ===== verification/Wal_Recovery.thy ===== *)
theory Wal_Recovery
  imports Wal_Props
begin

text \<open>
  Runs of the write-ahead log, crashes and recovery: what \<^verbatim>\<open>NewWalFile\<close> makes of the directory a run left, with its last
  file cut at any byte.
\<close>

section \<open>Runs\<close>

fun wal_run :: "'v wal_ops \<Rightarrow> (int \<times> 'v walDataEntry list) list \<Rightarrow> 'v walFile \<Rightarrow> 'v wal_item list \<times> 'v walFile" where
  "wal_run V [] ws = ([], ws)"
| "wal_run V ((now, es) # bs) ws =
     (let (n, err, ws') = WriteBatch V now es ws; (ok, w) = wal_run V bs ws'
      in ((if err = None then map entry_item es else []) @ ok, w))"

definition batches_ok :: "'v wal_ops \<Rightarrow> (int \<times> 'v walDataEntry list) list \<Rightarrow> bool" where
  "batches_ok V bs \<longleftrightarrow> sorted_wrt (<) (map fst bs) \<and> list_all (\<lambda>(now, es). list_all (item_fits V) (map entry_item es)) bs"

text \<open>A run keeps what every batch keeps.\<close>

lemma wal_run_invariant:
  assumes step: "\<And>ws logs now es n ws' logs' acc st'. P ws logs \<Longrightarrow> wal_repr V ws logs \<Longrightarrow> WriteBatch V now es ws = (n, None, ws') \<Longrightarrow>
      spec_batch V (ws_minIntervalMs ws) (ws_dedupWindowMs ws) (map entry_item es) (ts.view ws) = (acc, st') \<Longrightarrow> wal_repr V ws' logs' \<Longrightarrow>
      logs' = butlast logs @ [last logs @ acc] \<or> logs' = butlast logs @ [last logs @ acc, []] \<or> logs' = logs \<and> acc = [] \<Longrightarrow> ts.view ws' = st' \<Longrightarrow> P ws' logs'"
    and "P ws logs" "wal_repr V ws logs" "batches_ok V bs" "bs \<noteq> [] \<longrightarrow> names_below ws (fst (hd bs))" "wal_run V bs ws = (ok, w)"
    "spec_batch V (ws_minIntervalMs ws) (ws_dedupWindowMs ws) ok (ts.view ws) = (acc, st)"
  shows "\<exists>logs'. wal_repr V w logs' \<and> P w logs' \<and> concat logs' = concat logs @ acc \<and> ts.view w = st \<and> ws_config w = ws_config ws \<and>
           ws_minIntervalMs w = ws_minIntervalMs ws \<and> ws_dedupWindowMs w = ws_dedupWindowMs ws"
  using assms(2-)
proof (induction bs arbitrary: ws logs ok acc)
  case Nil
  then show ?case by auto
next
  case (Cons b bs)
  obtain now es where b: "b = (now, es)" by (cases b)
  obtain n err ws' where wb: "WriteBatch V now es ws = (n, err, ws')" by (cases "WriteBatch V now es ws")
  obtain ok' where run: "wal_run V bs ws' = (ok', w)" "ok = (if err = None then map entry_item es else []) @ ok'"
    using Cons.prems(5) by (auto simp: b wb Let_def split: prod.splits)
  have fits: "list_all (item_fits V) (map entry_item es)" and below: "names_below ws now" and bs: "batches_ok V bs"
    and later: "bs \<noteq> [] \<longrightarrow> now < fst (hd bs)"
    using Cons.prems(3,4) by (auto simp: b batches_ok_def list_all_iff)
  obtain acc1 st1 where sp: "spec_batch V (ws_minIntervalMs ws) (ws_dedupWindowMs ws) (map entry_item es) (ts.view ws) = (acc1, st1)"
    by (cases "spec_batch V (ws_minIntervalMs ws) (ws_dedupWindowMs ws) (map entry_item es) (ts.view ws)")
  consider (refused) "err = Some ErrorWALCacheFull" "ws' = ws"
    | (taken) logs1 where "err = None" "ts.view ws' = st1" "wal_repr V ws' logs1"
        "logs1 = butlast logs @ [last logs @ acc1] \<or> logs1 = butlast logs @ [last logs @ acc1, []] \<or> logs1 = logs \<and> acc1 = []"
        "ws_config ws' = ws_config ws" "ws_minIntervalMs ws' = ws_minIntervalMs ws" "ws_dedupWindowMs ws' = ws_dedupWindowMs ws"
        "\<forall>t > now. names_below ws' t"
    using WriteBatch_repr [OF Cons.prems(2) below fits wb sp] by metis
  then show ?case
  proof cases
    case refused
    have "bs \<noteq> [] \<longrightarrow> names_below ws (fst (hd bs))" using below later by (auto simp: names_below_def)
    then show ?thesis using Cons.IH [OF Cons.prems(1,2) bs _ run(1) [unfolded refused(2)]] Cons.prems(6) run(2) refused(1) by simp
  next
    case taken
    then have nb: "bs \<noteq> [] \<longrightarrow> names_below ws' (fst (hd bs))" using later by blast
    obtain acc2 where acc2: "spec_batch V (ws_minIntervalMs ws') (ws_dedupWindowMs ws') ok' (ts.view ws') = (acc2, st)" "acc = acc1 @ acc2"
      using Cons.prems(6) taken(1,2,6,7) run(2) by (auto simp: spec_batch_append sp Let_def split: prod.splits)
    have "logs \<noteq> []" using wal_repr_lists [OF Cons.prems(2)] by blast
    then have "concat logs = concat (butlast logs) @ last logs" by (metis append_butlast_last_id concat_append concat.simps append_Nil2)
    then have concat1: "concat logs1 = concat logs @ acc1" using taken(4) by auto
    have "P ws' logs1" using step [OF Cons.prems(1,2) _ sp taken(3,4,2)] wb taken(1) by simp
    then show ?thesis using Cons.IH [OF _ taken(3) bs nb run(1) acc2(1)] acc2(2) taken(5-7) concat1 by auto
  qed
qed

lemma wal_run_repr:
  assumes "wal_repr V ws logs" "batches_ok V bs" "bs \<noteq> [] \<longrightarrow> names_below ws (fst (hd bs))" "wal_run V bs ws = (ok, w)"
    "spec_batch V (ws_minIntervalMs ws) (ws_dedupWindowMs ws) ok (ts.view ws) = (acc, st)"
  shows "\<exists>logs'. wal_repr V w logs' \<and> concat logs' = concat logs @ acc \<and> ts.view w = st \<and> ws_config w = ws_config ws \<and>
           ws_minIntervalMs w = ws_minIntervalMs ws \<and> ws_dedupWindowMs w = ws_dedupWindowMs ws"
  using wal_run_invariant [where P = "\<lambda>_ _. True", OF TrueI TrueI assms] by simp

section \<open>Replaying the tags\<close>

text \<open>The newest point of every tag in a list of points; of equal times the first.\<close>

definition newest_step :: "'v wal_item \<Rightarrow> (u32 \<Rightarrow> (int \<times> 'v) option) \<Rightarrow> u32 \<Rightarrow> (int \<times> 'v) option" where
  "newest_step it st = (case it of (k, t, v) \<Rightarrow>
     if (case st k of None \<Rightarrow> True | Some (m, _) \<Rightarrow> t > m) then st(k := Some (t, v)) else st)"

definition newest :: "'v wal_item list \<Rightarrow> u32 \<Rightarrow> (int \<times> 'v) option" where
  "newest its = fold newest_step its (\<lambda>_. None)"

definition replay_view :: "(u32 \<rightharpoonup> int) \<Rightarrow> (u32 \<rightharpoonup> 'v) \<Rightarrow> u32 \<Rightarrow> (int \<times> 'v) option" where
  "replay_view mx lst = (\<lambda>k. case mx k of None \<Rightarrow> None | Some m \<Rightarrow> Some (m, the (lst k)))"

lemma replay_view_upd: "replay_view (mx(k \<mapsto> t)) (lst(k \<mapsto> v)) = (replay_view mx lst)(k := Some (t, v))"
  by (auto simp: replay_view_def split: option.splits)

lemma replay_view_at: "replay_view mx lst k = (case mx k of None \<Rightarrow> None | Some m \<Rightarrow> Some (m, the (lst k)))"
  by (simp add: replay_view_def)

lemma replay_item_view:
  "replay_item it (mx, lst, ns) = (mx', lst', ns') \<Longrightarrow> replay_view mx' lst' = newest_step it (replay_view mx lst)"
proof -
  obtain k t v where it: "it = (k, t, v)" by (cases it)
  assume "replay_item it (mx, lst, ns) = (mx', lst', ns')"
  then show ?thesis
    by (cases "mx k") (auto simp: it replay_item_def newest_step_def replay_view_at replay_view_upd Let_def split: if_splits)
qed

lemma replay_items_view:
  "fold replay_item its (mx, lst, ns) = (mx', lst', ns') \<Longrightarrow> replay_view mx' lst' = fold newest_step its (replay_view mx lst)"
proof (induction its arbitrary: mx lst ns)
  case (Cons it its)
  obtain a b c where abc: "replay_item it (mx, lst, ns) = (a, b, c)" by (cases "replay_item it (mx, lst, ns)")
  then show ?case using Cons.IH [of a b c] Cons.prems replay_item_view [OF abc] by simp
qed simp

definition states_apart :: "'v walFile \<Rightarrow> bool" where
  "states_apart ws \<longleftrightarrow> (\<forall>k. k \<le> maxDenseWALTagCode \<and> unat k < length (ws_tagStates ws) \<and> ts_known (ws_tagStates ws ! unat k) \<longrightarrow>
     ws_tagMaxTimestamp ws k = None)"

lemma move_dense_view:
  assumes "states_apart ws"
  shows "states_apart (move_dense V key ws) \<and> ts.view (move_dense V key ws) = ts.view ws \<and> same_log (move_dense V key ws) ws"
proof (cases "ws_tagMaxTimestamp ws key = None \<or> key > maxDenseWALTagCode")
  case True
  then show ?thesis using assms by (auto simp: move_dense_def split: option.splits)
next
  case False
  then obtain m where m: "ws_tagMaxTimestamp ws key = Some m" "key \<le> maxDenseWALTagCode" by auto
  let ?l = "the (ws_tagLastValue ws key)"
  let ?s = "storeTagState V key m ?l ws"
  let ?r = "?s\<lparr>ws_tagMaxTimestamp := (ws_tagMaxTimestamp ?s)(key := None), ws_tagLastValue := (ws_tagLastValue ?s)(key := None)\<rparr>"
  have md: "move_dense V key ws = ?r" using m by (simp add: move_dense_def Let_def)
  have maps: "ws_tagMaxTimestamp ?s = ws_tagMaxTimestamp ws" "ws_tagLastValue ?s = ws_tagLastValue ws"
    using m(2) by (simp_all add: storeTagState_def Let_def)
  have own: "loadTagState key ws = Some (m, ?l)" using assms m by (auto simp: loadTagState_def states_apart_def)
  have dense: "k \<le> maxDenseWALTagCode \<and> unat k < length (ws_tagStates ?s) \<and> ts_known (ws_tagStates ?s ! unat k) \<longleftrightarrow>
      k = key \<or> k \<le> maxDenseWALTagCode \<and> unat k < length (ws_tagStates ws) \<and> ts_known (ws_tagStates ws ! unat k)" for k
  proof -
    have inj: "unat a = unat b \<longleftrightarrow> a = b" for a b :: u32 by (simp add: word_unat_eq_iff)
    have "unat key < min (grow_to (unat key) (max 64 (length (ws_tagStates ws) * 2))) (unat maxDenseWALTagCode + 1)"
      using grow_to_gt [of "max 64 (length (ws_tagStates ws) * 2)" "unat key"] m(2) by (simp add: word_le_nat_alt)
    then show ?thesis using m(2) by (auto simp: storeTagState_def Let_def nth_append nth_list_update inj)
  qed
  have apart: "states_apart ?r" using assms dense unfolding states_apart_def by (simp add: maps)
  have "loadTagState k ?r = loadTagState k ws" for k
  proof (cases "k = key")
    case True
    have "loadTagState key ?r = loadTagState key ?s"
      using dense [of key] unfolding loadTagState_def by simp
    then show ?thesis using True own by (simp add: loadTagState_store)
  next
    case False
    then have "loadTagState k ?r = loadTagState k ?s" by (auto simp: loadTagState_def maps split: option.splits)
    then show ?thesis using False by (simp add: loadTagState_store)
  qed
  then have "ts.view ?r = ts.view ws" by (simp add: ts.view_def)
  moreover have "same_log ?r ws" using same_log_store [of V key m ?l ws] by (simp add: same_log_def)
  ultimately show ?thesis using apart unfolding md by blast
qed

lemma move_all_view:
  "states_apart ws \<Longrightarrow> ts.view (fold (move_dense V) order ws) = ts.view ws \<and> same_log (fold (move_dense V) order ws) ws"
proof (induction order arbitrary: ws)
  case (Cons k ks)
  show ?case using Cons.IH [of "move_dense V k ws"] move_dense_view [OF Cons.prems, of V k] same_log_trans by auto
qed simp

section \<open>Replaying the files\<close>

lemma file_bytes_mid: "name \<notin> set (map fst d1) \<Longrightarrow> file_bytes name (d1 @ (name, c) # d2) = Some c"
  using map_of_eq_None_iff [of d1 name] by (simp add: file_bytes_def map_add_def)

lemma file_resize_take: "n \<le> length c \<Longrightarrow> file_resize n c = take n c"
  by (simp add: file_resize_def)

lemma file_resize_0 [simp]: "file_resize 0 c = []"
  by (simp add: file_resize_def)

lemma dir_truncate_mid:
  "name \<notin> set (map fst d1) \<Longrightarrow> name \<notin> set (map fst d2) \<Longrightarrow>
   dir_truncate name n (d1 @ (name, c) # d2) = d1 @ (name, file_resize n c) # d2"
proof -
  have "name \<notin> set (map fst d) \<Longrightarrow> dir_truncate name n d = d" for d by (induction d) (auto simp: dir_truncate_def)
  moreover have "dir_truncate name n (a @ b) = dir_truncate name n a @ dir_truncate name n b" for a b by (simp add: dir_truncate_def)
  ultimately show "name \<notin> set (map fst d1) \<Longrightarrow> name \<notin> set (map fst d2) \<Longrightarrow> ?thesis" by (simp add: dir_truncate_def)
qed

lemma each_until_true: "each_until (\<lambda>it acc. (True, g it acc)) its s = (True, fold g its s)"
  by (induction its arbitrary: s) simp_all

text \<open>A file that holds a log cut at any byte comes back as a prefix of its points, and is cut behind them.\<close>

lemma recover_file_cut:
  assumes law: "wal_law V" and fits: "list_all (item_fits V) its" and n: "n \<le> length (wal_log V its)" and cap: "0 < wc_MaxBufferBatchSize cfg"
    and d: "name \<notin> set (map fst d1)" "name \<notin> set (map fst d2)"
  shows "\<exists>j f mx' lst'. j \<le> length its \<and> (j < length its \<longrightarrow> n < length (wal_log V (take (Suc j) its))) \<and>
     recover_file V cfg name (files, mx, lst, d1 @ (name, take n (wal_log V its)) # d2)
       = (files @ [f], mx', lst', d1 @ (name, wal_log V (take j its)) # d2) \<and>
     file_repr V (wc_CloseBuffer cfg) f (take j its) \<and> wf_fileName f = name \<and>
     replay_view mx' lst' = fold newest_step (take j its) (replay_view mx lst)"
proof -
  let ?cap = "nat (wc_MaxBufferBatchSize cfg)" and ?c = "take n (wal_log V its)"
  have "0 < ?cap" using cap by simp
  from getAllData_cut [OF law fits n this] obtain j rb e where j: "j \<le> length its"
      "getAllData V ?c ?cap = (rb, length (wal_log V (take j its)), Some e)" "rb_ok V rb" "rb_items rb = take j its"
      "take (length (wal_log V (take j its))) ?c = wal_log V (take j its)" "j < length its \<longrightarrow> n < length (wal_log V (take (Suc j) its))"
    by (elim exE conjE) (rule that)
  obtain mx' lst' ns where rp: "fold replay_item (take j its) (mx, lst, False) = (mx', lst', ns)"
    by (cases "fold replay_item (take j its) (mx, lst, False)") auto
  let ?f = "\<lparr>wf_fileName = name, wf_length = int (length (wal_log V (take j its))),
     wf_readBuffer = (if wc_CloseBuffer cfg then newWalReadBuffer ?cap else rb), wf_needsSort = ns\<rparr>"
  have size: "length (wal_log V (take j its)) \<le> length ?c" using arg_cong [OF j(5), of length] unfolding length_take [of "length (wal_log V (take j its))" ?c] by (metis min.cobounded1)
  have "recover_file V cfg name (files, mx, lst, d1 @ (name, ?c) # d2) = (files @ [?f], mx', lst', d1 @ (name, wal_log V (take j its)) # d2)"
    using size by (simp add: recover_file_def file_bytes_mid [OF d(1)] j(2) rb_forEach_items each_until_true j(4) rp dir_truncate_mid [OF d] file_resize_take j(5) del: take_take length_take)
  moreover have "file_repr V (wc_CloseBuffer cfg) ?f (take j its)"
    using j(3,4) newWalReadBuffer_ok [OF \<open>0 < ?cap\<close>, of V] by (simp add: file_repr_def)
  moreover have "replay_view mx' lst' = fold newest_step (take j its) (replay_view mx lst)" by (rule replay_items_view [OF rp])
  moreover have "wf_fileName ?f = name" by simp
  ultimately show ?thesis using j(1,6) by (intro exI [of _ j] exI [of _ ?f] exI [of _ mx'] exI [of _ lst'] conjI) auto
qed

lemma recover_files_whole:
  assumes law: "wal_law V" and cap: "0 < wc_MaxBufferBatchSize cfg"
  shows "list_all (list_all (item_fits V)) logs \<Longrightarrow> length names = length logs \<Longrightarrow> distinct (map fst d1 @ names @ map fst d2) \<Longrightarrow>
    \<exists>fs mx' lst'. fold (recover_file V cfg) names (files, mx, lst, d1 @ zip names (map (wal_log V) logs) @ d2)
       = (files @ fs, mx', lst', d1 @ zip names (map (wal_log V) logs) @ d2) \<and> map wf_fileName fs = names \<and>
     list_all2 (file_repr V (wc_CloseBuffer cfg)) fs logs \<and> replay_view mx' lst' = fold newest_step (concat logs) (replay_view mx lst)"
proof (induction logs arbitrary: names files mx lst d1)
  case Nil
  then show ?case by simp
next
  case (Cons its logs)
  then obtain name names' where names: "names = name # names'" by (cases names) auto
  let ?d2 = "zip names' (map (wal_log V) logs) @ d2"
  have d: "name \<notin> set (map fst d1)" "name \<notin> set (map fst ?d2)"
    using Cons.prems(2,3) by (auto simp: names dest: set_zip_leftD)
  have fits: "list_all (item_fits V) its" using Cons.prems(1) by simp
  from recover_file_cut [OF law fits order_refl cap d, of files mx lst] obtain j f mx1 lst1 where f: "j \<le> length its"
      "j < length its \<longrightarrow> length (wal_log V its) < length (wal_log V (take (Suc j) its))"
      "recover_file V cfg name (files, mx, lst, d1 @ (name, take (length (wal_log V its)) (wal_log V its)) # ?d2)
         = (files @ [f], mx1, lst1, d1 @ (name, wal_log V (take j its)) # ?d2)"
      "file_repr V (wc_CloseBuffer cfg) f (take j its)" "wf_fileName f = name"
      "replay_view mx1 lst1 = fold newest_step (take j its) (replay_view mx lst)"
    by (elim exE conjE) (rule that)
  have "length (wal_log V (take (Suc j) its)) \<le> length (wal_log V its)"
    by (metis append_take_drop_id le_add1 length_append wal_log_simps(3))
  then have jj: "take j its = its" using f(1,2) by (cases "j = length its") auto
  have d1: "distinct (map fst (d1 @ [(name, wal_log V its)]) @ names' @ map fst d2)" using Cons.prems(3) by (auto simp: names)
  have lens: "length names' = length logs" and fits': "list_all (list_all (item_fits V)) logs" using Cons.prems(1,2) by (auto simp: names)
  from Cons.IH [OF fits' lens d1, of "files @ [f]" mx1 lst1] obtain fs mx' lst' where fs:
      "fold (recover_file V cfg) names' (files @ [f], mx1, lst1, (d1 @ [(name, wal_log V its)]) @ zip names' (map (wal_log V) logs) @ d2)
         = ((files @ [f]) @ fs, mx', lst', (d1 @ [(name, wal_log V its)]) @ zip names' (map (wal_log V) logs) @ d2)"
      "map wf_fileName fs = names'" "list_all2 (file_repr V (wc_CloseBuffer cfg)) fs logs"
      "replay_view mx' lst' = fold newest_step (concat logs) (replay_view mx1 lst1)"
    by (elim exE conjE) (rule that)
  then show ?case using f(3-6) jj by (intro exI [of _ "f # fs"] exI [of _ mx'] exI [of _ lst']) (simp add: names)
qed

text \<open>The directory after a crash that cut the file being written at byte \<open>n\<close>.\<close>

definition crash_dir :: "nat \<Rightarrow> 'v walFile \<Rightarrow> wal_dir" where
  "crash_dir n ws = butlast (ws_dir ws) @ [(fst (last (ws_dir ws)), take n (snd (last (ws_dir ws))))]"

lemma map2_zip: "map2 (\<lambda>f its. (g f, h its)) fs logs = zip (map g fs) (map h logs)"
  by (induction fs logs rule: list_induct2') simp_all

lemma setDefaultValues_pos: "0 < wc_MaxFileSize (setDefaultValues c) \<and> 0 < wc_MaxBufferBatchSize (setDefaultValues c)"
  by (simp add: setDefaultValues_def Let_def)

lemma NewWalFile_repr:
  assumes law: "wal_law V" and r: "wal_repr V ws logs" and n: "n \<le> length (wal_log V (last logs))"
  shows "\<exists>j \<le> length (last logs). (j < length (last logs) \<longrightarrow> n < length (wal_log V (take (Suc j) (last logs)))) \<and>
     wal_repr V (NewWalFile V order now (crash_dir n ws) dw mi cfg) (butlast logs @ [take j (last logs)]) \<and>
     ts.view (NewWalFile V order now (crash_dir n ws) dw mi cfg) = newest (concat (butlast logs @ [take j (last logs)])) \<and>
     map wf_fileName (ws_walFiles (NewWalFile V order now (crash_dir n ws) dw mi cfg)) = map wf_fileName (ws_walFiles ws) \<and>
     ws_minIntervalMs (NewWalFile V order now (crash_dir n ws) dw mi cfg) = mi \<and>
     ws_dedupWindowMs (NewWalFile V order now (crash_dir n ws) dw mi cfg) = dw"
proof -
  obtain fs f ls l where fl: "ws_walFiles ws = fs @ [f]" "logs = ls @ [l]" "length fs = length ls"
    using wal_repr_last [OF r] .
  let ?cfg = "setDefaultValues cfg" and ?names = "map wf_fileName fs" and ?name = "wf_fileName f"
  let ?d1 = "zip ?names (map (wal_log V) ls)"
  have dir: "ws_dir ws = ?d1 @ [(?name, wal_log V l)]" using r fl by (simp add: wal_repr_def map2_zip)
  then have cd: "crash_dir n ws = ?d1 @ [(?name, take n (wal_log V l))]" by (simp add: crash_dir_def)
  have fst: "map fst (crash_dir n ws) = ?names @ [?name]" using fl(3) by (simp add: cd)
  have sorted: "sorted_wrt (<) (?names @ [?name])" using r fl by (simp add: wal_repr_def)
  then have dist: "distinct (?names @ [?name])" by (metis strict_sorted_iff)
  have tms: "GetWalFileTms (crash_dir n ws) = ?names @ [?name]"
    using sorted unfolding GetWalFileTms_def fst by (intro sorted_sort_id) (metis strict_sorted_iff)
  have fits: "list_all (list_all (item_fits V)) ls" "list_all (item_fits V) l" using r fl by (simp_all add: wal_repr_def)
  have cap: "0 < wc_MaxBufferBatchSize ?cfg" using setDefaultValues_pos by blast
  have "distinct (map fst [] @ ?names @ map fst [(?name, take n (wal_log V l))])" using dist by simp
  from recover_files_whole [OF law cap fits(1) _ this, of "[]" Map.empty Map.empty] fl(3) obtain fs1 mx1 lst1 where one:
      "fold (recover_file V ?cfg) ?names ([], Map.empty, Map.empty, ?d1 @ [(?name, take n (wal_log V l))])
         = (fs1, mx1, lst1, ?d1 @ [(?name, take n (wal_log V l))])"
      "map wf_fileName fs1 = ?names" "list_all2 (file_repr V (wc_CloseBuffer ?cfg)) fs1 ls"
      "replay_view mx1 lst1 = fold newest_step (concat ls) (replay_view Map.empty Map.empty)"
    by auto
  have nl: "n \<le> length (wal_log V l)" using n fl by simp
  have "?name \<notin> set (map fst ?d1)" "?name \<notin> set (map fst ([] :: wal_dir))" using dist by (auto dest: set_zip_leftD)
  from recover_file_cut [OF law fits(2) nl cap this, of fs1 mx1 lst1] obtain j f2 mx2 lst2 where two: "j \<le> length l"
      "j < length l \<longrightarrow> n < length (wal_log V (take (Suc j) l))"
      "recover_file V ?cfg ?name (fs1, mx1, lst1, ?d1 @ [(?name, take n (wal_log V l))]) = (fs1 @ [f2], mx2, lst2, ?d1 @ [(?name, wal_log V (take j l))])"
      "file_repr V (wc_CloseBuffer ?cfg) f2 (take j l)" "wf_fileName f2 = ?name"
      "replay_view mx2 lst2 = fold newest_step (take j l) (replay_view mx1 lst1)"
    by (elim exE conjE) (rule that)
  define ws0 where "ws0 = \<lparr>ws_walFiles = fs1 @ [f2], ws_spareReadBuffer = None, ws_tagStates = [], ws_tagMaxTimestamp = mx2, ws_tagLastValue = lst2,
                ws_tagStateCount = 0, ws_open = True, ws_dedupWindowMs = dw, ws_minIntervalMs = mi, ws_config = ?cfg,
                ws_dir = ?d1 @ [(?name, wal_log V (take j l))]\<rparr>"
  define ws1 where "ws1 = fold (move_dense V) order ws0"
  define ws2 where "ws2 = ws1\<lparr>ws_tagStateCount := ws_tagStateCount ws1 + length (filter (\<lambda>k. ws_tagMaxTimestamp ws1 k \<noteq> None) order)\<rparr>"
  have new: "NewWalFile V order now (crash_dir n ws) dw mi cfg = ws2"
    unfolding NewWalFile_def Let_def tms by (simp add: cd one(1) two(3) ws0_def ws1_def ws2_def)
  have "states_apart ws0" by (simp add: states_apart_def ws0_def)
  from move_all_view [OF this, of V order] have mv: "ts.view ws1 = ts.view ws0" "same_log ws1 ws0" by (simp_all add: ws1_def)
  have same: "same_log ws2 ws0" using mv(2) by (simp add: same_log_def ws2_def)
  have "wal_repr V ws2 (ls @ [take j l])"
  proof -
    have "list_all2 (file_repr V (wc_CloseBuffer ?cfg)) (fs1 @ [f2]) (ls @ [take j l])" using one(3) two(4) by (simp add: list_all2_appendI)
    moreover have "list_all (list_all (item_fits V)) (ls @ [take j l])" using fits by (auto simp: list_all_iff dest: in_set_takeD)
    moreover have "length fs1 = length ls" using one(3) by (rule list_all2_lengthD)
    ultimately show ?thesis
      using same sorted one(2) two(5) setDefaultValues_pos [of cfg] unfolding same_log_def wal_repr_def by (simp add: ws0_def map2_zip)
  qed
  moreover have "ts.view ws2 = newest (concat (ls @ [take j l]))"
  proof -
    have "ts.view ws2 = ts.view ws1" unfolding ws2_def by (rule view_cong) simp_all
    also have "\<dots> = replay_view mx2 lst2" unfolding mv(1)
      by (simp add: ws0_def ts.view_def loadTagState_def replay_view_def cong: option.case_cong)
    also have "\<dots> = newest (concat (ls @ [take j l]))"
      unfolding two(6) one(4) by (simp add: newest_def replay_view_def)
    finally show ?thesis .
  qed
  moreover have "map wf_fileName (ws_walFiles ws2) = map wf_fileName (ws_walFiles ws)" using same one(2) two(5) fl(1) by (simp add: same_log_def ws0_def)
  moreover have "ws_minIntervalMs ws2 = mi" "ws_dedupWindowMs ws2 = dw" using same by (simp_all add: same_log_def ws0_def)
  ultimately show ?thesis using two(1,2) fl(2) unfolding new by (intro exI [of _ j]) simp
qed

lemma NewWalFile_empty:
  shows "wal_repr V (NewWalFile V order now [] dw mi cfg) [[]] \<and> ts.view (NewWalFile V order now [] dw mi cfg) = (\<lambda>_. None) \<and>
     (\<forall>t > now. names_below (NewWalFile V order now [] dw mi cfg) t) \<and>
     ws_minIntervalMs (NewWalFile V order now [] dw mi cfg) = mi \<and> ws_dedupWindowMs (NewWalFile V order now [] dw mi cfg) = dw \<and>
     map wf_needsSort (ws_walFiles (NewWalFile V order now [] dw mi cfg)) = [False]"
proof -
  let ?cfg = "setDefaultValues cfg" let ?cap = "nat (wc_MaxBufferBatchSize ?cfg)"
  have cap: "0 < ?cap" using setDefaultValues_pos [of cfg] by simp
  define f where "f = (\<lparr>wf_fileName = now, wf_length = 0, wf_readBuffer = newWalReadBuffer ?cap, wf_needsSort = False\<rparr> :: 'a walFileEnty)"
  define ws0 where "ws0 = \<lparr>ws_walFiles = [f], ws_spareReadBuffer = None, ws_tagStates = [], ws_tagMaxTimestamp = Map.empty, ws_tagLastValue = Map.empty,
                ws_tagStateCount = 0, ws_open = True, ws_dedupWindowMs = dw, ws_minIntervalMs = mi, ws_config = ?cfg, ws_dir = [(now, [])]\<rparr>"
  have ga: "getAllData V [] ?cap = (newWalReadBuffer ?cap, 0, Some ErrEOF)" by (simp add: getAllData_def getAllData_end)
  have fe: "rb_forEach g (newWalReadBuffer ?cap :: 'a walReadBuffer) s = (True, s)" for g s
    by (simp add: rb_forEach_def newWalReadBuffer_def)
  have still: "fold (move_dense V) order ws0 = ws0" by (induction order) (simp_all add: move_dense_def ws0_def)
  have "NewWalFile V order now [] dw mi cfg = ws0"
    unfolding NewWalFile_def Let_def using still
    by (simp add: GetWalFileTms_def recover_file_def file_bytes_def ga fe dir_truncate_def f_def ws0_def)
  moreover have "wal_repr V ws0 [[]]"
    using setDefaultValues_pos [of cfg] newWalReadBuffer_ok [OF cap, of V] by (simp add: wal_repr_def ws0_def file_repr_def f_def)
  moreover have "ts.view ws0 = (\<lambda>_. None)" by (simp add: ts.view_def loadTagState_def ws0_def)
  ultimately show ?thesis by (simp add: ws0_def names_below_def f_def)
qed

end
