(* ===== verification/Wal_Claims.thy ===== *)
theory Wal_Claims
  imports Wal_Recovery "HOL-Library.Multiset"
begin

text \<open>
  The properties of the write-ahead log as a whole, each about a log created in an empty directory and any sequence of batches
  with an increasing clock; and a small instance of the values for the witnesses.
\<close>

section \<open>A sample of the values\<close>

definition sample_wal :: "u64 wal_ops" where
  "sample_wal = \<lparr>wv_Zero = 0, wv_AppendBinary = be_put 8, wv_IsBinaryFormat = (\<lambda>_. True), wv_UnmarshalBinary = (\<lambda>bs. Some (be_get bs)),
     wv_UnmarshalJSON = (\<lambda>_. None), wv_IsEqual = (=), wv_IsReference = (\<lambda>_. False), wv_Size = 24\<rparr>"

lemma sample_wal_law: "wal_law sample_wal"
  by (auto simp: wal_law_def sample_wal_def be_get_put_full simp flip: length_0_conv)

definition sample_cfg :: WalConfig where
  "sample_cfg = \<lparr>wc_MaxFileSize = 30, wc_MaxFileNumber = 0, wc_CloseBuffer = False, wc_MaxBufferBatchSize = 2\<rparr>"

definition sample_entry :: "u32 \<Rightarrow> int \<Rightarrow> u64 \<Rightarrow> u64 walDataEntry" where
  "sample_entry k t v = \<lparr>we_EndPosition = 0, we_Key = k, we_Timestamp = t, we_Value = v\<rparr>"

definition sample_batches :: "(int \<times> u64 walDataEntry list) list" where
  "sample_batches = [(5, [sample_entry 1 10 7, sample_entry 1 20 8]), (6, [sample_entry 2 15 9, sample_entry 1 12 3])]"

lemma sample_fits: "int64_range t \<Longrightarrow> item_fits sample_wal (k, t, v)"
  by (simp add: sample_wal_def)

lemma sample_batches_ok: "batches_ok sample_wal sample_batches"
  by (simp add: batches_ok_def sample_batches_def sample_entry_def sample_wal_def)

section \<open>Runs of a new log\<close>

lemma new_run:
  assumes "batches_ok V bs" "bs \<noteq> [] \<longrightarrow> now0 < fst (hd bs)" "wal_run V bs (NewWalFile V [] now0 [] dw mi cfg) = (ok, w)"
    "spec_batch V mi dw ok (\<lambda>_. None) = (acc, st)"
  shows "\<exists>logs. wal_repr V w logs \<and> concat logs = acc \<and> ts.view w = st"
proof -
  note e = NewWalFile_empty [of V "[]" now0 dw mi cfg]
  have "bs \<noteq> [] \<longrightarrow> names_below (NewWalFile V [] now0 [] dw mi cfg) (fst (hd bs))" using e assms(2) by blast
  from wal_run_repr [OF conjunct1 [OF e] assms(1) this assms(3)] e assms(4) show ?thesis by auto
qed

lemma wal_repr_dir_size:
  assumes "wal_repr V ws (ls @ [l])" "n \<le> length (wal_log V l)"
  shows "sum_list (map (length \<circ> snd) (crash_dir n ws)) = length (wal_log V (concat ls)) + n \<and> snd (last (ws_dir ws)) = wal_log V l"
proof -
  obtain fs f where fl: "ws_walFiles ws = fs @ [f]" "length fs = length ls"
    using wal_repr_last [OF assms(1)] by (metis butlast_snoc)
  have dir: "ws_dir ws = zip (map wf_fileName fs) (map (wal_log V) ls) @ [(wf_fileName f, wal_log V l)]"
    using assms(1) fl by (simp add: wal_repr_def map2_zip)
  have "length fs = length ls \<Longrightarrow> sum_list (map (length \<circ> snd) (zip (map wf_fileName fs) (map (wal_log V) ls))) = length (wal_log V (concat ls))" for fs
    by (induction fs ls rule: list_induct2') auto
  then show ?thesis using fl(2) assms(2) by (simp add: crash_dir_def dir)
qed

text \<open>A log without a limit on its files refuses nothing.\<close>

lemma wal_run_unlimited:
  assumes "wal_repr V ws logs" "batches_ok V bs" "bs \<noteq> [] \<longrightarrow> names_below ws (fst (hd bs))" "wc_MaxFileNumber (ws_config ws) \<le> 0"
  shows "fst (wal_run V bs ws) = concat (map (map entry_item \<circ> snd) bs)"
  using assms
proof (induction bs arbitrary: ws logs)
  case (Cons b bs)
  obtain now es where b: "b = (now, es)" by (cases b)
  obtain n err ws' where wb: "WriteBatch V now es ws = (n, err, ws')" by (cases "WriteBatch V now es ws")
  have fits: "list_all (item_fits V) (map entry_item es)" and below: "names_below ws now" and bs: "batches_ok V bs"
    and later: "bs \<noteq> [] \<longrightarrow> now < fst (hd bs)"
    using Cons.prems(2,3) by (auto simp: b batches_ok_def list_all_iff)
  have "err = None" using wb Cons.prems(1,4) by (auto simp: WriteBatch_def writeBatchLocked_def wal_is_full_def wal_repr_def Let_def split: if_splits prod.splits)
  then obtain logs1 where "wal_repr V ws' logs1" "ws_config ws' = ws_config ws" "\<forall>t > now. names_below ws' t"
    using WriteBatch_repr [OF Cons.prems(1) below fits wb prod.collapse [symmetric]] by auto
  then have "fst (wal_run V bs ws') = concat (map (map entry_item \<circ> snd) bs)" using Cons.IH bs later Cons.prems(4) by metis
  then show ?case using \<open>err = None\<close> by (simp add: b wb Let_def case_prod_beta comp_def)
qed simp

lemma sample_run:
  "\<exists>w. wal_run sample_wal sample_batches (NewWalFile sample_wal [] 1 [] 0 0 sample_cfg) = ([(1, 10, 7), (1, 20, 8), (2, 15, 9), (1, 12, 3)], w)"
proof -
  note e = NewWalFile_empty [of sample_wal "[]" 1 0 0 sample_cfg]
  have "wc_MaxFileNumber (ws_config (NewWalFile sample_wal [] 1 [] 0 0 sample_cfg)) \<le> 0"
    by (simp add: NewWalFile_def Let_def setDefaultValues_def sample_cfg_def split: prod.splits)
  moreover have "sample_batches \<noteq> [] \<longrightarrow> names_below (NewWalFile sample_wal [] 1 [] 0 0 sample_cfg) (fst (hd sample_batches))"
    using e by (simp add: sample_batches_def)
  ultimately have "fst (wal_run sample_wal sample_batches (NewWalFile sample_wal [] 1 [] 0 0 sample_cfg)) = concat (map (map entry_item \<circ> snd) sample_batches)"
    using wal_run_unlimited [OF conjunct1 [OF e] sample_batches_ok] by blast
  then show ?thesis by (simp add: sample_batches_def sample_entry_def prod_eq_iff)
qed

text \<open>\<^bold>\<open>C13\<close>: crash safety of the write-ahead log.  A crash after any sequence of batches, with the file being written cut at any byte, loses nothing
  that is complete on disk: reopening gives a well-formed log that holds exactly the first \<open>j\<close> accepted points, in order, where only points whose records
  do not fit the bytes that were left are missing (none when no byte was lost), and the newest point of every tag among them.\<close>

theorem wal_recovers_complete_records:
  assumes law: "wal_law V" and bs: "batches_ok V bs" "bs \<noteq> [] \<longrightarrow> now0 < fst (hd bs)"
    and run: "wal_run V bs (NewWalFile V [] now0 [] dw mi cfg) = (ok, w)"
    and acc: "acc = fst (spec_batch V mi dw ok (\<lambda>_. None))" and n: "n \<le> length (snd (last (ws_dir w)))"
  shows "\<exists>j logs'. j \<le> length acc \<and> wal_repr V (NewWalFile V order now (crash_dir n w) dw' mi' cfg') logs' \<and> concat logs' = take j acc \<and>
           ts.view (NewWalFile V order now (crash_dir n w) dw' mi' cfg') = newest (take j acc) \<and>
           (j < length acc \<longrightarrow> sum_list (map (length \<circ> snd) (crash_dir n w)) < length (wal_log V (take (Suc j) acc)))"
proof -
  obtain st where sp: "spec_batch V mi dw ok (\<lambda>_. None) = (acc, st)" using acc by (metis prod.collapse)
  from new_run [OF bs run sp] obtain logs where r: "wal_repr V w logs" "concat logs = acc" by blast
  obtain ls l where l: "logs = ls @ [l]" using wal_repr_lists [OF r(1)] by (metis append_butlast_last_id)
  have nl: "n \<le> length (wal_log V l)" using n wal_repr_dir_size [of V w ls l 0] r(1) l by simp
  obtain j where j: "j \<le> length l" "j < length l \<longrightarrow> n < length (wal_log V (take (Suc j) l))"
      "wal_repr V (NewWalFile V order now (crash_dir n w) dw' mi' cfg') (ls @ [take j l])"
      "ts.view (NewWalFile V order now (crash_dir n w) dw' mi' cfg') = newest (concat (ls @ [take j l]))"
    using NewWalFile_repr [OF law r(1), of n order now dw' mi' cfg'] nl l by auto
  let ?j = "length (concat ls) + j"
  have "take ?j acc = concat (ls @ [take j l])" "take (Suc ?j) acc = concat ls @ take (Suc j) l" using r(2) l by auto
  moreover have "?j < length acc \<longleftrightarrow> j < length l" using r(2) l by auto
  ultimately show ?thesis
    using j wal_repr_dir_size [OF r(1) [unfolded l] nl] r(2) l
    by (intro exI [of _ ?j] exI [of _ "ls @ [take j l]"]) auto
qed

lemma no_policy: "mi \<le> 0 \<Longrightarrow> dw \<le> 0 \<Longrightarrow> \<not> rejects V mi dw cur t v"
  by (auto simp: rejects_def split: option.splits)

definition live :: "'v wal_item list \<Rightarrow> (u32 \<Rightarrow> (int \<times> 'v) option) \<Rightarrow> u32 \<Rightarrow> (int \<times> 'v) option" where
  "live its = fold (\<lambda>(k, t, v) st. st(k := advance (st k) t v)) its"

lemma spec_batch_all: "mi \<le> 0 \<Longrightarrow> dw \<le> 0 \<Longrightarrow> spec_batch V mi dw its st = (its, live its st)"
  by (induction its arbitrary: st) (auto simp: no_policy live_def Let_def)

theorem wal_recovers_complete_records_witness:
  "\<exists>w j logs'. wal_run sample_wal sample_batches (NewWalFile sample_wal [] 1 [] 0 0 sample_cfg) = ([(1, 10, 7), (1, 20, 8), (2, 15, 9), (1, 12, 3)], w) \<and>
     wal_repr sample_wal (NewWalFile sample_wal [1, 2] 9 (crash_dir 0 w) 0 0 sample_cfg) logs' \<and> concat logs' = take j [(1, 10, 7), (1, 20, 8), (2, 15, 9), (1, 12, 3)]"
proof -
  obtain w where w: "wal_run sample_wal sample_batches (NewWalFile sample_wal [] 1 [] 0 0 sample_cfg) = ([(1, 10, 7), (1, 20, 8), (2, 15, 9), (1, 12, 3)], w)"
    using sample_run by blast
  have clock: "sample_batches \<noteq> [] \<longrightarrow> 1 < fst (hd sample_batches)" by (simp add: sample_batches_def)
  from wal_recovers_complete_records [OF sample_wal_law sample_batches_ok clock w refl le0, of "[1, 2]" 9 0 0 sample_cfg, unfolded spec_batch_all [OF order_refl order_refl] fst_conv]
  obtain j logs' where "wal_repr sample_wal (NewWalFile sample_wal [1, 2] 9 (crash_dir 0 w) 0 0 sample_cfg) logs'"
      "concat logs' = take j [(1, 10, 7), (1, 20, 8), (2, 15, 9), (1, 12, 3)]"
    by (elim exE conjE) (rule that)
  then show ?thesis using w by (intro exI conjI)
qed

section \<open>Runs of points against batches of entries\<close>

definition run_items :: "'v walDataRun \<Rightarrow> 'v wal_item list" where
  "run_items r = map (Pair (wr_Key r)) (wr_Points r)"

lemma live_simps [simp]: "live [] st = st" "live ((k, t, v) # its) st = live its (st(k := advance (st k) t v))"
  "live (as @ bs) st = live bs (live as st)"
  by (simp_all add: live_def)

lemma spec_late_append:
  "mi \<le> 0 \<Longrightarrow> dw \<le> 0 \<Longrightarrow> spec_late V mi dw (as @ bs) st \<longleftrightarrow> spec_late V mi dw as st \<or> spec_late V mi dw bs (live as st)"
  by (induction as arbitrary: st) (auto simp: no_policy)

lemma run_points_spec:
  assumes "mi \<le> 0" "dw \<le> 0"
  shows "run_points V k ps (st k) buf len n ns =
     (live (map (Pair k) ps) st k, buf @ wal_log V (map (Pair k) ps),
      len + int (length (wal_log V (map (Pair k) ps))), n + length ps,
      ns \<or> spec_late V mi dw (map (Pair k) ps) st)"
    and "k' \<noteq> k \<Longrightarrow> live (map (Pair k) ps) st k' = st k'"
proof (induction ps arbitrary: st buf len n ns)
  case (Cons p ps)
  obtain t v where p: "p = (t, v)" by (cases p)
  {
    case 1
    let ?st = "st(k := advance (st k) t v)"
    have IH: "run_points V k ps (advance (st k) t v) b l m s = (live (map (Pair k) ps) ?st k, b @ wal_log V (map (Pair k) ps),
      l + int (length (wal_log V (map (Pair k) ps))), m + length ps, s \<or> spec_late V mi dw (map (Pair k) ps) ?st)" for b l m s
      using Cons.IH(1) [of ?st b l m s] unfolding fun_upd_same .
    show ?case unfolding p list.map prod.case run_points.simps appendSerialized_record Let_def IH using assms
      by (simp add: no_policy add.assoc del: fun_upd_apply)
  next
    case 2
    then have "live (map (Pair k) ps) (st(k := advance (st k) t v)) k' = (st(k := advance (st k) t v)) k'" by (rule Cons.IH(2))
    then show ?case using 2 by (simp add: p del: fun_upd_apply) (simp add: fun_upd_other)
  }
qed simp_all

lemma write_runs_spec:
  assumes "mi \<le> 0" "dw \<le> 0"
  shows "\<exists>ws'. write_runs V runs buf len n ns ws =
     (buf @ wal_log V (concat (map run_items runs)), len + int (length (wal_log V (concat (map run_items runs)))),
      n + length (concat (map run_items runs)), ns \<or> spec_late V mi dw (concat (map run_items runs)) (ts.view ws), ws') \<and>
     ts.view ws' = live (concat (map run_items runs)) (ts.view ws) \<and> same_log ws' ws"
proof (induction runs arbitrary: buf len n ns ws)
  case (Cons r rs)
  let ?k = "wr_Key r" and ?its = "run_items r"
  let ?st = "live ?its (ts.view ws)"
  have rp: "run_points V ?k (wr_Points r) (loadTagState ?k ws) buf len n ns =
     (?st ?k, buf @ wal_log V ?its, len + int (length (wal_log V ?its)), n + length ?its, ns \<or> spec_late V mi dw ?its (ts.view ws))"
    using run_points_spec(1) [OF assms, of V ?k "wr_Points r" "ts.view ws" buf len n ns] by (simp add: run_items_def ts.view_def)
  have others: "?st k' = ts.view ws k'" if "k' \<noteq> ?k" for k'
    using run_points_spec(2) [OF assms that, of "wr_Points r" "ts.view ws"] by (simp add: run_items_def)
  define ws1 where "ws1 = (case ?st ?k of None \<Rightarrow> ws | Some (m, l) \<Rightarrow> storeTagState V ?k m l ws)"
  have keeps: "?st ?k = None \<Longrightarrow> ts.view ws ?k = None"
  proof -
    have "st k \<noteq> None \<Longrightarrow> live (map (Pair k) ps) st k \<noteq> None" for st :: "u32 \<Rightarrow> (int \<times> 'a) option" and k ps
      by (induction ps arbitrary: st) (auto simp: advance_def)
    then show "?st ?k = None \<Longrightarrow> ts.view ws ?k = None" by (metis run_items_def)
  qed
  have "ts.view ws1 k' = ?st k'" for k'
    using keeps ts.view_put [where V = V] others [of k'] by (cases "k' = ?k") (auto simp: ws1_def split: option.splits prod.splits)
  then have "ts.view ws1 = ?st" by blast
  moreover have "same_log ws1 ws" by (auto simp: ws1_def split: option.splits)
  moreover obtain ws' where "write_runs V rs (buf @ wal_log V ?its) (len + int (length (wal_log V ?its))) (n + length ?its)
        (ns \<or> spec_late V mi dw ?its (ts.view ws)) ws1 =
     ((buf @ wal_log V ?its) @ wal_log V (concat (map run_items rs)), (len + int (length (wal_log V ?its))) + int (length (wal_log V (concat (map run_items rs)))),
      (n + length ?its) + length (concat (map run_items rs)), (ns \<or> spec_late V mi dw ?its (ts.view ws)) \<or> spec_late V mi dw (concat (map run_items rs)) (ts.view ws1), ws')"
     "ts.view ws' = live (concat (map run_items rs)) (ts.view ws1)" "same_log ws' ws1"
    using Cons.IH by blast
  ultimately show ?case using same_log_trans
    by (auto simp: rp Let_def ws1_def spec_late_append [OF assms] intro!: exI [of _ ws'])
qed simp

lemma runs_entries_items: "map entry_item (runs_entries runs) = concat (map run_items runs)"
  by (induction runs) (auto simp: runs_entries_def run_items_def)

lemma fold_appendValue_runs:
  "fold (\<lambda>r b. fold (\<lambda>(t, v) b. appendValue V (wr_Key r) t v b) (wr_Points r) b) runs b = fold (push_item V) (concat (map run_items runs)) b"
proof -
  have "fold (\<lambda>(t, v) b. appendValue V k t v b) ps b = fold (push_item V) (map (Pair k) ps) b" for k ps b
    by (induction ps arbitrary: b) auto
  then show ?thesis by (induction runs arbitrary: b) (simp_all add: run_items_def)
qed

definition same_state :: "'v walFile \<Rightarrow> 'v walFile \<Rightarrow> bool" where
  "same_state a b \<longleftrightarrow> same_log a b \<and> ts.view a = ts.view b"

lemma rotate_same: "same_state a b \<Longrightarrow> same_state (rotateIfFull now a) (rotateIfFull now b)"
proof -
  assume s: "same_state a b"
  then have "same_log (rotateIfFull now a) (rotateIfFull now b)"
    by (simp add: same_state_def same_log_def rotateIfFull_def addWalFile_def Let_def split: option.splits)
  moreover have "ts.view (rotateIfFull now w) = ts.view w" for w :: "'a walFile"
    by (rule view_cong) (simp_all add: rotateIfFull_def addWalFile_def Let_def split: option.splits)
  ultimately show ?thesis using s by (simp add: same_state_def)
qed

lemma set_last_same:
  "same_state a b \<Longrightarrow> same_state (set_last_file g (a\<lparr>ws_dir := d\<rparr>)) (set_last_file g (b\<lparr>ws_dir := d\<rparr>))"
proof -
  assume s: "same_state a b"
  have "ts.view (set_last_file g (w\<lparr>ws_dir := d\<rparr>)) = ts.view w" for w :: "'a walFile"
    by (rule view_cong) (simp_all add: set_last_file_def)
  moreover have "same_log (set_last_file g (a\<lparr>ws_dir := d\<rparr>)) (set_last_file g (b\<lparr>ws_dir := d\<rparr>))"
    using s by (simp add: same_state_def same_log_def set_last_file_def)
  ultimately show ?thesis using s by (simp only: same_state_def)
qed

lemma runs_as_batch:
  assumes "0 \<le> wf_length (last (ws_walFiles ws))" "runs_entries runs \<noteq> []"
  shows "fst (WriteRuns V now runs ws) = fst (WriteBatch V now (runs_entries runs) ws) \<and>
    fst (snd (WriteRuns V now runs ws)) = fst (snd (WriteBatch V now (runs_entries runs) ws)) \<and>
    same_state (snd (snd (WriteRuns V now runs ws))) (snd (snd (WriteBatch V now (runs_entries runs) ws)))"
proof (cases "ws_minIntervalMs ws > 0 \<or> ws_dedupWindowMs ws > 0 \<or> \<not> ws_open ws \<or> wal_is_full ws")
  case True
  have "runs \<noteq> []" using assms(2) by (auto simp: runs_entries_def)
  then show ?thesis using True assms(2) by (auto simp: WriteRuns_def WriteBatch_def writeBatchLocked_def same_state_def)
next
  case False
  then have pol: "ws_minIntervalMs ws \<le> 0" "ws_dedupWindowMs ws \<le> 0" and opened: "ws_open ws" "\<not> wal_is_full ws" by auto
  have ne: "runs \<noteq> []" using assms(2) by (auto simp: runs_entries_def)
  let ?f = "last (ws_walFiles ws)" and ?its = "concat (map run_items runs)"
  let ?es = "map (\<lambda>e. e\<lparr>we_EndPosition := 0\<rparr>) (runs_entries runs)"
  obtain es' buf len ns wsb where dd: "dedupRuns V ?es None [] (wf_length ?f) (wf_needsSort ?f) ws = (es', buf, len, ns, wsb)"
    by (cases "dedupRuns V ?es None [] (wf_length ?f) (wf_needsSort ?f) ws") auto
  have items: "map entry_item ?es = ?its" using runs_entries_items [of runs] by (simp add: comp_def)
  have sp: "spec_batch V (ws_minIntervalMs ws) (ws_dedupWindowMs ws) (map entry_item ?es) (ts.run_view None ws) = (?its, live ?its (ts.view ws))"
    unfolding items by (simp add: spec_batch_all [OF pol] ts.run_view_def)
  have zero: "\<forall>e \<in> set ?es. we_EndPosition e = 0" by simp
  note B = dedupRuns_spec [OF _ assms(1) order_refl zero dd sp, simplified, unfolded items [simplified]]
  obtain wsr where R: "write_runs V runs [] (wf_length ?f) 0 (wf_needsSort ?f) ws =
      (wal_log V ?its, wf_length ?f + int (length (wal_log V ?its)), length ?its, wf_needsSort ?f \<or> spec_late V (ws_minIntervalMs ws) (ws_dedupWindowMs ws) ?its (ts.view ws), wsr)"
      "ts.view wsr = live ?its (ts.view ws)" "same_log wsr ws"
    using write_runs_spec [OF pol, of V runs "[]" "wf_length ?f" 0 "wf_needsSort ?f" ws] by auto
  define acc where "acc = filter (\<lambda>e. \<not> we_EndPosition e \<le> wf_length ?f) es'"
  have acc: "map entry_item acc = ?its" using B by (simp add: acc_def not_le)
  have eqs: "buf = wal_log V ?its" "len = wf_length ?f + int (length (wal_log V ?its))"
      "ns = (wf_needsSort ?f \<or> spec_late V (ws_minIntervalMs ws) (ws_dedupWindowMs ws) ?its (ts.view ws))" "same_state wsr wsb"
    using B R by (auto simp: ts.run_view_def same_state_def same_log_def)
  let ?rb = "if wc_CloseBuffer (ws_config ws) then wf_readBuffer ?f else fold (push_item V) ?its (wf_readBuffer ?f)"
  let ?g = "\<lambda>ent. ent\<lparr>wf_needsSort := ns, wf_length := len, wf_readBuffer := ?rb\<rparr>"
  let ?w = "\<lambda>w. rotateIfFull now (set_last_file ?g (w\<lparr>ws_dir := dir_append (wf_fileName ?f) buf (ws_dir ws)\<rparr>))"
  have dirs: "ws_dir wsb = ws_dir ws" "ws_dir wsr = ws_dir ws" "ws_config wsb = ws_config ws" "ws_config wsr = ws_config ws"
    using B R(3) by (auto simp: same_log_def)
  have "WriteBatch V now (runs_entries runs) ws = (length acc, None, ?w wsb)"
    using opened assms(2) acc by (simp add: WriteBatch_def writeBatchLocked_def dd Let_def dirs fold_rb_append flip: acc_def)
  moreover have "WriteRuns V now runs ws = (length ?its, None, ?w wsr)"
    using opened ne pol by (simp add: WriteRuns_def R(1) Let_def dirs fold_appendValue_runs eqs(1-3) not_less [symmetric])
  moreover have "length acc = length ?its" using acc by (metis length_map)
  ultimately show ?thesis using rotate_same [OF set_last_same [OF eqs(4)]] by simp
qed

lemma file_length_nonneg: "wal_repr V ws logs \<Longrightarrow> 0 \<le> wf_length (last (ws_walFiles ws))"
proof -
  assume r: "wal_repr V ws logs"
  then obtain fs f ls l where "ws_walFiles ws = fs @ [f]" "logs = ls @ [l]" "length fs = length ls" by (rule wal_repr_last)
  then have "file_repr V (wc_CloseBuffer (ws_config ws)) f l" using r by (simp add: wal_repr_def list_all2_append)
  then show ?thesis using \<open>ws_walFiles ws = fs @ [f]\<close> by (simp add: file_repr_def)
qed

text \<open>\<^bold>\<open>C16\<close>: the fast path of the batcher is the exact one.  Writing prepared runs of points has the same count, the same error and the same effect
  on the files, the read cache, the rotation, the sort flags and the state of every tag as writing the same points one entry at a time through the sampling and
  deduplication policy, for every policy.\<close>

theorem WriteRuns_eq_WriteBatch:
  assumes "wal_repr V ws logs" "runs_entries runs \<noteq> []"
  shows "fst (WriteRuns V now runs ws) = fst (WriteBatch V now (runs_entries runs) ws) \<and>
    fst (snd (WriteRuns V now runs ws)) = fst (snd (WriteBatch V now (runs_entries runs) ws)) \<and>
    same_state (snd (snd (WriteRuns V now runs ws))) (snd (snd (WriteBatch V now (runs_entries runs) ws)))"
proof (rule runs_as_batch [OF _ assms(2)])
  show "0 \<le> wf_length (last (ws_walFiles ws))"
    using file_length_nonneg [OF assms(1)] .
qed

theorem WriteRuns_eq_WriteBatch_witness:
  "fst (WriteRuns sample_wal 2 [\<lparr>wr_Key = 1, wr_Points = [(10, 7), (5, 8)]\<rparr>] (NewWalFile sample_wal [] 1 [] 0 0 sample_cfg))
     = fst (WriteBatch sample_wal 2 [sample_entry 1 10 7, sample_entry 1 5 8] (NewWalFile sample_wal [] 1 [] 0 0 sample_cfg))"
  using WriteRuns_eq_WriteBatch [OF conjunct1 [OF NewWalFile_empty], of "[\<lparr>wr_Key = 1, wr_Points = [(10, 7), (5, 8)]\<rparr>]" sample_wal 2 "[]" 1 0 0 sample_cfg]
  by (simp add: runs_entries_def sample_entry_def)

section \<open>Reading\<close>

lemma wal_repr_files:
  assumes "wal_repr V ws logs"
  shows "list_all2 (\<lambda>f its. file_bytes (wf_fileName f) (ws_dir ws) = Some (wal_log V its) \<and> list_all (item_fits V) its \<and>
     file_repr V (wc_CloseBuffer (ws_config ws)) f its) (ws_walFiles ws) logs"
proof -
  have len: "length (ws_walFiles ws) = length logs" using wal_repr_lists [OF assms] by simp
  have dir: "ws_dir ws = zip (map wf_fileName (ws_walFiles ws)) (map (wal_log V) logs)" using assms by (simp add: wal_repr_def map2_zip)
  have dist: "distinct (map wf_fileName (ws_walFiles ws))" using assms by (metis wal_repr_def strict_sorted_iff)
  have "file_bytes (wf_fileName (ws_walFiles ws ! i)) (ws_dir ws) = Some (wal_log V (logs ! i))" if "i < length logs" for i
    using that len dist map_of_zip_nth [of "map wf_fileName (ws_walFiles ws)" "map (wal_log V) logs" i] by (simp add: file_bytes_def dir)
  then show ?thesis using assms len by (auto simp: list_all2_conv_all_nth wal_repr_def list_all_length)
qed

lemma fold_matching:
  "fold (\<lambda>(k, t, v) es. if k = tag \<and> t \<ge> st \<and> t \<le> en then es @ [(t, v)] else es) its es = es @ map snd (filter (item_in tag st en) its)"
  by (induction its arbitrary: es) (auto simp: item_in_def split: if_splits)

lemma read_files:
  assumes law: "wal_law V" and r: "wal_repr V ws logs"
  shows "fold (read_file_by_time V tag st en ws) (ws_walFiles ws) ([], None) = (map snd (filter (item_in tag st en) (concat logs)), None)"
proof -
  have "list_all2 (\<lambda>f its. file_bytes (wf_fileName f) (ws_dir ws) = Some (wal_log V its) \<and> list_all (item_fits V) its \<and>
       file_repr V (wc_CloseBuffer (ws_config ws)) f its) fs ls \<Longrightarrow>
     fold (read_file_by_time V tag st en ws) fs (es, None) = (es @ map snd (filter (item_in tag st en) (concat ls)), None)" for fs ls es
  proof (induction fs ls arbitrary: es rule: list_all2_induct)
    case (Cons f fs its ls)
    let ?g = "\<lambda>(k, t, v) es. if k = tag \<and> t \<ge> st \<and> t \<le> en then es @ [(t, v)] else es"
    have "forEachWalFile V (\<lambda>k t v off es. (True, if k = tag \<and> t \<ge> st \<and> t \<le> en then es @ [(t, v)] else es)) (wal_log V its) 0 es
        = (None, fold ?g its es)"
      using Cons(1) law by (intro forEachWalFile_log) simp_all
    then have "read_file_by_time V tag st en ws f (es, None) = (es @ map snd (filter (item_in tag st en) its), None)"
      using Cons(1) by (auto simp: read_file_by_time_def appendMatching_items file_repr_def fold_matching)
    then show ?case using Cons(3) by simp
  qed simp
  from this [OF wal_repr_files [OF r]] show ?thesis by simp
qed

text \<open>\<^bold>\<open>C15\<close>: reading the log.  After any sequence of batches, a read by time returns, without an error, exactly the accepted points of the tag in the closed
  interval, each as often as it was accepted and sorted by time; whether the log keeps its points in memory or reads its files makes no difference.
  The library's sort is any function that sorts.\<close>

theorem wal_ReadByTime_exact:
  assumes law: "wal_law V" and bs: "batches_ok V bs" "bs \<noteq> [] \<longrightarrow> now0 < fst (hd bs)"
    and run: "wal_run V bs (NewWalFile V [] now0 [] dw mi cfg) = (ok, w)"
    and srt: "\<And>xs. mset (srt xs) = mset xs \<and> sorted (map fst (srt xs))"
  shows "\<exists>pts. ReadByTime srt V tag st en w = (pts, None) \<and> sorted (map fst pts) \<and>
           mset pts = mset (map snd (filter (item_in tag st en) (fst (spec_batch V mi dw ok (\<lambda>_. None)))))"
proof -
  obtain acc st' where sp: "spec_batch V mi dw ok (\<lambda>_. None) = (acc, st')" by (cases "spec_batch V mi dw ok (\<lambda>_. None)")
  from new_run [OF bs run sp] obtain logs where r: "wal_repr V w logs" "concat logs = acc" by blast
  let ?es = "map snd (filter (item_in tag st en) acc)"
  have "ReadByTime srt V tag st en w = (if ?es \<noteq> [] then srt ?es else ?es, None)"
    using read_files [OF law r(1)] r(2) by (simp add: ReadByTime_def)
  moreover have "srt [] = []" using srt [of "[]"] by simp
  ultimately have "ReadByTime srt V tag st en w = (srt ?es, None)" by auto
  then show ?thesis using srt [of ?es] by (simp add: sp)
qed

theorem wal_ReadByTime_exact_witness:
  "\<exists>w pts. wal_run sample_wal sample_batches (NewWalFile sample_wal [] 1 [] 0 0 sample_cfg) = ([(1, 10, 7), (1, 20, 8), (2, 15, 9), (1, 12, 3)], w) \<and>
     ReadByTime (sort_key fst) sample_wal 1 11 20 w = (pts, None) \<and> sorted (map fst pts) \<and> mset pts = {#(20, 8), (12, 3)#}"
proof -
  obtain w where w: "wal_run sample_wal sample_batches (NewWalFile sample_wal [] 1 [] 0 0 sample_cfg) = ([(1, 10, 7), (1, 20, 8), (2, 15, 9), (1, 12, 3)], w)"
    using sample_run by blast
  have clock: "sample_batches \<noteq> [] \<longrightarrow> 1 < fst (hd sample_batches)" by (simp add: sample_batches_def)
  have srt: "mset (sort_key fst xs) = mset xs \<and> sorted (map fst (sort_key fst xs))" for xs :: "(int \<times> u64) list" by simp
  from wal_ReadByTime_exact [OF sample_wal_law sample_batches_ok clock w, where srt = "sort_key fst" and tag = 1 and st = 11 and en = 20, OF srt,
      unfolded spec_batch_all [OF order_refl order_refl] fst_conv] w show ?thesis
    by (simp add: item_in_def)
qed

section \<open>The flush\<close>

definition collect_point :: "nat \<Rightarrow> u32 \<Rightarrow> int \<Rightarrow> 'v \<Rightarrow> nat \<Rightarrow> 'v wal_item list \<Rightarrow> bool \<times> 'v wal_item list" where
  "collect_point i k t v off s = (True, s @ [(k, t, v)])"

lemma fold_snoc: "fold (\<lambda>e s. s @ [e]) xs s = s @ xs"
  by (induction xs arbitrary: s) simp_all

lemma fold_pair_state: "fold (\<lambda>e (b, s). (False, g e s)) xs (False, s) = (False, fold g xs s)"
  by (induction xs arbitrary: s) simp_all

lemma visit_files_all:
  assumes law: "wal_law V"
  shows "list_all2 (\<lambda>f its. file_bytes (wf_fileName f) (ws_dir ws) = Some (wal_log V its) \<and> list_all (item_fits V) its \<and>
       file_repr V (wc_CloseBuffer (ws_config ws)) f its) fs ls \<Longrightarrow>
     visit_files V collect_point ws i fs s = (i + length fs, None, s @ concat ls)"
proof (induction fs ls arbitrary: i s rule: list_all2_induct)
  case (Cons f fs its ls)
  show ?case
  proof (cases "wc_CloseBuffer (ws_config ws)")
    case True
    have "forEachWalFile V (\<lambda>k t v off (stopped, s). (let (go, s') = collect_point i k t v off s in (go, (\<not> go, s')))) (wal_log V its) 0 (False, s)
        = (None, fold (\<lambda>e (b, s). (False, s @ [e])) its (False, s))"
      using Cons(1) law by (intro forEachWalFile_log) (auto simp: collect_point_def split: prod.splits)
    then show ?thesis using True Cons(1,3) by (simp add: fold_pair_state fold_snoc)
  next
    case False
    have "rb_forEach (\<lambda>(k, t, v). collect_point i k t v 0) (wf_readBuffer f) s = (True, s @ its)"
      using False Cons(1) each_until_all [of "\<lambda>(k, t, v). collect_point i k t v 0" its s]
      by (simp add: rb_forEach_items file_repr_def collect_point_def case_prod_beta fold_snoc)
    then show ?thesis using False Cons(3) by simp
  qed
qed simp

lemma fold_dir_remove:
  "distinct (map fst (d1 @ d2)) \<Longrightarrow> fold dir_remove (map fst d1) (d1 @ d2) = d2"
proof (induction d1)
  case (Cons x xs)
  obtain a b where x: "x = (a, b)" by (cases x)
  have "filter (\<lambda>(m, c). m \<noteq> a) (xs @ d2) = xs @ d2" using Cons.prems by (intro filter_True) (auto simp: x image_iff)
  then show ?case using Cons by (simp add: x dir_remove_def)
qed simp

lemma wal_truncate_repr:
  assumes r: "wal_repr V ws logs" and k: "0 < k" "k < length logs"
  shows "wal_repr V (wal_truncate V (int k) ws) (drop k logs)"
proof -
  have len: "length (ws_walFiles ws) = length logs" using wal_repr_lists [OF r] by simp
  let ?spare = "if \<not> wc_CloseBuffer (ws_config ws) \<and> ws_spareReadBuffer ws = None
     then Some (resetForReuse V maxRetainedWALReadBufferBytes (wf_readBuffer (ws_walFiles ws ! (k - 1)))) else ws_spareReadBuffer ws"
  let ?names = "map wf_fileName (ws_walFiles ws)" and ?bs = "map (wal_log V) logs"
  have dir: "ws_dir ws = zip ?names ?bs" using r by (simp add: wal_repr_def map2_zip)
  have dist: "distinct ?names" using r by (metis wal_repr_def strict_sorted_iff)
  have split: "zip ?names ?bs = zip (take k ?names) (take k ?bs) @ zip (drop k ?names) (drop k ?bs)"
    by (metis append_take_drop_id take_zip drop_zip)
  have fst: "map fst (zip (take k ?names) (take k ?bs)) = take k ?names" using len by simp
  have "distinct (map fst (zip (take k ?names) (take k ?bs) @ zip (drop k ?names) (drop k ?bs)))"
    unfolding split [symmetric] using dist len by simp
  from fold_dir_remove [OF this] have rm: "fold dir_remove (map wf_fileName (take k (ws_walFiles ws))) (ws_dir ws) = zip (drop k ?names) (drop k ?bs)"
    unfolding fst dir split by (simp add: take_map)
  have eq: "wal_truncate V (int k) ws = ws\<lparr>ws_spareReadBuffer := ?spare, ws_dir := zip (drop k ?names) (drop k ?bs), ws_walFiles := drop k (ws_walFiles ws)\<rparr>"
    using k len rm by (simp add: wal_truncate_def Let_def)
  have sp: "case ?spare of None \<Rightarrow> True | Some b \<Rightarrow> rb_ok V b \<and> rb_items b = []"
  proof -
    have "file_repr V (wc_CloseBuffer (ws_config ws)) (ws_walFiles ws ! (k - 1)) (logs ! (k - 1))"
      using r k len by (auto simp: wal_repr_def list_all2_conv_all_nth)
    then have "rb_ok V (wf_readBuffer (ws_walFiles ws ! (k - 1)))" by (simp add: file_repr_def)
    then show ?thesis using r resetForReuse_ok [of V _ maxRetainedWALReadBufferBytes] by (simp add: wal_repr_def)
  qed
  have "sorted_wrt (<) (map wf_fileName (drop k (ws_walFiles ws)))" using r by (simp add: wal_repr_def sorted_wrt_drop flip: drop_map)
  moreover have "list_all (list_all (item_fits V)) (drop k logs)" using r by (auto simp: wal_repr_def list_all_iff dest: in_set_dropD)
  moreover have "list_all2 (file_repr V (wc_CloseBuffer (ws_config ws))) (drop k (ws_walFiles ws)) (drop k logs)"
    using r by (simp add: wal_repr_def list_all2_dropI)
  ultimately show ?thesis using r k len sp unfolding wal_repr_def eq by (simp add: map2_zip drop_map)
qed

text \<open>\<^bold>\<open>C14\<close>: the hand-over to the flush.  After any sequence of batches, visiting the complete files a flush has counted meets, in order, exactly the points that are in them, without
  an error; dropping those files then leaves a well-formed log, which does not ask for a flush again.  Together the visited points and the points still in the log are
  the accepted points: none is lost and none is left to be flushed twice.\<close>

theorem wal_flush_hands_over:
  assumes law: "wal_law V" and bs: "batches_ok V bs" "bs \<noteq> [] \<longrightarrow> now0 < fst (hd bs)"
    and run: "wal_run V bs (NewWalFile V [] now0 [] dw mi cfg) = (ok, w)"
    and nf: "nf = fst (completeFileState w)"
  shows "\<exists>pts logs'. forEachCompleteFile V (int nf) collect_point w [] = (nf, None, pts) \<and>
           wal_repr V (wal_truncate V (int nf) w) logs' \<and> pts @ concat logs' = fst (spec_batch V mi dw ok (\<lambda>_. None)) \<and>
           \<not> NeedFlush (wal_truncate V (int nf) w)"
proof -
  obtain acc st' where sp: "spec_batch V mi dw ok (\<lambda>_. None) = (acc, st')" by (cases "spec_batch V mi dw ok (\<lambda>_. None)")
  from new_run [OF bs run sp] obtain logs where r: "wal_repr V w logs" "concat logs = acc" by blast
  have len: "length (ws_walFiles w) = length logs" "logs \<noteq> []" using wal_repr_lists [OF r(1)] by auto
  have c: "nf = length logs - 1" using nf len by (simp add: completeFileState_def Let_def)
  have fs: "list_all2 (\<lambda>f its. file_bytes (wf_fileName f) (ws_dir w) = Some (wal_log V its) \<and> list_all (item_fits V) its \<and>
       file_repr V (wc_CloseBuffer (ws_config w)) f its) (take nf (ws_walFiles w)) (take nf logs)"
    using wal_repr_files [OF r(1)] by (rule list_all2_takeI)
  have "forEachCompleteFile V (int nf) collect_point w [] = (nf, None, concat (take nf logs))"
    using visit_files_all [OF law fs, of 0 "[]"] len c by (simp add: forEachCompleteFile_def Let_def)
  moreover have "wal_repr V (wal_truncate V (int nf) w) (drop nf logs)"
  proof (cases "nf = 0")
    case True
    then show ?thesis using r(1) by (simp add: wal_truncate_def)
  next
    case False
    then show ?thesis using wal_truncate_repr [OF r(1), of nf] c len by simp
  qed
  moreover from this have "length (ws_walFiles (wal_truncate V (int nf) w)) = length (drop nf logs)" using wal_repr_lists by metis
  then have "\<not> NeedFlush (wal_truncate V (int nf) w)" using c by (simp add: NeedFlush_def)
  moreover have "concat (take nf logs) @ concat (drop nf logs) = acc" using r(2) by (metis append_take_drop_id concat_append)
  ultimately show ?thesis by (auto simp: sp)
qed

theorem wal_flush_hands_over_witness:
  "\<exists>w pts logs'. wal_run sample_wal sample_batches (NewWalFile sample_wal [] 1 [] 0 0 sample_cfg) = ([(1, 10, 7), (1, 20, 8), (2, 15, 9), (1, 12, 3)], w) \<and>
     wal_repr sample_wal (wal_truncate sample_wal (int (fst (completeFileState w))) w) logs' \<and> pts @ concat logs' = [(1, 10, 7), (1, 20, 8), (2, 15, 9), (1, 12, 3)]"
proof -
  obtain w where w: "wal_run sample_wal sample_batches (NewWalFile sample_wal [] 1 [] 0 0 sample_cfg) = ([(1, 10, 7), (1, 20, 8), (2, 15, 9), (1, 12, 3)], w)"
    using sample_run by blast
  have clock: "sample_batches \<noteq> [] \<longrightarrow> 1 < fst (hd sample_batches)" by (simp add: sample_batches_def)
  from wal_flush_hands_over [OF sample_wal_law sample_batches_ok clock w refl, unfolded spec_batch_all [OF order_refl order_refl] fst_conv] w
  show ?thesis by blast
qed

section \<open>The bound on the files\<close>

lemma rotate_files: "length (ws_walFiles (rotateIfFull now ws)) \<le> Suc (length (ws_walFiles ws)) \<and>
   (wc_MaxFileNumber (ws_config ws) > 0 \<longrightarrow> int (length (ws_walFiles ws)) \<ge> wc_MaxFileNumber (ws_config ws) \<longrightarrow> rotateIfFull now ws = ws)"
  by (simp add: rotateIfFull_def addWalFile_def Let_def split: option.splits)

lemma set_last_file_fields [simp]: "length (ws_walFiles (set_last_file g ws)) = length (ws_walFiles ws)" "ws_config (set_last_file g ws) = ws_config ws"
  by (simp_all add: set_last_file_def)

lemma dedupRuns_same: "dedupRuns V es run buf len ns ws = (es', buf', len', ns', ws') \<Longrightarrow> same_log ws' ws"
proof (induction es arbitrary: run buf len ns ws es' buf' len' ns' ws')
  case Nil
  then show ?case by (auto simp: publish_def split: option.splits prod.splits)
next
  case (Cons e es)
  obtain cur ws1 where nr: "next_run V (we_Key e) run ws = (cur, ws1)" by (cases "next_run V (we_Key e) run ws")
  have "same_log ws1 ws"
    using nr by (auto simp: next_run_def publish_def Let_def split: option.splits prod.splits if_splits)
  moreover obtain run1 buf1 len1 ns1 es1 where "dedupRuns V es run1 buf1 len1 ns1 ws1 = (es1, buf', len', ns', ws')"
    using Cons.prems by (auto simp: nr Let_def split: if_splits prod.splits)
  ultimately show ?case using Cons.IH same_log_trans by blast
qed

lemma WriteBatch_files:
  assumes "WriteBatch V now es ws = (n, err, ws')" "0 < wc_MaxFileNumber (ws_config ws)" "int (length (ws_walFiles ws)) \<le> wc_MaxFileNumber (ws_config ws)"
  shows "int (length (ws_walFiles ws')) \<le> wc_MaxFileNumber (ws_config ws) \<and> ws_config ws' = ws_config ws"
proof -
  have rot: "int (length (ws_walFiles (rotateIfFull now w))) \<le> wc_MaxFileNumber (ws_config ws) \<and> ws_config (rotateIfFull now w) = ws_config ws"
    if "ws_config w = ws_config ws" "length (ws_walFiles w) = length (ws_walFiles ws)" for w :: "'a walFile"
    using rotate_files [of now w] that assms(2,3) by (auto simp: rotateIfFull_def addWalFile_def Let_def split: option.splits if_splits)
  show ?thesis
    using assms by (auto simp: WriteBatch_def writeBatchLocked_def Let_def same_log_def split: if_splits prod.splits
        dest!: dedupRuns_same intro!: conjunct1 [OF rot] conjunct2 [OF rot])
qed

text \<open>\<^bold>\<open>C36\<close>: the configured bound on the log's files is kept.  With a positive limit, no sequence of batches, whatever it writes and whenever,
  takes a new log over that many files: a batch that would need one more is refused with \<^verbatim>\<open>ErrorWALCacheFull\<close> and changes nothing.\<close>

theorem wal_file_limit:
  assumes "0 < wc_MaxFileNumber cfg" "wal_run V bs (NewWalFile V [] now0 [] dw mi cfg) = (ok, w)"
  shows "int (length (ws_walFiles w)) \<le> wc_MaxFileNumber cfg \<and>
    (wal_is_full w \<and> ws_open w \<and> es \<noteq> [] \<longrightarrow> WriteBatch V now es w = (0, Some ErrorWALCacheFull, w))"
proof -
  have run: "int (length (ws_walFiles w)) \<le> m \<and> ws_config w = ws_config ws"
    if "wal_run V bs ws = (ok, w)" "0 < m" "m = wc_MaxFileNumber (ws_config ws)" "int (length (ws_walFiles ws)) \<le> m" for ws m
    using that
  proof (induction bs arbitrary: ws ok)
    case (Cons b bs)
    obtain now es where b: "b = (now, es)" by (cases b)
    obtain n err ws' where wb: "WriteBatch V now es ws = (n, err, ws')" by (cases "WriteBatch V now es ws")
    obtain ok' where "wal_run V bs ws' = (ok', w)" using Cons.prems(1) by (auto simp: b wb Let_def split: prod.splits)
    then show ?case using Cons.IH [of ws' ok'] WriteBatch_files [OF wb] Cons.prems(2-4) by simp
  qed simp
  have "wc_MaxFileNumber (ws_config (NewWalFile V [] now0 [] dw mi cfg)) = wc_MaxFileNumber cfg"
    "length (ws_walFiles (NewWalFile V [] now0 [] dw mi cfg)) = 1"
    using NewWalFile_empty [of V "[]" now0 dw mi cfg]
    by (auto simp: NewWalFile_def Let_def setDefaultValues_def GetWalFileTms_def recover_file_def split: prod.splits)
  then have "int (length (ws_walFiles w)) \<le> wc_MaxFileNumber cfg" using run [OF assms(2,1)] assms(1) by simp
  then show ?thesis by (auto simp: WriteBatch_def writeBatchLocked_def)
qed

theorem wal_file_limit_witness:
  "int (length (ws_walFiles (snd (wal_run sample_wal sample_batches (NewWalFile sample_wal [] 1 [] 0 0 (sample_cfg\<lparr>wc_MaxFileNumber := 2\<rparr>)))))) \<le> 2"
  using wal_file_limit [of "sample_cfg\<lparr>wc_MaxFileNumber := 2\<rparr>" sample_wal sample_batches 1 0 0] by (simp add: prod_eq_iff)

section \<open>Two recoveries that lose later writes\<close>

text \<open>A tail of zeros, as some file systems leave behind a crash, or a record whose value cannot be unmarshalled.\<close>

definition damaged_tail :: "'v wal_ops \<Rightarrow> bytes \<Rightarrow> bool" where
  "damaged_tail V bad \<longleftrightarrow> (\<exists>m \<ge> 4. bad = replicate m 0) \<or>
     (\<exists>body. 12 < length body \<and> length body < 2 ^ 32 \<and> bad = be_put 4 (of_nat (length body) :: u32) @ body \<and> decode_value V (drop 12 body) = None)"

lemma be_get_zeros: "be_get (replicate 4 (0 :: byte)) = (0 :: u32)"
  by (simp add: eval_nat_numeral be_get_def)

lemma getAllData_damaged:
  assumes law: "wal_law V" and fits: "list_all (item_fits V) its" and bad: "damaged_tail V bad" and cap: "0 < cap"
  shows "\<exists>rb len err. getAllData V (wal_log V its @ bad @ tl') cap = (rb, len, err) \<and> rb_ok V rb \<and> rb_items rb = its \<and>
           (err = None \<and> len = length (wal_log V its) \<or> len = length (wal_log V its @ bad))"
proof -
  let ?d = "wal_log V its @ bad @ tl'" and ?p = "length (wal_log V its)"
  have "getAllData V ?d cap = getAllData_loop V ?d ?p (fold (push_item V) its (newWalReadBuffer cap))"
    unfolding getAllData_def using getAllData_log [OF law fits, of 0 ?d "bad @ tl'"] by simp
  moreover have "\<exists>len err. getAllData_loop V ?d ?p b = (b, len, err) \<and> (err = None \<and> len = ?p \<or> len = length (wal_log V its @ bad))" for b
    using bad unfolding damaged_tail_def
  proof (elim disjE exE conjE)
    fix m :: nat assume m: "4 \<le> m" "bad = replicate m 0"
    then obtain k where "m = 4 + k" using le_Suc_ex by blast
    then have "take 4 (bad @ tl') = replicate 4 0" by (simp add: m(2) replicate_add)
    then have "unat (be_get (take 4 (drop ?p ?d)) :: u32) = 0" using be_get_zeros by simp
    then show ?thesis using m by (subst getAllData_loop.simps) (simp add: Let_def)
  next
    fix body assume b: "12 < length body" "length body < 2 ^ 32" "bad = be_put 4 (of_nat (length body) :: u32) @ body" "decode_value V (drop 12 body) = None"
    have rest: "drop ?p ?d = be_put 4 (of_nat (length body) :: u32) @ body @ tl'" by (simp add: b(3))
    have "unat (be_get (take 4 (drop ?p ?d)) :: u32) = length body" using b(2) unfolding rest by (simp add: codec_simps unat_of_nat_u32)
    then show ?thesis using b(1,4) by (subst getAllData_loop.simps) (simp add: Let_def rest b(3))
  qed
  ultimately show ?thesis
    using push_items_ok [of V "newWalReadBuffer cap" its] newWalReadBuffer_ok [OF cap, of V] by fastforce
qed

lemma NewWalFile_one:
  assumes ga: "getAllData V c (nat (wc_MaxBufferBatchSize (setDefaultValues cfg))) = (rb, len, err)"
  shows "\<exists>ns. let w = NewWalFile V order now [(name, c)] dw mi cfg; f = \<lparr>wf_fileName = name, wf_length = int len,
      wf_readBuffer = (if wc_CloseBuffer cfg then newWalReadBuffer (nat (wc_MaxBufferBatchSize (setDefaultValues cfg))) else rb), wf_needsSort = ns\<rparr> in
    ws_walFiles w = [f] \<and> ws_dir w = [(name, if err \<noteq> None then file_resize len c else c)] \<and> ws_open w \<and> ws_config w = setDefaultValues cfg \<and>
    ws_minIntervalMs w = mi \<and> ws_dedupWindowMs w = dw"
proof -
  obtain mx lst ns where rp: "fold replay_item (rb_items rb) (Map.empty, Map.empty, False) = (mx, lst, ns)"
    by (cases "fold replay_item (rb_items rb) (Map.empty, Map.empty, False)") auto
  have "wc_CloseBuffer (setDefaultValues cfg) = wc_CloseBuffer cfg" by (simp add: setDefaultValues_def Let_def)
  then have rec: "recover_file V (setDefaultValues cfg) name ([], Map.empty, Map.empty, [(name, c)]) =
     ([\<lparr>wf_fileName = name, wf_length = int len,
        wf_readBuffer = (if wc_CloseBuffer cfg then newWalReadBuffer (nat (wc_MaxBufferBatchSize (setDefaultValues cfg))) else rb), wf_needsSort = ns\<rparr>],
      mx, lst, [(name, if err \<noteq> None then file_resize len c else c)])"
    by (simp add: recover_file_def file_bytes_def ga rb_forEach_items each_until_true rp dir_truncate_def)
  define ws0 where "ws0 = \<lparr>ws_walFiles = [\<lparr>wf_fileName = name, wf_length = int len,
        wf_readBuffer = (if wc_CloseBuffer cfg then newWalReadBuffer (nat (wc_MaxBufferBatchSize (setDefaultValues cfg))) else rb), wf_needsSort = ns\<rparr>],
      ws_spareReadBuffer = None, ws_tagStates = [], ws_tagMaxTimestamp = mx, ws_tagLastValue = lst,
      ws_tagStateCount = 0, ws_open = True, ws_dedupWindowMs = dw, ws_minIntervalMs = mi, ws_config = setDefaultValues cfg,
      ws_dir = [(name, if err \<noteq> None then file_resize len c else c)]\<rparr>"
  have "states_apart ws0" by (simp add: states_apart_def ws0_def)
  then have "same_log (fold (move_dense V) order ws0) ws0" using move_all_view by blast
  moreover have "NewWalFile V order now [(name, c)] dw mi cfg = (fold (move_dense V) order ws0)\<lparr>ws_tagStateCount := ws_tagStateCount (fold (move_dense V) order ws0) +
      length (filter (\<lambda>k. ws_tagMaxTimestamp (fold (move_dense V) order ws0) k \<noteq> None) order)\<rparr>"
    unfolding NewWalFile_def Let_def by (simp add: GetWalFileTms_def rec ws0_def)
  then have "same_log (NewWalFile V order now [(name, c)] dw mi cfg) (fold (move_dense V) order ws0)" by (simp add: same_log_def)
  ultimately have "same_log (NewWalFile V order now [(name, c)] dw mi cfg) ws0" using same_log_trans by blast
  then show ?thesis by (intro exI [of _ ns]) (simp add: same_log_def ws0_def Let_def)
qed

text \<open>Two recoveries lose what is written after them.  When a crash leaves the last file with a tail of four or more zero bytes, or with a complete record whose value cannot
  be unmarshalled, reopening recovers the points before it but leaves the damage in the file.  Batches written from then on are accepted, counted and appended behind the damage, and the
  next opening does not have a single one of them.\<close>

theorem damaged_tail_loses_later_writes:
  assumes law: "wal_law V" and fits: "list_all (item_fits V) its" and bad: "damaged_tail V bad"
    and cfg: "\<not> wc_CloseBuffer cfg" "wc_MaxFileNumber cfg \<le> 0" and es: "es \<noteq> []"
    and small: "int (length (wal_log V its @ bad @ wal_log V (map entry_item es))) < wc_MaxFileSize (setDefaultValues cfg)"
    and w1: "w1 = NewWalFile V order now [(name, wal_log V its @ bad)] 0 0 cfg"
  shows "\<exists>w2. WriteBatch V now1 es w1 = (length es, None, w2) \<and> rb_items (wf_readBuffer (last (ws_walFiles w2))) = its @ map entry_item es \<and>
     concat (map (rb_items \<circ> wf_readBuffer) (ws_walFiles (NewWalFile V order' now2 (ws_dir w2) 0 0 cfg))) = its"
proof -
  let ?cfg = "setDefaultValues cfg" let ?cap = "nat (wc_MaxBufferBatchSize ?cfg)" and ?new = "map entry_item es"
  have cap: "0 < ?cap" using setDefaultValues_pos [of cfg] by simp
  have keep: "wc_CloseBuffer ?cfg = wc_CloseBuffer cfg" "wc_MaxFileNumber ?cfg = wc_MaxFileNumber cfg" by (simp_all add: setDefaultValues_def Let_def)
  from getAllData_damaged [OF law fits bad cap, of "[]"] obtain rb len err where one: "getAllData V (wal_log V its @ bad) ?cap = (rb, len, err)"
      "rb_ok V rb" "rb_items rb = its" "err = None \<and> len = length (wal_log V its) \<or> len = length (wal_log V its @ bad)" by auto
  from NewWalFile_one [OF one(1), of order now name 0 0] obtain ns where n1:
      "ws_walFiles w1 = [\<lparr>wf_fileName = name, wf_length = int len, wf_readBuffer = rb, wf_needsSort = ns\<rparr>]"
      "ws_dir w1 = [(name, wal_log V its @ bad)]" "ws_open w1" "ws_config w1 = ?cfg" "ws_minIntervalMs w1 = 0" "ws_dedupWindowMs w1 = 0"
    using one(4) cfg(1) unfolding w1 by (auto simp: Let_def file_resize_take)
  have len: "0 \<le> int len" by simp
  let ?es = "map (\<lambda>e. e\<lparr>we_EndPosition := 0\<rparr>) es"
  obtain es' buf len' ns' ws' where dd: "dedupRuns V ?es None [] (int len) ns w1 = (es', buf, len', ns', ws')"
    by (cases "dedupRuns V ?es None [] (int len) ns w1") auto
  have items: "map entry_item ?es = ?new" by (induction es) simp_all
  have sp: "spec_batch V (ws_minIntervalMs w1) (ws_dedupWindowMs w1) (map entry_item ?es) (ts.run_view None w1) = (?new, live ?new (ts.view w1))"
    unfolding items by (simp add: n1 spec_batch_all ts.run_view_def)
  have zero: "\<forall>e \<in> set ?es. we_EndPosition e = 0" by simp
  define acc where "acc = filter (\<lambda>e. \<not> we_EndPosition e \<le> int len) es'"
  have B: "buf = wal_log V ?new" "len' = int len + int (length (wal_log V ?new))" "same_log ws' w1" "map entry_item acc = ?new"
    using dedupRuns_spec [OF _ len order_refl zero dd sp] by (auto simp: acc_def)
  define w2 where "w2 = set_last_file (\<lambda>ent. ent\<lparr>wf_needsSort := ns', wf_length := len', wf_readBuffer := fold (push_item V) ?new rb\<rparr>)
      (ws'\<lparr>ws_dir := [(name, wal_log V its @ bad @ wal_log V ?new)]\<rparr>)"
  have "length acc = length es" using B(4) by (metis length_map)
  have s: "ws_walFiles ws' = ws_walFiles w1" "ws_config ws' = ?cfg" "ws_dir ws' = ws_dir w1" using B(3) n1 by (simp_all add: same_log_def)
  have "len' < wc_MaxFileSize ?cfg"
  proof -
    have "len \<le> length (wal_log V its @ bad)" using one(4) by auto
    then show ?thesis using small B(2) by simp
  qed
  then have norot: "rotateIfFull now1 w2 = w2" by (simp add: rotateIfFull_def w2_def set_last_file_def s n1)
  have "WriteBatch V now1 es w1 = (length acc, None, rotateIfFull now1 w2)"
    using es cfg n1 B(1) s unfolding w2_def
    by (simp add: WriteBatch_def writeBatchLocked_def wal_is_full_def dd Let_def keep fold_rb_append B(4) dir_append_def flip: acc_def)
  moreover have "rb_items (wf_readBuffer (last (ws_walFiles w2))) = its @ ?new"
    using push_items_ok [OF one(2), of ?new] one(3) by (simp add: w2_def set_last_file_def s n1)
  moreover have "concat (map (rb_items \<circ> wf_readBuffer) (ws_walFiles (NewWalFile V order' now2 (ws_dir w2) 0 0 cfg))) = its"
  proof -
    have dir: "ws_dir w2 = [(name, wal_log V its @ bad @ wal_log V ?new)]" by (simp add: w2_def set_last_file_def)
    from getAllData_damaged [OF law fits bad cap, of "wal_log V ?new"] obtain rb2 len2 err2 where
        two: "getAllData V (wal_log V its @ bad @ wal_log V ?new) ?cap = (rb2, len2, err2)" "rb_items rb2 = its" by blast
    from NewWalFile_one [OF two(1), of order' now2 name 0 0] show ?thesis using two(2) cfg(1) unfolding dir by (auto simp: Let_def)
  qed
  ultimately show ?thesis using norot \<open>length acc = length es\<close> by auto
qed

theorem damaged_tail_loses_later_writes_witness:
  "\<exists>w2. WriteBatch sample_wal 3 [sample_entry 1 30 4] (NewWalFile sample_wal [] 2 [(1, wal_log sample_wal [(1, 10, 7)] @ replicate 4 0)] 0 0 (sample_cfg\<lparr>wc_MaxFileSize := 100\<rparr>))
      = (1, None, w2) \<and>
     concat (map (rb_items \<circ> wf_readBuffer) (ws_walFiles (NewWalFile sample_wal [] 4 (ws_dir w2) 0 0 (sample_cfg\<lparr>wc_MaxFileSize := 100\<rparr>)))) = [(1, 10, 7)]"
proof -
  let ?cfg = "sample_cfg\<lparr>wc_MaxFileSize := 100\<rparr>"
  have "list_all (item_fits sample_wal) [(1, 10, 7)]" by (simp add: sample_wal_def)
  moreover have "damaged_tail sample_wal (replicate 4 0)" by (auto simp: damaged_tail_def)
  moreover have "\<not> wc_CloseBuffer ?cfg" "wc_MaxFileNumber ?cfg \<le> 0" by (simp_all add: sample_cfg_def)
  moreover have "int (length (wal_log sample_wal [(1, 10, 7)] @ replicate 4 0 @ wal_log sample_wal (map entry_item [sample_entry 1 30 4]))) < wc_MaxFileSize (setDefaultValues ?cfg)"
    by (simp add: sample_cfg_def setDefaultValues_def sample_entry_def length_wal_record sample_wal_def)
  ultimately show ?thesis
    using damaged_tail_loses_later_writes [OF sample_wal_law, where es = "[sample_entry 1 30 4]" and order = "[]" and order' = "[]"] by (metis length_Cons list.size(3) list.distinct(1) One_nat_def)
qed

section \<open>The newest point of a tag\<close>

definition same_times :: "(u32 \<Rightarrow> (int \<times> 'v) option) \<Rightarrow> (u32 \<Rightarrow> (int \<times> 'v) option) \<Rightarrow> bool" where
  "same_times a b \<longleftrightarrow> (\<forall>k. map_option fst (a k) = map_option fst (b k))"

lemma advance_newest:
  "same_times st nst \<Longrightarrow> same_times (st(k := advance (st k) t v)) (newest_step (k, t, v) nst)"
proof -
  assume s: "same_times st nst"
  then have "map_option fst (st k) = map_option fst (nst k)" by (simp add: same_times_def)
  then have "map_option fst (advance (st k) t v) = map_option fst (newest_step (k, t, v) nst k)"
    by (cases "st k"; cases "nst k") (auto simp: newest_step_def advance_def is_late_def)
  then show ?thesis using s by (auto simp: same_times_def newest_step_def)
qed

lemma spec_batch_newest:
  "spec_batch V mi dw its st = (acc, st') \<Longrightarrow> same_times st nst \<Longrightarrow> same_times st' (fold newest_step acc nst)"
proof (induction its arbitrary: st acc nst)
  case (Cons it its)
  obtain k t v where it: "it = (k, t, v)" by (cases it)
  show ?case using Cons advance_newest [OF Cons.prems(2), of k t v] by (auto simp: it Let_def split: if_splits prod.splits)
qed simp

lemma crash_dir_none: "wal_repr V w logs \<Longrightarrow> crash_dir (length (snd (last (ws_dir w)))) w = ws_dir w"
proof -
  assume r: "wal_repr V w logs"
  then have "ws_dir w \<noteq> []" using wal_repr_lists [OF r] by (auto simp: wal_repr_def)
  then show ?thesis by (simp add: crash_dir_def)
qed

text \<open>The times that sampling, deduplication and the expiry of late data compare with are the same after a restart.  After any sequence of batches, closing the log and opening it again gives, for every
  tag, the same newest time as before, and knows the same tags.\<close>

theorem wal_reopen_keeps_newest_times:
  assumes law: "wal_law V" and bs: "batches_ok V bs" "bs \<noteq> [] \<longrightarrow> now0 < fst (hd bs)"
    and run: "wal_run V bs (NewWalFile V [] now0 [] dw mi cfg) = (ok, w)"
  shows "map_option fst (loadTagState key (NewWalFile V order now (ws_dir (wal_Close w)) dw mi cfg)) = map_option fst (loadTagState key w)"
proof -
  obtain acc st' where sp: "spec_batch V mi dw ok (\<lambda>_. None) = (acc, st')" by (cases "spec_batch V mi dw ok (\<lambda>_. None)")
  from new_run [OF bs run sp] obtain logs where r: "wal_repr V w logs" "concat logs = acc" "ts.view w = st'" by blast
  obtain ls l where l: "logs = ls @ [l]" using wal_repr_lists [OF r(1)] by (metis append_butlast_last_id)
  let ?n = "length (snd (last (ws_dir w)))"
  have n: "?n = length (wal_log V l)" using wal_repr_dir_size [of V w ls l 0] r(1) l by simp
  obtain j where "j \<le> length l" "j < length l \<longrightarrow> ?n < length (wal_log V (take (Suc j) l))"
      "ts.view (NewWalFile V order now (crash_dir ?n w) dw mi cfg) = newest (concat (ls @ [take j l]))"
    using NewWalFile_repr [OF law r(1), of ?n order now dw mi cfg] n l by auto
  moreover have "length (wal_log V (take (Suc j) l)) \<le> length (wal_log V l)" for j
    by (metis append_take_drop_id le_add1 length_append wal_log_simps(3))
  ultimately have "ts.view (NewWalFile V order now (ws_dir w) dw mi cfg) = newest acc"
    using n l r(2) crash_dir_none [OF r(1)] by (metis (no_types, lifting) le_neq_implies_less not_le take_all_iff order_refl)
  moreover have "same_times st' (newest acc)"
    using spec_batch_newest [OF sp, of "\<lambda>_. None"] by (simp add: newest_def same_times_def)
  moreover have "ws_dir (wal_Close w) = ws_dir w" by (simp add: wal_Close_def)
  ultimately have "map_option fst (ts.view (NewWalFile V order now (ws_dir (wal_Close w)) dw mi cfg) key) = map_option fst (ts.view w key)"
    using r(3) by (simp add: same_times_def)
  then show ?thesis by (simp only: ts.view_def)
qed

theorem wal_reopen_keeps_newest_times_witness:
  "\<exists>w. wal_run sample_wal sample_batches (NewWalFile sample_wal [] 1 [] 0 0 sample_cfg) = ([(1, 10, 7), (1, 20, 8), (2, 15, 9), (1, 12, 3)], w) \<and>
     map_option fst (loadTagState 1 (NewWalFile sample_wal [1, 2] 9 (ws_dir (wal_Close w)) 0 0 sample_cfg)) = map_option fst (loadTagState 1 w)"
proof -
  obtain w where w: "wal_run sample_wal sample_batches (NewWalFile sample_wal [] 1 [] 0 0 sample_cfg) = ([(1, 10, 7), (1, 20, 8), (2, 15, 9), (1, 12, 3)], w)"
    using sample_run by blast
  have clock: "sample_batches \<noteq> [] \<longrightarrow> 1 < fst (hd sample_batches)" by (simp add: sample_batches_def)
  show ?thesis using wal_reopen_keeps_newest_times [OF sample_wal_law sample_batches_ok clock w] w by blast
qed

text \<open>The value is not: of two points with the same time the running log keeps the second, and recovery the first.\<close>

lemma reopen_forgets_last_of_equal_times:
  "live [(k, t, a), (k, t, b)] (\<lambda>_. None) k = Some (t, b) \<and> newest [(k, t, a), (k, t, b)] k = Some (t, a)"
  by (simp add: advance_def is_late_def newest_def newest_step_def)

end
