(* ===== verification/Condition.thy ===== *)
theory Condition
  imports Prelude
begin

text \<open>
  The query conditions of \<^verbatim>\<open>tsdb/condition.go\<close>: the interpreter (\<^verbatim>\<open>EvalCondition\<close>, \<^verbatim>\<open>EvalLogicalCondition\<close>)
  and the compiler to closures (\<^verbatim>\<open>CompileCondition\<close>) that queries use.  Values belong to the external
  \<^verbatim>\<open>variant\<close> package, whose operations are a record of functions the definitions take as an argument.
\<close>

section \<open>Values and conditions\<close>

datatype vtype = TypeString | TypeList | TypeMap | TypeOther

datatype cond_error =
    ErrorColumnNotFound string | ErrorEmptyLogicalCondition | ErrorInvalidOperator string
  | ErrorUnknownLogicalOperator string | ErrorInvalidConditionType | ErrorVariant

text \<open>The methods of \<^verbatim>\<open>variant.Variant\<close> the conditions call.\<close>

record 'v cond_variant =
  cv_Type :: "'v \<Rightarrow> vtype"
  cv_MapGet :: "'v \<Rightarrow> string \<Rightarrow> 'v option"
  cv_IsEqual :: "'v \<Rightarrow> 'v \<Rightarrow> bool"
  cv_CompareNumberBySymbol :: "'v \<Rightarrow> 'v \<Rightarrow> string \<Rightarrow> cond_error + bool"

record 'v Condition =
  cd_ColumnAttributeName :: string
  cd_Operator :: string
  cd_Value :: 'v

text \<open>An \<^verbatim>\<open>any\<close> that holds nil, a \<^verbatim>\<open>Condition\<close>, a \<^verbatim>\<open>LogicalCondition\<close> or something else.\<close>

datatype 'v any_cond = NilCond | Cond "'v Condition" | LogicalCondition string "'v any_cond list" | OtherCond

definition OpEqual :: string where "OpEqual = ''=''"
definition OpNotEqual :: string where "OpNotEqual = ''!=''"
definition LogicalAnd :: string where "LogicalAnd = ''and''"
definition LogicalOr :: string where "LogicalOr = ''or''"

text \<open>\<^verbatim>\<open>strings.Split(s, ".")\<close>: never empty; the empty string gives one empty part.\<close>

fun split_dots :: "string \<Rightarrow> string list" where
  "split_dots [] = [[]]"
| "split_dots (ch # s) =
     (if ch = CHR ''.'' then [] # split_dots s
      else (case split_dots s of p # ps \<Rightarrow> (ch # p) # ps | [] \<Rightarrow> [[ch]]))"

section \<open>The interpreter\<close>

definition CompareValue :: "'v cond_variant \<Rightarrow> 'v Condition \<Rightarrow> 'v \<Rightarrow> cond_error + bool" where
  "CompareValue V cond columnValue =
     (if cv_Type V columnValue = TypeString \<or> cv_Type V columnValue = TypeList \<or> cv_Type V columnValue = TypeMap then
        (if cd_Operator cond = OpEqual then Inr (cv_IsEqual V columnValue (cd_Value cond))
         else if cd_Operator cond = OpNotEqual then Inr (\<not> cv_IsEqual V columnValue (cd_Value cond))
         else Inl (ErrorInvalidOperator (cd_Operator cond)))
      else cv_CompareNumberBySymbol V columnValue (cd_Value cond) (cd_Operator cond))"

text \<open>The loop over the parts of the column name.\<close>

fun eval_path :: "'v cond_variant \<Rightarrow> 'v Condition \<Rightarrow> string list \<Rightarrow> 'v \<Rightarrow> cond_error + bool" where
  "eval_path V cond [] data = Inr False"
| "eval_path V cond (n # ns) data =
     (case cv_MapGet V data n of
        None \<Rightarrow> Inl (ErrorColumnNotFound n)
      | Some columnValue \<Rightarrow>
          if cv_Type V columnValue = TypeMap then eval_path V cond ns columnValue
          else CompareValue V cond columnValue)"

definition EvalCondition :: "'v cond_variant \<Rightarrow> 'v Condition \<Rightarrow> 'v \<Rightarrow> cond_error + bool" where
  "EvalCondition V cond data =
     (if length (cd_ColumnAttributeName cond) = 0 \<and> cv_Type V data \<noteq> TypeMap then CompareValue V cond data
      else eval_path V cond (split_dots (cd_ColumnAttributeName cond)) data)"

text \<open>The two loops, over the results the sub-conditions would give; each result is only demanded when the
  loop reaches it, and evaluation has no effects.\<close>

fun and_loop :: "(cond_error + bool) list \<Rightarrow> cond_error + bool" where
  "and_loop [] = Inr True"
| "and_loop (Inl e # rs) = Inl e"
| "and_loop (Inr r # rs) = (if \<not> r then Inr False else and_loop rs)"

fun or_loop :: "(cond_error + bool) list \<Rightarrow> cond_error + bool" where
  "or_loop [] = Inr False"
| "or_loop (Inl e # rs) = Inl e"
| "or_loop (Inr r # rs) = (if r then Inr True else or_loop rs)"

fun evalAnyCondition :: "'v cond_variant \<Rightarrow> 'v any_cond \<Rightarrow> 'v \<Rightarrow> cond_error + bool"
  and EvalLogicalCondition :: "'v cond_variant \<Rightarrow> string \<Rightarrow> 'v any_cond list \<Rightarrow> 'v \<Rightarrow> cond_error + bool" where
  "evalAnyCondition V NilCond data = Inr True"
| "evalAnyCondition V (Cond c) data = EvalCondition V c data"
| "evalAnyCondition V (LogicalCondition op cs) data = EvalLogicalCondition V op cs data"
| "evalAnyCondition V OtherCond data = Inl ErrorInvalidConditionType"
| "EvalLogicalCondition V op cs data =
     (if length cs = 0 then Inl ErrorEmptyLogicalCondition
      else if op = LogicalAnd then and_loop (map (\<lambda>c. evalAnyCondition V c data) cs)
      else if op = LogicalOr then or_loop (map (\<lambda>c. evalAnyCondition V c data) cs)
      else Inl (ErrorUnknownLogicalOperator op))"

section \<open>The compiler\<close>

text \<open>The loop over the parts that were split at compile time.\<close>

fun evalCompiledCondition :: "'v cond_variant \<Rightarrow> 'v Condition \<Rightarrow> string list \<Rightarrow> 'v \<Rightarrow> cond_error + bool" where
  "evalCompiledCondition V cond [] data = Inr False"
| "evalCompiledCondition V cond (part # parts) data =
     (case cv_MapGet V data part of
        None \<Rightarrow> Inl (ErrorColumnNotFound part)
      | Some columnValue \<Rightarrow>
          if cv_Type V columnValue = TypeMap then evalCompiledCondition V cond parts columnValue
          else CompareValue V cond columnValue)"

definition compile_Condition :: "'v cond_variant \<Rightarrow> 'v Condition \<Rightarrow> ('v \<Rightarrow> cond_error + bool)" where
  "compile_Condition V c =
     (let parts = split_dots (cd_ColumnAttributeName c) in
      if length parts = 1 \<and> parts ! 0 = [] then
        (\<lambda>v. if cv_Type V v \<noteq> TypeMap then CompareValue V c v else Inl (ErrorColumnNotFound (parts ! 0)))
      else (\<lambda>v. evalCompiledCondition V c parts v))"

fun CompileCondition :: "'v cond_variant \<Rightarrow> 'v any_cond \<Rightarrow> ('v \<Rightarrow> cond_error + bool)"
  and compileLogical :: "'v cond_variant \<Rightarrow> string \<Rightarrow> 'v any_cond list \<Rightarrow> ('v \<Rightarrow> cond_error + bool)" where
  "CompileCondition V NilCond = (\<lambda>v. Inr True)"
| "CompileCondition V (Cond c) = compile_Condition V c"
| "CompileCondition V (LogicalCondition op cs) = compileLogical V op cs"
| "CompileCondition V OtherCond = (\<lambda>v. Inl ErrorInvalidConditionType)"
| "compileLogical V op cs =
     (if length cs = 0 then (\<lambda>v. Inl ErrorEmptyLogicalCondition)
      else
        (let compiled = map (CompileCondition V) cs in
         if op = LogicalAnd then (\<lambda>v. and_loop (map (\<lambda>fn. fn v) compiled))
         else if op = LogicalOr then (\<lambda>v. or_loop (map (\<lambda>fn. fn v) compiled))
         else (\<lambda>v. Inl (ErrorUnknownLogicalOperator op))))"

section \<open>Paths\<close>

fun join_dots :: "string list \<Rightarrow> string" where
  "join_dots [] = []"
| "join_dots [p] = p"
| "join_dots (p # ps) = p @ CHR ''.'' # join_dots ps"

lemma split_dots_not_Nil [simp]: "split_dots s \<noteq> []"
  by (induction s) (auto split: list.splits)

lemma split_dots_no_dot: "CHR ''.'' \<notin> set p \<Longrightarrow> split_dots p = [p]"
  by (induction p) auto

lemma split_dots_append: "CHR ''.'' \<notin> set p \<Longrightarrow> split_dots (p @ CHR ''.'' # s) = p # split_dots s"
  by (induction p) auto

lemma split_join_dots: "list_all (\<lambda>p. CHR ''.'' \<notin> set p) ps \<Longrightarrow> ps \<noteq> [] \<Longrightarrow> split_dots (join_dots ps) = ps"
  by (induction ps rule: join_dots.induct) (auto simp: split_dots_no_dot split_dots_append)

lemma split_dots_single_empty: "length (split_dots s) = 1 \<and> split_dots s ! 0 = [] \<longleftrightarrow> s = []"
proof (cases s)
  case (Cons ch s')
  then show ?thesis by (cases "split_dots s'") auto
qed simp

text \<open>Following the whole path through nested maps.\<close>

fun lookup_path :: "'v cond_variant \<Rightarrow> string list \<Rightarrow> 'v \<Rightarrow> 'v option" where
  "lookup_path V [] data = Some data"
| "lookup_path V (n # ns) data =
     (case cv_MapGet V data n of None \<Rightarrow> None | Some v \<Rightarrow> lookup_path V ns v)"

lemma eval_path_leaf:
  assumes "ns \<noteq> []" "lookup_path V ns data = Some leaf" "cv_Type V leaf \<noteq> TypeMap"
    and "\<And>v n. cv_Type V v \<noteq> TypeMap \<Longrightarrow> cv_MapGet V v n = None"
  shows "eval_path V cond ns data = CompareValue V cond leaf"
  using assms(1-3)
proof (induction ns arbitrary: data)
  case (Cons n ns)
  from Cons.prems(2) obtain v where v: "cv_MapGet V data n = Some v" "lookup_path V ns v = Some leaf"
    by (auto split: option.splits)
  show ?case
  proof (cases ns)
    case Nil
    then show ?thesis using v Cons.prems(3) by simp
  next
    case (Cons n' ns')
    then have "cv_MapGet V v n' \<noteq> None" using v(2) by (auto split: option.splits)
    then have "cv_Type V v = TypeMap" using assms(4) [of v n'] by (cases "cv_Type V v = TypeMap") simp_all
    then show ?thesis using Cons.IH v Cons Cons.prems(3) by simp
  qed
qed simp

section \<open>Properties\<close>

lemma evalCompiledCondition_eq: "evalCompiledCondition V c parts data = eval_path V c parts data"
  by (induction parts arbitrary: data) (auto split: option.splits)

lemma compile_Condition_eq:
  assumes "cv_MapGet V data [] = None"
  shows "compile_Condition V c data = EvalCondition V c data"
proof (cases "cd_ColumnAttributeName c = []")
  case True
  then show ?thesis using assms by (simp add: compile_Condition_def EvalCondition_def)
next
  case False
  then show ?thesis using split_dots_single_empty [of "cd_ColumnAttributeName c"]
    by (auto simp: compile_Condition_def EvalCondition_def evalCompiledCondition_eq Let_def)
qed

lemma compile_eq:
  shows "cv_MapGet V data [] = None \<Longrightarrow> CompileCondition V cond data = evalAnyCondition V cond data"
    and "cv_MapGet V data [] = None \<Longrightarrow> compileLogical V op cs data = EvalLogicalCondition V op cs data"
proof (induction V cond and V op cs rule: CompileCondition_compileLogical.induct)
  case (5 V op cs)
  have "map (\<lambda>fn. fn data) (map (CompileCondition V) cs) = map (\<lambda>c. evalAnyCondition V c data) cs"
    using 5 by (cases "cs = []") simp_all
  then show ?case by (simp del: map_map)
qed (simp_all add: compile_Condition_eq del: compileLogical.simps EvalLogicalCondition.simps)

text \<open>A small instance of the external value type.\<close>

datatype sample_value = SvNum int | SvStr string | SvMap "(string \<times> sample_value) list"

definition sample_cv :: "sample_value cond_variant" where
  "sample_cv =
     \<lparr>cv_Type = (\<lambda>v. case v of SvNum n \<Rightarrow> TypeOther | SvStr s \<Rightarrow> TypeString | SvMap m \<Rightarrow> TypeMap),
      cv_MapGet = (\<lambda>v k. case v of SvMap m \<Rightarrow> map_of m k | _ \<Rightarrow> None),
      cv_IsEqual = (\<lambda>v w. v = w),
      cv_CompareNumberBySymbol = (\<lambda>v w op.
        case (v, w) of (SvNum a, SvNum b) \<Rightarrow> (if op = ''>'' then Inr (b < a) else Inl ErrorVariant) | _ \<Rightarrow> Inl ErrorVariant)\<rparr>"

definition sample_row :: sample_value where
  "sample_row = SvMap [(''a'', SvMap [(''b'', SvNum 5)]), (''c'', SvNum 7)]"

definition sample_cond :: "string \<Rightarrow> int \<Rightarrow> sample_value Condition" where
  "sample_cond name n = \<lparr>cd_ColumnAttributeName = name, cd_Operator = ''>'', cd_Value = SvNum n\<rparr>"

text \<open>\<^bold>\<open>C31\<close>. The compiled form of every condition, however nested, gives on every value that has no column with
  an empty name exactly the answer or the error of the interpreter.\<close>

theorem CompileCondition_correct:
  assumes "cv_MapGet V data [] = None"
  shows "CompileCondition V cond data = evalAnyCondition V cond data"
  using assms by (rule compile_eq)

theorem CompileCondition_correct_witness:
  "cv_MapGet sample_cv sample_row [] = None \<and>
   CompileCondition sample_cv (LogicalCondition ''and'' [Cond (sample_cond ''a.b'' 3), Cond (sample_cond ''x'' 1)]) sample_row
     = Inl (ErrorColumnNotFound ''x'')"
proof -
  have "cv_MapGet sample_cv sample_row [] = None" by (simp add: sample_cv_def sample_row_def)
  then show ?thesis
    using CompileCondition_correct [of sample_cv sample_row
        "LogicalCondition ''and'' [Cond (sample_cond ''a.b'' 3), Cond (sample_cond ''x'' 1)]"]
    by (simp add: sample_cv_def sample_row_def sample_cond_def EvalCondition_def CompareValue_def LogicalAnd_def)
qed

text \<open>On a map that does have a column with an empty name the two disagree: for a condition without a
  column name the interpreter compares that column, while the compiled form reports that the column is not
  found.\<close>

theorem compiled_empty_name_diverges:
  assumes "cd_ColumnAttributeName c = []" "cv_Type V data = TypeMap" "cv_MapGet V data [] = Some v" "cv_Type V v \<noteq> TypeMap"
  shows "evalAnyCondition V (Cond c) data = CompareValue V c v \<and>
         CompileCondition V (Cond c) data = Inl (ErrorColumnNotFound [])"
  using assms by (simp add: EvalCondition_def compile_Condition_def)

theorem compiled_empty_name_diverges_witness:
  "let data = SvMap [([], SvNum 9)]
   in evalAnyCondition sample_cv (Cond (sample_cond [] 3)) data = Inr True \<and>
      CompileCondition sample_cv (Cond (sample_cond [] 3)) data = Inl (ErrorColumnNotFound [])"
  using compiled_empty_name_diverges [of "sample_cond [] 3" sample_cv "SvMap [([], SvNum 9)]" "SvNum 9"]
  by (simp add: sample_cond_def sample_cv_def CompareValue_def)

text \<open>\<^bold>\<open>Cx\<close>. A dotted column name is resolved through nested maps: when the path leads to a value that is not a
  map, the condition is the comparison of that value, for every depth.\<close>

theorem EvalCondition_nested:
  assumes "cd_ColumnAttributeName c = join_dots ns" "ns \<noteq> []" "join_dots ns \<noteq> []" "list_all (\<lambda>p. CHR ''.'' \<notin> set p) ns"
    and "lookup_path V ns data = Some leaf" "cv_Type V leaf \<noteq> TypeMap"
    and "\<And>v n. cv_Type V v \<noteq> TypeMap \<Longrightarrow> cv_MapGet V v n = None"
  shows "EvalCondition V c data = CompareValue V c leaf"
  using eval_path_leaf [OF assms(2,5,6,7)] assms(1,3) split_join_dots [OF assms(4,2)]
  by (simp add: EvalCondition_def)

theorem EvalCondition_nested_witness:
  "EvalCondition sample_cv (sample_cond ''a.b'' 3) sample_row = CompareValue sample_cv (sample_cond ''a.b'' 3) (SvNum 5)"
  by (rule EvalCondition_nested [where ns = "[''a'', ''b'']"])
    (auto simp: sample_cond_def sample_cv_def sample_row_def split: sample_value.splits)

text \<open>A dotted name whose first part already names a scalar is decided by that scalar: the rest of the
  path is ignored instead of being reported as a missing column.\<close>

theorem dotted_name_stops_at_scalar:
  assumes "cd_ColumnAttributeName c = n @ CHR ''.'' # rest" "CHR ''.'' \<notin> set n"
    and "cv_MapGet V data n = Some v" "cv_Type V v \<noteq> TypeMap"
  shows "EvalCondition V c data = CompareValue V c v"
  using assms by (simp add: EvalCondition_def split_dots_append)

theorem dotted_name_stops_at_scalar_witness:
  "EvalCondition sample_cv (sample_cond ''c.no.such.column'' 3) sample_row = Inr True"
  using dotted_name_stops_at_scalar [of "sample_cond ''c.no.such.column'' 3" "''c''" "''no.such.column''" sample_cv sample_row "SvNum 7"]
  by (simp add: sample_cond_def sample_cv_def sample_row_def CompareValue_def)

lemma and_loop_total: "list_all (\<lambda>r. \<exists>b. r = Inr b) rs \<Longrightarrow> and_loop rs = Inr (list_all (\<lambda>r. r = Inr True) rs)"
  by (induction rs) auto

lemma or_loop_total: "list_all (\<lambda>r. \<exists>b. r = Inr b) rs \<Longrightarrow> or_loop rs = Inr (list_ex (\<lambda>r. r = Inr True) rs)"
  by (induction rs) auto

text \<open>\<^bold>\<open>Cx\<close>. When no sub-condition fails, a compiled conjunction holds exactly when all of its sub-conditions hold
  and a compiled disjunction exactly when one of them does.\<close>

theorem logical_conditions_spec:
  assumes "cs \<noteq> []" "\<forall>c \<in> set cs. \<exists>b. CompileCondition V c data = Inr b"
  shows "CompileCondition V (LogicalCondition LogicalAnd cs) data = Inr (\<forall>c \<in> set cs. CompileCondition V c data = Inr True)
       \<and> CompileCondition V (LogicalCondition LogicalOr cs) data = Inr (\<exists>c \<in> set cs. CompileCondition V c data = Inr True)"
proof -
  let ?rs = "map (\<lambda>c. CompileCondition V c data) cs"
  have "list_all (\<lambda>r. \<exists>b. r = Inr b) ?rs" using assms(2) by (simp add: list_all_iff)
  moreover have "list_ex (\<lambda>r. r = Inr True) ?rs \<longleftrightarrow> (\<exists>c \<in> set cs. CompileCondition V c data = Inr True)"
    by (induction cs) auto
  ultimately show ?thesis
    using assms(1) and_loop_total [of ?rs] or_loop_total [of ?rs]
    by (simp add: LogicalAnd_def LogicalOr_def comp_def list_all_iff)
qed

theorem logical_conditions_spec_witness:
  "CompileCondition sample_cv (LogicalCondition LogicalOr [Cond (sample_cond ''c'' 9), Cond (sample_cond ''a.b'' 3)]) sample_row
     = Inr True"
proof -
  let ?cs = "[Cond (sample_cond ''c'' 9), Cond (sample_cond ''a.b'' 3)]"
  have r: "CompileCondition sample_cv (Cond (sample_cond ''c'' 9)) sample_row = Inr False"
    "CompileCondition sample_cv (Cond (sample_cond ''a.b'' 3)) sample_row = Inr True"
    by (simp_all add: compile_Condition_def sample_cond_def sample_cv_def sample_row_def CompareValue_def)
  then have "\<forall>c \<in> set ?cs. \<exists>b. CompileCondition sample_cv c sample_row = Inr b" by auto
  then have "CompileCondition sample_cv (LogicalCondition LogicalOr ?cs) sample_row
      = Inr (\<exists>c \<in> set ?cs. CompileCondition sample_cv c sample_row = Inr True)"
    using logical_conditions_spec [of ?cs] by blast
  then show ?thesis using r by simp
qed

end
