(* ===== verification/Segment_List.thy ===== *)
theory Segment_List
  imports Segment_Reader_Props Segment_Index
begin

text \<open>
  Data segments and the list of them, \<^verbatim>\<open>tsdb/segment.go\<close>.  A segment is a writer, which owns the bytes of the file, a
  reader, the block index in memory and the index file on disk; the list keeps the segments in time order, the position of the one being
  written and the position at which the current transaction began.  The clock is an argument; creating and removing files succeeds.
\<close>

section \<open>One segment\<close>

record fileSegment =
  sg_writer :: fileWriter
  sg_reader :: fileReader
  sg_timestamp :: int
  sg_index :: "FileIndex option"
  sg_indexOnce :: bool
  sg_indexFile :: "bytes option"

definition newFileSegment :: "string \<Rightarrow> bytes \<Rightarrow> bytes option \<Rightarrow> int \<Rightarrow> compressor \<Rightarrow> FileIndex option \<Rightarrow> fileSegment" where
  "newFileSegment path disk idxFile tm cmp index =
     \<lparr>sg_writer = NewFileWriter disk cmp, sg_reader = NewFileReader path cmp, sg_timestamp = tm, sg_index = index, sg_indexOnce = False,
      sg_indexFile = idxFile\<rparr>"

definition sg_path :: "fileSegment \<Rightarrow> string" where
  "sg_path s = fr_filePath (sg_reader s)"

text \<open>\<^verbatim>\<open>Remove\<close>: the files are gone afterwards, unless closing the writer failed.\<close>

definition sg_Remove :: "fileSegment \<Rightarrow> seg_error option \<times> fileSegment" where
  "sg_Remove s =
     (case Cleanup (sg_writer s) of
        (Some e, w) \<Rightarrow> (Some e, s\<lparr>sg_writer := w\<rparr>)
      | (None, w) \<Rightarrow> (None, s\<lparr>sg_writer := w\<lparr>fw_file := []\<rparr>, sg_indexFile := None\<rparr>))"

definition GetMinTms :: "fileSegment \<Rightarrow> int" where
  "GetMinTms s = sg_timestamp s"

definition GetIndex :: "fileSegment \<Rightarrow> FileIndex option \<times> fileSegment" where
  "GetIndex s =
     (case sg_index s of
        Some idx \<Rightarrow> (Some idx, s)
      | None \<Rightarrow>
          if sg_indexOnce s then (None, s)
          else (let idx = readIndexFile (sg_indexFile s) in (idx, s\<lparr>sg_index := idx, sg_indexOnce := True\<rparr>)))"

definition PersistIndex :: "fileSegment \<Rightarrow> fileSegment" where
  "PersistIndex s =
     (case sg_index s of
        None \<Rightarrow> s
      | Some idx \<Rightarrow> if fi_Blocks idx = [] then s else s\<lparr>sg_indexFile := Some (writeIndexFile idx)\<rparr>)"

section \<open>Checking a segment after a restart\<close>

text \<open>The scan of \<^verbatim>\<open>InspectBlockIndex\<close>; \<open>decode\<close> gives the times and values of a block (\<open>None\<close> is an error).  A scan ends at an error, at the end of
  the file or at a block that cannot be decoded.\<close>

primrec inspect_loop ::
  "nat \<Rightarrow> nat \<Rightarrow> (bytes \<Rightarrow> bytes \<Rightarrow> (int \<times> 'v) list option) \<Rightarrow> TableInfo \<Rightarrow> bytes \<Rightarrow> fileReader \<Rightarrow> FileIndex \<Rightarrow> (u32 \<rightharpoonup> int \<times> 'v) \<Rightarrow>
     (FileIndex \<times> (u32 \<rightharpoonup> int \<times> 'v) \<times> fileReader) option" where
  "inspect_loop 0 rf decode ti disk r idx lastPoints = None"
| "inspect_loop (Suc fuel) rf decode ti disk r idx lastPoints =
     (let lastOffset = GetReadEffectiveSize r in
      case NextRead rf (\<lambda>_. True) ti disk r of
        None \<Rightarrow> None
      | Some (Inl e, r') \<Rightarrow> Some (idx, lastPoints, r')
      | Some (Inr None, r') \<Rightarrow> Some (idx, lastPoints, r')
      | Some (Inr (Some (head, timeData, valueData)), r') \<Rightarrow>
          (case decode timeData valueData of
             None \<Rightarrow> Some (idx, lastPoints, r')
           | Some points \<Rightarrow>
               (let lastPoints' =
                      (if points = [] then lastPoints
                       else (case lastPoints (sh_Attribute head) of
                               None \<Rightarrow> lastPoints(sh_Attribute head \<mapsto> last points)
                             | Some lp \<Rightarrow> if fst (last points) > fst lp then lastPoints(sh_Attribute head \<mapsto> last points) else lastPoints));
                    idx1 = (if fi_MinTime idx = 0 \<or> sh_MinTime head < fi_MinTime idx then idx\<lparr>fi_MinTime := sh_MinTime head\<rparr> else idx);
                    idx2 = (if sh_MaxTime head > fi_MaxTime idx1 then idx1\<lparr>fi_MaxTime := sh_MaxTime head\<rparr> else idx1);
                    entry = \<lparr>be_Attribute = sh_Attribute head, be_MinTime = sh_MinTime head, be_MaxTime = sh_MaxTime head,
                             be_Offset = lastOffset, be_DataSize = sh_DataSize head\<rparr>
                in inspect_loop fuel rf decode ti disk r' (appendBlock entry idx2) lastPoints')))"

text \<open>The whole check; the outer \<open>None\<close> is running out of fuel.  The handle it opens for the truncation is its own.\<close>

definition InspectBlockIndex ::
  "nat \<Rightarrow> (bytes \<Rightarrow> bytes \<Rightarrow> (int \<times> 'v) list option) \<Rightarrow> TableInfo \<Rightarrow> nat \<Rightarrow> readerCache option \<Rightarrow> fileSegment \<Rightarrow>
     (seg_error option \<times> (u32 \<rightharpoonup> int \<times> 'v) \<times> readerCache option \<times> fileSegment) option" where
  "InspectBlockIndex fuel decode ti victim cache s =
     (case OpenReader (fw_file (sg_writer s)) cache (sg_reader s) of
        (e0, disk, cache1, r) \<Rightarrow>
          (case inspect_loop fuel fuel decode ti disk r newFileIndex Map.empty of
             None \<Rightarrow> None
           | Some (idx, lastPoints, r1) \<Rightarrow>
               (let effectiveSize = GetReadEffectiveSize r1;
                    (dropped, cache2, r2) = CloseReader victim cache1 r1;
                    s1 = s\<lparr>sg_writer := (sg_writer s)\<lparr>fw_file := disk\<rparr>, sg_reader := r2\<rparr>;
                    settle = (\<lambda>s. if sg_index s = None then s\<lparr>sg_index := Some idx\<rparr> else s)
                in if effectiveSize > 0 then
                     (case OpenBlockFile disk (fw_compressor (sg_writer s)) (int BlockSizeDef) of
                        Inl e \<Rightarrow> Some (Some (FileError e), lastPoints, cache2, s1)
                      | Inr bf \<Rightarrow>
                          (let (e1, bf1) = (if effectiveSize < bf_Size bf then Truncate effectiveSize bf else (None, bf));
                               (e2, bf2) = Close bf1;
                               s2 = s1\<lparr>sg_writer := (sg_writer s1)\<lparr>fw_file := bf_file bf2\<rparr>\<rparr>
                           in case e1 of
                                Some e \<Rightarrow> Some (Some (FileError e), lastPoints, cache2, s2)
                              | None \<Rightarrow> Some (None, lastPoints, cache2, settle s2)))
                   else Some (None, lastPoints, cache2, settle s1))))"

section \<open>The list\<close>

record fileSegmentList =
  fl_segments :: "fileSegment list"
  fl_activeIdx :: int
  fl_openStart :: int
  fl_compressor :: compressor
  fl_readerCache :: "readerCache option"

definition GetLastFragmentation :: "fileSegmentList \<Rightarrow> fileSegment option" where
  "GetLastFragmentation l =
     (if fl_activeIdx l < 0 \<or> fl_activeIdx l \<ge> int (length (fl_segments l)) then None
      else Some (fl_segments l ! nat (fl_activeIdx l)))"

definition map_segment :: "nat \<Rightarrow> (fileSegment \<Rightarrow> fileSegment) \<Rightarrow> fileSegmentList \<Rightarrow> fileSegmentList" where
  "map_segment i f l = l\<lparr>fl_segments := (fl_segments l)[i := f (fl_segments l ! i)]\<rparr>"

definition InspectLastBlockIndex ::
  "nat \<Rightarrow> (bytes \<Rightarrow> bytes \<Rightarrow> (int \<times> 'v) list option) \<Rightarrow> TableInfo \<Rightarrow> nat \<Rightarrow> fileSegmentList \<Rightarrow>
     (seg_error option \<times> (u32 \<rightharpoonup> int \<times> 'v) \<times> fileSegmentList) option" where
  "InspectLastBlockIndex fuel decode ti victim l =
     (case GetLastFragmentation l of
        None \<Rightarrow> Some (None, Map.empty, l)
      | Some s \<Rightarrow>
          (case InspectBlockIndex fuel decode ti victim (fl_readerCache l) s of
             None \<Rightarrow> None
           | Some (e, pts, cache, s') \<Rightarrow> Some (e, pts, (map_segment (nat (fl_activeIdx l)) (\<lambda>_. s') l)\<lparr>fl_readerCache := cache\<rparr>)))"

definition PersistLastIndex :: "fileSegmentList \<Rightarrow> fileSegmentList" where
  "PersistLastIndex l =
     (if fl_activeIdx l < 0 \<or> fl_activeIdx l \<ge> int (length (fl_segments l)) then l
      else map_segment (nat (fl_activeIdx l)) PersistIndex l)"

text \<open>The name of a segment file is its time in decimal with the data suffix.\<close>

fun digits :: "nat \<Rightarrow> string" where
  "digits n = (if n < 10 then [char_of (48 + n)] else digits (n div 10) @ [char_of (48 + n mod 10)])"

declare digits.simps [simp del]

definition segment_path :: "int \<Rightarrow> string" where
  "segment_path tm = (if tm < 0 then ''-'' @ digits (nat (- tm)) else digits (nat tm)) @ ''.tsb''"

definition fresh_segment :: "int \<Rightarrow> fileSegmentList \<Rightarrow> fileSegment" where
  "fresh_segment now l = newFileSegment (segment_path now) [] None now (fl_compressor l) (Some newFileIndex)"

definition add_segment :: "int \<Rightarrow> fileSegmentList \<Rightarrow> fileSegmentList" where
  "add_segment now l = l\<lparr>fl_segments := fl_segments l @ [fresh_segment now l], fl_activeIdx := int (length (fl_segments l))\<rparr>"

definition open_active_writer :: "fileSegmentList \<Rightarrow> seg_error option \<times> fileSegmentList" where
  "open_active_writer l =
     (let i = nat (fl_activeIdx l); (e, w) = OpenWriter (sg_writer (fl_segments l ! i))
      in (e, map_segment i (\<lambda>s. s\<lparr>sg_writer := w\<rparr>) l))"

definition OpenTransaction :: "int \<Rightarrow> fileSegmentList \<Rightarrow> seg_error option \<times> fileSegmentList" where
  "OpenTransaction now l0 =
     (let l = (if fl_activeIdx l0 < 0 then add_segment now l0 else l0)
      in open_active_writer (l\<lparr>fl_openStart := fl_activeIdx l\<rparr>))"

definition evict_path :: "string \<Rightarrow> fileSegmentList \<Rightarrow> fileSegmentList" where
  "evict_path path l = l\<lparr>fl_readerCache := (case fl_readerCache l of None \<Rightarrow> None | Some c \<Rightarrow> Some (snd (evict path c)))\<rparr>"

definition transaction_range :: "fileSegmentList \<Rightarrow> nat list" where
  "transaction_range l = [nat (fl_openStart l)..<min (nat (fl_activeIdx l + 1)) (length (fl_segments l))]"

text \<open>One step of the loops over the segments of a transaction; the errors of the steps are joined.\<close>

definition transaction_step ::
  "(fileSegment \<Rightarrow> seg_error option \<times> fileSegment) \<Rightarrow> nat \<Rightarrow> seg_error list \<times> fileSegmentList \<Rightarrow> seg_error list \<times> fileSegmentList" where
  "transaction_step f i acc =
     (case acc of (errs, l) \<Rightarrow>
        (let s = fl_segments l ! i; (e, s') = f s
         in (errs @ (case e of None \<Rightarrow> [] | Some x \<Rightarrow> [x]), evict_path (sg_path s) (map_segment i (\<lambda>_. s') l))))"

definition sg_Commit :: "fileSegment \<Rightarrow> seg_error option \<times> fileSegment" where
  "sg_Commit s = (let (e, w) = fw_Commit (sg_writer s) in (e, s\<lparr>sg_writer := w\<rparr>))"

definition sg_Rollback :: "fileSegment \<Rightarrow> seg_error option \<times> fileSegment" where
  "sg_Rollback s = (let (e, w) = RollbackLastCommit (sg_writer s) in (e, s\<lparr>sg_writer := w\<rparr>))"

definition CommitTransactionFileSegment :: "fileSegmentList \<Rightarrow> seg_error list \<times> fileSegmentList" where
  "CommitTransactionFileSegment l =
     (if fl_openStart l < 0 then ([], l)
      else fold (transaction_step sg_Commit) (transaction_range l) ([], l))"

definition AddTransactionSegment :: "int \<Rightarrow> fileSegmentList \<Rightarrow> seg_error option \<times> fileSegmentList" where
  "AddTransactionSegment now l =
     (if fl_openStart l < 0 then (Some ErrorNoTransaction, l)
      else
        (let (e, l1) =
               (if 0 \<le> fl_activeIdx l \<and> fl_activeIdx l < int (length (fl_segments l)) then
                  (let i = nat (fl_activeIdx l); (e, w) = Cleanup (sg_writer (fl_segments l ! i))
                   in (e, map_segment i (\<lambda>s. s\<lparr>sg_writer := w\<rparr>) l))
                else (None, l))
         in case e of Some x \<Rightarrow> (Some x, l1) | None \<Rightarrow> open_active_writer (add_segment now l1)))"

definition RollbackLastCommitTransaction :: "fileSegmentList \<Rightarrow> seg_error list \<times> fileSegmentList" where
  "RollbackLastCommitTransaction l =
     (if fl_openStart l < 0 then ([ErrorNoTransaction], l)
      else
        (let (errs, l1) =
               fold (\<lambda>i. transaction_step (if i = nat (fl_openStart l) then sg_Rollback else sg_Remove) i) (transaction_range l) ([], l)
         in (errs,
             if fl_openStart l1 + 1 < int (length (fl_segments l1))
             then l1\<lparr>fl_segments := take (nat (fl_openStart l1 + 1)) (fl_segments l1), fl_activeIdx := fl_openStart l1\<rparr>
             else l1)))"

section \<open>Iterating, expiry and opening\<close>

fun Range_from :: "(fileSegment \<Rightarrow> fileSegment option \<Rightarrow> 's \<Rightarrow> bool \<times> 's) \<Rightarrow> fileSegment list \<Rightarrow> 's \<Rightarrow> 's" where
  "Range_from f [] s = s"
| "Range_from f (x # xs) s =
     (case f x (case xs of [] \<Rightarrow> None | y # ys \<Rightarrow> Some y) s of (True, s') \<Rightarrow> Range_from f xs s' | (False, s') \<Rightarrow> s')"

definition Range :: "(fileSegment \<Rightarrow> fileSegment option \<Rightarrow> 's \<Rightarrow> bool \<times> 's) \<Rightarrow> fileSegmentList \<Rightarrow> 's \<Rightarrow> 's" where
  "Range f l s = Range_from f (fl_segments l) s"

definition reaches :: "int \<Rightarrow> fileSegment \<Rightarrow> bool" where
  "reaches startTime s =
     (case fst (GetIndex s) of
        Some idx \<Rightarrow> if fi_MaxTime idx \<noteq> 0 then fi_MaxTime idx \<ge> startTime else True
      | None \<Rightarrow> True)"

text \<open>The loop of \<^verbatim>\<open>RangeFromTime\<close> over the segments from the starting one.\<close>

fun range_loop :: "int \<Rightarrow> int \<Rightarrow> (fileSegment \<Rightarrow> 's \<Rightarrow> bool \<times> 's) \<Rightarrow> fileSegment list \<Rightarrow> 's \<Rightarrow> 's" where
  "range_loop st en f [] s = s"
| "range_loop st en f (x # xs) s =
     (let visit = (case f x s of (True, s') \<Rightarrow> range_loop st en f xs s' | (False, s') \<Rightarrow> s') in
      case fst (GetIndex x) of
        Some idx \<Rightarrow>
          if fi_MinTime idx \<noteq> 0 then
            (if fi_MaxTime idx < st then range_loop st en f xs s
             else if fi_MinTime idx > en then s
             else visit)
          else if GetMinTms x > en then s else visit
      | None \<Rightarrow> if GetMinTms x > en then s else visit)"

definition RangeFromTime :: "int \<Rightarrow> int \<Rightarrow> (fileSegment \<Rightarrow> 's \<Rightarrow> bool \<times> 's) \<Rightarrow> fileSegmentList \<Rightarrow> 's \<Rightarrow> 's" where
  "RangeFromTime st en f l s =
     (let n = length (fl_segments l) in
      if n = 0 then s
      else
        (let first = sort_search n (\<lambda>i. reaches st (fl_segments l ! i))
         in range_loop st en f (drop (first - 1) (fl_segments l)) s))"

text \<open>\<^verbatim>\<open>Remove\<close> drops the segments up to the last position whose successor was created before the time.\<close>

definition expiry_cut :: "int \<Rightarrow> fileSegment list \<Rightarrow> nat option" where
  "expiry_cut t ss =
     fold (\<lambda>i k. if GetMinTms (ss ! i) \<le> t \<and> GetMinTms (ss ! Suc i) < t then Some i else k) [0..<length ss - 1] None"

definition fl_Remove :: "int \<Rightarrow> fileSegmentList \<Rightarrow> fileSegmentList" where
  "fl_Remove t l =
     (if length (fl_segments l) < 2 then l
      else
        (case expiry_cut t (fl_segments l) of
           None \<Rightarrow> l
         | Some k \<Rightarrow>
             (let l1 = fold (\<lambda>s. evict_path (sg_path s)) (take (Suc k) (fl_segments l)) l;
                  a = fl_activeIdx l - int (Suc k); o' = fl_openStart l - int (Suc k)
              in l1\<lparr>fl_segments := drop (Suc k) (fl_segments l),
                    fl_activeIdx := (if a < 0 then -1 else a), fl_openStart := (if o' < 0 then -1 else o')\<rparr>)))"

text \<open>Opening: the data files of the directory with their index files, by the time in their names.\<close>

definition BuildFragmentation :: "(int \<times> bytes \<times> bytes option) list \<Rightarrow> compressor \<Rightarrow> readerCache option \<Rightarrow> fileSegmentList" where
  "BuildFragmentation dir cmp cache =
     (let files = sort_key fst dir;
          segs = map (\<lambda>(ts, disk, idxFile).
                    newFileSegment (segment_path ts) disk idxFile ts cmp
                      (Some (case readIndexFile idxFile of Some idx \<Rightarrow> idx | None \<Rightarrow> newFileIndex))) files
      in \<lparr>fl_segments = segs, fl_activeIdx = (if segs \<noteq> [] then int (length segs) - 1 else -1), fl_openStart = -1,
          fl_compressor = cmp, fl_readerCache = cache\<rparr>)"

end
