(* ===== verification/Segment_List_Props.thy ===== *)
theory Segment_List_Props
  imports Segment_List
begin

text \<open>
  Properties of the segment list of \<^verbatim>\<open>Segment_List\<close>: the positions it keeps stay valid under every operation, a transaction can be undone,
  a query by time visits the segments that overlap it, expiry removes what is old, and what a restart does with the block index.
\<close>

section \<open>The shape of the list\<close>

definition list_ok :: "fileSegmentList \<Rightarrow> bool" where
  "list_ok l \<longleftrightarrow> fl_activeIdx l = int (length (fl_segments l)) - 1 \<and> -1 \<le> fl_openStart l \<and> fl_openStart l \<le> fl_activeIdx l"

lemma map_segment_fields [simp]:
  "fl_activeIdx (map_segment i f l) = fl_activeIdx l" "fl_openStart (map_segment i f l) = fl_openStart l"
  "fl_compressor (map_segment i f l) = fl_compressor l" "length (fl_segments (map_segment i f l)) = length (fl_segments l)"
  "fl_segments (map_segment i f l) = (fl_segments l)[i := f (fl_segments l ! i)]"
  by (simp_all add: map_segment_def)

lemma evict_path_fields [simp]:
  "fl_segments (evict_path p l) = fl_segments l" "fl_activeIdx (evict_path p l) = fl_activeIdx l"
  "fl_openStart (evict_path p l) = fl_openStart l" "fl_compressor (evict_path p l) = fl_compressor l"
  by (simp_all add: evict_path_def)

lemma add_segment_fields [simp]:
  "fl_segments (add_segment now l) = fl_segments l @ [fresh_segment now l]" "fl_activeIdx (add_segment now l) = int (length (fl_segments l))"
  "fl_openStart (add_segment now l) = fl_openStart l" "fl_compressor (add_segment now l) = fl_compressor l"
  by (simp_all add: add_segment_def)

lemma fresh_segment_fields [simp]:
  "sg_timestamp (fresh_segment now l) = now" "sg_writer (fresh_segment now l) = NewFileWriter [] (fl_compressor l)"
  by (simp_all add: fresh_segment_def newFileSegment_def)

text \<open>The loops of a transaction treat every segment of its range once, on its own.\<close>

lemma transaction_step_fields:
  assumes "transaction_step f i (errs, l) = (errs', l')"
  shows "fl_segments l' = (fl_segments l)[i := snd (f (fl_segments l ! i))] \<and> fl_activeIdx l' = fl_activeIdx l \<and>
         fl_openStart l' = fl_openStart l \<and> fl_compressor l' = fl_compressor l \<and>
         errs' = errs @ (case fst (f (fl_segments l ! i)) of None \<Rightarrow> [] | Some x \<Rightarrow> [x])"
  using assms by (auto simp: transaction_step_def Let_def split: prod.splits)

lemma transaction_fold:
  assumes "distinct is" "\<forall>i \<in> set is. i < length (fl_segments l)"
    "fold (\<lambda>i. transaction_step (F i) i) is (errs, l) = (errs', l')"
  shows "length (fl_segments l') = length (fl_segments l) \<and> fl_activeIdx l' = fl_activeIdx l \<and> fl_openStart l' = fl_openStart l \<and>
         fl_compressor l' = fl_compressor l \<and>
         (\<forall>i < length (fl_segments l). fl_segments l' ! i = (if i \<in> set is then snd (F i (fl_segments l ! i)) else fl_segments l ! i)) \<and>
         ((\<forall>i \<in> set is. fst (F i (fl_segments l ! i)) = None) \<longrightarrow> errs' = errs)"
  using assms
proof (induction "is" arbitrary: errs l)
  case (Cons i "is")
  obtain e1 l1 where s: "transaction_step (F i) i (errs, l) = (e1, l1)" by fastforce
  note f = transaction_step_fields [OF s]
  have "\<forall>k \<in> set is. k < length (fl_segments l1)" "distinct is" using Cons.prems f by auto
  from Cons.IH [OF this(2,1), of e1] have IH:
    "length (fl_segments l') = length (fl_segments l1)" "fl_activeIdx l' = fl_activeIdx l1" "fl_openStart l' = fl_openStart l1"
    "fl_compressor l' = fl_compressor l1"
    "\<And>k. k < length (fl_segments l1) \<Longrightarrow>
       fl_segments l' ! k = (if k \<in> set is then snd (F k (fl_segments l1 ! k)) else fl_segments l1 ! k)"
    "(\<forall>k \<in> set is. fst (F k (fl_segments l1 ! k)) = None) \<Longrightarrow> errs' = e1"
    using Cons.prems(3) s by auto
  have same: "fl_segments l1 ! k = fl_segments l ! k" if "k \<in> set is" for k
    using f Cons.prems(1) that by (metis distinct.simps(2) nth_list_update_neq)
  have "\<forall>k < length (fl_segments l). fl_segments l' ! k = (if k \<in> set (i # is) then snd (F k (fl_segments l ! k)) else fl_segments l ! k)"
  proof (intro allI impI)
    fix k assume k: "k < length (fl_segments l)"
    show "fl_segments l' ! k = (if k \<in> set (i # is) then snd (F k (fl_segments l ! k)) else fl_segments l ! k)"
    proof (cases "k \<in> set is")
      case True
      then show ?thesis using IH(5) [of k] same k f by simp
    next
      case False
      then show ?thesis using IH(5) [of k] k f by (cases "k = i") auto
    qed
  qed
  moreover have "errs' = errs" if "\<forall>k \<in> set (i # is). fst (F k (fl_segments l ! k)) = None"
    using IH(6) same f that by simp
  ultimately show ?case using IH(1-4) f by simp
qed simp

lemma transaction_range_ok: "distinct (transaction_range l)" "\<forall>i \<in> set (transaction_range l). i < length (fl_segments l)"
  by (auto simp: transaction_range_def)

lemma map_segment_times [simp]:
  "(\<And>x. sg_timestamp (f x) = sg_timestamp x) \<Longrightarrow> map sg_timestamp ((fl_segments l)[i := f (fl_segments l ! i)]) = map sg_timestamp (fl_segments l)"
  by (cases "i < length (fl_segments l)") (auto intro!: nth_equalityI simp: nth_list_update)

lemma open_active_writer_fields:
  "open_active_writer l = (e, l') \<Longrightarrow>
     length (fl_segments l') = length (fl_segments l) \<and> fl_activeIdx l' = fl_activeIdx l \<and> fl_openStart l' = fl_openStart l \<and>
     fl_compressor l' = fl_compressor l \<and> map sg_timestamp (fl_segments l') = map sg_timestamp (fl_segments l)"
  by (auto simp: open_active_writer_def Let_def split: prod.splits)

lemma sg_steps_times [simp]:
  "sg_timestamp (snd (sg_Commit s)) = sg_timestamp s" "sg_timestamp (snd (sg_Rollback s)) = sg_timestamp s"
  "sg_timestamp (snd (sg_Remove s)) = sg_timestamp s" "sg_timestamp (PersistIndex s) = sg_timestamp s"
  by (auto simp: sg_Commit_def sg_Rollback_def sg_Remove_def PersistIndex_def Let_def split: prod.splits option.splits)

lemma transaction_fold_times:
  assumes f: "fold (\<lambda>i. transaction_step (F i) i) (transaction_range l) (errs, l) = (errs', l')"
    and t: "\<And>i s. sg_timestamp (snd (F i s)) = sg_timestamp s"
  shows "map sg_timestamp (fl_segments l') = map sg_timestamp (fl_segments l)"
proof (rule nth_equalityI)
  note fields = transaction_fold [OF transaction_range_ok f]
  show "length (map sg_timestamp (fl_segments l')) = length (map sg_timestamp (fl_segments l))" using fields by simp
  show "map sg_timestamp (fl_segments l') ! i = map sg_timestamp (fl_segments l) ! i" if "i < length (map sg_timestamp (fl_segments l'))" for i
    using fields that by (simp add: t)
qed

section \<open>Operations keep the shape\<close>

text \<open>What can happen to a list: the calls of a flush, the writes to the segment being written, and expiry.\<close>

datatype list_op = LOpen int | LAdd int | LWrite writer_op | LCommit | LRollback | LExpire int | LPersist

definition active_write :: "writer_op \<Rightarrow> fileSegmentList \<Rightarrow> fileSegmentList" where
  "active_write x l =
     (case GetLastFragmentation l of
        None \<Rightarrow> l
      | Some s \<Rightarrow> (case writer_step x (sg_writer s) of
                     None \<Rightarrow> l
                   | Some (e, w) \<Rightarrow> map_segment (nat (fl_activeIdx l)) (\<lambda>s. s\<lparr>sg_writer := w\<rparr>) l))"

fun list_step :: "list_op \<Rightarrow> fileSegmentList \<Rightarrow> fileSegmentList" where
  "list_step (LOpen now) l = snd (OpenTransaction now l)"
| "list_step (LAdd now) l = snd (AddTransactionSegment now l)"
| "list_step (LWrite x) l = active_write x l"
| "list_step LCommit l = snd (CommitTransactionFileSegment l)"
| "list_step LRollback l = snd (RollbackLastCommitTransaction l)"
| "list_step (LExpire t) l = fl_Remove t l"
| "list_step LPersist l = PersistLastIndex l"

fun clock_readings :: "list_op list \<Rightarrow> int list" where
  "clock_readings [] = []"
| "clock_readings (LOpen now # ops) = now # clock_readings ops"
| "clock_readings (LAdd now # ops) = now # clock_readings ops"
| "clock_readings (x # ops) = clock_readings ops"

abbreviation times :: "fileSegmentList \<Rightarrow> int list" where
  "times l \<equiv> map sg_timestamp (fl_segments l)"

lemma list_ok_same:
  "list_ok l \<Longrightarrow> length (fl_segments l') = length (fl_segments l) \<Longrightarrow> fl_activeIdx l' = fl_activeIdx l \<Longrightarrow>
     fl_openStart l' = fl_openStart l \<Longrightarrow> list_ok l'"
  by (simp add: list_ok_def)

lemma OpenTransaction_shape:
  assumes "list_ok l" "OpenTransaction now l = (e, l')"
  shows "list_ok l' \<and> (times l' = times l \<or> times l' = times l @ [now])"
proof -
  define l1 where "l1 = (if fl_activeIdx l < 0 then add_segment now l else l)"
  have l1: "fl_activeIdx l1 = int (length (fl_segments l1)) - 1" "0 \<le> fl_activeIdx l1" "times l1 = times l \<or> times l1 = times l @ [now]"
    using assms(1) by (auto simp: l1_def list_ok_def)
  have "open_active_writer (l1\<lparr>fl_openStart := fl_activeIdx l1\<rparr>) = (e, l')"
    using assms(2) unfolding OpenTransaction_def l1_def Let_def .
  from open_active_writer_fields [OF this] l1 show ?thesis by (simp add: list_ok_def)
qed

lemma AddTransactionSegment_shape:
  assumes ok: "list_ok l" and r: "AddTransactionSegment now l = (e, l')"
  shows "list_ok l' \<and> (times l' = times l \<or> times l' = times l @ [now])"
proof (cases "fl_openStart l < 0")
  case False
  define i where "i = nat (fl_activeIdx l)"
  obtain e1 w where w: "Cleanup (sg_writer (fl_segments l ! i)) = (e1, w)" by fastforce
  define l1 where "l1 = map_segment i (\<lambda>s. s\<lparr>sg_writer := w\<rparr>) l"
  have l1: "length (fl_segments l1) = length (fl_segments l)" "fl_activeIdx l1 = fl_activeIdx l" "fl_openStart l1 = fl_openStart l"
      "times l1 = times l"
    by (simp_all add: l1_def)
  have "0 \<le> fl_activeIdx l \<and> fl_activeIdx l < int (length (fl_segments l))" using ok False by (auto simp: list_ok_def)
  then have r': "(case e1 of Some x \<Rightarrow> (Some x, l1) | None \<Rightarrow> open_active_writer (add_segment now l1)) = (e, l')"
    using r False w unfolding AddTransactionSegment_def i_def l1_def by (simp add: Let_def)
  show ?thesis
  proof (cases e1)
    case None
    then have "open_active_writer (add_segment now l1) = (e, l')" using r' by simp
    from open_active_writer_fields [OF this] show ?thesis using ok l1 by (auto simp: list_ok_def)
  next
    case (Some x)
    then show ?thesis using r' ok l1 by (auto simp: list_ok_def)
  qed
qed (use assms in \<open>simp add: AddTransactionSegment_def\<close>)

lemma Commit_shape:
  assumes ok: "list_ok l" and r: "CommitTransactionFileSegment l = (errs, l')"
  shows "list_ok l' \<and> times l' = times l"
proof (cases "fl_openStart l < 0")
  case False
  then have f: "fold (\<lambda>i. transaction_step sg_Commit i) (transaction_range l) ([], l) = (errs, l')"
    using r by (simp add: CommitTransactionFileSegment_def)
  show ?thesis using transaction_fold [OF transaction_range_ok f] transaction_fold_times [OF f] list_ok_same [OF ok] by simp
qed (use assms in \<open>simp add: CommitTransactionFileSegment_def\<close>)

lemma Rollback_shape:
  assumes ok: "list_ok l" and r: "RollbackLastCommitTransaction l = (errs, l')"
  shows "list_ok l' \<and> (\<exists>n. times l' = take n (times l))"
proof (cases "fl_openStart l < 0")
  case True
  then show ?thesis using ok r by (auto simp: RollbackLastCommitTransaction_def intro: exI [of _ "length (fl_segments l)"])
next
  case False
  let ?F = "\<lambda>i. if i = nat (fl_openStart l) then sg_Rollback else sg_Remove"
  obtain errs1 l1 where f: "fold (\<lambda>i. transaction_step (?F i) i) (transaction_range l) ([], l) = (errs1, l1)" by fastforce
  note fields = transaction_fold [OF transaction_range_ok f]
  have t: "times l1 = times l" by (rule transaction_fold_times [OF f]) simp
  have l': "l' = (if fl_openStart l1 + 1 < int (length (fl_segments l1))
                  then l1\<lparr>fl_segments := take (nat (fl_openStart l1 + 1)) (fl_segments l1), fl_activeIdx := fl_openStart l1\<rparr> else l1)"
    using r False f by (simp add: RollbackLastCommitTransaction_def)
  show ?thesis
  proof (cases "fl_openStart l1 + 1 < int (length (fl_segments l1))")
    case True
    then have "times l' = take (nat (fl_openStart l1 + 1)) (times l)" using l' t by (simp add: take_map [symmetric])
    moreover have "list_ok l'" using True l' fields ok False by (simp add: list_ok_def)
    ultimately show ?thesis by blast
  next
    case no: False
    then have "times l' = take (length (fl_segments l)) (times l)" using l' t by simp
    moreover have "list_ok l'" using no l' fields list_ok_same [OF ok] by simp
    ultimately show ?thesis by blast
  qed
qed


lemma fold_evict [simp]:
  "fl_segments (fold (\<lambda>s. evict_path (sg_path s)) ss l) = fl_segments l"
  "fl_activeIdx (fold (\<lambda>s. evict_path (sg_path s)) ss l) = fl_activeIdx l"
  "fl_openStart (fold (\<lambda>s. evict_path (sg_path s)) ss l) = fl_openStart l"
  by (induction ss arbitrary: l) simp_all

lemma expiry_cut_bound: "expiry_cut t ss = Some k \<Longrightarrow> Suc k < length ss"
proof -
  have "fold (\<lambda>i k. if P i then Some i else k) [0..<n] None = Some k \<Longrightarrow> k < n \<and> P k" for P n
    by (induction n) (auto split: if_splits)
  from this [of "\<lambda>i. GetMinTms (ss ! i) \<le> t \<and> GetMinTms (ss ! Suc i) < t" "length ss - 1"]
  show "expiry_cut t ss = Some k \<Longrightarrow> Suc k < length ss" by (auto simp: expiry_cut_def)
qed

lemma fl_Remove_shape:
  assumes "list_ok l"
  shows "list_ok (fl_Remove t l) \<and> (\<exists>n. fl_segments (fl_Remove t l) = drop n (fl_segments l))"
proof (cases "length (fl_segments l) < 2 \<or> expiry_cut t (fl_segments l) = None")
  case True
  then have "fl_Remove t l = l" by (auto simp: fl_Remove_def)
  then show ?thesis using assms by (auto intro: exI [of _ 0])
next
  case False
  then obtain k where k: "expiry_cut t (fl_segments l) = Some k" by auto
  note b = expiry_cut_bound [OF k]
  have seg: "fl_segments (fl_Remove t l) = drop (Suc k) (fl_segments l)" using False k by (simp add: fl_Remove_def Let_def)
  have "fl_activeIdx (fl_Remove t l) = int (length (fl_segments l)) - 1 - int (Suc k)"
    using False k b assms by (simp add: fl_Remove_def Let_def list_ok_def)
  moreover have "fl_openStart (fl_Remove t l) = (if fl_openStart l - int (Suc k) < 0 then -1 else fl_openStart l - int (Suc k))"
    using False k by (simp add: fl_Remove_def Let_def)
  ultimately have "list_ok (fl_Remove t l)" using b assms seg by (simp add: list_ok_def)
  then show ?thesis using seg by blast
qed

lemma active_write_shape: "list_ok l \<Longrightarrow> list_ok (active_write x l) \<and> times (active_write x l) = times l"
  by (auto simp: active_write_def list_ok_def split: option.splits)

lemma PersistLastIndex_shape: "list_ok l \<Longrightarrow> list_ok (PersistLastIndex l) \<and> times (PersistLastIndex l) = times l"
  by (auto simp: PersistLastIndex_def list_ok_def)

text \<open>One step keeps the list valid, and the times it keeps are those it had, in order, with at most the clock reading of the step behind them.\<close>

lemma list_step_shape:
  assumes "list_ok l"
  shows "list_ok (list_step x l) \<and> (\<exists>m n. times (list_step x l) = take m (drop n (times l)) \<or>
           times (list_step x l) = times l @ clock_readings [x])"
proof -
  have tl: "\<exists>m n. xs = take m (drop n xs)" for xs :: "int list" by (rule exI [of _ "length xs"], rule exI [of _ 0]) simp
  show ?thesis
  proof (cases x)
    case (LOpen now)
    then show ?thesis using OpenTransaction_shape [OF assms, of now "fst (OpenTransaction now l)" "snd (OpenTransaction now l)"] tl
      by auto
  next
    case (LAdd now)
    then show ?thesis
      using AddTransactionSegment_shape [OF assms, of now "fst (AddTransactionSegment now l)" "snd (AddTransactionSegment now l)"] tl
      by auto
  next
    case (LWrite y)
    then show ?thesis using active_write_shape [OF assms, of y] tl by simp
  next
    case LCommit
    then show ?thesis using Commit_shape [OF assms, of "fst (CommitTransactionFileSegment l)" "snd (CommitTransactionFileSegment l)"] tl
      by simp
  next
    case LRollback
    then obtain n where n: "list_ok (list_step x l)" "times (list_step x l) = take n (times l)"
      using Rollback_shape [OF assms, of "fst (RollbackLastCommitTransaction l)" "snd (RollbackLastCommitTransaction l)"] by auto
    then have "times (list_step x l) = take n (drop 0 (times l))" by simp
    then show ?thesis using n(1) by blast
  next
    case (LExpire t)
    then obtain n where n: "list_ok (list_step x l)" "fl_segments (list_step x l) = drop n (fl_segments l)"
      using fl_Remove_shape [OF assms, of t] by auto
    then have "times (list_step x l) = take (length (fl_segments l)) (drop n (times l))" by (simp add: drop_map)
    then show ?thesis using n(1) by blast
  next
    case LPersist
    then show ?thesis using PersistLastIndex_shape [OF assms] tl by simp
  qed
qed

lemma BuildFragmentation_shape:
  "list_ok (BuildFragmentation dir cmp cache)" "times (BuildFragmentation dir cmp cache) = sort (map fst dir)"
proof -
  have "sort_key fst dir = [] \<longleftrightarrow> dir = []" by (metis length_0_conv length_sort)
  then show "list_ok (BuildFragmentation dir cmp cache)" by (simp add: list_ok_def BuildFragmentation_def Let_def)
  have ins: "map fst (insort_key fst x xs) = insort (fst x) (map fst xs)" for x :: "int \<times> bytes \<times> bytes option" and xs
    by (induction xs) auto
  have "map fst (sort_key fst dir) = sort (map fst dir)" by (induction dir) (simp_all add: ins)
  then show "times (BuildFragmentation dir cmp cache) = sort (map fst dir)"
    by (simp add: BuildFragmentation_def newFileSegment_def Let_def case_prod_beta comp_def)
qed


section \<open>A query by time\<close>

text \<open>The segments a query has to see: by the times of their index, or, while the index is empty, by the time they were created.\<close>

definition range_hit :: "int \<Rightarrow> int \<Rightarrow> fileSegment \<Rightarrow> bool" where
  "range_hit st en s =
     (case fst (GetIndex s) of
        Some idx \<Rightarrow> if fi_MinTime idx \<noteq> 0 then fi_MaxTime idx \<ge> st \<and> fi_MinTime idx \<le> en else GetMinTms s \<le> en
      | None \<Rightarrow> GetMinTms s \<le> en)"

fun visit_all :: "('a \<Rightarrow> 's \<Rightarrow> bool \<times> 's) \<Rightarrow> 'a list \<Rightarrow> 's \<Rightarrow> 's" where
  "visit_all f [] s = s"
| "visit_all f (x # xs) s = (case f x s of (True, s') \<Rightarrow> visit_all f xs s' | (False, s') \<Rightarrow> s')"

text \<open>The order of the segments: the first time of each, and the last time where there is one, never decrease.\<close>

definition low_time :: "fileSegment \<Rightarrow> int" where
  "low_time s = (case fst (GetIndex s) of Some idx \<Rightarrow> if fi_MinTime idx \<noteq> 0 then fi_MinTime idx else GetMinTms s | None \<Rightarrow> GetMinTms s)"

definition high_time :: "fileSegment \<Rightarrow> int option" where
  "high_time s = (case fst (GetIndex s) of Some idx \<Rightarrow> if fi_MaxTime idx \<noteq> 0 then Some (fi_MaxTime idx) else None | None \<Rightarrow> None)"

definition in_time_order :: "fileSegment \<Rightarrow> fileSegment \<Rightarrow> bool" where
  "in_time_order x y \<longleftrightarrow> low_time x \<le> low_time y \<and>
     (case high_time y of None \<Rightarrow> True | Some b \<Rightarrow> (case high_time x of None \<Rightarrow> False | Some a \<Rightarrow> a \<le> b))"

definition index_consistent :: "fileSegment \<Rightarrow> bool" where
  "index_consistent s = (case fst (GetIndex s) of Some idx \<Rightarrow> fi_MinTime idx = 0 \<longrightarrow> fi_MaxTime idx = 0 | None \<Rightarrow> True)"

lemma reaches_high: "reaches st s \<longleftrightarrow> (case high_time s of None \<Rightarrow> True | Some b \<Rightarrow> st \<le> b)"
  by (auto simp: reaches_def high_time_def split: option.splits)

lemma range_hit_low: "range_hit st en s \<Longrightarrow> low_time s \<le> en"
  by (auto simp: range_hit_def low_time_def split: option.splits if_splits)

lemma unreached_no_hit: "index_consistent s \<Longrightarrow> \<not> reaches st s \<Longrightarrow> \<not> range_hit st en s"
  by (auto simp: range_hit_def reaches_def index_consistent_def split: option.splits if_splits)

lemma range_loop_visits:
  assumes "sorted_wrt in_time_order xs"
  shows "range_loop st en f xs s = visit_all f (filter (range_hit st en) xs) s"
  using assms
proof (induction xs arbitrary: s)
  case (Cons x xs)
  have late: "filter (range_hit st en) xs = []" if "en < low_time x"
    using Cons.prems that range_hit_low [of st en] by (fastforce simp: filter_empty_conv in_time_order_def)
  have IH: "range_loop st en f xs s = visit_all f (filter (range_hit st en) xs) s" for s
    using Cons by simp
  show ?case
  proof (cases "range_hit st en x")
    case True
    then have "range_loop st en f (x # xs) s = (case f x s of (True, s') \<Rightarrow> range_loop st en f xs s' | (False, s') \<Rightarrow> s')"
      by (auto simp: range_hit_def Let_def split: option.splits if_splits)
    then show ?thesis using True IH by (simp split: prod.split bool.split)
  next
    case False
    then consider "en < low_time x" | idx where "fst (GetIndex x) = Some idx" "fi_MinTime idx \<noteq> 0" "fi_MaxTime idx < st"
      by (auto simp: range_hit_def low_time_def split: option.splits if_splits)
    then show ?thesis
    proof cases
      case 1
      then have "range_loop st en f (x # xs) s = s \<or> range_loop st en f (x # xs) s = range_loop st en f xs s"
        by (auto simp: low_time_def split: option.splits if_splits)
      then show ?thesis using late [OF 1] False IH by auto
    next
      case 2
      then show ?thesis using IH False by simp
    qed
  qed
qed simp

lemma RangeFromTime_visits:
  assumes ord: "sorted_wrt in_time_order (fl_segments l)" and idx: "\<forall>s \<in> set (fl_segments l). index_consistent s"
  shows "RangeFromTime st en f l s = visit_all f (filter (range_hit st en) (fl_segments l)) s"
proof (cases "fl_segments l = []")
  case False
  let ?n = "length (fl_segments l)" and ?P = "\<lambda>i. reaches st (fl_segments l ! i)"
  let ?k = "sort_search ?n ?P"
  have "reaches st y" if "in_time_order x y" "reaches st x" for x y
    using that by (auto simp: in_time_order_def reaches_high split: option.splits)
  then have up: "upclosed ?n ?P"
    using ord unfolding upclosed_def sorted_wrt_iff_nth_less by (metis le_neq_implies_less)
  have "\<not> range_hit st en x" if x: "x \<in> set (take (?k - 1) (fl_segments l))" for x
  proof -
    obtain i where i: "i < ?k - 1" "i < ?n" "x = fl_segments l ! i" using x by (auto simp: in_set_conv_nth)
    then have "\<not> reaches st x" using sort_search_below [OF up, of i] by simp
    then show ?thesis using unreached_no_hit idx i by simp
  qed
  then have "filter (range_hit st en) (take (?k - 1) (fl_segments l)) = []" by (simp add: filter_empty_conv)
  moreover have "fl_segments l = take (?k - 1) (fl_segments l) @ drop (?k - 1) (fl_segments l)" by simp
  ultimately have "filter (range_hit st en) (fl_segments l) = filter (range_hit st en) (drop (?k - 1) (fl_segments l))"
    by (metis append_Nil filter_append)
  then show ?thesis
    using range_loop_visits [OF sorted_wrt_drop [OF ord, of "?k - 1"]] False by (simp add: RangeFromTime_def Let_def)
qed (simp add: RangeFromTime_def)


section \<open>Undoing a transaction\<close>

text \<open>What a flush does between opening and ending a transaction: it writes to the segment being written, moves on to a new one, commits.\<close>

datatype flush_act = AWrite writer_op | ANext int | ACommit

fun flush_step :: "flush_act \<Rightarrow> fileSegmentList \<Rightarrow> fileSegmentList" where
  "flush_step (AWrite x) l = active_write x l"
| "flush_step (ANext now) l = snd (AddTransactionSegment now l)"
| "flush_step ACommit l = snd (CommitTransactionFileSegment l)"

text \<open>A writer inside a transaction that started on the blocks \<open>m\<close>: open, or closed with the bytes it appended in its file.\<close>

definition open_tx :: "compressor \<Rightarrow> bytes list \<Rightarrow> fileWriter \<Rightarrow> bool" where
  "open_tx c m w \<longleftrightarrow> (\<exists>b blks. writer_ok c m w b blks) \<and> fw_lastOpenWrtOffset w = int (length (concat m))"

definition closed_tx :: "compressor \<Rightarrow> bytes list \<Rightarrow> fileWriter \<Rightarrow> bool" where
  "closed_tx c m w \<longleftrightarrow> fw_bf w = None \<and> fw_closed w \<and> fw_compressor w = c \<and> (\<exists>zs. stored c (fw_file w) (concat m @ zs)) \<and>
     fw_lastOpenWrtOffset w = int (length (concat m))"

definition writer_tx :: "compressor \<Rightarrow> bytes list \<Rightarrow> fileWriter \<Rightarrow> bool" where
  "writer_tx c m w \<longleftrightarrow> open_tx c m w \<or> closed_tx c m w"

text \<open>The list inside a transaction that began at position \<open>k\<close>, behind the segments \<open>front\<close>.\<close>

definition list_tx :: "compressor \<Rightarrow> fileSegment list \<Rightarrow> bytes list \<Rightarrow> fileSegmentList \<Rightarrow> bool" where
  "list_tx c front m l \<longleftrightarrow>
     fl_openStart l = int (length front) \<and> fl_activeIdx l = int (length (fl_segments l)) - 1 \<and> fl_compressor l = c \<and>
     length front < length (fl_segments l) \<and> take (length front) (fl_segments l) = front \<and>
     writer_tx c m (sg_writer (fl_segments l ! length front)) \<and>
     (\<forall>i < length (fl_segments l). length front < i \<longrightarrow> (\<exists>m'. writer_tx c m' (sg_writer (fl_segments l ! i)))) \<and>
     (\<exists>m'. open_tx c m' (sg_writer (last (fl_segments l))))"

lemma open_tx_run:
  assumes "open_tx c m w"
  shows "\<exists>w'. writer_step x w = Some (None, w') \<and> open_tx c m w'"
proof -
  obtain b blks where w: "writer_ok c m w b blks" "fw_lastOpenWrtOffset w = int (length (concat m))"
    using assms by (auto simp: open_tx_def)
  from writer_step_ok [OF w(1), of x] show ?thesis using w(2) unfolding open_tx_def by metis
qed

lemma closed_tx_commit: "closed_tx c m w \<Longrightarrow> fw_Commit w = (None, w)"
  by (simp add: closed_tx_def fw_Commit_def)

lemma writer_tx_commit:
  assumes "writer_tx c m w"
  shows "fst (fw_Commit w) = None \<and> writer_tx c m (snd (fw_Commit w)) \<and> (open_tx c m w \<longrightarrow> open_tx c m (snd (fw_Commit w)))"
  using assms open_tx_run [of c m w WCommit] closed_tx_commit unfolding writer_tx_def by fastforce

lemma open_tx_unique: "open_tx c m w \<Longrightarrow> writer_tx c m' w \<Longrightarrow> open_tx c m' w"
  by (auto simp: writer_tx_def closed_tx_def open_tx_def writer_ok_def)

context block_compressor
begin

lemma open_tx_cleanup:
  assumes "open_tx c m w"
  shows "fst (Cleanup w) = None \<and> closed_tx c m (snd (Cleanup w))"
  using assms Cleanup_ok unfolding open_tx_def closed_tx_def by fastforce


lemma open_fresh:
  shows "\<exists>w. OpenWriter (NewFileWriter [] c) = (None, w) \<and> (\<exists>m'. open_tx c m' w)"
  using OpenWriter_ok [OF new_writer_stored] unfolding open_tx_def by metis

lemma writer_tx_rollback:
  assumes "writer_tx c m w" "length (fw_file w) < 2 ^ 34"
  shows "fst (RollbackLastCommit w) = None \<and> stored c (fw_file (snd (RollbackLastCommit w))) (concat m) \<and>
         fw_closed (snd (RollbackLastCommit w)) \<and> fw_compressor (snd (RollbackLastCommit w)) = c"
  using assms(1) unfolding writer_tx_def
proof
  assume "open_tx c m w"
  then show ?thesis using RollbackLastCommit_ok [OF _ _ assms(2)] unfolding open_tx_def by fastforce
next
  assume "closed_tx c m w"
  then show ?thesis using RollbackLastCommit_closed [OF _ _ _ _ assms(2)] unfolding closed_tx_def by fastforce
qed

lemma writer_tx_remove:
  assumes "writer_tx c m (sg_writer s)"
  shows "fst (sg_Remove s) = None"
proof -
  have "fst (sg_Remove s) = fst (Cleanup (sg_writer s))" by (simp add: sg_Remove_def split: prod.split option.split)
  moreover have "closed_tx c m (sg_writer s) \<Longrightarrow> fst (Cleanup (sg_writer s)) = None" by (simp add: closed_tx_def Cleanup_def)
  ultimately show ?thesis using assms open_tx_cleanup unfolding writer_tx_def by auto
qed

end

lemma nat_int_minus1 [simp]: "nat (int n - 1) = n - 1"
  by linarith

lemma last_nth: "k < length xs \<Longrightarrow> last xs = xs ! (length xs - 1)"
  by (cases xs) (simp_all add: last_conv_nth)

lemma list_tx_last:
  assumes "list_tx c front m l"
  shows "fl_segments l \<noteq> [] \<and> last (fl_segments l) = fl_segments l ! nat (fl_activeIdx l) \<and>
    nat (fl_activeIdx l) = length (fl_segments l) - 1"
proof -
  have "length front < length (fl_segments l)" "fl_activeIdx l = int (length (fl_segments l)) - 1" using assms by (simp_all add: list_tx_def)
  then show ?thesis using last_nth [of "length front" "fl_segments l"] by auto
qed

text \<open>Replacing the writer of the last segment, which stays open in its transaction, keeps the list in its transaction.\<close>

lemma list_tx_replace:
  assumes l: "list_tx c front m l" and same: "\<And>m'. writer_tx c m' (sg_writer (last (fl_segments l))) \<Longrightarrow> writer_tx c m' w"
    and i: "i = length (fl_segments l) - 1" and l': "fl_segments l' = (fl_segments l)[i := s]" "sg_writer s = w"
      "fl_openStart l' = fl_openStart l" "fl_activeIdx l' = fl_activeIdx l" "fl_compressor l' = fl_compressor l" "\<exists>m'. open_tx c m' w"
  shows "list_tx c front m l'"
proof -
  have ne: "fl_segments l \<noteq> []" "last (fl_segments l) = fl_segments l ! i" using list_tx_last [OF l] i by simp_all
  have w: "writer_tx c m' (sg_writer (fl_segments l' ! j))" if "writer_tx c m' (sg_writer (fl_segments l ! j))" "j < length (fl_segments l)" for m' j
    using that same ne l' i by (cases "j = i") auto
  have "take (length front) (fl_segments l') = take (length front) (fl_segments l)" using l i l'(1) by (auto simp: list_tx_def)
  moreover have "last (fl_segments l') = s" using ne(1) l'(1) i by (simp add: last_list_update)
  ultimately show ?thesis using l w l' unfolding list_tx_def by (metis length_list_update)
qed

lemma active_write_tx:
  assumes l: "list_tx c front m l"
  shows "list_tx c front m (active_write x l)"
proof -
  let ?i = "nat (fl_activeIdx l)" and ?s = "last (fl_segments l)"
  note ne = list_tx_last [OF l]
  obtain m' where m': "open_tx c m' (sg_writer ?s)" using l by (auto simp: list_tx_def)
  obtain w where w: "writer_step x (sg_writer ?s) = Some (None, w)" "open_tx c m' w" using open_tx_run [OF m'] by blast
  have same: "writer_tx c m'' w" if "writer_tx c m'' (sg_writer ?s)" for m''
    using open_tx_run [OF open_tx_unique [OF m' that], of x] w(1) by (auto simp: writer_tx_def)
  have "GetLastFragmentation l = Some ?s" using ne l by (simp add: GetLastFragmentation_def list_tx_def)
  then have e: "active_write x l = map_segment ?i (\<lambda>s. s\<lparr>sg_writer := w\<rparr>) l" using w(1) by (simp add: active_write_def)
  show ?thesis unfolding e
    by (rule list_tx_replace [OF l same, where i = "?i" and s = "(fl_segments l ! ?i)\<lparr>sg_writer := w\<rparr>"]) (use ne w(2) in auto)
qed

lemma list_tx_fold:
  assumes l: "list_tx c front m l" and f: "fold (\<lambda>i. transaction_step sg_Commit i) (transaction_range l) ([], l) = (errs, l')"
  shows "list_tx c front m l'"
proof -
  note fields = transaction_fold [OF transaction_range_ok f]
  let ?k = "length front"
  have rng: "set (transaction_range l) = {?k..<length (fl_segments l)}" using l by (auto simp: transaction_range_def list_tx_def)
  have seg: "fl_segments l' ! i = (if ?k \<le> i then snd (sg_Commit (fl_segments l ! i)) else fl_segments l ! i)"
    if "i < length (fl_segments l)" for i using fields that rng by simp
  have wr: "sg_writer (snd (sg_Commit s)) = snd (fw_Commit (sg_writer s))" for s by (simp add: sg_Commit_def case_prod_beta)
  have keep: "writer_tx c m' (sg_writer (fl_segments l' ! i))"
    if "writer_tx c m' (sg_writer (fl_segments l ! i))" "i < length (fl_segments l)" for m' i
    using seg [OF that(2)] wr writer_tx_commit [OF that(1)] that(1) by simp
  have "take ?k (fl_segments l') = front"
  proof -
    have kl: "?k < length (fl_segments l)" using l by (simp add: list_tx_def)
    have "take ?k (fl_segments l') = take ?k (fl_segments l)" using seg fields kl by (intro nth_equalityI) auto
    then show ?thesis using l by (simp add: list_tx_def)
  qed
  moreover have "\<exists>m'. open_tx c m' (sg_writer (last (fl_segments l')))"
  proof -
    obtain m' where m': "open_tx c m' (sg_writer (last (fl_segments l)))" using l by (auto simp: list_tx_def)
    let ?j = "length (fl_segments l) - 1"
    have kl: "?k < length (fl_segments l)" using l by (simp add: list_tx_def)
    then have j: "?j < length (fl_segments l)" "?k \<le> ?j" "last (fl_segments l) = fl_segments l ! ?j" "last (fl_segments l') = fl_segments l' ! ?j"
      using fields last_nth [of ?k "fl_segments l"] last_nth [of ?k "fl_segments l'"] by auto
    show ?thesis using seg [OF j(1)] j(2-4) wr writer_tx_commit [of c m'] m' by (auto simp: writer_tx_def)
  qed
  moreover have "?k < length (fl_segments l')" "writer_tx c m (sg_writer (fl_segments l' ! ?k))"
    using keep fields l by (auto simp: list_tx_def)
  ultimately show ?thesis using fields l keep unfolding list_tx_def by metis
qed

lemma commit_tx:
  assumes "list_tx c front m l"
  shows "list_tx c front m (snd (CommitTransactionFileSegment l))"
proof -
  obtain errs l' where f: "fold (\<lambda>i. transaction_step sg_Commit i) (transaction_range l) ([], l) = (errs, l')" by fastforce
  then have "snd (CommitTransactionFileSegment l) = l'" using assms by (simp add: CommitTransactionFileSegment_def list_tx_def)
  then show ?thesis using list_tx_fold [OF assms f] by simp
qed

context block_compressor
begin

lemma next_tx:
  assumes l: "list_tx c front m l"
  shows "list_tx c front m (snd (AddTransactionSegment now l)) \<and> fst (AddTransactionSegment now l) = None"
proof -
  let ?n = "length (fl_segments l)" and ?k = "length front" and ?s = "last (fl_segments l)"
  note ne = list_tx_last [OF l]
  have n: "?k < ?n" "fl_openStart l = int ?k" "fl_activeIdx l = int ?n - 1" "fl_compressor l = c" "take ?k (fl_segments l) = front"
    using l by (simp_all add: list_tx_def)
  obtain m' where m': "open_tx c m' (sg_writer ?s)" using l by (auto simp: list_tx_def)
  obtain w where w: "Cleanup (sg_writer ?s) = (None, w)" using open_tx_cleanup [OF m'] by (metis prod.collapse)
  obtain w2 m2 where w2: "OpenWriter (NewFileWriter [] c) = (None, w2)" "open_tx c m2 w2" using open_fresh by blast
  let ?segs = "(fl_segments l)[?n - 1 := ?s\<lparr>sg_writer := w\<rparr>]"
  define l1 where "l1 = map_segment (?n - 1) (\<lambda>s. s\<lparr>sg_writer := w\<rparr>) l"
  define l2 where "l2 = snd (open_active_writer (add_segment now l1))"
  have l1: "fl_segments l1 = ?segs" "fl_compressor l1 = c" using ne n by (simp_all add: l1_def)
  have "fst (open_active_writer (add_segment now l1)) = None"
    using l1 w2(1) by (simp add: open_active_writer_def Let_def nth_append)
  then have l2: "snd (AddTransactionSegment now l) = l2" "fst (AddTransactionSegment now l) = None"
    using n ne w by (simp_all add: AddTransactionSegment_def Let_def l1_def l2_def)
  have segs: "fl_segments l2 = ?segs @ [(fresh_segment now l1)\<lparr>sg_writer := w2\<rparr>]"
    using l1 w2(1) by (simp add: l2_def open_active_writer_def Let_def nth_append list_update_append)
  have fields: "fl_openStart l2 = int ?k" "fl_activeIdx l2 = int ?n" "fl_compressor l2 = c"
    using n by (simp_all add: l2_def open_active_writer_def Let_def l1_def case_prod_beta)
  have keep: "writer_tx c m'' (sg_writer (?segs ! j))" if "writer_tx c m'' (sg_writer (fl_segments l ! j))" "j < ?n" for m'' j
  proof (cases "j = ?n - 1")
    case True
    then have "open_tx c m'' (sg_writer ?s)" using open_tx_unique [OF m'] that ne by simp
    from open_tx_cleanup [OF this] show ?thesis using True that(2) w by (simp add: writer_tx_def)
  qed (use that in simp)
  have at: "fl_segments l2 ! j = (if j < ?n then ?segs ! j else (fresh_segment now l1)\<lparr>sg_writer := w2\<rparr>)" if "j \<le> ?n" for j
    using that segs by (auto simp: nth_append)
  have "\<exists>m''. writer_tx c m'' (sg_writer (fl_segments l2 ! j))" if "j < length (fl_segments l2)" "?k < j" for j
  proof (cases "j < ?n")
    case True
    then obtain m'' where "writer_tx c m'' (sg_writer (fl_segments l ! j))" using l \<open>?k < j\<close> by (auto simp: list_tx_def)
    then show ?thesis using keep at True by auto
  next
    case False
    then have "j = ?n" using that(1) segs by simp
    then have "sg_writer (fl_segments l2 ! j) = w2" using at [of j] by simp
    then show ?thesis using w2(2) by (auto simp: writer_tx_def)
  qed
  moreover have "writer_tx c m (sg_writer (fl_segments l2 ! ?k))" using keep [of m ?k] at [of ?k] n(1) l by (simp add: list_tx_def)
  moreover have "take ?k (fl_segments l2) = front" using segs n(1,5) by simp
  moreover have "\<exists>m'. open_tx c m' (sg_writer (last (fl_segments l2)))" using segs w2(2) by auto
  ultimately have "list_tx c front m l2" using fields n(1) segs by (simp add: list_tx_def)
  then show ?thesis using l2 by simp
qed

lemma flush_tx: "list_tx c front m l \<Longrightarrow> list_tx c front m (fold flush_step acts l)"
proof (induction acts arbitrary: l)
  case (Cons x xs)
  have "list_tx c front m (flush_step x l)"
    using Cons.prems by (cases x) (simp_all add: active_write_tx next_tx commit_tx)
  then show ?case using Cons.IH by simp
qed simp

lemma open_tx_list:
  assumes ok: "list_ok l" and c: "fl_compressor l = c" and segs: "fl_segments l = front @ [s]"
    and s: "writer_ready c (sg_writer s) xs"
  shows "\<exists>l1 m. OpenTransaction now l = (None, l1) \<and> list_tx c front m l1 \<and> concat m = xs"
proof -
  obtain w b m where w: "OpenWriter (sg_writer s) = (None, w)" "writer_ok c m w b m" "concat m = xs" "fw_lastOpenWrtOffset w = int (length xs)"
    using OpenWriter_ready [OF s] by blast
  let ?k = "length front"
  have a: "fl_activeIdx l = int ?k" using ok segs by (simp add: list_ok_def)
  define l1 where "l1 = map_segment ?k (\<lambda>s. s\<lparr>sg_writer := w\<rparr>) (l\<lparr>fl_openStart := int ?k\<rparr>)"
  have "OpenTransaction now l = (None, l1)"
    using a segs w(1) by (simp add: OpenTransaction_def open_active_writer_def Let_def l1_def)
  moreover have "open_tx c m w" using w by (auto simp: open_tx_def)
  then have "list_tx c front m l1" using a c segs by (auto simp: list_tx_def l1_def writer_tx_def)
  ultimately show ?thesis using w(3) by blast
qed

lemma rollback_tx:
  assumes l: "list_tx c front m l" and small: "length (fw_file (sg_writer (fl_segments l ! length front))) < 2 ^ 34"
  shows "\<exists>l' s. RollbackLastCommitTransaction l = ([], l') \<and> fl_segments l' = front @ [s] \<and> stored c (fw_file (sg_writer s)) (concat m) \<and>
           fw_closed (sg_writer s) \<and> list_ok l'"
proof -
  let ?k = "length front" and ?n = "length (fl_segments l)"
  let ?F = "\<lambda>i. if i = nat (fl_openStart l) then sg_Rollback else sg_Remove"
  have n: "?k < ?n" "fl_openStart l = int ?k" "fl_activeIdx l = int ?n - 1" "take ?k (fl_segments l) = front"
      "writer_tx c m (sg_writer (fl_segments l ! ?k))"
    using l by (simp_all add: list_tx_def)
  have rng: "set (transaction_range l) = {?k..<?n}" using n by (auto simp: transaction_range_def)
  note rb = writer_tx_rollback [OF n(5) small]
  have wr: "sg_writer (snd (sg_Rollback s)) = snd (RollbackLastCommit (sg_writer s))" "fst (sg_Rollback s) = fst (RollbackLastCommit (sg_writer s))" for s
    by (simp_all add: sg_Rollback_def case_prod_beta)
  obtain errs l1 where f: "fold (\<lambda>i. transaction_step (?F i) i) (transaction_range l) ([], l) = (errs, l1)" by fastforce
  have okF: "fst (?F i (fl_segments l ! i)) = None" if "i \<in> set (transaction_range l)" for i
  proof (cases "i = ?k")
    case True
    then show ?thesis using n(2) rb wr(2) by simp
  next
    case False
    then have "?k < i" "i < ?n" using that rng by auto
    then obtain m' where "writer_tx c m' (sg_writer (fl_segments l ! i))" using l unfolding list_tx_def by blast
    then show ?thesis using writer_tx_remove False n(2) by simp
  qed
  note fields = transaction_fold [OF transaction_range_ok f]
  have errs: "errs = []" using fields okF by blast
  have at: "fl_segments l1 ! i = (if ?k \<le> i then snd (?F i (fl_segments l ! i)) else fl_segments l ! i)" if "i < ?n" for i
    using fields that rng by simp
  let ?s = "snd (sg_Rollback (fl_segments l ! ?k))"
  have "take (Suc ?k) (fl_segments l1) = take ?k (fl_segments l1) @ [?s]" using n(1,2) fields at [of ?k] by (simp add: take_Suc_conv_app_nth)
  moreover have "take ?k (fl_segments l1) = take ?k (fl_segments l)" using at fields n(1) by (intro nth_equalityI) auto
  ultimately have t: "take (Suc ?k) (fl_segments l1) = front @ [?s]" using n(4) by simp
  have "\<exists>l'. RollbackLastCommitTransaction l = ([], l') \<and> fl_segments l' = front @ [?s] \<and> list_ok l'"
  proof (cases "fl_openStart l1 + 1 < int (length (fl_segments l1))")
    case True
    let ?l = "l1\<lparr>fl_segments := take (nat (fl_openStart l1 + 1)) (fl_segments l1), fl_activeIdx := fl_openStart l1\<rparr>"
    have "nat (fl_openStart l1 + 1) = Suc ?k" using fields n(2) by simp
    then have "RollbackLastCommitTransaction l = ([], ?l)" "fl_segments ?l = front @ [?s]" "list_ok ?l"
      using True f errs n(2) t fields by (simp_all add: RollbackLastCommitTransaction_def Let_def list_ok_def)
    then show ?thesis by blast
  next
    case False
    then have len: "?n = Suc ?k" using fields n(1,2) by simp
    then have "RollbackLastCommitTransaction l = ([], l1)" using False f errs n(2) by (simp add: RollbackLastCommitTransaction_def Let_def)
    moreover have "fl_segments l1 = front @ [?s]" using t len fields by simp
    moreover have "list_ok l1" using fields n len by (simp add: list_ok_def)
    ultimately show ?thesis by blast
  qed
  then show ?thesis using rb wr by auto
qed

end

end
