(* ===== verification/Segment_List_Claims.thy ===== *)
theory Segment_List_Claims
  imports Segment_List_Props
begin

text \<open>
  What the list of segments promises to the flush, to queries and to a restart.
\<close>

section \<open>Validity\<close>

fun sorted_clock :: "int list \<Rightarrow> list_op list \<Rightarrow> bool" where
  "sorted_clock ts [] \<longleftrightarrow> True"
| "sorted_clock ts (x # xs) \<longleftrightarrow> (\<forall>t \<in> set ts. \<forall>now \<in> set (clock_readings [x]). t \<le> now) \<and> sorted_clock (ts @ clock_readings [x]) xs"

lemma sorted_clock_subset: "sorted_clock ts xs \<Longrightarrow> set us \<subseteq> set ts \<Longrightarrow> sorted_clock us xs"
proof (induction xs arbitrary: ts us)
  case (Cons x xs)
  then have "set (us @ clock_readings [x]) \<subseteq> set (ts @ clock_readings [x])" by auto
  then show ?case using Cons by (auto simp del: clock_readings.simps set_append)
qed simp

lemma list_run_shape:
  assumes "list_ok l" "sorted (times l)" "sorted_clock (times l) ops"
  shows "list_ok (fold list_step ops l) \<and> sorted (times (fold list_step ops l))"
  using assms
proof (induction ops arbitrary: l)
  case (Cons x xs)
  let ?l = "list_step x l"
  note sh = list_step_shape [OF Cons.prems(1), of x]
  then consider (part) m n where "times ?l = take m (drop n (times l))" | (new) "times ?l = times l @ clock_readings [x]" by blast
  then have "sorted (times ?l) \<and> sorted_clock (times ?l) xs"
  proof cases
    case part
    have "set (take m (drop n (times l))) \<subseteq> set (times l @ clock_readings [x])" 
      using subset_trans [OF set_take_subset set_drop_subset] by fastforce
    then show ?thesis using part Cons.prems(2,3) sorted_clock_subset [of "times l @ clock_readings [x]" xs] by (simp add: sorted_wrt_take sorted_wrt_drop)
  next
    case new
    have "sorted (clock_readings [x])" by (cases x) simp_all
    then show ?thesis using new Cons.prems(2,3) by (simp add: sorted_append)
  qed
  then show ?case using Cons.IH sh by simp
qed simp

text \<open>\<^bold>\<open>C30\<close>: from opening a directory on, through any sequence of transactions, writes, rotations, commits, rollbacks, expiry
  and index writes, the list stays valid: the active position is the last segment, the transaction position is
  none or a position of the list, and, while the clock does not go back, the segments stay in time order.\<close>

theorem segment_list_stays_valid:
  assumes "sorted_clock (sort (map fst dir)) ops" "l = fold list_step ops (BuildFragmentation dir cmp cache)"
  shows "fl_activeIdx l = int (length (fl_segments l)) - 1 \<and> -1 \<le> fl_openStart l \<and> fl_openStart l \<le> fl_activeIdx l \<and>
         sorted (map GetMinTms (fl_segments l))"
proof -
  have eq: "map GetMinTms (fl_segments l) = times l" by (simp add: GetMinTms_def)
  have "list_ok l \<and> sorted (times l)"
    using list_run_shape [OF BuildFragmentation_shape(1), of dir cmp cache ops] assms BuildFragmentation_shape(2) [of dir cmp cache]
    by simp
  then show ?thesis unfolding eq list_ok_def by blast
qed

theorem segment_list_stays_valid_witness:
  "fl_activeIdx (fold list_step [LOpen 7, LAdd 9, LCommit, LExpire 8] (BuildFragmentation [(5, [], None), (3, [], None)] NoCompressor None)) =
   int (length (fl_segments (fold list_step [LOpen 7, LAdd 9, LCommit, LExpire 8] (BuildFragmentation [(5, [], None), (3, [], None)] NoCompressor None)))) - 1"
proof -
  have "sorted_clock (sort (map fst [(5 :: int, [] :: bytes, None :: bytes option), (3, [], None)])) [LOpen 7, LAdd 9, LCommit, LExpire 8]" by simp
  from segment_list_stays_valid [OF this refl] show ?thesis by blast
qed

section \<open>Transactions\<close>

text \<open>\<^bold>\<open>C18\<close>: a failed flush leaves no trace: after opening a transaction on a list whose last segment is at rest or was
  kept open by the last commit, whatever
  is written, flushed and committed, over however many new segments, rolling the transaction back returns no
  error, drops the segments it added, leaves the earlier ones alone and gives the last one back the content it had.\<close>

theorem transaction_rollback_restores:
  assumes "block_compressor c" "list_ok l" "fl_compressor l = c" "fl_segments l = front @ [s]"
    "writer_ready c (sg_writer s) xs"
  shows "\<exists>l1. OpenTransaction now l = (None, l1) \<and>
           (length (fw_file (sg_writer (fl_segments (fold flush_step acts l1) ! length front))) < 2 ^ 34 \<longrightarrow>
             (\<exists>l2 s'. RollbackLastCommitTransaction (fold flush_step acts l1) = ([], l2) \<and> fl_segments l2 = front @ [s'] \<and>
                stored c (fw_file (sg_writer s')) xs \<and> fw_closed (sg_writer s') \<and> fl_activeIdx l2 = int (length front)))"
proof -
  obtain l1 m where l1: "OpenTransaction now l = (None, l1)" "list_tx c front m l1" "concat m = xs"
    using block_compressor.open_tx_list [OF assms] by blast
  from block_compressor.rollback_tx [OF assms(1) block_compressor.flush_tx [OF assms(1) l1(2), of acts]] l1(1,3) show ?thesis by (auto simp: list_ok_def)
qed

lemma new_segment_stored:
  "stored NoCompressor (fw_file (sg_writer (fresh_segment now l))) []" if "fl_compressor l = NoCompressor"
  using new_writer_stored(1) that by simp

definition one_segment :: fileSegmentList where
  "one_segment = BuildFragmentation [(5, [], None)] NoCompressor None"

theorem transaction_rollback_restores_witness:
  "\<exists>l1 l2 s'. OpenTransaction 7 one_segment = (None, l1) \<and>
     RollbackLastCommitTransaction (fold flush_step [ANext 8] l1) = ([], l2) \<and> fl_segments l2 = [s'] \<and>
     stored NoCompressor (fw_file (sg_writer s')) [] \<and> fl_activeIdx l2 = 0"
proof -
  let ?s = "newFileSegment (segment_path 5) [] None 5 NoCompressor (Some newFileIndex)"
  have one: "fl_segments one_segment = [] @ [?s]" "fl_compressor one_segment = NoCompressor"
    by (simp_all add: one_segment_def BuildFragmentation_def Let_def readIndexFile_def)
  have w: "sg_writer ?s = NewFileWriter [] NoCompressor" by (simp add: newFileSegment_def)
  have ok: "list_ok one_segment" unfolding one_segment_def by (rule BuildFragmentation_shape)
  obtain l1 where l1: "OpenTransaction 7 one_segment = (None, l1)"
      "length (fw_file (sg_writer (fl_segments (fold flush_step [ANext 8] l1) ! length ([] :: fileSegment list)))) < 2 ^ 34 \<longrightarrow>
       (\<exists>l2 s'. RollbackLastCommitTransaction (fold flush_step [ANext 8] l1) = ([], l2) \<and> fl_segments l2 = [] @ [s'] \<and>
          stored NoCompressor (fw_file (sg_writer s')) [] \<and> fw_closed (sg_writer s') \<and> fl_activeIdx l2 = int (length ([] :: fileSegment list)))"
    using transaction_rollback_restores [OF no_compressor.block_compressor_axioms ok one(2,1), unfolded w, OF new_writer_ready, of 7 "[ANext 8]"] by blast
  have "case OpenTransaction 7 one_segment of (e, l1) \<Rightarrow>
          length (fw_file (sg_writer (fl_segments (snd (AddTransactionSegment 8 l1)) ! 0))) < 2 ^ 34"
    by (simp add: one_segment_def BuildFragmentation_def Let_def readIndexFile_def newFileSegment_def OpenTransaction_def
      open_active_writer_def map_segment_def OpenWriter_def NewFileWriter_def open_new_eq bf_Seek_def
      initNew_def new_file_def writeHeader_def fw_put_def bf_Size_def BlockSizeDef_def HeaderSize_def AddTransactionSegment_def
      Cleanup_def fw_at_def Close_def flushBlock_def writeIndexLocked_def index_bytes_def NoCompressor_def add_segment_def fresh_segment_def
      TxDone_def)
  then show ?thesis using l1 by auto
qed

section \<open>Queries\<close>

text \<open>\<^bold>\<open>C24\<close>: when the first and the last times of the segments never decrease, a query by time visits exactly the segments whose
  times meet the range, in order, until the callback stops it; a segment whose index is still empty counts by its creation time.\<close>

theorem RangeFromTime_exact:
  assumes "sorted_wrt in_time_order (fl_segments l)" "\<forall>s \<in> set (fl_segments l). index_consistent s"
  shows "RangeFromTime st en f l s = visit_all f (filter (range_hit st en) (fl_segments l)) s"
  using RangeFromTime_visits [OF assms] .

definition indexed_segment :: "int \<Rightarrow> int \<Rightarrow> int \<Rightarrow> fileSegment" where
  "indexed_segment tm mn mx = newFileSegment (segment_path tm) [] None tm NoCompressor (Some (newFileIndex\<lparr>fi_MinTime := mn, fi_MaxTime := mx\<rparr>))"

definition segment_list :: "fileSegment list \<Rightarrow> fileSegmentList" where
  "segment_list ss = \<lparr>fl_segments = ss, fl_activeIdx = int (length ss) - 1, fl_openStart = -1, fl_compressor = NoCompressor, fl_readerCache = None\<rparr>"

definition note_visit :: "fileSegment \<Rightarrow> int list \<Rightarrow> bool \<times> int list" where
  "note_visit s acc = (True, acc @ [GetMinTms s])"

lemma GetIndex_indexed [simp]:
  "fst (GetIndex (indexed_segment tm mn mx)) = Some (newFileIndex\<lparr>fi_MinTime := mn, fi_MaxTime := mx\<rparr>)"
  "GetMinTms (indexed_segment tm mn mx) = tm"
  by (simp_all add: GetIndex_def indexed_segment_def newFileSegment_def GetMinTms_def)

lemma GetMinTms_indexed_0: "newFileIndex\<lparr>fi_MinTime := 0, fi_MaxTime := 0\<rparr> = newFileIndex"
  by (simp add: newFileIndex_def)

theorem RangeFromTime_exact_witness:
  "RangeFromTime 6 12 note_visit (segment_list [indexed_segment 5 1 4, indexed_segment 6 5 8, indexed_segment 9 8 11, indexed_segment 12 0 0]) [] =
   [6, 9, 12]"
proof -
  let ?l = "segment_list [indexed_segment 5 1 4, indexed_segment 6 5 8, indexed_segment 9 8 11, indexed_segment 12 0 0]"
  have "sorted_wrt in_time_order (fl_segments ?l)"
    by (simp add: segment_list_def in_time_order_def low_time_def high_time_def)
  moreover have "\<forall>s \<in> set (fl_segments ?l). index_consistent s" by (simp add: segment_list_def index_consistent_def)
  ultimately have "RangeFromTime 6 12 note_visit ?l [] = visit_all note_visit (filter (range_hit 6 12) (fl_segments ?l)) []"
    by (rule RangeFromTime_exact)
  then show ?thesis by (simp add: segment_list_def range_hit_def note_visit_def)
qed

text \<open>The order is needed, and late data breaks it: when a segment ends earlier than its predecessor, because a slow
  series was flushed after a fast one, the binary search can start behind the predecessor and the query misses a segment that meets its range.\<close>

theorem RangeFromTime_skips_overlapping_segment:
  "range_hit 8 100 (indexed_segment 1 1 10) \<and>
   RangeFromTime 8 100 note_visit (segment_list [indexed_segment 1 1 10, indexed_segment 2 3 5, indexed_segment 3 11 20]) [] = [3]"
proof -
  have s: "sort_search (Suc (Suc (Suc 0))) (\<lambda>i. reaches 8 ([indexed_segment 1 1 10, indexed_segment 2 3 5, indexed_segment 3 11 20] ! i)) = 2"
    by (simp add: sort_search_def search_loop.simps reaches_def)
  show ?thesis
    by (simp add: range_hit_def RangeFromTime_def segment_list_def s note_visit_def numeral_eq_Suc)
qed

section \<open>Restart\<close>

lemma InspectBlockIndex_index:
  assumes "InspectBlockIndex fuel decode ti victim cache s = Some (e, pts, cache', s')" "sg_index s = Some idx"
  shows "sg_index s' = Some idx \<and> sg_timestamp s' = sg_timestamp s"
  using assms by (auto simp: InspectBlockIndex_def Let_def split: prod.splits option.splits sum.splits if_splits)

lemma InspectLastBlockIndex_index:
  assumes "InspectLastBlockIndex fuel decode ti victim l = Some (e, pts, l')" "\<forall>s \<in> set (fl_segments l). sg_index s \<noteq> None"
  shows "map sg_index (fl_segments l') = map sg_index (fl_segments l) \<and> times l' = times l"
proof (cases "GetLastFragmentation l")
  case None
  then show ?thesis using assms(1) by (simp add: InspectLastBlockIndex_def)
next
  case (Some s)
  let ?i = "nat (fl_activeIdx l)"
  have i: "?i < length (fl_segments l)" "s = fl_segments l ! ?i" using Some by (auto simp: GetLastFragmentation_def split: if_splits)
  obtain idx where idx: "sg_index s = Some idx" using assms(2) i by (metis nth_mem option.exhaust)
  obtain cache s' where r: "InspectBlockIndex fuel decode ti victim (fl_readerCache l) s = Some (e, pts, cache, s')"
      "fl_segments l' = (fl_segments l)[?i := s']"
    using assms(1) Some by (auto simp: InspectLastBlockIndex_def map_segment_def split: option.splits prod.splits)
  from InspectBlockIndex_index [OF r(1) idx] have "sg_index s' = sg_index s" "sg_timestamp s' = sg_timestamp s" using idx by simp_all
  then show ?thesis using r(2) i by (simp add: map_update) (metis length_map list_update_id nth_map)
qed

definition loaded_index :: "bytes option \<Rightarrow> FileIndex" where
  "loaded_index f = (case readIndexFile f of Some idx \<Rightarrow> idx | None \<Rightarrow> newFileIndex)"

lemma BuildFragmentation_indexes:
  "map sg_index (fl_segments (BuildFragmentation dir cmp cache)) = map (\<lambda>(ts, disk, idxFile). Some (loaded_index idxFile)) (sort_key fst dir)"
  by (simp add: BuildFragmentation_def newFileSegment_def loaded_index_def Let_def case_prod_beta)

text \<open>\<^bold>\<open>C27\<close>: the index a restart rebuilds from the blocks is thrown away: after opening a directory and checking its last
  segment every segment has the index of its index file, or an empty one.  So a segment that was never closed
  cleanly is found by the time it was created only, and a query that ends before that time skips it whatever blocks it holds.\<close>

theorem restart_drops_rebuilt_index:
  assumes "InspectLastBlockIndex fuel decode ti victim (BuildFragmentation dir cmp cache) = Some (e, pts, l)"
  shows "map sg_index (fl_segments l) = map (\<lambda>(ts, disk, idxFile). Some (loaded_index idxFile)) (sort_key fst dir) \<and>
         (\<forall>ts disk. dir = [(ts, disk, None)] \<and> en < ts \<longrightarrow> RangeFromTime st en f l s = s)"
proof -
  have "\<forall>s \<in> set (fl_segments (BuildFragmentation dir cmp cache)). sg_index s \<noteq> None"
    by (auto simp: BuildFragmentation_def newFileSegment_def Let_def)
  note keep = InspectLastBlockIndex_index [OF assms this]
  have "RangeFromTime st en f l s = s" if d: "dir = [(ts, disk, None)]" "en < ts" for ts disk
  proof -
    have "map sg_index (fl_segments l) = [Some newFileIndex]" "times l = [ts]"
      using keep BuildFragmentation_indexes [of dir cmp cache] BuildFragmentation_shape(2) [of dir cmp cache] d
      by (simp_all add: loaded_index_def readIndexFile_def)
    then obtain s' where s': "fl_segments l = [s']" "sg_index s' = Some newFileIndex" "sg_timestamp s' = ts" by (auto simp: map_eq_Cons_conv)
    have "range_hit st en s' = False" using s' d by (simp add: range_hit_def GetIndex_def newFileIndex_def GetMinTms_def)
    then show ?thesis
      using RangeFromTime_visits [of l st en f s] s' by (simp add: index_consistent_def GetIndex_def newFileIndex_def)
  qed
  then show ?thesis using keep BuildFragmentation_indexes [of dir cmp cache] by simp
qed

theorem restart_drops_rebuilt_index_witness:
  "\<exists>e pts l. InspectLastBlockIndex 1 (\<lambda>t v. Some ([] :: (int \<times> nat) list)) (ColumnAttribute [] [] ColumnTypeInt 0 []) 0
       (BuildFragmentation [(100, [], None)] NoCompressor None) = Some (e, pts, l) \<and>
     RangeFromTime 10 50 note_visit l [] = []"
proof -
  have "InspectLastBlockIndex 1 (\<lambda>t v. Some ([] :: (int \<times> nat) list)) (ColumnAttribute [] [] ColumnTypeInt 0 []) 0
       (BuildFragmentation [(100, [], None)] NoCompressor None) \<noteq> None"
    by (simp add: BuildFragmentation_def Let_def readIndexFile_def newFileSegment_def InspectLastBlockIndex_def GetLastFragmentation_def
      InspectBlockIndex_def NewFileWriter_def NewFileReader_def OpenReader_def reader_acquire_def open_new_eq reader_rewind_def
      NextRead_def bf_Size_def initNew_def writeHeader_def new_file_def GetReadEffectiveSize_def CloseReader_def split: prod.split option.split)
  then obtain e pts l where "InspectLastBlockIndex 1 (\<lambda>t v. Some ([] :: (int \<times> nat) list)) (ColumnAttribute [] [] ColumnTypeInt 0 []) 0
       (BuildFragmentation [(100, [], None)] NoCompressor None) = Some (e, pts, l)" by auto
  with restart_drops_rebuilt_index [OF this, of 50 10 note_visit "[]"] show ?thesis by simp
qed

end
