(* ===== verification/Column.thy ===== *)
theory Column
  imports Segment_List Time_Codec Json_Codec
begin

text \<open>
  The writer of one series, \<^verbatim>\<open>tsdb/column.go\<close>: it collects times and values in two encoders and turns them into a block of the segment
  being written.  The value encoder is one of the implementations of the \<^verbatim>\<open>Encoder\<close> interface, chosen by the type of the table; the
  family of them is an argument.
\<close>

section \<open>The encoders a column can use\<close>

record ('v, 'e) encoder_family =
  ef_AdaptColumn :: "byte \<Rightarrow> 'e"
  ef_Boolean :: 'e
  ef_Float :: "byte \<Rightarrow> 'e"
  ef_Integer :: 'e
  ef_String :: 'e
  ef_Column :: "ColumnAttribute list \<Rightarrow> 'e"
  ef_Json :: 'e
  ef_Write :: "'v \<Rightarrow> 'e \<Rightarrow> bool \<times> 'e"
  ef_Bytes :: "'e \<Rightarrow> bytes option \<times> 'e"
  ef_Reset :: "'e \<Rightarrow> 'e"

section \<open>The column\<close>

record ('v, 'e) ssColumn =
  sc_index :: u32
  sc_tableInfo :: TableInfo
  sc_maxTms :: int
  sc_valueCompressor :: "'e option"
  sc_tmsCompressor :: "TimeEncoder option"
  sc_maxSegmentSize :: int
  sc_maxSegmentTimeInterval :: int
  sc_lastFlushEpoch :: u64
  sc_writeInitialized :: bool
  sc_preTms :: int
  sc_preVariant :: 'v

definition maxSegmentSize :: int where "maxSegmentSize = 64 * 1024 * 1024"

definition newSSColumn :: "'v variant_ops \<Rightarrow> u32 \<Rightarrow> TableInfo option \<Rightarrow> int \<Rightarrow> int \<Rightarrow> ('v, 'e) ssColumn" where
  "newSSColumn V index tableInfo maxSize interval =
     \<lparr>sc_index = index,
      sc_tableInfo = (case tableInfo of Some ti \<Rightarrow> ti | None \<Rightarrow> ColumnAttribute [] [] ColumnTypeUnknown 0 []),
      sc_maxTms = 0, sc_valueCompressor = None, sc_tmsCompressor = None,
      sc_maxSegmentSize = (if maxSize = 0 then maxSegmentSize else maxSize), sc_maxSegmentTimeInterval = interval,
      sc_lastFlushEpoch = 0, sc_writeInitialized = False, sc_preTms = 0, sc_preVariant = vt_Empty V\<rparr>"

definition value_encoder :: "('v, 'e) encoder_family \<Rightarrow> TableInfo \<Rightarrow> 'e" where
  "value_encoder F ti =
     (case ca_Type ti of
        ColumnTypeUnknown \<Rightarrow> ef_AdaptColumn F (ca_FloatPrecision ti)
      | ColumnTypeBool \<Rightarrow> ef_Boolean F
      | ColumnTypeFloat \<Rightarrow> ef_Float F (ca_FloatPrecision ti)
      | ColumnTypeInt \<Rightarrow> ef_Integer F
      | ColumnTypeString \<Rightarrow> ef_String F
      | ColumnTypeStructure \<Rightarrow> ef_Column F (ca_Structure ti)
      | ColumnTypeJson \<Rightarrow> ef_Json F)"

definition ensureCompressors :: "('v, 'e) encoder_family \<Rightarrow> ('v, 'e) ssColumn \<Rightarrow> ('v, 'e) ssColumn" where
  "ensureCompressors F s =
     (if sc_tmsCompressor s \<noteq> None then s
      else s\<lparr>sc_tmsCompressor := Some NewTimeEncoder, sc_valueCompressor := Some (value_encoder F (sc_tableInfo s))\<rparr>)"

text \<open>The times of a column are \<^verbatim>\<open>int64\<close>; the time encoder keeps them as words.\<close>

definition write_time :: "int \<Rightarrow> ('v, 'e) ssColumn \<Rightarrow> ('v, 'e) ssColumn" where
  "write_time t s = s\<lparr>sc_maxTms := t, sc_tmsCompressor := map_option (TimeEncoder_Write (of_int t)) (sc_tmsCompressor s)\<rparr>"

definition write_value :: "('v, 'e) encoder_family \<Rightarrow> 'v \<Rightarrow> ('v, 'e) ssColumn \<Rightarrow> bool \<times> ('v, 'e) ssColumn" where
  "write_value F v s =
     (case sc_valueCompressor s of
        None \<Rightarrow> (False, s)
      | Some e \<Rightarrow> (case ef_Write F v e of (ok, e') \<Rightarrow> (ok, s\<lparr>sc_valueCompressor := Some e'\<rparr>)))"

text \<open>\<^verbatim>\<open>Write\<close>: first the pair a type change left over, then the new one.  Its error is always nil.\<close>

definition sc_Write :: "'v variant_ops \<Rightarrow> ('v, 'e) encoder_family \<Rightarrow> int \<Rightarrow> 'v \<Rightarrow> ('v, 'e) ssColumn \<Rightarrow> bool \<times> ('v, 'e) ssColumn" where
  "sc_Write V F timestamp value s0 =
     (let s1 = (if sc_writeInitialized s0 then s0 else (ensureCompressors F s0)\<lparr>sc_writeInitialized := True\<rparr>);
          (retry, s2) =
            (if sc_preTms s1 \<noteq> 0 then
               (let prevTs = sc_preTms s1; prevVal = sc_preVariant s1;
                    (ok, s') = write_value F prevVal (write_time prevTs (s1\<lparr>sc_preTms := 0, sc_preVariant := vt_Empty V\<rparr>))
                in if ok then (True, s') else (False, s'\<lparr>sc_preTms := prevTs, sc_preVariant := prevVal\<rparr>))
             else (True, s1))
      in if \<not> retry then (False, s2)
         else
           (case write_value F value s2 of
              (False, s3) \<Rightarrow> (False, s3\<lparr>sc_preTms := timestamp, sc_preVariant := value\<rparr>)
            | (True, s3) \<Rightarrow> (True, write_time timestamp s3)))"

definition sc_Reset :: "'v variant_ops \<Rightarrow> ('v, 'e) encoder_family \<Rightarrow> ('v, 'e) ssColumn \<Rightarrow> ('v, 'e) ssColumn" where
  "sc_Reset V F s =
     (case (sc_tmsCompressor s, sc_valueCompressor s) of
        (Some te, Some ve) \<Rightarrow>
          if TimeEncoder_Length te = 0 then s
          else s\<lparr>sc_preTms := 0, sc_preVariant := vt_Empty V, sc_tmsCompressor := Some (TimeEncoder_Reset te),
                 sc_valueCompressor := Some (ef_Reset F ve)\<rparr>
      | _ \<Rightarrow> s)"

section \<open>Writing a block\<close>

text \<open>The subtraction is on \<^verbatim>\<open>uint64\<close>.\<close>

definition segmentTimeExceeded :: "int \<Rightarrow> int \<Rightarrow> int \<Rightarrow> bool" where
  "segmentTimeExceeded minTime maxTime interval =
     (interval > 0 \<and> maxTime \<ge> minTime \<and> (of_int maxTime - of_int minTime :: u64) \<ge> of_int interval)"

text \<open>What is written for a block, piece by piece; a value of a structured table carries its own lengths.\<close>

definition block_pieces :: "TableInfo \<Rightarrow> SegmentHeader \<Rightarrow> bytes \<Rightarrow> bytes \<Rightarrow> SegmentHeader \<times> bytes list" where
  "block_pieces ti h valueData timeData =
     (if ca_Type ti \<noteq> ColumnTypeStructure then
        (let h' = h\<lparr>sh_DataSize := sh_DataSize h + 8\<rparr>
         in (h', [encodeSegmentHeader h', be_put 8 (of_nat (length valueData) :: u64), valueData, timeData]))
      else (h, [encodeSegmentHeader h, valueData, timeData]))"

fun write_pieces :: "bytes list \<Rightarrow> fileWriter \<Rightarrow> (seg_error option \<times> fileWriter) option" where
  "write_pieces [] w = Some (None, w)"
| "write_pieces (p # ps) w =
     (case fw_Write p w of
        None \<Rightarrow> None
      | Some (Some e, n, w') \<Rightarrow> Some (Some e, w')
      | Some (None, n, w') \<Rightarrow> write_pieces ps w')"

text \<open>The entry in the index of the segment, and whether the segment now spans too much time.\<close>

definition note_index :: "BlockIndexEntry \<Rightarrow> int \<Rightarrow> fileSegment \<Rightarrow> bool \<times> fileSegment" where
  "note_index ent interval sg =
     (case GetIndex sg of
        (Some idx, sg') \<Rightarrow>
          (let idx1 = (if fi_MinTime idx = 0 \<or> be_MinTime ent < fi_MinTime idx then idx\<lparr>fi_MinTime := be_MinTime ent\<rparr> else idx);
               idx2 = (if be_MaxTime ent > fi_MaxTime idx1 then idx1\<lparr>fi_MaxTime := be_MaxTime ent\<rparr> else idx1);
               idx3 = appendBlock ent idx2
           in (segmentTimeExceeded (fi_MinTime idx3) (fi_MaxTime idx3) interval, sg'\<lparr>sg_index := Some idx3\<rparr>))
      | (None, sg') \<Rightarrow> (segmentTimeExceeded (GetMinTms sg') (be_MaxTime ent) interval, sg'))"

datatype glow_error = EncodeError | SegmentError seg_error

text \<open>The first half of \<^verbatim>\<open>glowWrite\<close>: the header and the two encodings, when there is something to write.  The encoders are left as
  \<^verbatim>\<open>Bytes\<close> leaves them.\<close>

definition encode_block ::
  "simple8b_ops \<Rightarrow> ('v, 'e) encoder_family \<Rightarrow> TimeEncoder \<Rightarrow> 'e \<Rightarrow> ('v, 'e) ssColumn \<Rightarrow>
     (glow_error + (SegmentHeader \<times> bytes \<times> bytes) option) \<times> ('v, 'e) ssColumn" where
  "encode_block S F te ve s =
     (let maxTms = sc_maxTms s; s1 = s\<lparr>sc_maxTms := 0\<rparr>; (timeData, te1) = TimeEncoder_Bytes S te;
          s2 = s1\<lparr>sc_tmsCompressor := Some te1\<rparr>
      in case timeData of
           None \<Rightarrow> (Inl EncodeError, s2)
         | Some td \<Rightarrow>
             if length td \<le> 1 then (Inr None, s2)
             else
               (let (valueData, ve1) = ef_Bytes F ve; s3 = s2\<lparr>sc_valueCompressor := Some ve1\<rparr>
                in case valueData of
                     None \<Rightarrow> (Inl EncodeError, s3)
                   | Some vd \<Rightarrow>
                       if length vd \<le> 1 then (Inr None, s3)
                       else (Inr (Some (\<lparr>sh_Attribute = sc_index s, sh_MinTime = te_minTime te1, sh_MaxTime = maxTms,
                                         sh_DataSize = int (length vd + length td), sh_Crc = crc32_ieee vd\<rparr>, td, vd)), s3)))"

definition reset_encoders :: "('v, 'e) encoder_family \<Rightarrow> ('v, 'e) ssColumn \<Rightarrow> ('v, 'e) ssColumn" where
  "reset_encoders F s =
     s\<lparr>sc_tmsCompressor := map_option TimeEncoder_Reset (sc_tmsCompressor s), sc_valueCompressor := map_option (ef_Reset F) (sc_valueCompressor s)\<rparr>"

text \<open>The second half: the block goes to the segment and into its index; a segment that is now too large or too long is followed by a new one.
  \<open>now\<close> is the clock; the outer \<open>None\<close> is a write that does not return.\<close>

definition append_block ::
  "('v, 'e) encoder_family \<Rightarrow> int \<Rightarrow> SegmentHeader \<times> bytes \<times> bytes \<Rightarrow> ('v, 'e) ssColumn \<Rightarrow> fileSegment \<Rightarrow> fileSegmentList \<Rightarrow>
     ((glow_error option \<times> bool) \<times> ('v, 'e) ssColumn \<times> fileSegmentList) option" where
  "append_block F now blk s sg l =
     (case blk of (h, td, vd) \<Rightarrow>
        (let offset = fw_Size (sg_writer sg); (h', pieces) = block_pieces (sc_tableInfo s) h vd td;
             put = (\<lambda>sg'. map_segment (nat (fl_activeIdx l)) (\<lambda>_. sg') l)
         in case write_pieces pieces (sg_writer sg) of
              None \<Rightarrow> None
            | Some (Some e, w) \<Rightarrow> Some ((Some (SegmentError e), False), s, put (sg\<lparr>sg_writer := w\<rparr>))
            | Some (None, w) \<Rightarrow>
                (let ent = \<lparr>be_Attribute = sc_index s, be_MinTime = sh_MinTime h, be_MaxTime = sh_MaxTime h,
                            be_Offset = offset, be_DataSize = sh_DataSize h'\<rparr>;
                     (beyond, sg2) = note_index ent (sc_maxSegmentTimeInterval s) (sg\<lparr>sg_writer := w\<rparr>);
                     s' = reset_encoders F s; l1 = put sg2
                 in if fw_PhysicalSize w \<ge> sc_maxSegmentSize s \<or> beyond then
                      (let (e, l2) = AddTransactionSegment now (PersistLastIndex l1)
                       in Some ((map_option SegmentError e, True), s', l2))
                    else Some ((None, False), s', l1))))"

definition glowWrite ::
  "simple8b_ops \<Rightarrow> ('v, 'e) encoder_family \<Rightarrow> int \<Rightarrow> ('v, 'e) ssColumn \<Rightarrow> fileSegmentList \<Rightarrow>
     ((glow_error option \<times> bool) \<times> ('v, 'e) ssColumn \<times> fileSegmentList) option" where
  "glowWrite S F now s l =
     (case (sc_tmsCompressor s, sc_valueCompressor s, GetLastFragmentation l) of
        (Some te, Some ve, Some sg) \<Rightarrow>
          if TimeEncoder_Length te = 0 then Some ((None, False), s, l)
          else
            (case encode_block S F te ve s of
               (Inl e, s') \<Rightarrow> Some ((Some e, False), s', l)
             | (Inr None, s') \<Rightarrow> Some ((None, False), s', l)
             | (Inr (Some blk), s') \<Rightarrow> append_block F now blk s' sg l)
      | _ \<Rightarrow> Some ((None, False), s, l))"

end
