(* ===== verification/Column_Props.thy ===== *)
theory Column_Props
  imports Column Segment_List_Props "HOL-Library.Sublist"
begin

text \<open>
  What a column promises: the points it is given are, in order, the points of the blocks it wrote, then those in its encoders, then at most
  one pair a type change left over; and a block it writes is found again by its entry in the index.
\<close>

section \<open>The contract of a value encoder\<close>

text \<open>\<open>enc e vs\<close>: the encoder has accepted \<open>vs\<close> since it was made or reset.  Decoding what \<^verbatim>\<open>Bytes\<close> returns gives the canonical form of the
  values, for the inputs the codec supports.\<close>

locale column_encoder =
  fixes F :: "('v, 'e) encoder_family" and ti :: TableInfo and enc :: "'e \<Rightarrow> 'v list \<Rightarrow> bool"
    and dec :: "nat \<Rightarrow> bytes \<Rightarrow> 'v list option" and canon :: "'v \<Rightarrow> 'v" and supported :: "'v list \<Rightarrow> bool"
  assumes enc_new: "enc (value_encoder F ti) []"
    and enc_reset: "enc (ef_Reset F e) []"
    and enc_write: "enc e vs \<Longrightarrow> ef_Write F v e = (True, e') \<Longrightarrow> enc e' (vs @ [v])"
    and enc_reject: "enc e vs \<Longrightarrow> ef_Write F v e = (False, e') \<Longrightarrow> enc e' vs"
    and enc_first: "enc e [] \<Longrightarrow> fst (ef_Write F v e)"
    and enc_bytes: "enc e vs \<Longrightarrow> vs \<noteq> [] \<Longrightarrow> supported vs \<Longrightarrow>
      \<exists>b. fst (ef_Bytes F e) = Some b \<and> 1 < length b \<and> dec (length vs) b = Some (map canon vs)"

section \<open>The points of a column\<close>

definition time_points :: "simple8b_ops \<Rightarrow> bytes \<Rightarrow> nat \<Rightarrow> u64 list option" where
  "time_points S td n = drain TimeDecoder_Next (\<lambda>d. Some (TimeDecoder_Read d, d)) (Suc n) (TimeDecoder_Init S td NewTimeDecoder)"

definition left_over :: "('v, 'e) ssColumn \<Rightarrow> (int \<times> 'v) list" where
  "left_over s = (if sc_preTms s \<noteq> 0 then [(sc_preTms s, sc_preVariant s)] else [])"

definition word_times :: "(int \<times> 'v) list \<Rightarrow> u64 list" where
  "word_times ps = map (\<lambda>(t, v). of_int t) ps"

lemma word_times_simps [simp]: "word_times [] = []" "word_times (ps @ qs) = word_times ps @ word_times qs"
  "word_times [(t, v)] = [of_int t]" "length (word_times ps) = length ps"
  by (simp_all add: word_times_def)

lemma length_reduce_loop: "length (fst (reduce_loop j st)) = length (fst st)"
  by (induction j arbitrary: st) (auto simp: Let_def split: prod.splits)

lemma TimeEncoder_Bytes_long:
  assumes "te_ts e \<noteq> []" "fst (TimeEncoder_Bytes S e) = Some b"
  shows "1 < length b"
proof -
  obtain dts mx d r where red: "reduce e = (dts, mx, d, r)" by (metis prod_cases4)
  have "length dts = length (te_ts e)" using length_reduce_loop [of _ "(te_ts e, 0, 10 ^ 12, True)"] red by (metis fst_conv reduce_def)
  then have "0 < length dts" using assms(1) by simp
  then show ?thesis using assms red
    by (auto simp: TimeEncoder_Bytes_def Let_def time_encodeRLE_def time_encodeRaw_def time_encodePacked_def words_bytes_def
      split: if_splits)
qed

lemma TimeEncoder_Bytes_minTime [simp]: "te_minTime (snd (TimeEncoder_Bytes S e)) = te_minTime e"
  by (auto simp: TimeEncoder_Bytes_def Let_def time_encodePacked_def split: prod.splits)

context column_encoder
begin

text \<open>The pairs in the encoders.\<close>

definition buffers :: "('v, 'e) ssColumn \<Rightarrow> (int \<times> 'v) list \<Rightarrow> bool" where
  "buffers s ps \<longleftrightarrow> sc_tableInfo s = ti \<and>
     (case (sc_tmsCompressor s, sc_valueCompressor s) of
        (Some te, Some ve) \<Rightarrow> te_ts te = word_times ps \<and> te_pending te = [] \<and> enc ve (map snd ps) \<and>
          (ps = [] \<longrightarrow> te_minTime te = maxInt64) \<and> (ps \<noteq> [] \<longrightarrow> sc_maxTms s = fst (last ps))
      | (None, None) \<Rightarrow> ps = [] \<and> \<not> sc_writeInitialized s
      | _ \<Rightarrow> False)"

text \<open>A pair is left over only while the encoders are empty.\<close>

definition col_ok :: "('v, 'e) ssColumn \<Rightarrow> (int \<times> 'v) list \<Rightarrow> bool" where
  "col_ok s ps \<longleftrightarrow> buffers s ps \<and> (left_over s \<noteq> [] \<longrightarrow> ps = [])"

lemma buffers_init:
  assumes b: "buffers s ps"
    and s1: "s1 = (if sc_writeInitialized s then s else (ensureCompressors F s)\<lparr>sc_writeInitialized := True\<rparr>)"
  shows "buffers s1 ps \<and> sc_writeInitialized s1 \<and> sc_tableInfo s1 = ti \<and> sc_preTms s1 = sc_preTms s \<and> sc_preVariant s1 = sc_preVariant s"
proof (cases "sc_tmsCompressor s")
  case None
  then have "ps = []" "\<not> sc_writeInitialized s" "sc_tableInfo s = ti" using b by (auto simp: buffers_def split: option.splits)
  then show ?thesis using s1 None enc_new by (simp add: buffers_def ensureCompressors_def NewTimeEncoder_def)
next
  case (Some te)
  then obtain ve where "sc_valueCompressor s = Some ve" using b by (auto simp: buffers_def split: option.splits)
  then show ?thesis using s1 Some b by (auto simp: buffers_def ensureCompressors_def)
qed

lemma buffersD:
  assumes "buffers s ps" "sc_writeInitialized s"
  obtains te ve where "sc_tmsCompressor s = Some te" "sc_valueCompressor s = Some ve" "te_ts te = word_times ps" "te_pending te = []"
    "enc ve (map snd ps)" "ps = [] \<longrightarrow> te_minTime te = maxInt64" "ps \<noteq> [] \<longrightarrow> sc_maxTms s = fst (last ps)"
  using assms by (auto simp: buffers_def split: option.splits)

lemma write_pair:
  assumes s: "sc_tableInfo s = ti" "sc_tmsCompressor s = Some te" "sc_valueCompressor s = Some ve" "sc_writeInitialized s"
    and te: "te_ts te = word_times ps" "te_pending te = []" and ve: "enc ve (map snd ps)" and w: "write_value F v s = (True, s')"
  shows "buffers (write_time t s') (ps @ [(t, v)]) \<and> left_over (write_time t s') = left_over s \<and> sc_writeInitialized (write_time t s') \<and>
         sc_tableInfo (write_time t s') = ti"
proof -
  obtain ve' where ve': "ef_Write F v ve = (True, ve')" "s' = s\<lparr>sc_valueCompressor := Some ve'\<rparr>"
    using w s by (auto simp: write_value_def split: prod.splits)
  have "enc ve' (map snd (ps @ [(t, v)]))" using enc_write [OF ve ve'(1)] by simp
  then show ?thesis using s te ve' by (simp add: buffers_def write_time_def TimeEncoder_Write_def Let_def left_over_def)
qed

lemma write_time_value: "write_value F v (write_time t s) = (case write_value F v s of (ok, s') \<Rightarrow> (ok, write_time t s'))"
  by (simp add: write_value_def write_time_def split: option.split prod.split)

text \<open>One write: accepted, or left over with everything before it in the encoders.\<close>

lemma sc_Write_ok:
  assumes s: "col_ok s ps" and t: "t \<noteq> 0" and w: "sc_Write V F t v s = (ok, s')"
  shows "if ok then col_ok s' (ps @ left_over s @ [(t, v)]) \<and> left_over s' = []
         else buffers s' (ps @ left_over s) \<and> left_over s' = [(t, v)] \<and> ps @ left_over s \<noteq> []"
proof -
  define s1 where "s1 = (if sc_writeInitialized s then s else (ensureCompressors F s)\<lparr>sc_writeInitialized := True\<rparr>)"
  have s1: "buffers s1 ps" "sc_writeInitialized s1" "sc_tableInfo s1 = ti" "sc_preTms s1 = sc_preTms s" "sc_preVariant s1 = sc_preVariant s"
    using buffers_init [of s ps s1, OF _ s1_def] s by (simp_all add: col_ok_def)
  obtain te ve where c1: "sc_tmsCompressor s1 = Some te" "sc_valueCompressor s1 = Some ve" "te_ts te = word_times ps" "te_pending te = []"
      "enc ve (map snd ps)"
    using buffersD [OF s1(1,2)] by metis
  obtain s2 where s2: "(if sc_preTms s1 \<noteq> 0 then
               (let prevTs = sc_preTms s1; prevVal = sc_preVariant s1;
                    (ok, s') = write_value F prevVal (write_time prevTs (s1\<lparr>sc_preTms := 0, sc_preVariant := vt_Empty V\<rparr>))
                in if ok then (True, s') else (False, s'\<lparr>sc_preTms := prevTs, sc_preVariant := prevVal\<rparr>))
             else (True, s1)) = (True, s2)"
      "buffers s2 (ps @ left_over s)" "sc_preTms s2 = 0" "sc_writeInitialized s2" "sc_tableInfo s2 = ti"
  proof (cases "sc_preTms s1 = 0")
    case True
    then show ?thesis using that [of s1] s1 by (simp add: left_over_def)
  next
    case False
    let ?s = "s1\<lparr>sc_preTms := 0, sc_preVariant := vt_Empty V\<rparr>"
    have ps: "ps = []" using s False s1(4) by (auto simp: col_ok_def left_over_def)
    have "fst (ef_Write F (sc_preVariant s1) ve)" using enc_first c1(5) ps by simp
    then obtain ve' where "ef_Write F (sc_preVariant s1) ve = (True, ve')" by (metis prod.collapse)
    then obtain s' where s': "write_value F (sc_preVariant s1) ?s = (True, s')" using c1(2) by (simp add: write_value_def)
    have wp: "buffers (write_time (sc_preTms s1) s') (ps @ [(sc_preTms s1, sc_preVariant s1)])" "left_over (write_time (sc_preTms s1) s') = left_over ?s"
      "sc_writeInitialized (write_time (sc_preTms s1) s')" "sc_tableInfo (write_time (sc_preTms s1) s') = ti"
      using write_pair [OF _ _ _ _ c1(3,4,5) s'] s1 c1(1,2) by simp_all
    have "sc_preTms (write_time (sc_preTms s1) s') = 0" using wp(2) by (simp add: left_over_def split: if_splits)
    then show ?thesis using that [of "write_time (sc_preTms s1) s'"] False s' wp s1(4,5)
      by (simp add: write_time_value left_over_def Let_def)
  qed
  have w2: "sc_Write V F t v s = (case write_value F v s2 of
              (False, s3) \<Rightarrow> (False, s3\<lparr>sc_preTms := t, sc_preVariant := v\<rparr>)
            | (True, s3) \<Rightarrow> (True, write_time t s3))"
    using s2(1) unfolding sc_Write_def s1_def [symmetric] by (simp add: Let_def)
  obtain te2 ve2 where c2: "sc_tmsCompressor s2 = Some te2" "sc_valueCompressor s2 = Some ve2" "te_ts te2 = word_times (ps @ left_over s)"
      "te_pending te2 = []" "enc ve2 (map snd (ps @ left_over s))" "ps @ left_over s = [] \<longrightarrow> te_minTime te2 = maxInt64"
      "ps @ left_over s \<noteq> [] \<longrightarrow> sc_maxTms s2 = fst (last (ps @ left_over s))"
    using buffersD [OF s2(2,4)] by metis
  show ?thesis
  proof (cases "fst (write_value F v s2)")
    case True
    then obtain s3 where s3: "write_value F v s2 = (True, s3)" by (metis prod.collapse)
    have "s' = write_time t s3" "ok" using w w2 s3 by auto
    moreover have "buffers (write_time t s3) ((ps @ left_over s) @ [(t, v)])" "left_over (write_time t s3) = left_over s2"
      using write_pair [OF s2(5) c2(1,2) s2(4) c2(3-5) s3] by simp_all
    ultimately show ?thesis using s2(3) by (simp add: col_ok_def left_over_def)
  next
    case False
    then obtain ve3 where v3: "ef_Write F v ve2 = (False, ve3)" "write_value F v s2 = (False, s2\<lparr>sc_valueCompressor := Some ve3\<rparr>)"
      using c2(2) by (auto simp: write_value_def split: prod.splits)
    have "enc ve3 (map snd (ps @ left_over s))" using enc_reject [OF c2(5) v3(1)] .
    moreover have "ps @ left_over s \<noteq> []" using enc_first [of ve2 v] c2(5) v3(1) by force
    moreover have "s' = (s2\<lparr>sc_valueCompressor := Some ve3\<rparr>)\<lparr>sc_preTms := t, sc_preVariant := v\<rparr>" "\<not> ok" using w w2 v3 by auto
    ultimately show ?thesis using c2 t s2(4,5) by (simp add: buffers_def left_over_def)
  qed
qed

text \<open>A block that holds the pairs \<open>ps\<close>.\<close>

definition block_points :: "simple8b_ops \<Rightarrow> SegmentHeader \<times> bytes \<times> bytes \<Rightarrow> (int \<times> 'v) list \<Rightarrow> bool" where
  "block_points S blk ps \<longleftrightarrow>
     (case blk of (h, td, vd) \<Rightarrow> time_points S td (length ps) = Some (word_times ps) \<and> dec (length ps) vd = Some (map (canon \<circ> snd) ps) \<and>
        sh_MaxTime h = fst (last ps) \<and> sh_DataSize h = int (length vd + length td) \<and> sh_Crc h = crc32_ieee vd)"

lemma encode_block_ok:
  assumes b: "buffers s ps" and c: "sc_tmsCompressor s = Some te" "sc_valueCompressor s = Some ve"
    and ne: "ps \<noteq> []" and law: "simple8b_law S" "length ps < 2 ^ 62" "supported (map snd ps)"
  shows "\<exists>h td vd s'. encode_block S F te ve s = (Inr (Some (h, td, vd)), s') \<and> block_points S (h, td, vd) ps \<and>
           sh_Attribute h = sc_index s \<and> sh_MinTime h = te_minTime te \<and> buffers (reset_encoders F s') [] \<and>
           left_over (reset_encoders F s') = left_over s \<and> sc_tableInfo s' = ti"
proof -
  have te: "te_ts te = word_times ps" "te_pending te = []" "enc ve (map snd ps)" "sc_maxTms s = fst (last ps)" "sc_tableInfo s = ti"
    using b c ne by (simp_all add: buffers_def)
  obtain td where td: "fst (TimeEncoder_Bytes S te) = Some td" "time_stream (TimeDecoder_Init S td NewTimeDecoder) (word_times ps)"
    using TimeEncoder_Bytes_stream [OF law(1), of te] te(1,2) law(2) by auto
  have pts: "time_points S td (length ps) = Some (word_times ps)"
    using time_codec.drain_stream [OF td(2), of "Suc (length ps)"] by (simp add: time_points_def)
  have l1: "1 < length td" using TimeEncoder_Bytes_long [OF _ td(1)] te(1) ne by (auto simp: word_times_def)
  obtain vd where vd: "fst (ef_Bytes F ve) = Some vd" "1 < length vd" "dec (length ps) vd = Some (map canon (map snd ps))"
    using enc_bytes [OF te(3) _ law(3)] ne by auto
  obtain te1 where te1: "TimeEncoder_Bytes S te = (Some td, te1)" using td(1) by (metis prod.collapse)
  obtain ve1 where ve1: "ef_Bytes F ve = (Some vd, ve1)" using vd(1) by (metis prod.collapse)
  have m: "te_minTime te1 = te_minTime te" using TimeEncoder_Bytes_minTime [of S te] te1 by simp
  let ?h = "\<lparr>sh_Attribute = sc_index s, sh_MinTime = te_minTime te1, sh_MaxTime = sc_maxTms s, sh_DataSize = int (length vd + length td),
             sh_Crc = crc32_ieee vd\<rparr>"
  let ?s = "s\<lparr>sc_maxTms := 0, sc_tmsCompressor := Some te1, sc_valueCompressor := Some ve1\<rparr>"
  have "encode_block S F te ve s = (Inr (Some (?h, td, vd)), ?s)" using te1 ve1 l1 vd(2) by (simp add: encode_block_def Let_def)
  moreover have "block_points S (?h, td, vd) ps" using pts vd(3) te(4) by (simp add: block_points_def comp_def)
  moreover have "buffers (reset_encoders F ?s) []" using te(5) enc_reset by (simp add: buffers_def reset_encoders_def TimeEncoder_Reset_def)
  ultimately show ?thesis using m te(5) by (auto simp: left_over_def reset_encoders_def)
qed

end

section \<open>A block in the file\<close>

lemma write_pieces_ok:
  assumes "writer_ok c m w b blks"
  shows "\<exists>w' b' blks'. write_pieces ps w = Some (None, w') \<and> writer_ok c m w' b' blks' \<and> content b' blks' = content b blks @ concat ps \<and>
           fw_lastOpenWrtOffset w' = fw_lastOpenWrtOffset w"
  using assms
proof (induction ps arbitrary: w b blks)
  case (Cons p ps)
  obtain w1 b1 blks1 where s: "writer_step (WWrite p) w = Some (None, w1)" "writer_ok c m w1 b1 blks1" "content b1 blks1 = content b blks @ p"
      "fw_lastOpenWrtOffset w1 = fw_lastOpenWrtOffset w"
    using writer_step_ok [OF Cons.prems, of "WWrite p"] by auto
  then obtain n where "fw_Write p w = Some (None, n, w1)" by (auto split: prod.splits)
  then show ?case using Cons.IH [OF s(2)] s(3,4) by simp
qed auto

lemma writer_ok_size: "writer_ok c m w b blks \<Longrightarrow> fw_Size w = int (length (content b blks))"
  using content_size by (simp add: writer_ok_def fw_Size_def)

section \<open>A series through a flush\<close>

text \<open>What a flush does with the points of one series (each with the clock reading a rotation would use): write, and turn the encoders into a
  block whenever a write is refused.  The blocks are collected; an error ends it.\<close>

definition emitted :: "simple8b_ops \<Rightarrow> ('v, 'e) encoder_family \<Rightarrow> ('v, 'e) ssColumn \<Rightarrow> (SegmentHeader \<times> bytes \<times> bytes) list" where
  "emitted S F s =
     (case (sc_tmsCompressor s, sc_valueCompressor s) of
        (Some te, Some ve) \<Rightarrow>
          if TimeEncoder_Length te = 0 then []
          else (case fst (encode_block S F te ve s) of Inr (Some blk) \<Rightarrow> [blk] | _ \<Rightarrow> [])
      | _ \<Rightarrow> [])"

fun feed ::
  "simple8b_ops \<Rightarrow> 'v variant_ops \<Rightarrow> ('v, 'e) encoder_family \<Rightarrow> (int \<times> int \<times> 'v) list \<Rightarrow> ('v, 'e) ssColumn \<Rightarrow> fileSegmentList \<Rightarrow>
     ((SegmentHeader \<times> bytes \<times> bytes) list \<times> ('v, 'e) ssColumn \<times> fileSegmentList) option" where
  "feed S V F [] s l = Some ([], s, l)"
| "feed S V F ((now, t, v) # es) s l =
     (case sc_Write V F t v s of
        (True, s1) \<Rightarrow> feed S V F es s1 l
      | (False, s1) \<Rightarrow>
          (case glowWrite S F now s1 l of
             Some ((None, r), s2, l2) \<Rightarrow> map_option (\<lambda>(bs, s', l'). (emitted S F s1 @ bs, s', l')) (feed S V F es s2 l2)
           | _ \<Rightarrow> None))"

text \<open>The whole flush of a series: its points, then what is left in the encoders.\<close>

definition feed_all ::
  "simple8b_ops \<Rightarrow> 'v variant_ops \<Rightarrow> ('v, 'e) encoder_family \<Rightarrow> (int \<times> int \<times> 'v) list \<Rightarrow> int \<Rightarrow> ('v, 'e) ssColumn \<Rightarrow> fileSegmentList \<Rightarrow>
     ((SegmentHeader \<times> bytes \<times> bytes) list \<times> ('v, 'e) ssColumn \<times> fileSegmentList) option" where
  "feed_all S V F es now s l =
     (case feed S V F es s l of
        None \<Rightarrow> None
      | Some (bs, s1, l1) \<Rightarrow>
          (case glowWrite S F now s1 l1 of
             Some ((None, r), s2, l2) \<Rightarrow> Some (bs @ emitted S F s1, s2, l2)
           | _ \<Rightarrow> None))"

text \<open>The list keeps a last segment.\<close>

definition list_live :: "fileSegmentList \<Rightarrow> bool" where
  "list_live l \<longleftrightarrow> list_ok l \<and> fl_segments l \<noteq> []"

lemma list_live_last: "list_live l \<Longrightarrow> GetLastFragmentation l \<noteq> None"
  by (auto simp: list_live_def list_ok_def GetLastFragmentation_def)

lemma list_tx_live: "list_tx c front m l \<Longrightarrow> list_live l"
  by (auto simp: list_tx_def list_live_def list_ok_def)

lemma map_segment_live: "list_live l \<Longrightarrow> list_live (map_segment i f l)"
  using list_ok_same [of l "map_segment i f l"] by (auto simp: list_live_def)

lemma add_live: "list_live l \<Longrightarrow> AddTransactionSegment now (PersistLastIndex l) = (e, l') \<Longrightarrow> list_live l'"
  using PersistLastIndex_shape [of l] AddTransactionSegment_shape [of "PersistLastIndex l" now e l'] by (auto simp: list_live_def)

lemma append_block_live:
  "list_live l \<Longrightarrow> append_block F now blk s sg l = Some ((err, r), s', l') \<Longrightarrow> list_live l' \<and> (err = None \<longrightarrow> s' = reset_encoders F s)"
  by (auto simp: append_block_def Let_def map_segment_live split: prod.splits option.splits if_splits dest: add_live [OF map_segment_live])

lemma pieces_open: "open_tx c m w \<Longrightarrow> \<exists>w'. write_pieces ps w = Some (None, w') \<and> open_tx c m w'"
  using write_pieces_ok [of c m w] unfolding open_tx_def by metis

lemma pieces_tx:
  assumes l: "list_tx c front m l" and w: "write_pieces ps (sg_writer (last (fl_segments l))) = Some (None, w)" and sw: "sg_writer sg = w"
  shows "list_tx c front m (map_segment (nat (fl_activeIdx l)) (\<lambda>_. sg) l)"
proof -
  note ne = list_tx_last [OF l]
  let ?s = "last (fl_segments l)"
  obtain m' where m': "open_tx c m' (sg_writer ?s)" using l by (auto simp: list_tx_def)
  have run: "open_tx c m'' w" if "open_tx c m'' (sg_writer ?s)" for m'' using pieces_open [OF that, of ps] w by auto
  have keep: "writer_tx c m'' w" if "writer_tx c m'' (sg_writer ?s)" for m''
    using run [OF open_tx_unique [OF m' that]] by (simp add: writer_tx_def)
  have "\<exists>m'. open_tx c m' w" using run [OF m'] by blast
  then show ?thesis
    by (intro list_tx_replace [OF l keep, where i = "nat (fl_activeIdx l)" and s = sg]) (use ne sw in auto)
qed

lemma persist_writers: "map sg_writer (fl_segments (PersistLastIndex l)) = map sg_writer (fl_segments l)"
proof -
  have "sg_writer (PersistIndex x) = sg_writer x" for x by (simp add: PersistIndex_def split: option.split)
  then show ?thesis by (auto simp: PersistLastIndex_def map_update intro!: nth_equalityI simp: nth_list_update)
qed

lemma persist_tx:
  assumes k: "list_tx c front m k"
  shows "list_tx c front m (PersistLastIndex k)"
proof -
  note nk = list_tx_last [OF k]
  have "PersistLastIndex k = map_segment (nat (fl_activeIdx k)) PersistIndex k" using nk k by (auto simp: PersistLastIndex_def list_tx_def)
  moreover have pw: "sg_writer (PersistIndex x) = sg_writer x" for x by (simp add: PersistIndex_def split: option.split)
  moreover have "list_tx c front m (map_segment (nat (fl_activeIdx k)) PersistIndex k)"
    by (rule list_tx_replace [OF k, where i = "nat (fl_activeIdx k)" and s = "PersistIndex (last (fl_segments k))" and w = "sg_writer (last (fl_segments k))"])
      (use nk k pw in \<open>auto simp: list_tx_def\<close>)
  ultimately show ?thesis by simp
qed

context column_encoder
begin

text \<open>Turning the encoders into a block: afterwards they are empty, and the block holds what was in them.\<close>

lemma glowWrite_points:
  assumes b: "buffers s ps" and l: "list_live l" and law: "simple8b_law S" "length ps < 2 ^ 62" "supported (map snd ps)"
    and g: "glowWrite S F now s l = Some ((None, r), s', l')"
  shows "list_live l' \<and> buffers s' [] \<and> left_over s' = left_over s \<and>
         (if ps = [] then emitted S F s = [] else \<exists>blk. emitted S F s = [blk] \<and> block_points S blk ps)"
proof (cases "ps = []")
  case True
  have "(case sc_tmsCompressor s of None \<Rightarrow> True | Some te \<Rightarrow> TimeEncoder_Length te = 0)"
    using b True by (auto simp: buffers_def TimeEncoder_Length_def split: option.splits)
  then have "s' = s" "l' = l" "emitted S F s = []" using g by (auto simp: glowWrite_def emitted_def split: option.splits)
  then show ?thesis using b l True by simp
next
  case False
  then obtain te ve where c: "sc_tmsCompressor s = Some te" "sc_valueCompressor s = Some ve" "te_ts te = word_times ps"
    using b by (auto simp: buffers_def split: option.splits)
  have pos: "TimeEncoder_Length te \<noteq> 0" using c(3) False by (simp add: TimeEncoder_Length_def word_times_def)
  obtain sg where sg: "GetLastFragmentation l = Some sg" using list_live_last [OF l] by blast
  obtain h td vd s1 where e: "encode_block S F te ve s = (Inr (Some (h, td, vd)), s1)" "block_points S (h, td, vd) ps"
      "buffers (reset_encoders F s1) []" "left_over (reset_encoders F s1) = left_over s"
    using encode_block_ok [OF b c(1,2) False law] by blast
  have "append_block F now (h, td, vd) s1 sg l = Some ((None, r), s', l')" using g c pos sg e(1) by (simp add: glowWrite_def)
  then have "list_live l'" "s' = reset_encoders F s1" using append_block_live [OF l] by blast+
  moreover have "emitted S F s = [(h, td, vd)]" using c pos e(1) by (simp add: emitted_def)
  ultimately show ?thesis using e False by simp
qed

lemma left_over_cases: "left_over s = [] \<or> (\<exists>p. left_over s = [p])"
  by (simp add: left_over_def)

text \<open>The blocks of a series hold its points in order, up to what is still in the encoders or left over.\<close>

lemma feed_points:
  assumes "col_ok s ps" "list_live l" "simple8b_law S" "list_all (\<lambda>(now, t, v). t \<noteq> 0) es"
    "length ps + length (left_over s) + length es < 2 ^ 62"
    "\<And>qs. sublist qs (ps @ left_over s @ map snd es) \<Longrightarrow> supported (map snd qs)"
    "feed S V F es s l = Some (blks, s', l')"
  shows "\<exists>pss ps'. list_all2 (block_points S) blks pss \<and> concat pss @ ps' @ left_over s' = ps @ left_over s @ map snd es \<and>
           col_ok s' ps' \<and> list_live l'"
  using assms
proof (induction es arbitrary: s ps l blks)
  case Nil
  then show ?case by (intro exI [of _ "[]"] exI [of _ ps]) simp
next
  case (Cons e es)
  obtain now t v where e: "e = (now, t, v)" by (metis prod_cases3)
  have t: "t \<noteq> 0" using Cons.prems(4) e by simp
  obtain ok s1 where w: "sc_Write V F t v s = (ok, s1)" by fastforce
  note wr = sc_Write_ok [OF Cons.prems(1) t w]
  show ?case
  proof (cases ok)
    case True
    then have s1: "col_ok s1 (ps @ left_over s @ [(t, v)])" "left_over s1 = []" using wr by auto
    have f: "feed S V F es s1 l = Some (blks, s', l')" using Cons.prems(7) e w True by simp
    have sup: "\<And>qs. sublist qs ((ps @ left_over s @ [(t, v)]) @ left_over s1 @ map snd es) \<Longrightarrow> supported (map snd qs)"
      using Cons.prems(6) s1(2) e by simp
    have len: "length (ps @ left_over s @ [(t, v)]) + length (left_over s1) + length es < 2 ^ 62" using Cons.prems(5) s1(2) by simp
    show ?thesis using Cons.IH [OF s1(1) Cons.prems(2,3) _ len sup f] Cons.prems(4) s1(2) e by simp
  next
    case False
    then have s1: "buffers s1 (ps @ left_over s)" "left_over s1 = [(t, v)]" "ps @ left_over s \<noteq> []" using wr by auto
    obtain r s2 l2 bs where g: "glowWrite S F now s1 l = Some ((None, r), s2, l2)" "feed S V F es s2 l2 = Some (bs, s', l')"
        "blks = emitted S F s1 @ bs"
      using Cons.prems(7) e w False by (auto split: option.splits prod.splits)
    have "supported (map snd (ps @ left_over s))" by (rule Cons.prems(6)) (metis append_assoc sublist_appendI append_Nil)
    from glowWrite_points [OF s1(1) Cons.prems(2,3) _ this g(1)] Cons.prems(5) s1(2,3)
    obtain blk where gp: "list_live l2" "buffers s2 []" "left_over s2 = [(t, v)]" "emitted S F s1 = [blk]" "block_points S blk (ps @ left_over s)"
      by auto
    have c2: "col_ok s2 []" using gp(2) by (simp add: col_ok_def)
    have sup: "\<And>qs. sublist qs ([] @ left_over s2 @ map snd es) \<Longrightarrow> supported (map snd qs)"
    proof -
      fix qs assume "sublist qs ([] @ left_over s2 @ map snd es)"
      then have "sublist qs (ps @ left_over s @ map snd (e # es))" using gp(3) e by (auto simp: sublist_append)
      then show "supported (map snd qs)" by (rule Cons.prems(6))
    qed
    have len: "length ([] :: (int \<times> 'v) list) + length (left_over s2) + length es < 2 ^ 62" using Cons.prems(5) gp(3) by simp
    obtain pss ps' where IH: "list_all2 (block_points S) bs pss" "concat pss @ ps' @ left_over s' = [] @ left_over s2 @ map snd es"
        "col_ok s' ps'" "list_live l'"
      using Cons.IH [OF c2 gp(1) Cons.prems(3) _ len sup g(2)] Cons.prems(4) e by auto
    then show ?thesis using g(3) gp(3-5) e by (intro exI [of _ "(ps @ left_over s) # pss"] exI [of _ ps']) simp
  qed
qed

text \<open>Inside a transaction \<^verbatim>\<open>glowWrite\<close> succeeds, and the list stays in its transaction.\<close>

lemma glow_tx:
  assumes b: "buffers s ps" and c: "block_compressor c" and l: "list_tx c front m l"
    and law: "simple8b_law S" "length ps < 2 ^ 62" "supported (map snd ps)"
  shows "\<exists>r s' l'. glowWrite S F now s l = Some ((None, r), s', l') \<and> list_tx c front m l'"
proof (cases "ps = []")
  case True
  have "(case sc_tmsCompressor s of None \<Rightarrow> True | Some te \<Rightarrow> TimeEncoder_Length te = 0)"
    using b True by (auto simp: buffers_def TimeEncoder_Length_def split: option.splits)
  then have "glowWrite S F now s l = Some ((None, False), s, l)" by (auto simp: glowWrite_def split: option.splits)
  then show ?thesis using l by blast
next
  case False
  then obtain te ve where e: "sc_tmsCompressor s = Some te" "sc_valueCompressor s = Some ve" "te_ts te = word_times ps"
    using b by (auto simp: buffers_def split: option.splits)
  have pos: "TimeEncoder_Length te \<noteq> 0" using e(3) False by (simp add: TimeEncoder_Length_def word_times_def)
  note ne = list_tx_last [OF l]
  let ?sg = "last (fl_segments l)" and ?i = "nat (fl_activeIdx l)"
  have sg: "GetLastFragmentation l = Some ?sg" using ne l by (simp add: GetLastFragmentation_def list_tx_def)
  obtain h td vd s1 where eb: "encode_block S F te ve s = (Inr (Some (h, td, vd)), s1)"
    using encode_block_ok [OF b e(1,2) False law] by blast
  then have g: "glowWrite S F now s l = append_block F now (h, td, vd) s1 ?sg l" using e pos sg by (simp add: glowWrite_def)
  obtain h' pieces where bp: "block_pieces (sc_tableInfo s1) h vd td = (h', pieces)" by fastforce
  obtain m' where m': "open_tx c m' (sg_writer ?sg)" using l by (auto simp: list_tx_def)
  obtain w where w: "write_pieces pieces (sg_writer ?sg) = Some (None, w)" using pieces_open [OF m'] by blast
  define ent where "ent = \<lparr>be_Attribute = sc_index s1, be_MinTime = sh_MinTime h, be_MaxTime = sh_MaxTime h,
                          be_Offset = fw_Size (sg_writer ?sg), be_DataSize = sh_DataSize h'\<rparr>"
  obtain beyond sg2 where n: "note_index ent (sc_maxSegmentTimeInterval s1) (?sg\<lparr>sg_writer := w\<rparr>) = (beyond, sg2)" by fastforce
  have sw: "sg_writer sg2 = w" using n by (auto simp: note_index_def GetIndex_def Let_def split: option.splits if_splits)
  have put: "list_tx c front m (map_segment ?i (\<lambda>_. sg2) l)" by (rule pieces_tx [OF l w sw])
  let ?l = "map_segment ?i (\<lambda>_. sg2) l"
  obtain l2 where l2: "AddTransactionSegment now (PersistLastIndex ?l) = (None, l2)" "list_tx c front m l2"
    using block_compressor.next_tx [OF c persist_tx [OF put], of now] by (metis prod.collapse)
  have "append_block F now (h, td, vd) s1 ?sg l =
      (if fw_PhysicalSize w \<ge> sc_maxSegmentSize s1 \<or> beyond then Some ((None, True), reset_encoders F s1, l2)
       else Some ((None, False), reset_encoders F s1, ?l))"
    using w(1) bp n l2(1) unfolding ent_def by (simp add: append_block_def Let_def)
  then show ?thesis using g put l2(2) by auto
qed

lemma feed_tx:
  assumes "col_ok s ps" "block_compressor c" "list_tx c front m l" "simple8b_law S" "list_all (\<lambda>(now, t, v). t \<noteq> 0) es"
    "length ps + length (left_over s) + length es < 2 ^ 62"
    "\<And>qs. sublist qs (ps @ left_over s @ map snd es) \<Longrightarrow> supported (map snd qs)"
  shows "\<exists>blks s' l'. feed S V F es s l = Some (blks, s', l') \<and> list_tx c front m l'"
  using assms(1,3,5-7)
proof (induction es arbitrary: s ps l)
  case Nil
  then show ?case by simp
next
  case (Cons e es)
  obtain now t v where e: "e = (now, t, v)" by (metis prod_cases3)
  have t: "t \<noteq> 0" using Cons.prems(3) e by simp
  obtain ok s1 where w: "sc_Write V F t v s = (ok, s1)" by fastforce
  note wr = sc_Write_ok [OF Cons.prems(1) t w]
  show ?case
  proof (cases ok)
    case True
    then have s1: "col_ok s1 (ps @ left_over s @ [(t, v)])" "left_over s1 = []" using wr by auto
    have "\<And>qs. sublist qs ((ps @ left_over s @ [(t, v)]) @ left_over s1 @ map snd es) \<Longrightarrow> supported (map snd qs)"
      using Cons.prems(5) s1(2) e by simp
    from Cons.IH [OF s1(1) Cons.prems(2) _ _ this] show ?thesis using Cons.prems(3,4) s1(2) e w True by simp
  next
    case False
    then have s1: "buffers s1 (ps @ left_over s)" "left_over s1 = [(t, v)]" using wr by auto
    have sup: "supported (map snd (ps @ left_over s))" by (rule Cons.prems(5)) (metis append_assoc sublist_appendI append_Nil)
    have len: "length (ps @ left_over s) < 2 ^ 62" using Cons.prems(4) by simp
    obtain r s2 l2 where g: "glowWrite S F now s1 l = Some ((None, r), s2, l2)" "list_tx c front m l2"
      using glow_tx [OF s1(1) assms(2) Cons.prems(2) assms(4) len sup] by blast
    from glowWrite_points [OF s1(1) list_tx_live [OF Cons.prems(2)] assms(4) len sup g(1)]
    have s2: "col_ok s2 []" "left_over s2 = [(t, v)]" using s1(2) by (auto simp: col_ok_def)
    have "supported (map snd qs)" if q: "sublist qs ([] @ left_over s2 @ map snd es)" for qs
    proof (rule Cons.prems(5))
      show "sublist qs (ps @ left_over s @ map snd (e # es))" using q s2(2) e by (auto simp: sublist_append)
    qed
    from Cons.IH [OF s2(1) g(2) _ _ this] Cons.prems(3,4) e s2(2) obtain blks s' l' where
      "feed S V F es s2 l2 = Some (blks, s', l')" "list_tx c front m l'" by auto
    then show ?thesis using e w False g(1) by simp
  qed
qed

text \<open>The whole flush of a series inside a transaction succeeds.\<close>

lemma feed_all_tx:
  assumes "col_ok s []" "block_compressor c" "list_tx c front m l" "simple8b_law S" "list_all (\<lambda>(now, t, v). t \<noteq> 0) es"
    "Suc (length es) < 2 ^ 62" "\<And>qs. sublist qs (left_over s @ map snd es) \<Longrightarrow> supported (map snd qs)"
  shows "\<exists>blks s' l'. feed_all S V F es now s l = Some (blks, s', l') \<and> list_tx c front m l'"
proof -
  have sup: "\<And>qs. sublist qs ([] @ left_over s @ map snd es) \<Longrightarrow> supported (map snd qs)" using assms(7) by simp
  have len: "length ([] :: (int \<times> 'v) list) + length (left_over s) + length es < 2 ^ 62" using assms(6) left_over_cases [of s] by auto
  obtain bs s1 l1 where f: "feed S V F es s l = Some (bs, s1, l1)" "list_tx c front m l1"
    using feed_tx [OF assms(1-5) len sup] by blast
  from feed_points [OF assms(1) list_tx_live [OF assms(3)] assms(4,5) len sup f(1)] obtain pss ps' where p:
    "concat pss @ ps' @ left_over s1 = left_over s @ map snd es" "col_ok s1 ps'" by auto
  have "sublist ps' (left_over s @ map snd es)" unfolding p(1) [symmetric] by simp
  then have sp: "supported (map snd ps')" by (rule assms(7))
  have "length ps' < 2 ^ 62" using arg_cong [OF p(1), of length] assms(6) left_over_cases [of s] by auto
  moreover have "buffers s1 ps'" using p(2) by (simp add: col_ok_def)
  ultimately obtain r s2 l2 where "glowWrite S F now s1 l1 = Some ((None, r), s2, l2)" "list_tx c front m l2"
    using glow_tx [OF _ assms(2) f(2) assms(4) _ sp] by blast
  then show ?thesis using f(1) by (simp add: feed_all_def)
qed

text \<open>With an encoder that never refuses a value nothing is ever left over.\<close>

lemma sc_Write_total:
  assumes b: "buffers s ps" and total: "\<And>v e. fst (ef_Write F v e)" and lo: "left_over s = []" and w: "sc_Write V F t v s = (ok, s')"
  shows ok
proof -
  define s1 where "s1 = (if sc_writeInitialized s then s else (ensureCompressors F s)\<lparr>sc_writeInitialized := True\<rparr>)"
  have s1: "buffers s1 ps" "sc_writeInitialized s1" "sc_preTms s1 = 0"
    using buffers_init [of s ps s1, OF b s1_def] lo by (auto simp: left_over_def split: if_splits)
  obtain ve where "sc_valueCompressor s1 = Some ve" using buffersD [OF s1(1,2)] by metis
  moreover obtain ve' where "ef_Write F v ve = (True, ve')" using total by (metis prod.collapse)
  ultimately show ok using w s1(3) unfolding sc_Write_def s1_def [symmetric] by (simp add: Let_def write_value_def)
qed

lemma feed_total:
  assumes "col_ok s ps" "left_over s = []" "\<And>v e. fst (ef_Write F v e)" "list_all (\<lambda>(now, t, v). t \<noteq> 0) es"
    "feed S V F es s l = Some (blks, s', l')"
  shows "left_over s' = []"
  using assms
proof (induction es arbitrary: s ps)
  case (Cons e es)
  obtain now t v where e: "e = (now, t, v)" by (metis prod_cases3)
  obtain ok s1 where w: "sc_Write V F t v s = (ok, s1)" by fastforce
  have ok: ok using sc_Write_total [of s ps, OF _ Cons.prems(3,2) w] Cons.prems(1) by (simp add: col_ok_def)
  have "col_ok s1 (ps @ left_over s @ [(t, v)])" "left_over s1 = []" using sc_Write_ok [OF Cons.prems(1) _ w] Cons.prems(4) e ok by simp_all
  then show ?case using Cons.IH Cons.prems(3-5) e w ok by auto
qed simp

lemma feed_all_points:
  assumes "col_ok s []" "list_live l" "simple8b_law S" "list_all (\<lambda>(now, t, v). t \<noteq> 0) es"
    "Suc (length es) < 2 ^ 62" "\<And>qs. sublist qs (left_over s @ map snd es) \<Longrightarrow> supported (map snd qs)"
    "feed_all S V F es now s l = Some (blks, s', l')"
  shows "\<exists>pss. list_all2 (block_points S) blks pss \<and> concat pss @ left_over s' = left_over s @ map snd es \<and>
           col_ok s' [] \<and> length (left_over s') \<le> 1 \<and>
           (left_over s = [] \<and> (\<forall>v e. fst (ef_Write F v e)) \<longrightarrow> left_over s' = [])"
proof -
  obtain bs s1 l1 r where f: "feed S V F es s l = Some (bs, s1, l1)" "glowWrite S F now s1 l1 = Some ((None, r), s', l')"
      "blks = bs @ emitted S F s1"
    using assms(7) by (auto simp: feed_all_def split: option.splits prod.splits)
  have sup: "\<And>qs. sublist qs ([] @ left_over s @ map snd es) \<Longrightarrow> supported (map snd qs)" using assms(6) by simp
  have "length ([] :: (int \<times> 'v) list) + length (left_over s) + length es < 2 ^ 62"
    using assms(5) left_over_cases [of s] by auto
  from feed_points [OF assms(1-4) this sup f(1)] obtain pss ps' where p:
    "list_all2 (block_points S) bs pss" "concat pss @ ps' @ left_over s1 = left_over s @ map snd es" "col_ok s1 ps'" "list_live l1"
    by auto
  have "sublist ps' (left_over s @ map snd es)" unfolding p(2) [symmetric] by simp
  then have sp: "supported (map snd ps')" by (rule assms(6))
  have "length ps' < 2 ^ 62" using arg_cong [OF p(2), of length] assms(5) left_over_cases [of s] by auto
  from glowWrite_points [OF _ p(4) assms(3) this sp f(2)] p(3)
  have g: "buffers s' []" "left_over s' = left_over s1" "if ps' = [] then emitted S F s1 = [] else \<exists>blk. emitted S F s1 = [blk] \<and> block_points S blk ps'"
    by (auto simp: col_ok_def)
  have "\<exists>pss'. list_all2 (block_points S) (emitted S F s1) pss' \<and> concat pss' = ps'"
  proof (cases "ps' = []")
    case False
    then show ?thesis using g(3) by (intro exI [of _ "[ps']"]) auto
  qed (use g(3) in simp)
  then obtain pss' where "list_all2 (block_points S) (emitted S F s1) pss'" "concat pss' = ps'" by blast
  moreover have "left_over s' = []" if "left_over s = []" "\<forall>v e. fst (ef_Write F v e)"
    using feed_total [OF assms(1) that(1) _ assms(4) f(1)] that(2) g(2) by simp
  ultimately show ?thesis using p(1,2) f(3) g(1,2) left_over_cases [of s']
    by (intro exI [of _ "pss @ pss'"]) (auto simp: list_all2_appendI col_ok_def)
qed

end

definition open_on :: "compressor \<Rightarrow> fileWriter \<Rightarrow> seg list \<Rightarrow> bool" where
  "open_on c w ss \<longleftrightarrow> (\<exists>m b blks. writer_ok c m w b blks \<and> content b blks = segs_bytes ss)"

definition flat_payload :: "bytes \<Rightarrow> bytes \<Rightarrow> bytes" where
  "flat_payload vd td = be_int64 (int (length vd)) @ vd @ td"

lemma flat_seg_ok:
  assumes "ca_Type ti \<noteq> ColumnTypeStructure" "sh_DataSize h = int (length vd + length td)" "length vd + length td < 2 ^ 61"
    "sh_Attribute h \<noteq> 0" "int64_range (sh_MinTime h)" "int64_range (sh_MaxTime h)"
  shows "seg_ok ti (h\<lparr>sh_DataSize := sh_DataSize h + 8\<rparr>, flat_payload vd td)"
    "seg_parsed ti (h\<lparr>sh_DataSize := sh_DataSize h + 8\<rparr>, flat_payload vd td) = (h\<lparr>sh_DataSize := sh_DataSize h + 8\<rparr>, td, vd)"
  using assms parseBlock_flat [of ti vd td]
  by (simp_all add: seg_ok_def seg_parsed_def flat_payload_def header_fits_def be_int64_def)

lemma index_ok_times [simp]: "index_ok (idx\<lparr>fi_MinTime := t\<rparr>) = index_ok idx" "index_ok (idx\<lparr>fi_MaxTime := t\<rparr>) = index_ok idx"
  by (cases "fi_tagBlocks idx"; simp add: index_ok_def)+

lemma note_index_Some:
  assumes "note_index ent iv sg = (beyond, sg')" "sg_index sg = Some idx" "index_ok idx"
  shows "sg_writer sg' = sg_writer sg \<and> (\<exists>idx'. sg_index sg' = Some idx' \<and> index_ok idx' \<and> fi_Blocks idx' = fi_Blocks idx @ [ent])"
  using assms by (auto simp: note_index_def GetIndex_def Let_def appendBlock_ok)

lemma append_block_ok:
  assumes w: "open_on c (sg_writer sg) ss" and idx: "sg_index sg = Some idx" "index_ok idx" and ti: "ca_Type (sc_tableInfo s) \<noteq> ColumnTypeStructure"
    and at: "nat (fl_activeIdx l) < length (fl_segments l)"
    and r: "append_block F now (h, td, vd) s sg l = Some ((None, False), s', l')"
  shows "\<exists>sg' idx'. fl_segments l' ! nat (fl_activeIdx l) = sg' \<and> sg_index sg' = Some idx' \<and> index_ok idx' \<and>
           open_on c (sg_writer sg') (ss @ [(h\<lparr>sh_DataSize := sh_DataSize h + 8\<rparr>, flat_payload vd td)]) \<and>
           fi_Blocks idx' = fi_Blocks idx @ [\<lparr>be_Attribute = sc_index s, be_MinTime = sh_MinTime h, be_MaxTime = sh_MaxTime h,
                                           be_Offset = int (length (segs_bytes ss)), be_DataSize = sh_DataSize h + 8\<rparr>]"
proof -
  obtain m b blks where o': "writer_ok c m (sg_writer sg) b blks" "content b blks = segs_bytes ss" using w by (auto simp: open_on_def)
  let ?h = "h\<lparr>sh_DataSize := sh_DataSize h + 8\<rparr>"
  let ?ps = "[encodeSegmentHeader ?h, be_put 8 (of_nat (length vd) :: u64), vd, td]"
  obtain w' b' blks' where p: "write_pieces ?ps (sg_writer sg) = Some (None, w')" "writer_ok c m w' b' blks'"
      "content b' blks' = content b blks @ concat ?ps"
    using write_pieces_ok [OF o'(1)] by blast
  have "content b' blks' = segs_bytes (ss @ [(?h, flat_payload vd td)])"
    using p(3) o'(2) by (simp add: seg_bytes_def flat_payload_def be_int64_def)
  then have op: "open_on c w' (ss @ [(?h, flat_payload vd td)])" using p(2) unfolding open_on_def by blast
  let ?ent = "\<lparr>be_Attribute = sc_index s, be_MinTime = sh_MinTime h, be_MaxTime = sh_MaxTime h,
               be_Offset = fw_Size (sg_writer sg), be_DataSize = sh_DataSize h + 8\<rparr>"
  obtain beyond sg2 where n: "note_index ?ent (sc_maxSegmentTimeInterval s) (sg\<lparr>sg_writer := w'\<rparr>) = (beyond, sg2)" by fastforce
  obtain idx' where i: "sg_writer sg2 = w'" "sg_index sg2 = Some idx'" "fi_Blocks idx' = fi_Blocks idx @ [?ent]" "index_ok idx'"
    using note_index_Some [OF n, of idx] idx by auto
  have "l' = map_segment (nat (fl_activeIdx l)) (\<lambda>_. sg2) l"
    using r p(1) n ti by (auto simp: append_block_def block_pieces_def Let_def split: if_splits prod.splits)
  then have "fl_segments l' ! nat (fl_activeIdx l) = sg2" using at by simp
  then show ?thesis using i op writer_ok_size [OF o'(1)] o'(2) by simp
qed

text \<open>A block that was appended and committed is read back from the offset of its index entry.\<close>

lemma open_on_read_back:
  assumes c: "block_compressor c" and w: "open_on c w (ss @ [blk])" and ok: "seg_ok ti blk"
  shows "\<exists>w'. fw_Commit w = (None, w') \<and> (length (fw_file w') < 2 ^ 34 \<longrightarrow>
           fst (ReadAt (int (length (segs_bytes ss))) ti (fw_file w') None (NewFileReader path c)) = Inr (Some (seg_parsed ti blk)))"
proof -
  obtain m b blks where o': "writer_ok c m w b blks" "content b blks = segs_bytes (ss @ [blk])" using w by (auto simp: open_on_def)
  obtain w' where w': "fw_Commit w = (None, w')" "stored c (fw_file w') (segs_bytes (ss @ [blk]))"
    using block_compressor.fw_Commit_ok [OF c o'(1)] o'(2) by auto
  have "fst (ReadAt (int (length (segs_bytes ss))) ti (fw_file w') None (NewFileReader path c)) = Inr (Some (seg_parsed ti blk))"
    if "length (fw_file w') < 2 ^ 34"
  proof -
    have rr: "reader_ready c (ss @ [blk]) (fw_file w') (NewFileReader path c)" using w'(2) that by (simp add: reader_ready_def NewFileReader_def)
    have "seg_offset (ss @ [blk]) (length ss) = length (segs_bytes ss)" by (simp add: seg_offset_def)
    then show ?thesis
      using block_compressor.ReadAt_ok [OF c rr, of None "length ss" ti] ok by (auto simp: cache_ready_def)
  qed
  then show ?thesis using w'(1) by blast
qed

end
