(* ===== verification/Column_Claims.thy ===== *)
theory Column_Claims
  imports Column_Props
begin

text \<open>
  Columns on the codecs of the development: a table of integers and a table of JSON values.
\<close>

section \<open>Instances of the contract\<close>

definition json_family :: "lz4_ops \<Rightarrow> 'v variant_ops \<Rightarrow> ('v, 'v JsonEncoder) encoder_family" where
  "json_family L V =
     \<lparr>ef_AdaptColumn = (\<lambda>_. NewJsonEncoder), ef_Boolean = NewJsonEncoder, ef_Float = (\<lambda>_. NewJsonEncoder), ef_Integer = NewJsonEncoder,
      ef_String = NewJsonEncoder, ef_Column = (\<lambda>_. NewJsonEncoder), ef_Json = NewJsonEncoder, ef_Write = JsonEncoder_Write,
      ef_Bytes = (\<lambda>e. (JsonEncoder_Bytes L V e, e)), ef_Reset = JsonEncoder_Reset\<rparr>"

definition json_decode :: "lz4_ops \<Rightarrow> 'v variant_ops \<Rightarrow> nat \<Rightarrow> bytes \<Rightarrow> 'v list option" where
  "json_decode L V n b = drain JsonDecoder_Next JsonDecoder_Read (Suc n) (JsonDecoder_SetBytes L V b NewJsonDecoder)"

interpretation json_column: column_encoder "json_family L V" ti "\<lambda>e vs. je_list e = vs" "json_decode L V" "\<lambda>v. v"
  "\<lambda>vs. lz4_law L \<and> json_ok V vs" for L :: lz4_ops and V :: "'v variant_ops" and ti
proof
  fix e e' :: "'v JsonEncoder" and v vs
  show "je_list (value_encoder (json_family L V) ti) = []"
    by (cases "ca_Type ti") (simp_all add: value_encoder_def json_family_def NewJsonEncoder_def)
  show "je_list (ef_Reset (json_family L V) e) = []" by (simp add: json_family_def JsonEncoder_Reset_def)
  show "je_list e = vs \<Longrightarrow> ef_Write (json_family L V) v e = (True, e') \<Longrightarrow> je_list e' = vs @ [v]"
    by (auto simp: json_family_def JsonEncoder_Write_def)
  show "je_list e = vs \<Longrightarrow> ef_Write (json_family L V) v e = (False, e') \<Longrightarrow> je_list e' = vs"
    by (simp add: json_family_def JsonEncoder_Write_def)
  show "je_list e = [] \<Longrightarrow> fst (ef_Write (json_family L V) v e)" by (simp add: json_family_def JsonEncoder_Write_def)
  assume e: "je_list e = vs" "vs \<noteq> []" "lz4_law L \<and> json_ok V vs"
  obtain items where "json_raw_items V vs = Some items" using json_raw_items_ok e(3) by blast
  moreover obtain z where "lz_Compress L (le_put 4 (of_nat (length vs) :: u32) @ the (json_raw_items V vs)) = Some z" "z \<noteq> []"
    using e(3) unfolding lz4_law_def by blast
  ultimately have b: "JsonEncoder_Bytes L V e = Some (jsonCompressed # z)" "1 < length (jsonCompressed # z)"
    using e(1) by (simp_all add: JsonEncoder_Bytes_def)
  have "json_stream (JsonDecoder_SetBytes L V (jsonCompressed # z) NewJsonDecoder) vs"
    using JsonEncoder_Bytes_stream [of L V vs e] e b(1) by auto
  then have "json_decode L V (length vs) (jsonCompressed # z) = Some (map (\<lambda>v. v) vs)"
    unfolding json_decode_def using json_codec.drain_stream by fastforce
  then show "\<exists>b. fst (ef_Bytes (json_family L V) e) = Some b \<and> 1 < length b \<and> json_decode L V (length vs) b = Some (map (\<lambda>v. v) vs)"
    using b by (auto simp: json_family_def)
qed

definition int_family :: "simple8b_ops \<Rightarrow> 'v variant_ops \<Rightarrow> ('v, IntegerEncoder) encoder_family" where
  "int_family S V =
     \<lparr>ef_AdaptColumn = (\<lambda>_. NewIntegerEncoder), ef_Boolean = NewIntegerEncoder, ef_Float = (\<lambda>_. NewIntegerEncoder), ef_Integer = NewIntegerEncoder,
      ef_String = NewIntegerEncoder, ef_Column = (\<lambda>_. NewIntegerEncoder), ef_Json = NewIntegerEncoder, ef_Write = IntegerEncoder_Write V,
      ef_Bytes = (\<lambda>e. (IntegerEncoder_Bytes S e, e)), ef_Reset = IntegerEncoder_Reset\<rparr>"

definition int_decode :: "simple8b_ops \<Rightarrow> 'v variant_ops \<Rightarrow> nat \<Rightarrow> bytes \<Rightarrow> 'v list option" where
  "int_decode S V n b = drain (IntegerDecoder_Next S) (IntegerDecoder_Read V) (Suc n) (IntegerDecoder_SetBytes b NewIntegerDecoder)"

text \<open>Until a value that is not an integer was written, the encoder stands for the values.\<close>

definition int_enc :: "'v variant_ops \<Rightarrow> IntegerEncoder \<Rightarrow> 'v list \<Rightarrow> bool" where
  "int_enc V e vs \<longleftrightarrow> (list_all (\<lambda>v. vt_AsInt64 V v \<noteq> None) vs \<longrightarrow> int_repr e (map (\<lambda>v. the (vt_AsInt64 V v)) vs))"

interpretation int_column: column_encoder "int_family S V" ti "int_enc V" "int_decode S V" "\<lambda>v. vt_NewInt64 V (the (vt_AsInt64 V v))"
  "\<lambda>vs. simple8b_law S \<and> length vs < 2 ^ 62 \<and> list_all (\<lambda>v. vt_AsInt64 V v \<noteq> None) vs" for S :: simple8b_ops and V :: "'v variant_ops" and ti
proof
  fix e e' :: IntegerEncoder and v and vs :: "'v list"
  show "int_enc V (value_encoder (int_family S V) ti) []"
    by (cases "ca_Type ti") (simp_all add: value_encoder_def int_family_def int_enc_def int_repr_New)
  have "IntegerEncoder_Reset e = NewIntegerEncoder" by (cases e) (simp add: IntegerEncoder_Reset_def NewIntegerEncoder_def)
  then show "int_enc V (ef_Reset (int_family S V) e) []" by (simp add: int_family_def int_enc_def int_repr_New)
  have w: "fst (IntegerEncoder_Write V v e)" by (simp add: IntegerEncoder_Write_def Let_def split: option.split)
  then show "fst (ef_Write (int_family S V) v e)" by (simp add: int_family_def)
  from w show "int_enc V e vs \<Longrightarrow> ef_Write (int_family S V) v e = (False, e') \<Longrightarrow> int_enc V e' vs" by (auto simp: int_family_def)
  show "int_enc V e vs \<Longrightarrow> ef_Write (int_family S V) v e = (True, e') \<Longrightarrow> int_enc V e' (vs @ [v])"
    using IntegerEncoder_Write_repr [of e "map (\<lambda>v. the (vt_AsInt64 V v)) vs" V v] by (auto simp: int_family_def int_enc_def)
  show "\<exists>b. fst (ef_Bytes (int_family S V) e) = Some b \<and> 1 < length b \<and>
          int_decode S V (length vs) b = Some (map (\<lambda>v. vt_NewInt64 V (the (vt_AsInt64 V v))) vs)"
    if en: "int_enc V e vs" "vs \<noteq> []" "simple8b_law S \<and> length vs < 2 ^ 62 \<and> list_all (\<lambda>v. vt_AsInt64 V v \<noteq> None) vs"
  proof -
    let ?xs = "map (\<lambda>v. the (vt_AsInt64 V v)) vs"
    have r: "int_repr e ?xs" using en by (simp add: int_enc_def)
    obtain b where b: "IntegerEncoder_Bytes S e = Some b" "int_stream S V (IntegerDecoder_SetBytes b NewIntegerDecoder) (map (vt_NewInt64 V) ?xs)"
      using IntegerEncoder_Bytes_stream [OF _ r, of S V] en(3) by auto
    have "ie_values e \<noteq> []" using r en(2) by (cases vs) (simp_all add: int_repr_def)
    then have "1 < length b" using b(1)
      by (auto simp: IntegerEncoder_Bytes_def int_encodeRLE_def int_encodeUncompressed_def int_encodePacked_def words_bytes_def
        split: if_splits list.splits option.splits)
    moreover have "int_decode S V (length vs) b = Some (map (vt_NewInt64 V) ?xs)"
      unfolding int_decode_def using int_codec.drain_stream [OF b(2), of "Suc (length vs)"] by simp
    ultimately show ?thesis using b(1) by (simp add: int_family_def comp_def)
  qed
qed


section \<open>Properties\<close>

lemma new_column_ok: "column_encoder.col_ok ti enc (newSSColumn V k (Some ti) mx iv) []" if "column_encoder F ti enc dec canon supported"
  using that by (simp add: column_encoder.col_ok_def column_encoder.buffers_def newSSColumn_def left_over_def)

lemma left_over_new [simp]: "left_over (newSSColumn V k ti mx iv) = []"
  by (simp add: left_over_def newSSColumn_def)

text \<open>Flushing a series of integers loses nothing: inside a transaction, opened on a list whose last segment is at
  rest or was kept open by the last commit, the flush of the points of a tag, with all the rotations to new segments it needs, succeeds; the blocks
  it wrote, whose times and values are read back by the decoders, hold exactly those points in the order given, and nothing stays behind in the column.\<close>

theorem flushed_series_is_complete:
  assumes "simple8b_law S" "block_compressor c" "list_ok l0" "fl_compressor l0 = c" "fl_segments l0 = front @ [sg]"
    "writer_ready c (sg_writer sg) xs"
    "list_all (\<lambda>(now, t, v). t \<noteq> 0 \<and> vt_AsInt64 V v \<noteq> None) es" "Suc (length es) < 2 ^ 62"
  shows "\<exists>l blks s' l' pss. OpenTransaction now0 l0 = (None, l) \<and>
           feed_all S V (int_family S V) es now (newSSColumn V k (Some ti) mx iv) l = Some (blks, s', l') \<and>
           list_all2 (\<lambda>(h, td, vd) ps. time_points S td (length ps) = Some (word_times ps) \<and>
               int_decode S V (length ps) vd = Some (map (\<lambda>(t, v). vt_NewInt64 V (the (vt_AsInt64 V v))) ps)) blks pss \<and>
           concat pss = map snd es \<and> left_over s' = []"
proof -
  let ?s = "newSSColumn V k (Some ti) mx iv :: ('a, IntegerEncoder) ssColumn"
  obtain l m where l: "OpenTransaction now0 l0 = (None, l)" "list_tx c front m l"
    using block_compressor.open_tx_list [OF assms(2-6)] by blast
  have c: "int_column.col_ok ti V ?s []" by (rule new_column_ok) (rule int_column.column_encoder_axioms)
  have t: "list_all (\<lambda>(now, t, v). t \<noteq> 0) es" using assms(7) by (auto simp: list_all_iff)
  have conv: "v \<in> snd ` set (map snd es) \<Longrightarrow> vt_AsInt64 V v \<noteq> None" for v using assms(7) by (force simp: list_all_iff)
  have sup: "simple8b_law S \<and> length (map snd qs) < 2 ^ 62 \<and> list_all (\<lambda>v. vt_AsInt64 V v \<noteq> None) (map snd qs)"
    if "sublist qs (left_over ?s @ map snd es)" for qs
  proof -
    have q: "set qs \<subseteq> set (map snd es)" "length qs \<le> length (map snd es)"
      using set_mono_sublist [OF that] sublist_length_le [OF that] by simp_all
    have "list_all (\<lambda>v. vt_AsInt64 V v \<noteq> None) (map snd qs)" using q(1) conv by (fastforce simp: list_all_iff)
    then show ?thesis using assms(1,8) q(2) by simp
  qed
  have total: "fst (ef_Write (int_family S V) v e)" for v e by (simp add: int_family_def IntegerEncoder_Write_def Let_def split: option.split)
  obtain blks s' l' where f: "feed_all S V (int_family S V) es now ?s l = Some (blks, s', l')"
    using int_column.feed_all_tx [OF c assms(2) l(2) assms(1) t assms(8) sup] by blast
  from int_column.feed_all_points [OF c list_tx_live [OF l(2)] assms(1) t assms(8) sup f] total
  obtain pss where p: "list_all2 (int_column.block_points S V S) blks pss" "concat pss = map snd es" "left_over s' = []"
    by auto
  have eq: "int_column.block_points S V S blk ps \<Longrightarrow> (case blk of (h, td, vd) \<Rightarrow> time_points S td (length ps) = Some (word_times ps) \<and>
      int_decode S V (length ps) vd = Some (map (\<lambda>(t, v). vt_NewInt64 V (the (vt_AsInt64 V v))) ps))" for blk ps
    by (auto simp: int_column.block_points_def comp_def case_prod_beta)
  show ?thesis using l(1) f list_all2_mono [OF p(1)] eq p(2,3)
    by (intro exI [of _ l] exI [of _ blks] exI [of _ s'] exI [of _ l'] exI [of _ pss]) (auto simp: case_prod_beta)
qed

lemma one_segment_rest:
  "fl_segments (BuildFragmentation [(5, [], None)] NoCompressor None) = [] @ [newFileSegment (segment_path 5) [] None 5 NoCompressor (Some newFileIndex)]"
  "fl_compressor (BuildFragmentation [(5, [], None)] NoCompressor None) = NoCompressor"
  "sg_writer (newFileSegment (segment_path 5) [] None 5 NoCompressor (Some newFileIndex)) = NewFileWriter [] NoCompressor"
  by (simp_all add: BuildFragmentation_def Let_def readIndexFile_def newFileSegment_def)

lemma one_segment_live: "list_live (BuildFragmentation [(5, [], None)] NoCompressor None)"
  using BuildFragmentation_shape(1) one_segment_rest(1) by (simp add: list_live_def)

theorem flushed_series_is_complete_witness:
  "\<exists>l blks s' l' pss. OpenTransaction 7 (BuildFragmentation [(5, [], None)] NoCompressor None) = (None, l) \<and>
     feed_all s8_sample sample_variant (int_family s8_sample sample_variant) [(8, 100, SInt 1), (8, 200, SInt 2)] 9
       (newSSColumn sample_variant 3 (Some (ColumnAttribute [] [] ColumnTypeInt 0 [])) 0 0) l = Some (blks, s', l') \<and>
     list_all2 (\<lambda>(h, td, vd) ps. time_points s8_sample td (length ps) = Some (word_times ps)) blks pss \<and>
     concat pss = [(100, SInt 1), (200, SInt 2)] \<and> left_over s' = []"
proof -
  have v: "list_all (\<lambda>(now, t, v). t \<noteq> 0 \<and> vt_AsInt64 sample_variant v \<noteq> None) [(8 :: int, 100 :: int, SInt 1), (8, 200, SInt 2)]" by simp
  have len: "Suc (length [(8 :: int, 100 :: int, SInt 1), (8, 200, SInt 2)]) < 2 ^ 62" by simp
  let ?l = "BuildFragmentation [(5, [], None)] NoCompressor None"
  have w: "writer_ready NoCompressor (sg_writer (newFileSegment (segment_path 5) [] None 5 NoCompressor (Some newFileIndex))) []"
    unfolding one_segment_rest(3) by (rule new_writer_ready)
  obtain l blks s' l' pss where "OpenTransaction 7 ?l = (None, l)"
     "feed_all s8_sample sample_variant (int_family s8_sample sample_variant) [(8, 100, SInt 1), (8, 200, SInt 2)] 9
       (newSSColumn sample_variant 3 (Some (ColumnAttribute [] [] ColumnTypeInt 0 [])) 0 0) l = Some (blks, s', l')"
     and p: "list_all2 (\<lambda>(h, td, vd) ps. time_points s8_sample td (length ps) = Some (word_times ps) \<and>
        int_decode s8_sample sample_variant (length ps) vd = Some (map (\<lambda>(t, v). vt_NewInt64 sample_variant (the (vt_AsInt64 sample_variant v))) ps)) blks pss"
     "concat pss = map snd [(8 :: int, 100 :: int, SInt 1), (8, 200, SInt 2)]" "left_over s' = []"
    using flushed_series_is_complete [OF s8_sample_law no_compressor.block_compressor_axioms BuildFragmentation_shape(1) one_segment_rest(2,1) w v len,
        of 7 9 3 "ColumnAttribute [] [] ColumnTypeInt 0 []" 0 0]
    by (elim exE conjE) (rule that)
  moreover have "list_all2 (\<lambda>(h, td, vd) ps. time_points s8_sample td (length ps) = Some (word_times ps)) blks pss"
    using p(1) by (rule list_all2_mono) auto
  ultimately show ?thesis using p(2,3) by auto
qed

definition write_all :: "'v variant_ops \<Rightarrow> ('v, 'e) encoder_family \<Rightarrow> (int \<times> 'v) list \<Rightarrow> ('v, 'e) ssColumn \<Rightarrow> ('v, 'e) ssColumn" where
  "write_all V F ps s = fold (\<lambda>(t, v) s. snd (sc_Write V F t v s)) ps s"

definition int_written :: "'v variant_ops \<Rightarrow> ('v, IntegerEncoder) ssColumn \<Rightarrow> (int \<times> 'v) list \<Rightarrow> bool" where
  "int_written V s ps \<longleftrightarrow> sc_preTms s = 0 \<and>
     (if sc_writeInitialized s then
        (\<exists>te ve. sc_tmsCompressor s = Some te \<and> sc_valueCompressor s = Some ve \<and> length (te_ts te) = length ps \<and>
           (ie_err ve \<longleftrightarrow> (\<exists>p \<in> set ps. vt_AsInt64 V (snd p) = None)))
      else sc_tmsCompressor s = None \<and> ps = [])"

lemma int_written_Write:
  assumes "int_written V s ps"
  shows "int_written V (snd (sc_Write V (int_family S V) t v s)) (ps @ [(t, v)])"
proof -
  define s1 where "s1 = (if sc_writeInitialized s then s else (ensureCompressors (int_family S V) s)\<lparr>sc_writeInitialized := True\<rparr>)"
  have new: "value_encoder (int_family S V) ti = NewIntegerEncoder" for ti
    by (cases "ca_Type ti") (simp_all add: value_encoder_def int_family_def)
  obtain te ve where s1: "sc_writeInitialized s1" "sc_preTms s1 = 0" "sc_tmsCompressor s1 = Some te" "sc_valueCompressor s1 = Some ve"
      "length (te_ts te) = length ps" "ie_err ve \<longleftrightarrow> (\<exists>p \<in> set ps. vt_AsInt64 V (snd p) = None)"
    using assms new by (cases "sc_writeInitialized s")
      (auto simp: int_written_def s1_def ensureCompressors_def NewTimeEncoder_def NewIntegerEncoder_def)
  obtain ve' where ve': "IntegerEncoder_Write V v ve = (True, ve')" "ie_err ve' \<longleftrightarrow> ie_err ve \<or> vt_AsInt64 V v = None"
    by (cases "vt_AsInt64 V v") (auto simp: IntegerEncoder_Write_def Let_def)
  have "snd (sc_Write V (int_family S V) t v s) = write_time t (s1\<lparr>sc_valueCompressor := Some ve'\<rparr>)"
    using s1 ve'(1) unfolding sc_Write_def s1_def [symmetric] by (simp add: Let_def write_value_def int_family_def)
  then show ?thesis using s1 ve'(2) by (auto simp: int_written_def write_time_def TimeEncoder_Write_def Let_def)
qed

lemma int_written_all: "int_written V s ps \<Longrightarrow> int_written V (write_all V (int_family S V) qs s) (ps @ qs)"
proof (induction qs arbitrary: s ps)
  case (Cons q qs)
  obtain t v where q: "q = (t, v)" by fastforce
  from Cons.IH [OF int_written_Write [OF Cons.prems, of S t v]] q show ?case by (simp add: write_all_def)
qed (simp add: write_all_def)

text \<open>\<^bold>\<open>C28\<close>: one value of the wrong type blocks the flush of the table: an integer column accepts a value that is not an integer, and from then on
  every attempt to write its block is an error, whatever else was written, so the flush is rolled back and the log, which still has the value, is tried again.\<close>

theorem mistyped_value_blocks_flush:
  assumes "\<exists>p \<in> set ps. vt_AsInt64 V (snd p) = None" "GetLastFragmentation l \<noteq> None"
  shows "\<exists>s'. glowWrite S (int_family S V) now (write_all V (int_family S V) ps (newSSColumn V k ti mx iv)) l = Some ((Some EncodeError, False), s', l)"
proof -
  let ?s = "write_all V (int_family S V) ps (newSSColumn V k ti mx iv)"
  have "int_written V (newSSColumn V k ti mx iv) []" by (simp add: int_written_def newSSColumn_def)
  from int_written_all [OF this, of S ps] have w: "int_written V ?s ps" by simp
  have init: "sc_writeInitialized ?s" using w assms(1) unfolding int_written_def by (metis empty_iff empty_set)
  then obtain te ve where c: "sc_tmsCompressor ?s = Some te" "sc_valueCompressor ?s = Some ve" "length (te_ts te) = length ps" "ie_err ve"
    using w assms(1) by (auto simp: int_written_def)
  obtain td te1 where td: "TimeEncoder_Bytes S te = (td, te1)" by fastforce
  have ne: "te_ts te \<noteq> []" using c(3) assms(1) by auto
  obtain s' where e: "encode_block S (int_family S V) te ve ?s = (Inl EncodeError, s')"
  proof (cases td)
    case None
    then show ?thesis using that td by (simp add: encode_block_def)
  next
    case (Some b)
    then have "1 < length b" using TimeEncoder_Bytes_long [OF ne, of S b] td by simp
    moreover have "fst (ef_Bytes (int_family S V) ve) = None" using c(4) by (simp add: int_family_def IntegerEncoder_Bytes_def)
    ultimately show ?thesis using that td Some by (simp add: encode_block_def Let_def int_family_def split: prod.split)
  qed
  obtain sg where "GetLastFragmentation l = Some sg" using assms(2) by blast
  moreover have "TimeEncoder_Length te \<noteq> 0" using ne by (simp add: TimeEncoder_Length_def)
  ultimately show ?thesis using c e by (simp add: glowWrite_def)
qed

theorem mistyped_value_blocks_flush_witness:
  "\<exists>s'. glowWrite s8_sample (int_family s8_sample sample_variant) 9
      (write_all sample_variant (int_family s8_sample sample_variant) [(1, SInt 5), (2, SString [7]), (3, SInt 6)] (newSSColumn sample_variant 3 None 0 0))
      (BuildFragmentation [(5, [], None)] NoCompressor None)
    = Some ((Some EncodeError, False), s', BuildFragmentation [(5, [], None)] NoCompressor None)"
  by (rule mistyped_value_blocks_flush) (use list_live_last [OF one_segment_live] in simp_all)

section \<open>A block and its index entry\<close>

text \<open>\<^bold>\<open>C12\<close>: what a column writes can be found again: when \<^verbatim>\<open>glowWrite\<close> has added a block to the segment being written, the last entry
  of the index of the segment names the offset of the block, and once the segment is committed a random read at that offset returns
  exactly the header, the times and the values that were encoded.\<close>

theorem appended_block_is_read_back:
  assumes "block_compressor c" "GetLastFragmentation l = Some sg" "open_on c (sg_writer sg) ss" "sg_index sg = Some idx" "index_ok idx"
    "ca_Type ti \<noteq> ColumnTypeStructure" "sc_tableInfo s = ti" "sc_index s \<noteq> 0" "sh_Attribute h = sc_index s"
    "sh_DataSize h = int (length vd + length td)" "length vd + length td < 2 ^ 61" "int64_range (sh_MinTime h)" "int64_range (sh_MaxTime h)"
    "append_block F now (h, td, vd) s sg l = Some ((None, False), s', l')"
  shows "\<exists>sg' idx' w. GetLastFragmentation l' = Some sg' \<and> sg_index sg' = Some idx' \<and> be_Attribute (last (fi_Blocks idx')) = sc_index s \<and>
           fw_Commit (sg_writer sg') = (None, w) \<and>
           (length (fw_file w) < 2 ^ 34 \<longrightarrow>
              fst (ReadAt (be_Offset (last (fi_Blocks idx'))) ti (fw_file w) None (NewFileReader path c)) =
                Inr (Some (h\<lparr>sh_DataSize := sh_DataSize h + 8\<rparr>, td, vd)))"
proof -
  let ?i = "nat (fl_activeIdx l)" and ?h = "h\<lparr>sh_DataSize := sh_DataSize h + 8\<rparr>"
  have at: "?i < length (fl_segments l)" "0 \<le> fl_activeIdx l" "fl_activeIdx l < int (length (fl_segments l))"
    using assms(2) by (auto simp: GetLastFragmentation_def split: if_splits)
  obtain sg' idx' where a: "fl_segments l' ! ?i = sg'" "sg_index sg' = Some idx'" "open_on c (sg_writer sg') (ss @ [(?h, flat_payload vd td)])"
      "fi_Blocks idx' = fi_Blocks idx @ [\<lparr>be_Attribute = sc_index s, be_MinTime = sh_MinTime h, be_MaxTime = sh_MaxTime h,
                                           be_Offset = int (length (segs_bytes ss)), be_DataSize = sh_DataSize h + 8\<rparr>]"
    using append_block_ok [OF assms(3-5) _ at(1) assms(14)] assms(6,7) by auto
  have l': "length (fl_segments l') = length (fl_segments l)" "fl_activeIdx l' = fl_activeIdx l"
    using assms(14) by (auto simp: append_block_def Let_def split: prod.splits option.splits if_splits)
  note seg = flat_seg_ok [OF assms(6,10,11) _ assms(12,13)]
  obtain w where "fw_Commit (sg_writer sg') = (None, w)" "length (fw_file w) < 2 ^ 34 \<longrightarrow>
      fst (ReadAt (int (length (segs_bytes ss))) ti (fw_file w) None (NewFileReader path c)) = Inr (Some (seg_parsed ti (?h, flat_payload vd td)))"
    using open_on_read_back [OF assms(1) a(3), of ti path] seg(1) assms(8,9) by auto
  moreover have "GetLastFragmentation l' = Some sg'" using a(1) l' at by (simp add: GetLastFragmentation_def)
  ultimately show ?thesis using a(2,4) seg(2) assms(8,9) by auto
qed

definition sample_column :: "(sample_value, sample_value JsonEncoder) ssColumn" where
  "sample_column = newSSColumn sample_variant 3 (Some (ColumnAttribute [] [] ColumnTypeJson 0 [])) 0 0"

definition sample_header :: SegmentHeader where
  "sample_header = \<lparr>sh_Attribute = 3, sh_MinTime = 100, sh_MaxTime = 200, sh_DataSize = 4, sh_Crc = 7\<rparr>"

text \<open>Pieces that fit the block buffer leave the size of the file alone.\<close>

lemma write_loop_small:
  "length (bf_buf b) + length p < bf_blockSize b \<Longrightarrow> write_loop f p b = Some (None, [], b\<lparr>bf_buf := bf_buf b @ p\<rparr>)"
  by (subst write_loop.simps) (auto simp: Let_def write_loop.simps [of _ "[]"])

lemma write_pieces_small:
  assumes "fw_bf w = Some b" "\<not> fw_closed w" "\<not> bf_closed b" "length (bf_buf b) + length (concat ps) < bf_blockSize b"
  shows "\<exists>w'. write_pieces ps w = Some (None, w') \<and> fw_PhysicalSize w' = PhysicalSize b"
  using assms
proof (induction ps arbitrary: w b)
  case Nil
  then show ?case by (simp add: fw_PhysicalSize_def)
next
  case (Cons p ps)
  let ?b = "(fw_at w b)\<lparr>bf_buf := bf_buf b @ p, bf_totalSize := bf_totalSize b + int (length p), bf_pos := bf_totalSize b + int (length p)\<rparr>"
  have "Write p (fw_at w b) = Some (None, length p, ?b)"
    using Cons.prems by (simp add: Write_def write_loop_small Let_def fw_at_def)
  then have w: "fw_Write p w = Some (None, length p, (fw_put ?b w)\<lparr>fw_writeOffset := fw_writeOffset w + int (length p)\<rparr>)"
    using Cons.prems by (simp add: fw_Write_def)
  have "\<exists>w'. write_pieces ps ((fw_put ?b w)\<lparr>fw_writeOffset := fw_writeOffset w + int (length p)\<rparr>) = Some (None, w') \<and> fw_PhysicalSize w' = PhysicalSize ?b"
    by (rule Cons.IH) (use Cons.prems in \<open>simp_all add: fw_put_def fw_at_def\<close>)
  then show ?case using w by (simp add: PhysicalSize_def fw_at_def)
qed

definition sample_list :: fileSegmentList where
  "sample_list = snd (OpenTransaction 7 (BuildFragmentation [(5, [], None)] NoCompressor None))"

lemma sample_list_last:
  "\<exists>sg b. GetLastFragmentation sample_list = Some sg \<and> sg_index sg = Some newFileIndex \<and> fw_bf (sg_writer sg) = Some b \<and> \<not> fw_closed (sg_writer sg) \<and>
     \<not> bf_closed b \<and> bf_buf b = [] \<and> bf_blockSize b = BlockSizeDef \<and> PhysicalSize b = 0"
  by (simp add: sample_list_def BuildFragmentation_def Let_def readIndexFile_def newFileSegment_def OpenTransaction_def GetLastFragmentation_def
      open_active_writer_def map_segment_def OpenWriter_def NewFileWriter_def open_new_eq bf_Seek_def
      initNew_def new_file_def writeHeader_def fw_put_def bf_Size_def BlockSizeDef_def HeaderSize_def PhysicalSize_def TxDone_def)

lemma sample_list_open:
  assumes "GetLastFragmentation sample_list = Some sg"
  shows "open_on NoCompressor (sg_writer sg) []"
proof -
  obtain w b m where w: "OpenWriter (NewFileWriter [] NoCompressor) = (None, w)" "writer_ok NoCompressor m w b m" "concat m = []"
    using block_compressor.OpenWriter_ok [OF no_compressor.block_compressor_axioms new_writer_stored] by blast
  have "sg_writer sg = w"
    using assms w(1) by (simp add: sample_list_def BuildFragmentation_def Let_def readIndexFile_def newFileSegment_def OpenTransaction_def
        GetLastFragmentation_def open_active_writer_def map_segment_def)
      auto
  moreover obtain b0 where "fw_bf (sg_writer sg) = Some b0" "bf_buf b0 = []" using sample_list_last assms by auto
  ultimately show ?thesis using w(2,3) by (auto simp: open_on_def content_def writer_ok_def)
qed

lemma sample_append:
  assumes "GetLastFragmentation sample_list = Some sg"
  shows "\<exists>s' l'. append_block (json_family lz4_sample sample_variant) 9 (sample_header, [8, 9], [4, 5]) sample_column sg sample_list =
           Some ((None, False), s', l')"
proof -
  obtain b where b: "sg_index sg = Some newFileIndex" "fw_bf (sg_writer sg) = Some b" "\<not> fw_closed (sg_writer sg)" "\<not> bf_closed b" "bf_buf b = []"
      "bf_blockSize b = BlockSizeDef" "PhysicalSize b = 0"
    using sample_list_last assms by auto
  obtain h ps where ps: "block_pieces (ColumnAttribute [] [] ColumnTypeJson 0 []) sample_header [4, 5] [8, 9] = (h, ps)" "length (concat ps) < 100"
    using that by (simp add: block_pieces_def segmentHeaderRawSize_def Let_def)
  obtain w where "write_pieces ps (sg_writer sg) = Some (None, w)" "fw_PhysicalSize w = 0"
    using write_pieces_small [OF b(2-4), of ps] b(5-7) ps(2) by (auto simp: BlockSizeDef_def)
  then show ?thesis using ps(1) b(1)
    by (simp add: append_block_def sample_column_def newSSColumn_def note_index_def GetIndex_def Let_def segmentTimeExceeded_def maxSegmentSize_def split: prod.split)
qed

theorem appended_block_is_read_back_witness:
  "\<exists>sg s' l' sg' idx' w. append_block (json_family lz4_sample sample_variant) 9 (sample_header, [8, 9], [4, 5]) sample_column sg sample_list =
       Some ((None, False), s', l') \<and> GetLastFragmentation l' = Some sg' \<and> sg_index sg' = Some idx' \<and>
     be_Attribute (last (fi_Blocks idx')) = 3 \<and> fw_Commit (sg_writer sg') = (None, w)"
proof -
  obtain sg where sg: "GetLastFragmentation sample_list = Some sg" "sg_index sg = Some newFileIndex" using sample_list_last by blast
  obtain s' l' where a: "append_block (json_family lz4_sample sample_variant) 9 (sample_header, [8, 9], [4, 5]) sample_column sg sample_list =
      Some ((None, False), s', l')"
    using sample_append [OF sg(1)] by blast
  from appended_block_is_read_back [OF no_compressor.block_compressor_axioms sg(1) sample_list_open [OF sg(1)] sg(2) newFileIndex_ok _ _ _ _ _ _ _ _ a,
      of "ColumnAttribute [] [] ColumnTypeJson 0 []" "[]"]
  show ?thesis using sg a by (force simp: sample_column_def newSSColumn_def sample_header_def)
qed

end
