(* ===== verification/Table.thy ===== *)
theory Table
  imports Column Table_Meta Wal "HOL-Library.Product_Lexorder"
begin

text \<open>
  The table, \<^verbatim>\<open>tsdb/table.go\<close>: the write-ahead log, the columns and the list of segments under one roof, and the flush that moves the points of
  the completed log files into segments.  The locks serialize the operations, so each is one function of the state.  Times of the clock are an
  argument: \<open>clk n\<close> is what \<^verbatim>\<open>time.Now\<close> returns at the \<open>n\<close>-th point of a flush.
\<close>

section \<open>The table\<close>

datatype table_error =
    ErrorWALCacheIsNil | ErrorValueIsEmpty | ErrorTimeOut | ErrorTagNotFound | ErrorNoDataForTag | ErrorQueryResultLimitExceeded
  | WalError wal_error | GlowError glow_error | ListError "seg_error list" | MetaError meta_error

record ('v, 'e) ssTable =
  tb_tableInfo :: TableInfo
  tb_Meta :: Meta
  tb_fragmentation :: fileSegmentList
  tb_columns :: "('v, 'e) ssColumn option list"
  tb_maxSegmentSize :: int
  tb_maxSegmentTimeInterval :: int
  tb_expirationMinuteTime :: int
  tb_maxStorageTime :: int
  tb_walFile :: "'v walFile"
  tb_flushEpoch :: u64
  tb_flushTouched :: "nat list"
  tb_asyncCleanup :: bool
  tb_asyncErr :: "table_error option"
  tb_maxQueryPoints :: int

definition validateWrite :: "('v \<Rightarrow> bool) \<Rightarrow> int \<Rightarrow> 'v \<Rightarrow> int \<Rightarrow> ('v, 'e) ssTable \<Rightarrow> table_error option" where
  "validateWrite isEmpty timestamp value now tb =
     (if isEmpty value then Some ErrorValueIsEmpty
      else if tb_maxStorageTime tb \<noteq> 0 \<and> wrap64 (now + tb_maxStorageTime tb) < timestamp then Some ErrorTimeOut
      else None)"

section \<open>One point of a flush\<close>

text \<open>What the closures of \<^verbatim>\<open>flushCache\<close> share: the table, the first error, the place of the last record read, how many points were seen; \<open>fr_fault\<close>
  is a panic (the column is nil) or a write that does not return.\<close>

record ('v, 'e) flush_run =
  fr_table :: "('v, 'e) ssTable"
  fr_processErr :: "table_error option"
  fr_lastReadFile :: int
  fr_lastReadOffset :: nat
  fr_seen :: nat
  fr_fault :: bool

definition put_column :: "nat \<Rightarrow> ('v, 'e) ssColumn \<Rightarrow> ('v, 'e) ssTable \<Rightarrow> ('v, 'e) ssTable" where
  "put_column i c tb = tb\<lparr>tb_columns := (tb_columns tb)[i := Some c]\<rparr>"

definition touch_column :: "u64 \<Rightarrow> nat \<Rightarrow> ('v, 'e) ssColumn \<Rightarrow> ('v, 'e) ssTable \<Rightarrow> ('v, 'e) ssColumn \<times> ('v, 'e) ssTable" where
  "touch_column epoch i column tb =
     (if sc_lastFlushEpoch column \<noteq> epoch then (column\<lparr>sc_lastFlushEpoch := epoch\<rparr>, tb\<lparr>tb_flushTouched := tb_flushTouched tb @ [i]\<rparr>)
      else (column, tb))"

definition processEntry ::
  "simple8b_ops \<Rightarrow> 'v variant_ops \<Rightarrow> ('v, 'e) encoder_family \<Rightarrow> (nat \<Rightarrow> int) \<Rightarrow> u64 \<Rightarrow> u32 \<Rightarrow> int \<Rightarrow> 'v \<Rightarrow> ('v, 'e) flush_run \<Rightarrow>
     bool \<times> ('v, 'e) flush_run" where
  "processEntry S V F clk epoch tag timestamp value r0 =
     (let tb = fr_table r0; i = unat tag - 1; r = r0\<lparr>fr_seen := Suc (fr_seen r0)\<rparr>
      in if tag = 0 \<or> unat tag > length (tb_columns tb) then (False, r\<lparr>fr_processErr := Some (WalError ErrorWALDataCorruption)\<rparr>)
         else
           (case tb_columns tb ! i of
              None \<Rightarrow> (False, r\<lparr>fr_fault := True\<rparr>)
            | Some column0 \<Rightarrow>
                (let (column, tb1) = touch_column epoch i column0 tb; (glowNot, c1) = sc_Write V F timestamp value column
                 in if glowNot then (True, r\<lparr>fr_table := put_column i c1 tb1\<rparr>)
                    else
                      (case glowWrite S F (clk (fr_seen r0)) c1 (tb_fragmentation tb1) of
                         None \<Rightarrow> (False, r\<lparr>fr_fault := True\<rparr>)
                       | Some ((err, rotated), c2, l) \<Rightarrow>
                           (err = None,
                            r\<lparr>fr_table := put_column i c2 (tb1\<lparr>tb_fragmentation := l\<rparr>), fr_processErr := map_option GlowError err\<rparr>)))))"

section \<open>Beginning and ending a flush\<close>

definition begin_epoch :: "('v, 'e) ssTable \<Rightarrow> ('v, 'e) ssTable" where
  "begin_epoch tb =
     (let e = tb_flushEpoch tb + 1
      in (if e = 0 then tb\<lparr>tb_columns := map (map_option (\<lambda>c. c\<lparr>sc_lastFlushEpoch := 0\<rparr>)) (tb_columns tb), tb_flushEpoch := 1\<rparr>
          else tb\<lparr>tb_flushEpoch := e\<rparr>)\<lparr>tb_flushTouched := []\<rparr>)"

definition rollbackTransaction :: "'v variant_ops \<Rightarrow> ('v, 'e) encoder_family \<Rightarrow> ('v, 'e) ssTable \<Rightarrow> seg_error list \<times> ('v, 'e) ssTable" where
  "rollbackTransaction V F tb =
     (let cols = fold (\<lambda>i cs. cs[i := map_option (sc_Reset V F) (cs ! i)]) (tb_flushTouched tb) (tb_columns tb);
          (errs, l) = RollbackLastCommitTransaction (tb_fragmentation tb)
      in (errs, tb\<lparr>tb_columns := cols, tb_fragmentation := l\<rparr>))"

text \<open>Encoding what is left in the columns that took part; the outer \<open>None\<close> is a write that does not return.\<close>

fun flush_rest ::
  "simple8b_ops \<Rightarrow> ('v, 'e) encoder_family \<Rightarrow> (nat \<Rightarrow> int) \<Rightarrow> nat list \<Rightarrow> ('v, 'e) ssTable \<Rightarrow> (table_error option \<times> ('v, 'e) ssTable) option" where
  "flush_rest S F clk [] tb = Some (None, tb)"
| "flush_rest S F clk (i # is) tb =
     (case tb_columns tb ! i of
        None \<Rightarrow> None
      | Some c \<Rightarrow>
          (case glowWrite S F (clk 0) c (tb_fragmentation tb) of
             None \<Rightarrow> None
           | Some ((Some e, rotated), c', l) \<Rightarrow> Some (Some (GlowError e), put_column i c' (tb\<lparr>tb_fragmentation := l\<rparr>))
           | Some ((None, rotated), c', l) \<Rightarrow> flush_rest S F (clk \<circ> Suc) is (put_column i c' (tb\<lparr>tb_fragmentation := l\<rparr>))))"

definition drop_consumed :: "'v wal_ops \<Rightarrow> nat \<Rightarrow> ('v, 'e) ssTable \<Rightarrow> ('v, 'e) ssTable" where
  "drop_consumed W consumed tb = tb\<lparr>tb_walFile := wal_truncate W (int consumed) (tb_walFile tb)\<rparr>"

definition end_flush ::
  "simple8b_ops \<Rightarrow> 'v variant_ops \<Rightarrow> ('v, 'e) encoder_family \<Rightarrow> 'v wal_ops \<Rightarrow> (nat \<Rightarrow> int) \<Rightarrow> nat \<Rightarrow> ('v, 'e) ssTable \<Rightarrow>
     (table_error option \<times> ('v, 'e) ssTable) option" where
  "end_flush S V F W clk consumed tb =
     (if tb_flushTouched tb = [] then
        (case rollbackTransaction V F tb of
           ([], tb') \<Rightarrow> Some (None, drop_consumed W consumed tb')
         | (errs, tb') \<Rightarrow> Some (Some (ListError errs), tb'))
      else
        (case flush_rest S F clk (tb_flushTouched tb) tb of
           None \<Rightarrow> None
         | Some (Some e, tb') \<Rightarrow> Some (Some e, snd (rollbackTransaction V F tb'))
         | Some (None, tb') \<Rightarrow>
             (case CommitTransactionFileSegment (tb_fragmentation tb') of
                ([], l) \<Rightarrow> Some (None, drop_consumed W consumed (tb'\<lparr>tb_fragmentation := l\<rparr>))
              | (errs, l) \<Rightarrow> Some (Some (ListError errs), snd (rollbackTransaction V F (tb'\<lparr>tb_fragmentation := l\<rparr>))))))"

definition repairReadError :: "nat \<Rightarrow> int \<Rightarrow> nat \<Rightarrow> wal_error \<Rightarrow> ('v, 'e) ssTable \<Rightarrow> table_error option \<times> ('v, 'e) ssTable" where
  "repairReadError consumed lastReadFile lastReadOffset readErr tb =
     (Some (WalError readErr),
      tb\<lparr>tb_walFile := retainWalFilePrefix consumed (if lastReadFile = int consumed then lastReadOffset else 0) (tb_walFile tb)\<rparr>)"

section \<open>The flush\<close>

text \<open>The points in the order they are written: by tag and time when some file is not in order, else as they are in the files.\<close>

definition sort_entries :: "'v wal_item list \<Rightarrow> 'v wal_item list" where
  "sort_entries = sort_key (\<lambda>(tag, timestamp, value). (tag, timestamp))"

definition flush_sorted ::
  "simple8b_ops \<Rightarrow> 'v variant_ops \<Rightarrow> ('v, 'e) encoder_family \<Rightarrow> 'v wal_ops \<Rightarrow> (nat \<Rightarrow> int) \<Rightarrow> nat \<Rightarrow> 'v wal_item list \<Rightarrow> ('v, 'e) ssTable \<Rightarrow>
     (table_error option \<times> ('v, 'e) ssTable) option" where
  "flush_sorted S V F W clk consumed entries tb =
     (let (_, r) = each_until (\<lambda>(k, t, v). processEntry S V F clk (tb_flushEpoch tb) k t v) entries
                     \<lparr>fr_table = tb, fr_processErr = None, fr_lastReadFile = -1, fr_lastReadOffset = 0, fr_seen = 0, fr_fault = False\<rparr>
      in if fr_fault r then None
         else
           (case fr_processErr r of
              Some e \<Rightarrow> Some (Some e, snd (rollbackTransaction V F (fr_table r)))
            | None \<Rightarrow> end_flush S V F W (\<lambda>n. clk (fr_seen r + n)) consumed (fr_table r)))"

definition flush_streamed ::
  "simple8b_ops \<Rightarrow> 'v variant_ops \<Rightarrow> ('v, 'e) encoder_family \<Rightarrow> 'v wal_ops \<Rightarrow> (nat \<Rightarrow> int) \<Rightarrow> nat \<Rightarrow> ('v, 'e) ssTable \<Rightarrow>
     (table_error option \<times> ('v, 'e) ssTable) option" where
  "flush_streamed S V F W clk completeCount tb =
     (let (consumed, readErr, r) =
            forEachCompleteFile W (int completeCount)
              (\<lambda>i k t v off r. processEntry S V F clk (tb_flushEpoch tb) k t v (r\<lparr>fr_lastReadFile := int i, fr_lastReadOffset := off\<rparr>))
              (tb_walFile tb)
              \<lparr>fr_table = tb, fr_processErr = None, fr_lastReadFile = -1, fr_lastReadOffset = 0, fr_seen = 0, fr_fault = False\<rparr>
      in if fr_fault r then None
         else
           (case (fr_processErr r, readErr) of
              (Some e, _) \<Rightarrow> Some (Some e, snd (rollbackTransaction V F (fr_table r)))
            | (None, Some e) \<Rightarrow>
                (case rollbackTransaction V F (fr_table r) of
                   ([], tb') \<Rightarrow> Some (repairReadError consumed (fr_lastReadFile r) (fr_lastReadOffset r) e tb')
                 | (errs, tb') \<Rightarrow> Some (Some (ListError errs), tb'))
            | (None, None) \<Rightarrow> end_flush S V F W (\<lambda>n. clk (fr_seen r + n)) consumed (fr_table r)))"

definition begin_flush :: "int \<Rightarrow> ('v, 'e) ssTable \<Rightarrow> table_error option \<times> ('v, 'e) ssTable" where
  "begin_flush now tb =
     (case OpenTransaction now (tb_fragmentation tb) of
        (Some e, l) \<Rightarrow> (Some (ListError [e]), tb\<lparr>tb_fragmentation := l\<rparr>)
      | (None, l) \<Rightarrow> (None, begin_epoch (tb\<lparr>tb_fragmentation := l\<rparr>)))"

definition flushCache ::
  "simple8b_ops \<Rightarrow> 'v variant_ops \<Rightarrow> ('v, 'e) encoder_family \<Rightarrow> 'v wal_ops \<Rightarrow> int \<Rightarrow> (nat \<Rightarrow> int) \<Rightarrow> ('v, 'e) ssTable \<Rightarrow>
     (table_error option \<times> ('v, 'e) ssTable) option" where
  "flushCache S V F W now clk tb0 =
     (let tb = tb0\<lparr>tb_walFile := snd (wal_FlushPending (tb_walFile tb0))\<rparr>; (completeCount, needsSort) = completeFileState (tb_walFile tb)
      in if completeCount = 0 then Some (None, tb)
         else if needsSort then
           (case forEachCompleteFile W (int completeCount) (\<lambda>i k t v off (es, lf, lo). (True, (es @ [(k, t, v)], int i, off))) (tb_walFile tb) ([], -1, 0) of
              (consumed, Some e, (entries, lf, lo)) \<Rightarrow> Some (repairReadError consumed lf lo e tb)
            | (consumed, None, (entries, lf, lo)) \<Rightarrow>
                if entries = [] then Some (None, drop_consumed W consumed tb)
                else
                  (case begin_flush now tb of
                     (Some e, tb1) \<Rightarrow> Some (Some e, tb1)
                   | (None, tb1) \<Rightarrow> flush_sorted S V F W clk consumed (sort_entries entries) tb1))
         else
           (case begin_flush now tb of
              (Some e, tb1) \<Rightarrow> Some (Some e, tb1)
            | (None, tb1) \<Rightarrow> flush_streamed S V F W clk completeCount tb1))"

section \<open>Draining the log\<close>

definition flushAndCleanup ::
  "simple8b_ops \<Rightarrow> 'v variant_ops \<Rightarrow> ('v, 'e) encoder_family \<Rightarrow> 'v wal_ops \<Rightarrow> int \<Rightarrow> (nat \<Rightarrow> int) \<Rightarrow> int \<Rightarrow> ('v, 'e) ssTable \<Rightarrow>
     (table_error option \<times> ('v, 'e) ssTable) option" where
  "flushAndCleanup S V F W now clk later tb =
     (case flushCache S V F W now clk tb of
        None \<Rightarrow> None
      | Some (Some e, tb') \<Rightarrow> Some (Some e, tb')
      | Some (None, tb') \<Rightarrow>
          Some (None,
            if \<not> tb_asyncCleanup tb' \<and> tb_expirationMinuteTime tb' \<noteq> 0
            then tb'\<lparr>tb_fragmentation := fl_Remove (wrap64 (later - tb_expirationMinuteTime tb')) (tb_fragmentation tb')\<rparr>
            else tb'))"

text \<open>The loop of \<^verbatim>\<open>flushBlocking\<close> and of the background flush; it might go on for ever, then there is no value.\<close>

partial_function (option) drain_log ::
  "simple8b_ops \<Rightarrow> 'v variant_ops \<Rightarrow> ('v, 'e) encoder_family \<Rightarrow> 'v wal_ops \<Rightarrow> (nat \<Rightarrow> int \<times> (nat \<Rightarrow> int) \<times> int) \<Rightarrow> ('v, 'e) ssTable \<Rightarrow>
     (table_error option \<times> ('v, 'e) ssTable) option" where
  "drain_log S V F W clks tb =
     (if \<not> NeedFlush (tb_walFile tb) then Some (None, tb)
      else
        (case clks 0 of (now, clk, later) \<Rightarrow>
           Option.bind (flushAndCleanup S V F W now clk later tb)
             (\<lambda>(e, tb'). if e \<noteq> None then Some (e, tb') else drain_log S V F W (clks \<circ> Suc) tb')))"

definition flushBlocking ::
  "simple8b_ops \<Rightarrow> 'v variant_ops \<Rightarrow> ('v, 'e) encoder_family \<Rightarrow> 'v wal_ops \<Rightarrow> (nat \<Rightarrow> int \<times> (nat \<Rightarrow> int) \<times> int) \<Rightarrow> ('v, 'e) ssTable \<Rightarrow>
     (table_error option \<times> ('v, 'e) ssTable) option" where
  "flushBlocking S V F W clks tb =
     (case tb_asyncErr tb of Some e \<Rightarrow> Some (Some e, tb) | None \<Rightarrow> drain_log S V F W clks tb)"

text \<open>\<^verbatim>\<open>maybeFlush\<close> with the lock free: inline, or the goroutine it starts.\<close>

definition maybeFlush_inline ::
  "simple8b_ops \<Rightarrow> 'v variant_ops \<Rightarrow> ('v, 'e) encoder_family \<Rightarrow> 'v wal_ops \<Rightarrow> int \<Rightarrow> (nat \<Rightarrow> int) \<Rightarrow> int \<Rightarrow> ('v, 'e) ssTable \<Rightarrow>
     (table_error option \<times> ('v, 'e) ssTable) option" where
  "maybeFlush_inline S V F W now clk later tb =
     (if \<not> NeedFlush (tb_walFile tb) then Some (None, tb) else flushAndCleanup S V F W now clk later tb)"

definition maybeFlush_background ::
  "simple8b_ops \<Rightarrow> 'v variant_ops \<Rightarrow> ('v, 'e) encoder_family \<Rightarrow> 'v wal_ops \<Rightarrow> (nat \<Rightarrow> int \<times> (nat \<Rightarrow> int) \<times> int) \<Rightarrow> ('v, 'e) ssTable \<Rightarrow>
     ('v, 'e) ssTable option" where
  "maybeFlush_background S V F W clks tb =
     map_option (\<lambda>(e, tb'). if e = None then tb' else tb'\<lparr>tb_asyncErr := e\<rparr>) (drain_log S V F W clks tb)"

definition cleanupExpired :: "int \<Rightarrow> ('v, 'e) ssTable \<Rightarrow> ('v, 'e) ssTable" where
  "cleanupExpired now tb = tb\<lparr>tb_fragmentation := fl_Remove (wrap64 (now - tb_expirationMinuteTime tb)) (tb_fragmentation tb)\<rparr>"

end
