(* ===== verification/Flush_Content.thy ===== *)
theory Flush_Content
  imports Column_Props Table
begin

text \<open>
  What the data files of a transaction hold: the bytes of every segment of the transaction are tracked while blocks are appended, segments added and
  the transaction committed.
\<close>

section \<open>The content of a writer\<close>

definition writer_holds :: "compressor \<Rightarrow> fileWriter \<Rightarrow> bytes \<Rightarrow> bool" where
  "writer_holds c w xs \<longleftrightarrow>
     (\<exists>m b blks. writer_ok c m w b blks \<and> content b blks = xs) \<or>
     fw_bf w = None \<and> fw_closed w \<and> fw_compressor w = c \<and> stored c (fw_file w) xs"

lemma writer_holds_open: "open_tx c m w \<Longrightarrow> writer_holds c w xs \<Longrightarrow> \<exists>m b blks. writer_ok c m w b blks \<and> content b blks = xs"
  by (auto simp: writer_holds_def open_tx_def writer_ok_def)

lemma writer_holds_pieces:
  assumes "open_tx c m w" "writer_holds c w xs" "write_pieces ps w = Some (None, w')"
  shows "writer_holds c w' (xs @ concat ps)"
proof -
  obtain m b blks where "writer_ok c m w b blks" "content b blks = xs" using writer_holds_open [OF assms(1,2)] by blast
  then show ?thesis using write_pieces_ok [of c m w b blks ps] assms(3) by (auto simp: writer_holds_def)
qed

context block_compressor
begin

lemma writer_holds_cleanup:
  assumes "open_tx c m w" "writer_holds c w xs" "Cleanup w = (e, w')"
  shows "writer_holds c w' xs"
proof -
  obtain m b blks where "writer_ok c m w b blks" "content b blks = xs" using writer_holds_open [OF assms(1,2)] by blast
  then show ?thesis using Cleanup_ok [of m w b blks] assms(3) by (auto simp: writer_holds_def)
qed

lemma writer_holds_commit:
  assumes "writer_holds c w xs"
  shows "stored c (fw_file (snd (fw_Commit w))) xs \<and> writer_holds c (snd (fw_Commit w)) xs \<and> fst (fw_Commit w) = None"
proof (cases "fw_bf w = None")
  case True
  then show ?thesis using assms by (auto simp: writer_holds_def writer_ok_def fw_Commit_def)
next
  case False
  then obtain m b blks where "writer_ok c m w b blks" "content b blks = xs" using assms by (auto simp: writer_holds_def)
  then show ?thesis using fw_Commit_ok [of m w b blks] by (auto simp: writer_holds_def)
qed

end

section \<open>The content of a transaction\<close>

definition tx_data :: "compressor \<Rightarrow> fileSegment list \<Rightarrow> fileSegmentList \<Rightarrow> bytes list \<Rightarrow> bool" where
  "tx_data c front l dss \<longleftrightarrow> length (fl_segments l) = length front + length dss \<and>
     (\<forall>i < length dss. writer_holds c (sg_writer (fl_segments l ! (length front + i))) (dss ! i))"

lemma tx_data_last:
  assumes "list_tx c front m l" "tx_data c front l dss"
  shows "dss \<noteq> [] \<and> writer_holds c (sg_writer (last (fl_segments l))) (last dss)"
proof -
  have ne: "dss \<noteq> []" using assms by (auto simp: list_tx_def tx_data_def)
  then have "writer_holds c (sg_writer (fl_segments l ! (length front + (length dss - 1)))) (dss ! (length dss - 1))"
    using assms(2) by (simp add: tx_data_def)
  moreover have "length front + (length dss - 1) = length (fl_segments l) - 1"
    using assms(2) ne by (cases dss) (simp_all add: tx_data_def)
  ultimately show ?thesis using ne list_tx_last [OF assms(1)] by (simp add: last_conv_nth)
qed

lemma tx_data_replace:
  assumes l: "list_tx c front m l" and d: "tx_data c front l dss" and w: "writer_holds c (sg_writer s) xs"
    and l': "fl_segments l' = (fl_segments l)[length (fl_segments l) - 1 := s]"
  shows "tx_data c front l' (butlast dss @ [xs])"
proof -
  have ne: "dss \<noteq> []" "length (fl_segments l) = length front + length dss" using tx_data_last [OF l d] d by (auto simp: tx_data_def)
  have "writer_holds c (sg_writer (fl_segments l' ! (length front + i))) ((butlast dss @ [xs]) ! i)" if i: "i < length dss" for i
  proof (cases "i = length dss - 1")
    case True
    then have "length front + i = length (fl_segments l) - 1" "i = length (butlast dss)" using ne i by (cases dss; simp)+
    then show ?thesis using w l' ne by (simp add: nth_append)
  next
    case False
    then have "i < length dss - 1" "length front + i \<noteq> length (fl_segments l) - 1" using i ne by auto
    then show ?thesis using d l' i by (simp add: tx_data_def nth_append nth_butlast)
  qed
  then show ?thesis using l' ne by (simp add: tx_data_def)
qed

context block_compressor
begin

lemma open_tx_data:
  assumes "list_ok l" "fl_compressor l = c" "fl_segments l = front @ [s]" "writer_ready c (sg_writer s) xs"
  shows "\<exists>l1 m. OpenTransaction now l = (None, l1) \<and> list_tx c front m l1 \<and> concat m = xs \<and> tx_data c front l1 [xs] \<and>
           fl_segments l1 = front @ [s\<lparr>sg_writer := snd (OpenWriter (sg_writer s))\<rparr>]"
proof -
  obtain l1 m where l1: "OpenTransaction now l = (None, l1)" "list_tx c front m l1" "concat m = xs" using open_tx_list [OF assms] by blast
  obtain w b blks where w: "OpenWriter (sg_writer s) = (None, w)" "writer_ok c blks w b blks" "content b blks = xs"
    using OpenWriter_ready [OF assms(4)] by blast
  have "fl_activeIdx l = int (length front)" using assms(1,3) by (simp add: list_ok_def)
  then have "fl_segments l1 = front @ [s\<lparr>sg_writer := w\<rparr>]"
    using l1(1) w(1) assms(3) by (auto simp: OpenTransaction_def open_active_writer_def Let_def)
  moreover have "writer_holds c w xs" using w(2,3) by (auto simp: writer_holds_def)
  ultimately show ?thesis using l1 w(1) by (auto simp: tx_data_def)
qed

lemma next_tx_data:
  assumes l: "list_tx c front m l" and d: "tx_data c front l dss"
  shows "tx_data c front (snd (AddTransactionSegment now l)) (dss @ [[]])"
proof -
  note ne = list_tx_last [OF l]
  let ?n = "length (fl_segments l)" and ?s = "last (fl_segments l)"
  have n: "length front < ?n" "fl_openStart l = int (length front)" "fl_activeIdx l = int ?n - 1" "fl_compressor l = c"
    using l by (simp_all add: list_tx_def)
  obtain m' where m': "open_tx c m' (sg_writer ?s)" using l by (auto simp: list_tx_def)
  obtain w where w: "Cleanup (sg_writer ?s) = (None, w)" using open_tx_cleanup [OF m'] by (metis prod.collapse)
  have hw: "writer_holds c w (last dss)" using writer_holds_cleanup [OF m' _ w] tx_data_last [OF l d] by blast
  obtain w2 b blks where w2: "OpenWriter (NewFileWriter [] c) = (None, w2)" "writer_ok c blks w2 b blks" "content b blks = []"
    using OpenWriter_ok [OF new_writer_stored] by blast
  define l1 where "l1 = map_segment (?n - 1) (\<lambda>s. s\<lparr>sg_writer := w\<rparr>) l"
  have l1: "fl_segments l1 = (fl_segments l)[?n - 1 := ?s\<lparr>sg_writer := w\<rparr>]" "fl_compressor l1 = c" using ne n by (simp_all add: l1_def)
  have d1: "tx_data c front l1 dss" using tx_data_replace [OF l d _ l1(1), of "last dss"] hw tx_data_last [OF l d] by simp
  have "snd (AddTransactionSegment now l) = snd (open_active_writer (add_segment now l1))"
    using n ne w by (simp add: AddTransactionSegment_def Let_def l1_def)
  then have segs: "fl_segments (snd (AddTransactionSegment now l)) = fl_segments l1 @ [(fresh_segment now l1)\<lparr>sg_writer := w2\<rparr>]"
    using l1 w2(1) by (simp add: open_active_writer_def Let_def nth_append list_update_append)
  have "writer_holds c w2 []" using w2 by (auto simp: writer_holds_def)
  then show ?thesis using d1 by (auto simp: tx_data_def segs nth_append less_Suc_eq)
qed

lemma commit_tx_data:
  assumes l: "list_tx c front m l" and d: "tx_data c front l dss"
  shows "\<exists>l'. CommitTransactionFileSegment l = ([], l') \<and> list_tx c front m l' \<and> tx_data c front l' dss \<and>
           (\<forall>i < length dss. stored c (fw_file (sg_writer (fl_segments l' ! (length front + i)))) (dss ! i)) \<and>
           writer_ready c (sg_writer (last (fl_segments l'))) (last dss)"
proof -
  obtain errs l' where f: "fold (\<lambda>i. transaction_step sg_Commit i) (transaction_range l) ([], l) = (errs, l')" by fastforce
  note fields = transaction_fold [OF transaction_range_ok f]
  have n: "fl_openStart l = int (length front)" "fl_activeIdx l = int (length (fl_segments l)) - 1" "length (fl_segments l) = length front + length dss"
    using l d by (simp_all add: list_tx_def tx_data_def)
  then have rng: "set (transaction_range l) = {length front..<length (fl_segments l)}" by (auto simp: transaction_range_def)
  have wr: "sg_writer (snd (sg_Commit s)) = snd (fw_Commit (sg_writer s))" "fst (sg_Commit s) = fst (fw_Commit (sg_writer s))" for s
    by (simp_all add: sg_Commit_def case_prod_beta)
  have at: "fl_segments l' ! (length front + i) = snd (sg_Commit (fl_segments l ! (length front + i)))" if "i < length dss" for i
    using that fields rng n(3) by simp
  have hold: "writer_holds c (sg_writer (fl_segments l ! (length front + i))) (dss ! i)" if "i < length dss" for i
    using d that by (simp add: tx_data_def)
  have "fst (sg_Commit (fl_segments l ! j)) = None" if "j \<in> set (transaction_range l)" for j
    using that rng n(3) writer_holds_commit [OF hold [of "j - length front"]] wr(2) by auto
  then have errs: "errs = []" using fields by blast
  have "CommitTransactionFileSegment l = ([], l')" using f errs n(1) by (simp add: CommitTransactionFileSegment_def)
  moreover have "list_tx c front m l'" using list_tx_fold [OF l f] .
  moreover have "tx_data c front l' dss" using at writer_holds_commit [OF hold] wr(1) fields n(3) by (simp add: tx_data_def)
  moreover have "writer_ready c (sg_writer (last (fl_segments l'))) (last dss)"
  proof -
    have ne: "dss \<noteq> []" and h: "writer_holds c (sg_writer (last (fl_segments l))) (last dss)" using tx_data_last [OF l d] by simp_all
    obtain m' where "open_tx c m' (sg_writer (last (fl_segments l)))" using l by (auto simp: list_tx_def)
    then obtain m2 b blks where "writer_ok c m2 (sg_writer (last (fl_segments l))) b blks" "content b blks = last dss"
      using writer_holds_open h by blast
    then have "writer_ready c (snd (fw_Commit (sg_writer (last (fl_segments l))))) (last dss)"
      using writer_ready_committed by (metis prod.collapse)
    moreover have len: "length (fl_segments l) - 1 = length front + (length dss - 1)" "length (fl_segments l') = length (fl_segments l)"
      "0 < length (fl_segments l)" using n(3) ne fields by (cases dss; simp)+
    then have "last (fl_segments l) = fl_segments l ! (length front + (length dss - 1))"
      "last (fl_segments l') = fl_segments l' ! (length front + (length dss - 1))"
      by (metis last_conv_nth length_greater_0_conv)+
    ultimately show ?thesis using at [of "length dss - 1"] ne wr(1) by simp
  qed
  ultimately show ?thesis using at writer_holds_commit [OF hold] wr(1) by auto
qed

end

end
