(* ===== verification/Flush_Props.thy ===== *)
theory Flush_Props
  imports Flush_Content Column_Claims Wal_Claims
begin

text \<open>
  What a flush of the table does: every point of the completed log files ends up in a block of its series, in order, and the blocks are in the
  data files of the transaction.
\<close>

section \<open>Walking the log with an invariant\<close>

lemma each_until_walk:
  assumes step: "\<And>dn e post s. all = dn @ e # post \<Longrightarrow> P dn s \<Longrightarrow> \<exists>s'. f e s = (True, s') \<and> P (dn @ [e]) s'"
  shows "all = dn @ es @ post \<Longrightarrow> P dn s \<Longrightarrow> \<exists>s'. each_until f es s = (True, s') \<and> P (dn @ es) s'"
proof (induction es arbitrary: dn s)
  case (Cons e es)
  obtain s1 where s1: "f e s = (True, s1)" "P (dn @ [e]) s1" using step [of dn e "es @ post" s] Cons.prems by auto
  then show ?case using Cons.IH [of "dn @ [e]" s1] Cons.prems(1) by auto
qed simp

lemma forEachWalFile_walk:
  assumes law: "wal_law W"
    and step: "\<And>dn k t v post s off. all = dn @ (k, t, v) # post \<Longrightarrow> P dn s \<Longrightarrow> \<exists>s'. fc k t v off s = (True, s') \<and> P (dn @ [(k, t, v)]) s'"
  shows "list_all (item_fits W) its \<Longrightarrow> drop pos d = wal_log W its \<Longrightarrow> all = dn @ its @ post \<Longrightarrow> P dn s \<Longrightarrow>
    \<exists>s'. forEachWalFile W fc d pos s = (None, s') \<and> P (dn @ its) s'"
proof (induction its arbitrary: pos s dn)
  case Nil
  then show ?case by (subst forEachWalFile.simps) simp
next
  case (Cons it its)
  obtain k t v where it: "it = (k, t, v)" by (cases it)
  have at: "drop pos d = wal_record W k t v @ wal_log W its" using Cons.prems(2) by (simp add: it)
  obtain s1 where s1: "fc k t v (pos + length (wal_record W k t v)) s = (True, s1)" "P (dn @ [it]) s1"
    using step [of dn k t v "its @ post" s] Cons.prems(3,4) it by auto
  then show ?case
    using forEachWalFile_step [OF law _ at, of fc s] Cons.IH [OF _ drop_past [OF at], of "dn @ [it]" s1] Cons.prems(1,3) by (simp add: it)
qed

lemma visit_files_walk:
  assumes law: "wal_law W"
    and step: "\<And>dn i k t v post s off. all = dn @ (k, t, v) # post \<Longrightarrow> P dn s \<Longrightarrow> \<exists>s'. fc i k t v off s = (True, s') \<and> P (dn @ [(k, t, v)]) s'"
  shows "list_all2 (\<lambda>f its. file_bytes (wf_fileName f) (ws_dir ws) = Some (wal_log W its) \<and> list_all (item_fits W) its \<and>
       file_repr W (wc_CloseBuffer (ws_config ws)) f its) fs ls \<Longrightarrow> all = dn @ concat ls @ post \<Longrightarrow> P dn s \<Longrightarrow>
     \<exists>s'. visit_files W fc ws i fs s = (i + length fs, None, s') \<and> P (dn @ concat ls) s'"
proof (induction fs ls arbitrary: i s dn rule: list_all2_induct)
  case (Cons f fs its ls)
  have all: "all = dn @ its @ concat ls @ post" using Cons.prems(1) by simp
  show ?case
  proof (cases "wc_CloseBuffer (ws_config ws)")
    case True
    let ?fc = "\<lambda>k t v off (stopped, s). (let (go, s') = fc i k t v off s in (go, (\<not> go, s')))"
    have stepf: "\<exists>s'. ?fc k t v off s = (True, s') \<and> \<not> fst s' \<and> P (dn @ [(k, t, v)]) (snd s')"
      if "all = dn @ (k, t, v) # post" "\<not> fst s \<and> P dn (snd s)" for dn k t v post s off
      using step [OF that(1), of "snd s" i off] that(2) by (cases s) auto
    have "\<exists>s'. forEachWalFile W ?fc (wal_log W its) 0 (False, s) = (None, s') \<and> \<not> fst s' \<and> P (dn @ its) (snd s')"
      by (rule forEachWalFile_walk [where all = all and fc = ?fc and P = "\<lambda>dn s. \<not> fst s \<and> P dn (snd s)" and post = "concat ls @ post", OF law stepf])
        (use Cons(1) Cons.prems(2) all in simp_all)
    then obtain s1 where "forEachWalFile W ?fc (wal_log W its) 0 (False, s) = (None, (False, s1))" "P (dn @ its) s1" by auto
    then show ?thesis using True Cons(1) Cons.IH [of "dn @ its" s1 "Suc i"] all by auto
  next
    case False
    obtain s1 where "each_until (\<lambda>(k, t, v). fc i k t v 0) its s = (True, s1)" "P (dn @ its) s1"
      using each_until_walk [of all P "\<lambda>(k, t, v). fc i k t v 0" dn its "concat ls @ post" s] step all Cons.prems(2) by fastforce
    then show ?thesis using False Cons(1) Cons.IH [of "dn @ its" s1 "Suc i"] all by (simp add: rb_forEach_items file_repr_def)
  qed
qed simp

lemma forEachCompleteFile_walk:
  assumes law: "wal_law W" and r: "wal_repr W ws logs"
    and step: "\<And>dn i k t v post s off. concat (butlast logs) = dn @ (k, t, v) # post \<Longrightarrow> P dn s \<Longrightarrow> \<exists>s'. fc i k t v off s = (True, s') \<and> P (dn @ [(k, t, v)]) s'"
    and s: "P [] s"
  shows "\<exists>s'. forEachCompleteFile W (int (length logs - 1)) fc ws s = (length logs - 1, None, s') \<and> P (concat (butlast logs)) s'"
proof -
  have len: "length (ws_walFiles ws) = length logs" using wal_repr_lists [OF r] by simp
  have fs: "list_all2 (\<lambda>f its. file_bytes (wf_fileName f) (ws_dir ws) = Some (wal_log W its) \<and> list_all (item_fits W) its \<and>
       file_repr W (wc_CloseBuffer (ws_config ws)) f its) (take (length logs - 1) (ws_walFiles ws)) (butlast logs)"
    using list_all2_takeI [OF wal_repr_files [OF r], of "length logs - 1"] by (simp add: butlast_conv_take)
  have "\<exists>s'. visit_files W fc ws 0 (take (length logs - 1) (ws_walFiles ws)) s = (0 + length (take (length logs - 1) (ws_walFiles ws)), None, s') \<and>
      P ([] @ concat (butlast logs)) s'"
    by (rule visit_files_walk [OF law, where all = "concat (butlast logs)" and post = "[]", OF _ fs]) (use step s in auto)
  then show ?thesis using len by (simp add: forEachCompleteFile_def)
qed

section \<open>Appending a block to the files of a transaction\<close>

text \<open>The record of a block in the file, and the files of a transaction: the first begins with what it held before.\<close>

definition blk_seg :: "SegmentHeader \<times> bytes \<times> bytes \<Rightarrow> seg" where
  "blk_seg blk = (case blk of (h, td, vd) \<Rightarrow> (h\<lparr>sh_DataSize := sh_DataSize h + 8\<rparr>, flat_payload vd td))"

fun layout :: "bytes \<Rightarrow> seg list list \<Rightarrow> bytes list" where
  "layout xs [] = []"
| "layout xs (ss # rest) = (xs @ segs_bytes ss) # map segs_bytes rest"

definition add_seg :: "seg \<Rightarrow> bool \<Rightarrow> seg list list \<Rightarrow> seg list list" where
  "add_seg x rotated sss = butlast sss @ [last sss @ [x]] @ (if rotated then [[]] else [])"

lemma add_seg_concat: "sss \<noteq> [] \<Longrightarrow> concat (add_seg x r sss) = concat sss @ [x] \<and> add_seg x r sss \<noteq> []"
  by (cases sss rule: rev_cases) (simp_all add: add_seg_def)

lemma layout_add:
  assumes "sss \<noteq> []"
  shows "layout xs (add_seg x r sss) = butlast (layout xs sss) @ [last (layout xs sss) @ seg_bytes x] @ (if r then [[]] else [])"
proof (cases sss)
  case (Cons ss rest)
  show ?thesis by (cases rest rule: rev_cases) (simp_all add: Cons add_seg_def butlast_append)
qed (use assms in simp)

lemma append_data:
  assumes c: "block_compressor c" and l: "list_tx c front m l" and d: "tx_data c front l dss" and ti: "ca_Type (sc_tableInfo s) \<noteq> ColumnTypeStructure"
    and a: "append_block F now (h, td, vd) s (last (fl_segments l)) l = Some ((None, r), s', l')"
  shows "list_tx c front m l' \<and>
         tx_data c front l' (butlast dss @ [last dss @ seg_bytes (blk_seg (h, td, vd))] @ (if r then [[]] else []))"
proof -
  let ?sg = "last (fl_segments l)" and ?h = "h\<lparr>sh_DataSize := sh_DataSize h + 8\<rparr>" and ?i = "nat (fl_activeIdx l)"
  let ?ps = "[encodeSegmentHeader ?h, be_put 8 (of_nat (length vd) :: u64), vd, td]"
  note ne = list_tx_last [OF l]
  obtain m' where m': "open_tx c m' (sg_writer ?sg)" using l by (auto simp: list_tx_def)
  obtain w where w: "write_pieces ?ps (sg_writer ?sg) = Some (None, w)" using pieces_open [OF m'] by blast
  define ent where "ent = \<lparr>be_Attribute = sc_index s, be_MinTime = sh_MinTime h, be_MaxTime = sh_MaxTime h,
                          be_Offset = fw_Size (sg_writer ?sg), be_DataSize = sh_DataSize ?h\<rparr>"
  obtain beyond sg2 where n: "note_index ent (sc_maxSegmentTimeInterval s) (?sg\<lparr>sg_writer := w\<rparr>) = (beyond, sg2)" by fastforce
  have sw: "sg_writer sg2 = w" using n by (auto simp: note_index_def GetIndex_def Let_def split: option.splits if_splits)
  let ?l = "map_segment ?i (\<lambda>_. sg2) l" and ?dss = "butlast dss @ [last dss @ seg_bytes (blk_seg (h, td, vd))]"
  have put: "list_tx c front m ?l" by (rule pieces_tx [OF l w sw])
  have bytes: "concat ?ps = seg_bytes (blk_seg (h, td, vd))"
    by (simp add: seg_bytes_def blk_seg_def flat_payload_def be_int64_def)
  have "writer_holds c (sg_writer sg2) (last dss @ seg_bytes (blk_seg (h, td, vd)))"
    using writer_holds_pieces [OF m' _ w] tx_data_last [OF l d] unfolding sw bytes by blast
  then have data: "tx_data c front ?l ?dss" by (rule tx_data_replace [OF l d]) (use ne in simp)
  have pd: "tx_data c front (PersistLastIndex ?l) ?dss"
  proof -
    have len: "length (fl_segments (PersistLastIndex ?l)) = length (fl_segments ?l)" by (metis length_map persist_writers)
    moreover have "sg_writer (fl_segments (PersistLastIndex ?l) ! j) = sg_writer (fl_segments ?l ! j)" if "j < length (fl_segments ?l)" for j
      using arg_cong [OF persist_writers [of ?l], of "\<lambda>xs. xs ! j"] that len by (metis nth_map)
    ultimately show ?thesis using data unfolding tx_data_def by simp
  qed
  note rot = block_compressor.next_tx [OF c persist_tx [OF put], of now] block_compressor.next_tx_data [OF c persist_tx [OF put] pd, of now]
  obtain l2 where l2: "AddTransactionSegment now (PersistLastIndex ?l) = (None, l2)" using rot(1) by (metis prod.collapse)
  have "append_block F now (h, td, vd) s ?sg l =
      (if fw_PhysicalSize w \<ge> sc_maxSegmentSize s \<or> beyond then Some ((None, True), reset_encoders F s, l2)
       else Some ((None, False), reset_encoders F s, ?l))"
    using w n l2 ti unfolding ent_def by (simp add: append_block_def block_pieces_def Let_def)
  then show ?thesis using a put data rot l2 by (auto split: if_splits)
qed

section \<open>The invariant of a flush\<close>

lemma sc_Write_keeps:
  assumes "sc_Write V F t v s = (ok, s')"
  shows "sc_index s' = sc_index s \<and> sc_lastFlushEpoch s' = sc_lastFlushEpoch s"
  using assms by (auto simp: sc_Write_def write_value_def write_time_def ensureCompressors_def Let_def split: option.splits prod.splits if_splits bool.splits)

lemma glowWrite_keeps:
  assumes "glowWrite S F now s l = Some (x, s', l')"
  shows "sc_index s' = sc_index s \<and> sc_lastFlushEpoch s' = sc_lastFlushEpoch s"
proof -
  have e: "sc_index s1 = sc_index s \<and> sc_lastFlushEpoch s1 = sc_lastFlushEpoch s" if "encode_block S F te ve s = (y, s1)" for te ve y s1
    using that by (auto simp: encode_block_def Let_def split: option.splits prod.splits if_splits)
  have a: "sc_index s2 = sc_index s1 \<and> sc_lastFlushEpoch s2 = sc_lastFlushEpoch s1"
    if "append_block F now blk s1 sg l = Some (y, s2, l2)" for blk s1 sg y s2 l2
    using that by (auto simp: append_block_def reset_encoders_def Let_def split: option.splits prod.splits if_splits)
  from assms show ?thesis unfolding glowWrite_def
    by (auto split: option.splits if_splits prod.splits sum.splits dest!: e a)
qed

text \<open>The points of a series among the records of the log, and among the blocks written, each with the points it holds.\<close>

definition pts :: "'v wal_item list \<Rightarrow> nat \<Rightarrow> (int \<times> 'v) list" where
  "pts its i = map snd (filter (\<lambda>(k, p). unat k = Suc i) its)"

type_synonym 'v trace = "((SegmentHeader \<times> bytes \<times> bytes) \<times> (int \<times> 'v) list) list"

definition tr_pts :: "'v trace \<Rightarrow> nat \<Rightarrow> (int \<times> 'v) list" where
  "tr_pts tr i = concat (map snd (filter (\<lambda>((h, b), ps). unat (sh_Attribute h) = Suc i) tr))"

lemma pts_simps [simp]: "pts [] i = []" "pts (as @ bs) i = pts as i @ pts bs i"
  "pts [(k, t, v)] i = (if unat k = Suc i then [(t, v)] else [])"
  by (simp_all add: pts_def)

lemma tr_pts_simps [simp]: "tr_pts [] i = []" "tr_pts (as @ bs) i = tr_pts as i @ tr_pts bs i"
  "tr_pts [((h, b), ps)] i = (if unat (sh_Attribute h) = Suc i then ps else [])"
  by (simp_all add: tr_pts_def)

definition tx_files :: "compressor \<Rightarrow> fileSegment list \<Rightarrow> bytes list \<Rightarrow> bytes \<Rightarrow> 'v trace \<Rightarrow> fileSegmentList \<Rightarrow> bool" where
  "tx_files c front m xs tr l \<longleftrightarrow> list_tx c front m l \<and>
     (\<exists>sss. sss \<noteq> [] \<and> tx_data c front l (layout xs sss) \<and> concat sss = map (blk_seg \<circ> fst) tr)"

context column_encoder
begin

definition blocks_ok :: "simple8b_ops \<Rightarrow> 'v trace \<Rightarrow> bool" where
  "blocks_ok S tr \<longleftrightarrow> list_all (\<lambda>(blk, ps). block_points S blk ps \<and> ps \<noteq> []) tr"

lemma glow_step:
  assumes b: "buffers s ps" and c: "block_compressor c" and l: "tx_files c front m xs tr l" and tr: "blocks_ok S tr"
    and law: "simple8b_law S" "length ps < 2 ^ 62" "supported (map snd ps)" and ti: "ca_Type ti \<noteq> ColumnTypeStructure"
  shows "\<exists>r s' l' tr'. glowWrite S F now s l = Some ((None, r), s', l') \<and> tx_files c front m xs tr' l' \<and> blocks_ok S tr' \<and>
           buffers s' [] \<and> left_over s' = left_over s \<and>
           (\<forall>i. tr_pts tr' i = tr_pts tr i @ (if unat (sc_index s) = Suc i then ps else []))"
proof -
  have tx: "list_tx c front m l" using l by (simp add: tx_files_def)
  obtain r s' l' where g: "glowWrite S F now s l = Some ((None, r), s', l')" using glow_tx [OF b c tx law] by blast
  note gp = glowWrite_points [OF b list_tx_live [OF tx] law g]
  show ?thesis
  proof (cases "ps = []")
    case True
    have "(case sc_tmsCompressor s of None \<Rightarrow> True | Some te \<Rightarrow> TimeEncoder_Length te = 0)"
      using b True by (auto simp: buffers_def TimeEncoder_Length_def split: option.splits)
    then have "l' = l" using g by (auto simp: glowWrite_def split: option.splits)
    then show ?thesis using g gp l tr True by (intro exI [of _ r] exI [of _ s'] exI [of _ l'] exI [of _ tr]) simp
  next
    case False
    then obtain te ve where e: "sc_tmsCompressor s = Some te" "sc_valueCompressor s = Some ve" "te_ts te = word_times ps"
      using b by (auto simp: buffers_def split: option.splits)
    have pos: "TimeEncoder_Length te \<noteq> 0" using e(3) False by (simp add: TimeEncoder_Length_def word_times_def)
    have sg: "GetLastFragmentation l = Some (last (fl_segments l))"
      using list_tx_last [OF tx] tx by (simp add: GetLastFragmentation_def list_tx_def)
    obtain h td vd s1 where eb: "encode_block S F te ve s = (Inr (Some (h, td, vd)), s1)" "block_points S (h, td, vd) ps"
        "sh_Attribute h = sc_index s" "sc_tableInfo s1 = ti"
      using encode_block_ok [OF b e(1,2) False law] by blast
    obtain sss where sss: "sss \<noteq> []" "tx_data c front l (layout xs sss)" "concat sss = map (blk_seg \<circ> fst) tr"
      using l by (auto simp: tx_files_def)
    have "append_block F now (h, td, vd) s1 (last (fl_segments l)) l = Some ((None, r), s', l')"
      using g e pos sg eb(1) by (simp add: glowWrite_def)
    from append_data [OF c tx sss(2) _ this] eb(4) ti
    have l': "list_tx c front m l'" "tx_data c front l' (layout xs (add_seg (blk_seg (h, td, vd)) r sss))"
      by (simp_all add: layout_add [OF sss(1)])
    have "tx_files c front m xs (tr @ [((h, td, vd), ps)]) l'"
      using l' add_seg_concat [OF sss(1), of "blk_seg (h, td, vd)" r] sss(3) by (auto simp: tx_files_def)
    moreover have "blocks_ok S (tr @ [((h, td, vd), ps)])" using tr eb(2) False by (simp add: blocks_ok_def)
    ultimately show ?thesis using g gp eb(3)
      by (intro exI [of _ r] exI [of _ s'] exI [of _ l'] exI [of _ "tr @ [((h, td, vd), ps)]"]) simp
  qed
qed

end

context column_encoder
begin

text \<open>An encoder that never refuses a value leaves nothing over.\<close>

definition none_left :: "(nat \<Rightarrow> (int \<times> 'v) list) \<Rightarrow> nat \<Rightarrow> ('v, 'e) ssColumn \<Rightarrow> bool" where
  "none_left pre i s \<longleftrightarrow> ((\<forall>v e. fst (ef_Write F v e)) \<and> pre i = [] \<longrightarrow> left_over s = [])"

definition col_inv :: "u64 \<Rightarrow> nat set \<Rightarrow> (nat \<Rightarrow> (int \<times> 'v) list) \<Rightarrow> 'v trace \<Rightarrow> 'v wal_item list \<Rightarrow> nat \<Rightarrow> ('v, 'e) ssColumn \<Rightarrow> bool" where
  "col_inv epoch touched pre tr dn i s \<longleftrightarrow>
     unat (sc_index s) = Suc i \<and> none_left pre i s \<and>
     (\<exists>ps. col_ok s ps \<and> tr_pts tr i @ ps @ left_over s = pre i @ pts dn i \<and>
        (if i \<in> touched then sc_lastFlushEpoch s = epoch else ps = [] \<and> pts dn i = [] \<and> sc_lastFlushEpoch s < epoch))"

definition flush_inv ::
  "simple8b_ops \<Rightarrow> compressor \<Rightarrow> fileSegment list \<Rightarrow> bytes list \<Rightarrow> bytes \<Rightarrow> (nat \<Rightarrow> (int \<times> 'v) list) \<Rightarrow> 'v wal_item list \<Rightarrow> ('v, 'e) ssTable \<Rightarrow>
     'v trace \<Rightarrow> bool" where
  "flush_inv S c front m xs pre dn tb tr \<longleftrightarrow>
     tx_files c front m xs tr (tb_fragmentation tb) \<and> blocks_ok S tr \<and> set (tb_flushTouched tb) \<subseteq> {..<length (tb_columns tb)} \<and>
     (\<forall>i < length (tb_columns tb). \<exists>s. tb_columns tb ! i = Some s \<and> col_inv (tb_flushEpoch tb) (set (tb_flushTouched tb)) pre tr dn i s)"

lemma col_ok_epoch [simp]: "col_ok (s\<lparr>sc_lastFlushEpoch := e\<rparr>) ps = col_ok s ps" "left_over (s\<lparr>sc_lastFlushEpoch := e\<rparr>) = left_over s"
  by (simp_all add: col_ok_def buffers_def left_over_def cong: option.case_cong)

text \<open>Replacing column \<open>i\<close> after its next point.\<close>

lemma flush_inv_put:
  assumes inv: "flush_inv S c front m xs pre dn tb tr" and i: "i < length (tb_columns tb)"
    and tr: "tx_files c front m xs tr' l" "blocks_ok S tr'" "\<And>j. j \<noteq> i \<Longrightarrow> tr_pts tr' j = tr_pts tr j"
    and its: "\<And>j. j \<noteq> i \<Longrightarrow> pts dn' j = pts dn j"
    and s: "unat (sc_index s) = Suc i" "sc_lastFlushEpoch s = tb_flushEpoch tb" "col_ok s ps" "tr_pts tr' i @ ps @ left_over s = pre i @ pts dn' i"
      "none_left pre i s"
    and tb': "tb' = tb\<lparr>tb_columns := (tb_columns tb)[i := Some s], tb_fragmentation := l, tb_flushTouched := touched\<rparr>"
      "set touched = insert i (set (tb_flushTouched tb))"
  shows "flush_inv S c front m xs pre dn' tb' tr'"
proof -
  have "\<exists>s'. tb_columns tb' ! j = Some s' \<and> col_inv (tb_flushEpoch tb) (set touched) pre tr' dn' j s'" if j: "j < length (tb_columns tb)" for j
  proof (cases "j = i")
    case True
    then show ?thesis using s tb' i by (auto simp: col_inv_def)
  next
    case False
    obtain s' where "tb_columns tb ! j = Some s'" "col_inv (tb_flushEpoch tb) (set (tb_flushTouched tb)) pre tr dn j s'"
      using inv j by (auto simp: flush_inv_def)
    then show ?thesis using False tb' tr(3) its by (auto simp: col_inv_def)
  qed
  then show ?thesis using inv i tr(1,2) tb' by (auto simp: flush_inv_def)
qed

lemma processEntry_step:
  assumes inv: "flush_inv S c front m xs pre dn (fr_table r) tr" and r: "fr_processErr r = None" "\<not> fr_fault r"
    and c: "block_compressor c" and law: "simple8b_law S" and ti: "ca_Type ti \<noteq> ColumnTypeStructure"
    and tag: "tag \<noteq> 0" "unat tag \<le> length (tb_columns (fr_table r))" and t: "t \<noteq> 0"
    and sup: "\<And>qs. sublist qs (pre (unat tag - 1) @ pts (dn @ [(tag, t, v)]) (unat tag - 1)) \<Longrightarrow> supported (map snd qs)"
    and len: "length (pre (unat tag - 1)) + length (pts dn (unat tag - 1)) < 2 ^ 62"
  shows "\<exists>r' tr' cols l touched. processEntry S V F clk (tb_flushEpoch (fr_table r)) tag t v r = (True, r') \<and>
           flush_inv S c front m xs pre (dn @ [(tag, t, v)]) (fr_table r') tr' \<and> fr_processErr r' = None \<and> \<not> fr_fault r' \<and>
           fr_table r' = (fr_table r)\<lparr>tb_columns := cols, tb_fragmentation := l, tb_flushTouched := touched\<rparr> \<and>
           length cols = length (tb_columns (fr_table r))"
proof -
  let ?tb = "fr_table r" and ?i = "unat tag - 1" and ?epoch = "tb_flushEpoch (fr_table r)"
  have i: "?i < length (tb_columns ?tb)" "unat tag = Suc ?i" using tag unat_gt_0 [of tag] by auto
  obtain s ps where s: "tb_columns ?tb ! ?i = Some s" "unat (sc_index s) = Suc ?i" "col_ok s ps" "tr_pts tr ?i @ ps @ left_over s = pre ?i @ pts dn ?i"
      "none_left pre ?i s"
      "if ?i \<in> set (tb_flushTouched ?tb) then sc_lastFlushEpoch s = ?epoch else ps = [] \<and> sc_lastFlushEpoch s < ?epoch"
    using inv i(1) by (auto simp: flush_inv_def col_inv_def)
  obtain s1 tb1 touched where s1: "touch_column ?epoch ?i s ?tb = (s1, tb1)" "col_ok s1 ps" "left_over s1 = left_over s" "sc_index s1 = sc_index s"
      "sc_lastFlushEpoch s1 = ?epoch" "tb1 = ?tb\<lparr>tb_flushTouched := touched\<rparr>" "set touched = insert ?i (set (tb_flushTouched ?tb))"
  proof (cases "?i \<in> set (tb_flushTouched ?tb)")
    case True
    then show ?thesis using that [of s ?tb "tb_flushTouched ?tb"] s by (auto simp: touch_column_def)
  next
    case False
    then show ?thesis using that [of "s\<lparr>sc_lastFlushEpoch := ?epoch\<rparr>" "?tb\<lparr>tb_flushTouched := tb_flushTouched ?tb @ [?i]\<rparr>" "tb_flushTouched ?tb @ [?i]"] s
      by (auto simp: touch_column_def)
  qed
  obtain ok s2 where w: "sc_Write V F t v s1 = (ok, s2)" by fastforce
  note wr = sc_Write_ok [OF s1(2) t w] and keep = sc_Write_keeps [OF w]
  have tr0: "tx_files c front m xs tr (tb_fragmentation ?tb)" "blocks_ok S tr" using inv by (simp_all add: flush_inv_def)
  have other: "pts (dn @ [(tag, t, v)]) j = pts dn j" if "j \<noteq> ?i" for j using that i(2) by auto
  have own: "pts (dn @ [(tag, t, v)]) ?i = pts dn ?i @ [(t, v)]" using i(2) by simp
  show ?thesis
  proof (cases ok)
    case True
    let ?r = "r\<lparr>fr_seen := Suc (fr_seen r), fr_table := put_column ?i s2 tb1\<rparr>"
    have p: "processEntry S V F clk ?epoch tag t v r = (True, ?r)"
      using tag s(1) s1(1) w True by (simp add: processEntry_def Let_def not_less)
    have "flush_inv S c front m xs pre (dn @ [(tag, t, v)]) (put_column ?i s2 tb1) tr"
      by (rule flush_inv_put [OF inv i(1) tr0 _ other, where s = s2 and ps = "ps @ left_over s @ [(t, v)]" and touched = touched])
        (use wr True keep s1 s own in \<open>auto simp: put_column_def none_left_def\<close>)
    then show ?thesis using p r s1(6)
      by (intro exI [of _ ?r] exI [of _ tr] exI [of _ "(tb_columns ?tb)[?i := Some s2]"] exI [of _ "tb_fragmentation ?tb"] exI [of _ touched])
        (simp add: put_column_def)
  next
    case False
    then have b: "buffers s2 (ps @ left_over s)" "left_over s2 = [(t, v)]" using wr s1(3) by auto
    have "sublist (ps @ left_over s) (pre ?i @ pts (dn @ [(tag, t, v)]) ?i)"
      unfolding own append_assoc [symmetric] s(4) [symmetric] by (metis append.assoc sublist_appendI)
    then have "supported (map snd (ps @ left_over s))" by (rule sup)
    moreover have "length (ps @ left_over s) < 2 ^ 62" using arg_cong [OF s(4), of length] len by simp
    ultimately obtain rot s3 l tr' where g: "glowWrite S F (clk (fr_seen r)) s2 (tb_fragmentation ?tb) = Some ((None, rot), s3, l)"
        "tx_files c front m xs tr' l" "blocks_ok S tr'" "buffers s3 []" "left_over s3 = left_over s2"
        "\<forall>i. tr_pts tr' i = tr_pts tr i @ (if unat (sc_index s2) = Suc i then ps @ left_over s else [])"
      using glow_step [OF b(1) c tr0 law _ _ ti] by blast
    note keep3 = glowWrite_keeps [OF g(1)]
    let ?r = "r\<lparr>fr_seen := Suc (fr_seen r), fr_table := put_column ?i s3 (tb1\<lparr>tb_fragmentation := l\<rparr>), fr_processErr := None\<rparr>"
    have p: "processEntry S V F clk ?epoch tag t v r = (True, ?r)"
      using tag s(1) s1(1,6) w False g(1) by (simp add: processEntry_def Let_def not_less)
    have "none_left pre ?i s3"
      using sc_Write_total [of s1 ps, OF _ _ _ w] s1(2,3) s(5) False unfolding none_left_def col_ok_def by metis
    moreover have "col_ok s3 []" using g(4) by (simp add: col_ok_def)
    ultimately have "flush_inv S c front m xs pre (dn @ [(tag, t, v)]) (put_column ?i s3 (tb1\<lparr>tb_fragmentation := l\<rparr>)) tr'"
      by (intro flush_inv_put [OF inv i(1) g(2,3) _ other, where s = s3 and ps = "[]" and touched = touched])
        (use keep keep3 s1 s own g(5,6) b(2) in \<open>auto simp: put_column_def\<close>)
    then show ?thesis using p r s1(6)
      by (intro exI [of _ ?r] exI [of _ tr'] exI [of _ "(tb_columns ?tb)[?i := Some s3]"] exI [of _ l] exI [of _ touched])
        (simp add: put_column_def)
  qed
qed

end

section \<open>The whole flush\<close>

text \<open>Between flushes the encoders are empty and no column carries a later epoch than the table.\<close>

definition same_but_segments :: "('v, 'e) ssTable \<Rightarrow> ('v, 'e) ssTable \<Rightarrow> bool" where
  "same_but_segments tb tb' \<longleftrightarrow>
     (\<exists>cols l touched. tb' = tb\<lparr>tb_columns := cols, tb_fragmentation := l, tb_flushTouched := touched\<rparr> \<and> length cols = length (tb_columns tb))"

lemma same_but_segments_refl [simp]: "same_but_segments tb tb"
  unfolding same_but_segments_def
  by (intro exI [of _ "tb_columns tb"] exI [of _ "tb_fragmentation tb"] exI [of _ "tb_flushTouched tb"]) simp

lemma same_but_segments_upd:
  "same_but_segments tb tb' \<Longrightarrow> length cols = length (tb_columns tb') \<Longrightarrow>
     same_but_segments tb (tb'\<lparr>tb_columns := cols, tb_fragmentation := l, tb_flushTouched := touched\<rparr>)"
  unfolding same_but_segments_def
  by (elim exE conjE, intro exI [of _ cols] exI [of _ l] exI [of _ touched]) simp

lemma same_but_segmentsD:
  "same_but_segments tb tb' \<Longrightarrow> length (tb_columns tb') = length (tb_columns tb) \<and> tb_flushEpoch tb' = tb_flushEpoch tb \<and> tb_walFile tb' = tb_walFile tb"
  by (auto simp: same_but_segments_def)

definition valid_point :: "nat \<Rightarrow> 'v wal_item \<Rightarrow> bool" where
  "valid_point n = (\<lambda>(k, t, v). k \<noteq> 0 \<and> unat k \<le> n \<and> t \<noteq> 0)"

lemma pts_valid_empty:
  assumes "list_all (valid_point n) its" "\<forall>i < n. pts its i = []"
  shows "its = []"
proof (cases its)
  case (Cons e es)
  obtain k t v where e: "e = (k, t, v)" by (cases e)
  then have "k \<noteq> 0" "unat k \<le> n" using assms(1) Cons by (simp_all add: valid_point_def)
  then have "unat k - 1 < n" "unat k = Suc (unat k - 1)" using unat_gt_0 [of k] by auto
  moreover have "pts its (unat k - 1) \<noteq> []" using Cons e \<open>unat k = Suc (unat k - 1)\<close> by (simp add: pts_def)
  ultimately show ?thesis using assms(2) by blast
qed

context column_encoder
begin

definition run_inv ::
  "simple8b_ops \<Rightarrow> compressor \<Rightarrow> fileSegment list \<Rightarrow> bytes list \<Rightarrow> bytes \<Rightarrow> (nat \<Rightarrow> (int \<times> 'v) list) \<Rightarrow> ('v, 'e) ssTable \<Rightarrow> 'v wal_item list \<Rightarrow>
     ('v, 'e) flush_run \<Rightarrow> bool" where
  "run_inv S c front m xs pre tb0 dn r \<longleftrightarrow>
     (\<exists>tr. flush_inv S c front m xs pre dn (fr_table r) tr) \<and> fr_processErr r = None \<and> \<not> fr_fault r \<and> same_but_segments tb0 (fr_table r)"

lemma sublist_pts_prefix: "all = dn @ post \<Longrightarrow> sublist qs (xs @ pts dn i) \<Longrightarrow> sublist qs (xs @ pts all i)"
  by (metis append.assoc pts_simps(2) sublist_append_rightI sublist_order.order_trans)

lemma run_step:
  assumes c: "block_compressor c" and law: "simple8b_law S" and ti: "ca_Type ti \<noteq> ColumnTypeStructure"
    and valid: "list_all (valid_point (length (tb_columns tb0))) all"
    and sup: "\<And>i qs. sublist qs (pre i @ pts all i) \<Longrightarrow> supported (map snd qs)"
    and len: "\<And>i. length (pre i) + length all < 2 ^ 62"
    and all: "all = dn @ (k, t, v) # post" and r: "run_inv S c front m xs pre tb0 dn r"
  shows "\<exists>r'. processEntry S V F clk (tb_flushEpoch tb0) k t v r = (True, r') \<and> run_inv S c front m xs pre tb0 (dn @ [(k, t, v)]) r'"
proof -
  obtain tr where inv: "flush_inv S c front m xs pre dn (fr_table r) tr" "fr_processErr r = None" "\<not> fr_fault r" "same_but_segments tb0 (fr_table r)"
    using r by (auto simp: run_inv_def)
  note same = same_but_segmentsD [OF inv(4)]
  have v: "k \<noteq> 0" "unat k \<le> length (tb_columns (fr_table r))" "t \<noteq> 0" using valid all same by (auto simp: valid_point_def)
  have s: "supported (map snd qs)" if "sublist qs (pre (unat k - 1) @ pts (dn @ [(k, t, v)]) (unat k - 1))" for qs
    by (rule sup) (rule sublist_pts_prefix [OF _ that, where post = post], simp add: all)
  have "length (pts dn (unat k - 1)) \<le> length all" using all by (simp add: pts_def le_trans [OF length_filter_le])
  then have l: "length (pre (unat k - 1)) + length (pts dn (unat k - 1)) < 2 ^ 62" using len [of "unat k - 1"] by linarith
  from processEntry_step [where clk = clk, OF inv(1-3) c law ti v s l] show ?thesis
    using inv(4) same same_but_segments_upd unfolding run_inv_def by metis
qed

text \<open>What is left when the buffers are empty.\<close>

definition rest_inv ::
  "simple8b_ops \<Rightarrow> compressor \<Rightarrow> fileSegment list \<Rightarrow> bytes list \<Rightarrow> bytes \<Rightarrow> (nat \<Rightarrow> (int \<times> 'v) list) \<Rightarrow> 'v wal_item list \<Rightarrow> nat set \<Rightarrow> ('v, 'e) ssTable \<Rightarrow>
     'v trace \<Rightarrow> bool" where
  "rest_inv S c front m xs pre dn open_cols tb tr \<longleftrightarrow>
     tx_files c front m xs tr (tb_fragmentation tb) \<and> blocks_ok S tr \<and>
     (\<forall>i < length (tb_columns tb). \<exists>s ps. tb_columns tb ! i = Some s \<and> unat (sc_index s) = Suc i \<and> sc_lastFlushEpoch s \<le> tb_flushEpoch tb \<and>
        none_left pre i s \<and> col_ok s ps \<and> tr_pts tr i @ ps @ left_over s = pre i @ pts dn i \<and> (i \<notin> open_cols \<longrightarrow> ps = []))"

lemma flush_rest_ok:
  assumes c: "block_compressor c" and law: "simple8b_law S" and ti: "ca_Type ti \<noteq> ColumnTypeStructure"
    and sup: "\<And>i qs. sublist qs (pre i @ pts dn i) \<Longrightarrow> supported (map snd qs)"
    and len: "\<And>i. length (pre i) + length dn < 2 ^ 62"
  shows "rest_inv S c front m xs pre dn (set is) tb tr \<Longrightarrow> set is \<subseteq> {..<length (tb_columns tb)} \<Longrightarrow> same_but_segments tb0 tb \<Longrightarrow>
    \<exists>tb' tr'. flush_rest S F clk is tb = Some (None, tb') \<and> rest_inv S c front m xs pre dn {} tb' tr' \<and> same_but_segments tb0 tb'"
proof (induction "is" arbitrary: tb tr clk)
  case (Cons i "is")
  have i: "i < length (tb_columns tb)" using Cons.prems(2) by simp
  obtain s ps where s: "tb_columns tb ! i = Some s" "unat (sc_index s) = Suc i" "sc_lastFlushEpoch s \<le> tb_flushEpoch tb" "col_ok s ps"
      "tr_pts tr i @ ps @ left_over s = pre i @ pts dn i" "none_left pre i s"
    using Cons.prems(1) i unfolding rest_inv_def by blast
  have t: "tx_files c front m xs tr (tb_fragmentation tb)" "blocks_ok S tr" using Cons.prems(1) by (simp_all add: rest_inv_def)
  have b: "buffers s ps" using s(4) by (simp add: col_ok_def)
  have "sublist ps (pre i @ pts dn i)" unfolding s(5) [symmetric] by (metis sublist_appendI)
  then have "supported (map snd ps)" by (rule sup)
  moreover have "length (pts dn i) \<le> length dn" by (simp add: pts_def)
  then have "length ps < 2 ^ 62" using arg_cong [OF s(5), of length] len [of i] by simp
  ultimately obtain r s' l' tr' where g: "glowWrite S F (clk 0) s (tb_fragmentation tb) = Some ((None, r), s', l')"
      "tx_files c front m xs tr' l'" "blocks_ok S tr'" "buffers s' []" "left_over s' = left_over s"
      "\<forall>j. tr_pts tr' j = tr_pts tr j @ (if unat (sc_index s) = Suc j then ps else [])"
    using glow_step [OF b c t law _ _ ti] by blast
  note keep = glowWrite_keeps [OF g(1)]
  let ?tb = "put_column i s' (tb\<lparr>tb_fragmentation := l'\<rparr>)"
  have eq: "?tb = tb\<lparr>tb_columns := (tb_columns tb)[i := Some s'], tb_fragmentation := l', tb_flushTouched := tb_flushTouched tb\<rparr>"
    by (simp add: put_column_def)
  have "\<exists>s ps. tb_columns ?tb ! j = Some s \<and> unat (sc_index s) = Suc j \<and> sc_lastFlushEpoch s \<le> tb_flushEpoch tb \<and>
        none_left pre j s \<and> col_ok s ps \<and> tr_pts tr' j @ ps @ left_over s = pre j @ pts dn j \<and> (j \<notin> set is \<longrightarrow> ps = [])" if j: "j < length (tb_columns tb)" for j
  proof (cases "j = i")
    case True
    then show ?thesis using s keep g(4-6) i by (auto simp: put_column_def col_ok_def none_left_def)
  next
    case False
    obtain s2 ps2 where "tb_columns tb ! j = Some s2" "unat (sc_index s2) = Suc j" "sc_lastFlushEpoch s2 \<le> tb_flushEpoch tb" "none_left pre j s2" "col_ok s2 ps2"
      "tr_pts tr j @ ps2 @ left_over s2 = pre j @ pts dn j" "j \<notin> set (i # is) \<longrightarrow> ps2 = []" using Cons.prems(1) j unfolding rest_inv_def by blast
    then show ?thesis using False g(6) s(2) by (auto simp: put_column_def)
  qed
  then have "rest_inv S c front m xs pre dn (set is) ?tb tr'" using g(2,3) by (simp add: rest_inv_def put_column_def)
  moreover have "same_but_segments tb0 ?tb" unfolding eq by (rule same_but_segments_upd [OF Cons.prems(3)]) simp
  moreover have "set is \<subseteq> {..<length (tb_columns ?tb)}" using Cons.prems(2) by (simp add: put_column_def)
  ultimately obtain tb' tr'' where "flush_rest S F (clk \<circ> Suc) is ?tb = Some (None, tb')" "rest_inv S c front m xs pre dn {} tb' tr''" "same_but_segments tb0 tb'"
    using Cons.IH by blast
  then show ?case using s(1) g(1) by auto
qed auto

end

definition file_order :: "'v walFile \<Rightarrow> 'v wal_item list \<Rightarrow> 'v wal_item list" where
  "file_order ws its = (if snd (completeFileState ws) then sort_entries its else its)"

lemma pts_sort_entries: "pts (sort_entries its) i = sort_key fst (pts its i)"
proof -
  have "pts (sort_entries its) i = map snd (sort_key (\<lambda>(k, t, v). (k, t)) (filter (\<lambda>(k, p). unat k = Suc i) its))"
    by (simp add: pts_def sort_entries_def filter_sort)
  also have "\<dots> = sort_key fst (map snd (filter (\<lambda>(k, p). unat k = Suc i) its))"
  proof -
    have *: "map snd (sort_key (\<lambda>(k, t, v). (k, t)) es) = sort_key fst (map snd es)" if "\<forall>e \<in> set es. unat (fst e) = n" for es :: "'b wal_item list" and n
      using that
    proof (induction es)
      case (Cons e es)
      have key: "map snd (insort_key (\<lambda>(k, t, v). (k, t)) e ys) = insort_key fst (snd e) (map snd ys)" if "\<forall>y \<in> set ys. fst y = fst e" for ys
        using that by (induction ys) (auto simp: less_eq_prod_def split: prod.splits)
      have "\<forall>y \<in> set (sort_key (\<lambda>(k, t, v). (k, t)) es). fst y = fst e" using Cons.prems by (auto simp: word_unat_eq_iff)
      then show ?case using key Cons by simp
    qed simp
    show ?thesis by (rule * [of _ "Suc i"]) auto
  qed
  finally show ?thesis by (simp add: pts_def)
qed

lemma set_sort_entries [simp]: "set (sort_entries its) = set its" "length (sort_entries its) = length its"
  by (simp_all add: sort_entries_def)

lemma set_file_order [simp]: "set (file_order ws its) = set its" "length (file_order ws its) = length its"
  by (simp_all add: file_order_def)

lemma drop_last_one: "xs \<noteq> [] \<Longrightarrow> drop (length xs - Suc 0) xs = [last xs]"
  by (cases xs rule: rev_cases) simp_all

text \<open>The segments between flushes: the last one holds \<open>xs\<close>.\<close>

definition segments_ready :: "compressor \<Rightarrow> fileSegmentList \<Rightarrow> fileSegment list \<Rightarrow> bytes \<Rightarrow> bool" where
  "segments_ready c l front xs \<longleftrightarrow>
     list_ok l \<and> fl_compressor l = c \<and> (\<exists>sg. fl_segments l = front @ [sg] \<and> writer_ready c (sg_writer sg) xs)"

definition left_in :: "('v, 'e) ssTable \<Rightarrow> nat \<Rightarrow> (int \<times> 'v) list" where
  "left_in tb i = (if i < length (tb_columns tb) then left_over (the (tb_columns tb ! i)) else [])"

lemma drop_consumed_fields [simp]: "left_in (drop_consumed W n tb) i = left_in tb i" "tb_columns (drop_consumed W n tb) = tb_columns tb"
  "tb_fragmentation (drop_consumed W n tb) = tb_fragmentation tb" "tb_flushEpoch (drop_consumed W n tb) = tb_flushEpoch tb"
  by (simp_all add: left_in_def drop_consumed_def)

lemma epoch_bump: "(x :: u64) \<le> e \<Longrightarrow> e + 1 \<noteq> 0 \<Longrightarrow> x < e + 1"
  using unatSuc [of e] by (simp add: add.commute word_less_nat_alt word_le_nat_alt)

context column_encoder
begin

definition idle_table :: "('v, 'e) ssTable \<Rightarrow> bool" where
  "idle_table tb \<longleftrightarrow>
     (\<forall>i < length (tb_columns tb). \<exists>s. tb_columns tb ! i = Some s \<and> unat (sc_index s) = Suc i \<and> sc_lastFlushEpoch s \<le> tb_flushEpoch tb \<and> col_ok s [])"

lemma begin_flush_ok:
  assumes idle: "idle_table tb" and c: "block_compressor c" and l: "segments_ready c (tb_fragmentation tb) front xs"
  shows "\<exists>tb1 m. begin_flush now tb = (None, tb1) \<and> flush_inv S c front m xs (left_in tb) [] tb1 [] \<and> tb_walFile tb1 = tb_walFile tb \<and>
           length (tb_columns tb1) = length (tb_columns tb) \<and> tb_flushTouched tb1 = []"
proof -
  obtain l1 m where l1: "OpenTransaction now (tb_fragmentation tb) = (None, l1)" "list_tx c front m l1" "tx_data c front l1 [xs]"
    using block_compressor.open_tx_data [OF c] l unfolding segments_ready_def by blast
  have files: "tx_files c front m xs [] l1"
    using l1(2,3) by (auto simp: tx_files_def segs_bytes_def intro!: exI [of _ "[[]]"])
  let ?tb = "begin_epoch (tb\<lparr>tb_fragmentation := l1\<rparr>)"
  have f: "tb_fragmentation ?tb = l1" "tb_walFile ?tb = tb_walFile tb" "length (tb_columns ?tb) = length (tb_columns tb)" "tb_flushTouched ?tb = []"
    by (simp_all add: begin_epoch_def Let_def)
  have "\<exists>s. tb_columns ?tb ! i = Some s \<and> col_inv (tb_flushEpoch ?tb) {} (left_in tb) [] [] i s" if i: "i < length (tb_columns tb)" for i
  proof -
    obtain s where s: "tb_columns tb ! i = Some s" "unat (sc_index s) = Suc i" "sc_lastFlushEpoch s \<le> tb_flushEpoch tb" "col_ok s []"
      using idle i by (auto simp: idle_table_def)
    show ?thesis
    proof (cases "tb_flushEpoch tb + 1 = 0")
      case True
      then show ?thesis using s i by (auto simp: begin_epoch_def Let_def col_inv_def none_left_def left_in_def intro!: exI [of _ "[]"])
    next
      case False
      then show ?thesis using s i epoch_bump [OF s(3)] by (auto simp: begin_epoch_def Let_def col_inv_def none_left_def left_in_def intro!: exI [of _ "[]"])
    qed
  qed
  then have "flush_inv S c front m xs (left_in tb) [] ?tb []" using files f by (simp add: flush_inv_def blocks_ok_def)
  moreover have "begin_flush now tb = (None, ?tb)" using l1(1) by (simp add: begin_flush_def)
  ultimately show ?thesis using f by blast
qed

lemma end_flush_ok:
  assumes c: "block_compressor c" and law: "simple8b_law S" and ti: "ca_Type ti \<noteq> ColumnTypeStructure"
    and valid: "list_all (valid_point (length (tb_columns tb0))) all" "all \<noteq> []"
    and sup: "\<And>i qs. sublist qs (pre i @ pts all i) \<Longrightarrow> supported (map snd qs)"
    and len: "\<And>i. length (pre i) + length all < 2 ^ 62"
    and r: "run_inv S c front m xs pre tb0 all r"
  shows "\<exists>tb' tr sss l. end_flush S V F W clk consumed (fr_table r) = Some (None, drop_consumed W consumed tb') \<and>
           same_but_segments tb0 tb' \<and> idle_table tb' \<and> blocks_ok S tr \<and> sss \<noteq> [] \<and> concat sss = map (blk_seg \<circ> fst) tr \<and>
           (\<forall>i < length (tb_columns tb0). tr_pts tr i @ left_in tb' i = pre i @ pts all i) \<and>
           ((\<forall>v e. fst (ef_Write F v e)) \<and> (\<forall>i. pre i = []) \<longrightarrow> (\<forall>i. left_in tb' i = [])) \<and>
           tb_fragmentation tb' = l \<and> take (length front) (fl_segments l) = front \<and> length (fl_segments l) = length front + length sss \<and>
           segments_ready c l (butlast (fl_segments l)) (last (layout xs sss)) \<and>
           (\<forall>j < length sss. stored c (fw_file (sg_writer (fl_segments l ! (length front + j)))) (layout xs sss ! j))"
proof -
  let ?tb = "fr_table r"
  obtain tr where inv: "flush_inv S c front m xs pre all ?tb tr" and same: "same_but_segments tb0 ?tb" using r by (auto simp: run_inv_def)
  note n = same_but_segmentsD [OF same]
  have touched: "tb_flushTouched ?tb \<noteq> []"
  proof
    assume "tb_flushTouched ?tb = []"
    then have "\<forall>i < length (tb_columns tb0). pts all i = []" using inv n by (auto simp: flush_inv_def col_inv_def)
    then show False using pts_valid_empty [OF valid(1)] valid(2) by blast
  qed
  have cols: "\<exists>s ps. tb_columns ?tb ! i = Some s \<and> unat (sc_index s) = Suc i \<and> sc_lastFlushEpoch s \<le> tb_flushEpoch ?tb \<and> none_left pre i s \<and> col_ok s ps \<and>
      tr_pts tr i @ ps @ left_over s = pre i @ pts all i \<and> (i \<notin> set (tb_flushTouched ?tb) \<longrightarrow> ps = [])" if "i < length (tb_columns ?tb)" for i
    using inv that unfolding flush_inv_def col_inv_def by (metis order_less_imp_le order_refl)
  have rest: "rest_inv S c front m xs pre all (set (tb_flushTouched ?tb)) ?tb tr" and sub: "set (tb_flushTouched ?tb) \<subseteq> {..<length (tb_columns ?tb)}"
    using inv cols by (simp_all add: flush_inv_def rest_inv_def)
  have "\<exists>tb' tr'. flush_rest S F clk (tb_flushTouched ?tb) ?tb = Some (None, tb') \<and> rest_inv S c front m xs pre all {} tb' tr' \<and>
      same_but_segments tb0 tb'"
    by (rule flush_rest_ok [OF c law ti _ len rest sub same]) (rule sup)
  then obtain tb' tr' where f: "flush_rest S F clk (tb_flushTouched ?tb) ?tb = Some (None, tb')" "rest_inv S c front m xs pre all {} tb' tr'"
      "same_but_segments tb0 tb'"
    by blast
  note n' = same_but_segmentsD [OF f(3)]
  obtain sss where sss: "list_tx c front m (tb_fragmentation tb')" "sss \<noteq> []" "tx_data c front (tb_fragmentation tb') (layout xs sss)"
      "concat sss = map (blk_seg \<circ> fst) tr'"
    using f(2) by (auto simp: rest_inv_def tx_files_def)
  have lay: "length (layout xs sss) = length sss" by (cases sss) simp_all
  obtain l where l: "CommitTransactionFileSegment (tb_fragmentation tb') = ([], l)" "list_tx c front m l" "tx_data c front l (layout xs sss)"
      "\<forall>i < length sss. stored c (fw_file (sg_writer (fl_segments l ! (length front + i)))) (layout xs sss ! i)"
      "writer_ready c (sg_writer (last (fl_segments l))) (last (layout xs sss))"
    using block_compressor.commit_tx_data [OF c sss(1,3)] lay by auto
  have "fl_segments l = butlast (fl_segments l) @ [last (fl_segments l)]" using list_tx_last [OF l(2)] by (metis append_butlast_last_id)
  then have ready: "segments_ready c l (butlast (fl_segments l)) (last (layout xs sss))"
    using l(2,5) list_tx_live [OF l(2)] unfolding segments_ready_def list_live_def list_tx_def by blast
  let ?tb' = "tb'\<lparr>tb_fragmentation := l\<rparr>"
  have "same_but_segments tb0 (tb'\<lparr>tb_columns := tb_columns tb', tb_fragmentation := l, tb_flushTouched := tb_flushTouched tb'\<rparr>)"
    by (rule same_but_segments_upd [OF f(3)]) simp
  then have "same_but_segments tb0 ?tb'" by simp
  moreover have "idle_table ?tb'" using f(2) by (fastforce simp: rest_inv_def idle_table_def)
  moreover have "tr_pts tr' i @ left_in ?tb' i = pre i @ pts all i" if at: "i < length (tb_columns tb0)" for i
  proof -
    obtain s where "tb_columns tb' ! i = Some s" "tr_pts tr' i @ left_over s = pre i @ pts all i"
      using f(2) at n' by (fastforce simp: rest_inv_def)
    then show ?thesis using at n' by (simp add: left_in_def)
  qed
  moreover have "left_in ?tb' i = []" if none: "\<forall>v e. fst (ef_Write F v e)" "\<forall>i. pre i = []" for i
  proof (cases "i < length (tb_columns tb')")
    case True
    then obtain s where "tb_columns tb' ! i = Some s" "none_left pre i s" using f(2) by (fastforce simp: rest_inv_def)
    then show ?thesis using none by (simp add: left_in_def none_left_def)
  qed (simp add: left_in_def)
  moreover have "end_flush S V F W clk consumed ?tb = Some (None, drop_consumed W consumed ?tb')" using touched f(1) l(1) by (simp add: end_flush_def)
  moreover have "take (length front) (fl_segments l) = front" "length (fl_segments l) = length front + length sss"
    using l(2,3) lay by (simp_all add: list_tx_def tx_data_def)
  ultimately show ?thesis using f(2) sss(2,4) l(4) ready
    by (intro exI [of _ ?tb'] exI [of _ tr'] exI [of _ sss] exI [of _ l]) (simp add: rest_inv_def)
qed

lemma flushCache_ok:
  assumes c: "block_compressor c" and law: "simple8b_law S" "wal_law W" and ti: "ca_Type ti \<noteq> ColumnTypeStructure"
    and wal: "wal_repr W (tb_walFile tb) logs" and all: "all = file_order (tb_walFile tb) (concat (butlast logs))"
    and valid: "list_all (valid_point (length (tb_columns tb))) all" "all \<noteq> []"
    and idle: "idle_table tb" and l: "segments_ready c (tb_fragmentation tb) front xs"
    and sup: "\<forall>i qs. sublist qs (left_in tb i @ pts all i) \<longrightarrow> supported (map snd qs)"
    and len: "Suc (length all) < 2 ^ 62"
  shows "\<exists>tb' tr sss. flushCache S V F W now clk tb = Some (None, tb') \<and> wal_repr W (tb_walFile tb') [last logs] \<and>
           idle_table tb' \<and> length (tb_columns tb') = length (tb_columns tb) \<and>
           blocks_ok S tr \<and> sss \<noteq> [] \<and> concat sss = map (blk_seg \<circ> fst) tr \<and>
           (\<forall>i < length (tb_columns tb). tr_pts tr i @ left_in tb' i = left_in tb i @ pts all i) \<and>
           ((\<forall>v e. fst (ef_Write F v e)) \<and> (\<forall>i. left_in tb i = []) \<longrightarrow> (\<forall>i. left_in tb' i = [])) \<and>
           take (length front) (fl_segments (tb_fragmentation tb')) = front \<and>
           length (fl_segments (tb_fragmentation tb')) = length front + length sss \<and>
           segments_ready c (tb_fragmentation tb') (butlast (fl_segments (tb_fragmentation tb'))) (last (layout xs sss)) \<and>
           (\<forall>j < length sss. stored c (fw_file (sg_writer (fl_segments (tb_fragmentation tb') ! (length front + j)))) (layout xs sss ! j))"
proof -
  let ?n = "length logs - 1" and ?its = "concat (butlast logs)" and ?pre = "left_in tb"
  have logs: "length (ws_walFiles (tb_walFile tb)) = length logs" "logs \<noteq> []" using wal_repr_lists [OF wal] by auto
  have ne: "?its \<noteq> []" using valid(2) all by (metis set_empty set_file_order(1))
  then have n: "0 < ?n" "?n < length logs" by (cases logs; cases "tl logs"; simp)+
  obtain sorted where cs: "completeFileState (tb_walFile tb) = (?n, sorted)" using logs by (simp add: completeFileState_def Let_def)
  have wt: "tb\<lparr>tb_walFile := snd (wal_FlushPending (tb_walFile tb))\<rparr> = tb" by (simp add: wal_FlushPending_def)
  have pre1: "length (?pre i) \<le> 1" for i by (simp add: left_in_def left_over_def)
  then have lens: "length (?pre i) + length all < 2 ^ 62" for i using len le_trans [OF pre1, of i] by (smt (verit) add_le_mono1 le_less_trans plus_1_eq_Suc)
  obtain tb1 m where tb1: "begin_flush now tb = (None, tb1)" "flush_inv S c front m xs ?pre [] tb1 []" "tb_walFile tb1 = tb_walFile tb"
      "length (tb_columns tb1) = length (tb_columns tb)" "tb_flushTouched tb1 = []"
    using begin_flush_ok [OF idle c l] by blast
  let ?r0 = "\<lparr>fr_table = tb1, fr_processErr = None, fr_lastReadFile = -1, fr_lastReadOffset = 0, fr_seen = 0, fr_fault = False\<rparr> :: ('v, 'e) flush_run"
  have r0: "run_inv S c front m xs ?pre tb1 [] ?r0" using tb1(2) by (auto simp: run_inv_def)
  have valid1: "list_all (valid_point (length (tb_columns tb1))) all" using valid(1) tb1(4) by simp
  have step: "\<exists>r'. processEntry S V F clk (tb_flushEpoch tb1) k t v r = (True, r') \<and> run_inv S c front m xs ?pre tb1 (dn @ [(k, t, v)]) r'"
    if "all = dn @ (k, t, v) # post" "run_inv S c front m xs ?pre tb1 dn r" for dn k t v post r
    by (rule run_step [OF c law(1) ti valid1 _ lens that]) (use sup in blast)
  have fin: "\<exists>tb' tr sss l. end_flush S V F W clk' ?n (fr_table r) = Some (None, drop_consumed W ?n tb') \<and>
           same_but_segments tb1 tb' \<and> idle_table tb' \<and> blocks_ok S tr \<and> sss \<noteq> [] \<and> concat sss = map (blk_seg \<circ> fst) tr \<and>
           (\<forall>i < length (tb_columns tb1). tr_pts tr i @ left_in tb' i = ?pre i @ pts all i) \<and>
           ((\<forall>v e. fst (ef_Write F v e)) \<and> (\<forall>i. ?pre i = []) \<longrightarrow> (\<forall>i. left_in tb' i = [])) \<and>
           tb_fragmentation tb' = l \<and> take (length front) (fl_segments l) = front \<and> length (fl_segments l) = length front + length sss \<and>
           segments_ready c l (butlast (fl_segments l)) (last (layout xs sss)) \<and>
           (\<forall>j < length sss. stored c (fw_file (sg_writer (fl_segments l ! (length front + j)))) (layout xs sss ! j))"
    if "run_inv S c front m xs ?pre tb1 all r" for r clk'
    by (rule end_flush_ok [OF c law(1) ti valid1 valid(2) _ lens that]) (use sup in blast)
  have "\<exists>r clk'. flushCache S V F W now clk tb = end_flush S V F W clk' ?n (fr_table r) \<and> run_inv S c front m xs ?pre tb1 all r"
  proof (cases sorted)
    case True
    have "\<exists>s'. forEachCompleteFile W (int ?n) (\<lambda>i k t v off (es, lf, lo). (True, (es @ [(k, t, v)], int i, off))) (tb_walFile tb) ([], -1, 0) = (?n, None, s') \<and> fst s' = ?its"
      by (rule forEachCompleteFile_walk [OF law(2) wal, where P = "\<lambda>dn s. fst s = dn"]) auto
    then obtain lf lo where fe: "forEachCompleteFile W (int ?n) (\<lambda>i k t v off (es, lf, lo). (True, (es @ [(k, t, v)], int i, off))) (tb_walFile tb) ([], -1, 0) = (?n, None, (?its, lf, lo))"
      by auto
    have a: "all = sort_entries ?its" using all cs True by (simp add: file_order_def)
    obtain r where r: "each_until (\<lambda>(k, t, v). processEntry S V F clk (tb_flushEpoch tb1) k t v) all ?r0 = (True, r)" "run_inv S c front m xs ?pre tb1 all r"
      using each_until_walk [of all "run_inv S c front m xs ?pre tb1" "\<lambda>(k, t, v). processEntry S V F clk (tb_flushEpoch tb1) k t v" "[]" all "[]" ?r0] step r0
      by fastforce
    then have "flush_sorted S V F W clk ?n all tb1 = end_flush S V F W (\<lambda>n. clk (fr_seen r + n)) ?n (fr_table r)"
      by (simp add: flush_sorted_def run_inv_def)
    then have "flushCache S V F W now clk tb = end_flush S V F W (\<lambda>n. clk (fr_seen r + n)) ?n (fr_table r)"
      using cs True n fe ne tb1(1) a wt by (simp add: flushCache_def Let_def del: concat_eq_Nil_conv)
    then show ?thesis using r(2) by blast
  next
    case False
    have a: "all = ?its" using all cs False by (simp add: file_order_def)
    let ?fc = "\<lambda>i k t v off r. processEntry S V F clk (tb_flushEpoch tb1) k t v (r\<lparr>fr_lastReadFile := int i, fr_lastReadOffset := off\<rparr>)"
    have "\<exists>r. forEachCompleteFile W (int ?n) ?fc (tb_walFile tb) ?r0 = (?n, None, r) \<and> run_inv S c front m xs ?pre tb1 ?its r"
    proof (rule forEachCompleteFile_walk [where P = "run_inv S c front m xs ?pre tb1" and fc = ?fc, OF law(2) wal _ r0])
      fix dn i k t v post r off
      assume "?its = dn @ (k, t, v) # post" "run_inv S c front m xs ?pre tb1 dn r"
      then show "\<exists>r'. ?fc i k t v off r = (True, r') \<and> run_inv S c front m xs ?pre tb1 (dn @ [(k, t, v)]) r'"
        by (intro step) (simp_all add: a run_inv_def)
    qed
    then obtain r where r: "forEachCompleteFile W (int ?n) ?fc (tb_walFile tb1) ?r0 = (?n, None, r)" "run_inv S c front m xs ?pre tb1 all r"
      using a tb1(3) by auto
    then have "flush_streamed S V F W clk ?n tb1 = end_flush S V F W (\<lambda>n. clk (fr_seen r + n)) ?n (fr_table r)"
      by (simp add: flush_streamed_def run_inv_def)
    then have "flushCache S V F W now clk tb = end_flush S V F W (\<lambda>n. clk (fr_seen r + n)) ?n (fr_table r)"
      using cs False n tb1(1) wt by (simp add: flushCache_def Let_def)
    then show ?thesis using r(2) by blast
  qed
  then obtain r clk' where r: "flushCache S V F W now clk tb = end_flush S V F W clk' ?n (fr_table r)" "run_inv S c front m xs ?pre tb1 all r" by blast
  from fin [OF r(2), of clk'] obtain tb' tr sss where e:
      "end_flush S V F W clk' ?n (fr_table r) = Some (None, drop_consumed W ?n tb')" "same_but_segments tb1 tb'" "idle_table tb'" "blocks_ok S tr"
      "sss \<noteq> []" "concat sss = map (blk_seg \<circ> fst) tr" "\<forall>i < length (tb_columns tb1). tr_pts tr i @ left_in tb' i = ?pre i @ pts all i"
      "(\<forall>v e. fst (ef_Write F v e)) \<and> (\<forall>i. ?pre i = []) \<longrightarrow> (\<forall>i. left_in tb' i = [])"
      "take (length front) (fl_segments (tb_fragmentation tb')) = front" "length (fl_segments (tb_fragmentation tb')) = length front + length sss"
      "segments_ready c (tb_fragmentation tb') (butlast (fl_segments (tb_fragmentation tb'))) (last (layout xs sss))"
      "\<forall>j < length sss. stored c (fw_file (sg_writer (fl_segments (tb_fragmentation tb') ! (length front + j)))) (layout xs sss ! j)"
    by blast
  note n' = same_but_segmentsD [OF e(2)]
  have "wal_repr W (tb_walFile (drop_consumed W ?n tb')) [last logs]"
    using wal_truncate_repr [OF wal n] n' tb1(3) logs(2) drop_last_one [of logs] by (simp add: drop_consumed_def)
  then show ?thesis using r(1) e n' tb1(4)
    by (intro exI [of _ "drop_consumed W ?n tb'"] exI [of _ tr] exI [of _ sss]) (simp add: idle_table_def)
qed

end

end
