(* ===== verification/Table_Claims.thy ===== *)
theory Table_Claims
  imports Flush_Props
begin

text \<open>
  The flush of a table of integers as a whole, and what a flush that fails leaves behind.
\<close>

section \<open>A table between flushes\<close>

text \<open>The log holds \<open>logs\<close>, one list for every file; the encoders are empty and hold nothing back; the last segment holds \<open>xs\<close> and is at rest or was
  kept open by the last commit.\<close>

definition table_ready ::
  "compressor \<Rightarrow> 'v wal_ops \<Rightarrow> 'v variant_ops \<Rightarrow> TableInfo \<Rightarrow> ('v, IntegerEncoder) ssTable \<Rightarrow> 'v wal_item list list \<Rightarrow> fileSegment list \<Rightarrow> bytes \<Rightarrow> bool" where
  "table_ready c W V ti tb logs front xs \<longleftrightarrow>
     wal_repr W (tb_walFile tb) logs \<and> int_column.idle_table ti V tb \<and> (\<forall>i. left_in tb i = []) \<and> segments_ready c (tb_fragmentation tb) front xs"

definition int_point :: "'v variant_ops \<Rightarrow> nat \<Rightarrow> 'v wal_item \<Rightarrow> bool" where
  "int_point V n = (\<lambda>(k, t, v). k \<noteq> 0 \<and> unat k \<le> n \<and> t \<noteq> 0 \<and> vt_AsInt64 V v \<noteq> None)"

text \<open>A block as the decoders read it.\<close>

definition int_block :: "simple8b_ops \<Rightarrow> 'v variant_ops \<Rightarrow> SegmentHeader \<times> bytes \<times> bytes \<Rightarrow> (int \<times> 'v) list \<Rightarrow> bool" where
  "int_block S V blk ps = (case blk of (h, td, vd) \<Rightarrow>
     time_points S td (length ps) = Some (word_times ps) \<and>
     int_decode S V (length ps) vd = Some (map (\<lambda>(t, v). vt_NewInt64 V (the (vt_AsInt64 V v))) ps) \<and>
     sh_MaxTime h = fst (last ps) \<and> sh_Crc h = crc32_ieee vd)"

lemma int_table_flush:
  assumes "simple8b_law S" "wal_law W" "block_compressor c" "ca_Type ti \<noteq> ColumnTypeStructure" "table_ready c W V ti tb logs front xs"
    "concat (butlast logs) \<noteq> []" "Suc (length (concat (butlast logs))) < 2 ^ 62"
    "list_all (int_point V (length (tb_columns tb))) (concat (butlast logs))"
  shows "\<exists>tb' tr sss. flushCache S V (int_family S V) W now clk tb = Some (None, tb') \<and>
           table_ready c W V ti tb' [last logs] (butlast (fl_segments (tb_fragmentation tb'))) (last (layout xs sss)) \<and>
           length (tb_columns tb') = length (tb_columns tb) \<and>
           list_all (\<lambda>(blk, ps). int_block S V blk ps) tr \<and>
           (\<forall>i < length (tb_columns tb). tr_pts tr i = pts (file_order (tb_walFile tb) (concat (butlast logs))) i) \<and>
           sss \<noteq> [] \<and> concat sss = map (blk_seg \<circ> fst) tr \<and>
           take (length front) (fl_segments (tb_fragmentation tb')) = front \<and>
           length (fl_segments (tb_fragmentation tb')) = length front + length sss \<and>
           (\<forall>j < length sss. stored c (fw_file (sg_writer (fl_segments (tb_fragmentation tb') ! (length front + j)))) (layout xs sss ! j))"
proof -
  let ?all = "file_order (tb_walFile tb) (concat (butlast logs))"
  have r: "wal_repr W (tb_walFile tb) logs" "int_column.idle_table ti V tb" "\<forall>i. left_in tb i = []" "segments_ready c (tb_fragmentation tb) front xs"
    using assms(5) by (simp_all add: table_ready_def)
  have set: "set ?all = set (concat (butlast logs))" "length ?all = length (concat (butlast logs))" by simp_all
  have valid: "list_all (valid_point (length (tb_columns tb))) ?all"
    using assms(8) set(1) by (auto simp: list_all_iff int_point_def valid_point_def)
  have ne: "?all \<noteq> []" using assms(6) set(1) by (metis set_empty)
  have len: "Suc (length ?all) < 2 ^ 62" using assms(7) set(2) by simp
  have sup: "simple8b_law S \<and> length (map snd qs) < 2 ^ 62 \<and> list_all (\<lambda>v. vt_AsInt64 V v \<noteq> None) (map snd qs)"
    if q: "sublist qs (left_in tb i @ pts ?all i)" for i qs
  proof -
    have "set (pts ?all i) \<subseteq> snd ` set ?all" "length (pts ?all i) \<le> length ?all" by (auto simp only: pts_def set_map set_filter length_map length_filter_le)
    then have "set qs \<subseteq> snd ` set ?all" "length qs \<le> length ?all"
      using set_mono_sublist [OF q] sublist_length_le [OF q] r(3) by (auto simp del: set_file_order)
    then show ?thesis using assms(1,8) set(1) len by (force simp: list_all_iff int_point_def)
  qed
  then have sup': "\<forall>i qs. sublist qs (left_in tb i @ pts ?all i) \<longrightarrow>
      simple8b_law S \<and> length (map snd qs) < 2 ^ 62 \<and> list_all (\<lambda>v. vt_AsInt64 V v \<noteq> None) (map snd qs)"
    by blast
  have total: "fst (ef_Write (int_family S V) v e)" for v e by (simp add: int_family_def IntegerEncoder_Write_def Let_def split: option.split)
  from int_column.flushCache_ok [where now = now and clk = clk, OF assms(3,1,2,4) r(1) refl valid ne r(2,4) sup' len, of V]
  obtain tb' tr sss where f: "flushCache S V (int_family S V) W now clk tb = Some (None, tb')" "wal_repr W (tb_walFile tb') [last logs]"
      "int_column.idle_table ti V tb'" "length (tb_columns tb') = length (tb_columns tb)"
      "int_column.blocks_ok S V S tr" "sss \<noteq> []" "concat sss = map (blk_seg \<circ> fst) tr"
      "\<forall>i < length (tb_columns tb). tr_pts tr i @ left_in tb' i = left_in tb i @ pts ?all i"
      "(\<forall>v e. fst (ef_Write (int_family S V) v e)) \<and> (\<forall>i. left_in tb i = []) \<longrightarrow> (\<forall>i. left_in tb' i = [])"
      "take (length front) (fl_segments (tb_fragmentation tb')) = front"
      "length (fl_segments (tb_fragmentation tb')) = length front + length sss"
      "segments_ready c (tb_fragmentation tb') (butlast (fl_segments (tb_fragmentation tb'))) (last (layout xs sss))"
      "\<forall>j < length sss. stored c (fw_file (sg_writer (fl_segments (tb_fragmentation tb') ! (length front + j)))) (layout xs sss ! j)"
    by (elim exE conjE) (rule that)
  have left: "\<forall>i. left_in tb' i = []" using f(9) r(3) total by blast
  have "list_all (\<lambda>(blk, ps). int_block S V blk ps) tr"
    using f(5) by (auto simp: int_column.blocks_ok_def int_column.block_points_def int_block_def list_all_iff comp_def case_prod_beta)
  then show ?thesis using f left r(3)
    by (intro exI [of _ tb'] exI [of _ tr] exI [of _ sss]) (simp add: table_ready_def)
qed

section \<open>A sample table\<close>

definition u64_variant :: "u64 variant_ops" where
  "u64_variant = \<lparr>vt_AsBool = (\<lambda>_. None), vt_NewBool = (\<lambda>b. if b then 1 else 0), vt_AsInt64 = Some, vt_NewInt64 = id, vt_AsString = be_put 8,
     vt_NewString = be_get, vt_Empty = 0, vt_MarshalBinary = (\<lambda>v. Some (be_put 8 v)), vt_UnmarshalBinary = (\<lambda>bs. Some (be_get bs, 8))\<rparr>"

definition sample_info :: TableInfo where "sample_info = ColumnAttribute [] [] ColumnTypeInt 0 []"

definition sample_items :: "u64 wal_item list" where "sample_items = [(1, 20, 7), (1, 10, 8)]"

definition sample_log :: "u64 walFile" where
  "sample_log =
     \<lparr>ws_walFiles = [\<lparr>wf_fileName = 5, wf_length = int (length (wal_log sample_wal sample_items)), wf_readBuffer = newWalReadBuffer 2, wf_needsSort = True\<rparr>,
                     \<lparr>wf_fileName = 6, wf_length = 0, wf_readBuffer = newWalReadBuffer 2, wf_needsSort = False\<rparr>],
      ws_spareReadBuffer = None, ws_tagStates = [], ws_tagMaxTimestamp = Map.empty, ws_tagLastValue = Map.empty, ws_tagStateCount = 0,
      ws_open = True, ws_dedupWindowMs = 0, ws_minIntervalMs = 0,
      ws_config = \<lparr>wc_MaxFileSize = 30, wc_MaxFileNumber = 0, wc_CloseBuffer = True, wc_MaxBufferBatchSize = 2\<rparr>,
      ws_dir = [(5, wal_log sample_wal sample_items), (6, [])]\<rparr>"

definition sample_table :: "(u64, IntegerEncoder) ssTable" where
  "sample_table =
     \<lparr>tb_tableInfo = sample_info, tb_Meta = fresh_meta 0, tb_fragmentation = BuildFragmentation [(5, [], None)] NoCompressor None,
      tb_columns = [Some (newSSColumn u64_variant 1 (Some sample_info) 0 0)], tb_maxSegmentSize = 0, tb_maxSegmentTimeInterval = 0,
      tb_expirationMinuteTime = 0, tb_maxStorageTime = 0, tb_walFile = sample_log, tb_flushEpoch = 0, tb_flushTouched = [],
      tb_asyncCleanup = False, tb_asyncErr = None, tb_maxQueryPoints = 0\<rparr>"

lemma sample_log_repr: "wal_repr sample_wal sample_log [sample_items, []]"
  by (simp add: wal_repr_def sample_log_def file_repr_def newWalReadBuffer_ok sample_items_def sample_wal_def)

lemma sample_table_ready: "table_ready NoCompressor sample_wal u64_variant sample_info sample_table [sample_items, []] [] []"
proof -
  have "int_column.idle_table sample_info u64_variant sample_table"
    unfolding int_column.idle_table_def
    by (simp add: sample_table_def new_column_ok [OF int_column.column_encoder_axioms]) (simp add: newSSColumn_def)
  moreover have "left_in sample_table i = []" for i by (simp add: left_in_def sample_table_def)
  moreover have "segments_ready NoCompressor (tb_fragmentation sample_table) [] []"
    using BuildFragmentation_shape(1) one_segment_rest new_writer_ready by (auto simp: segments_ready_def sample_table_def)
  moreover have "tb_walFile sample_table = sample_log" by (simp add: sample_table_def)
  ultimately show ?thesis using sample_log_repr by (simp add: table_ready_def)
qed

lemma sample_items_ok: "list_all (int_point u64_variant (length (tb_columns sample_table))) (concat (butlast [sample_items, []]))"
  by (simp add: int_point_def sample_items_def sample_table_def u64_variant_def)

section \<open>Properties\<close>

text \<open>\<^bold>\<open>C1\<close>: a flush moves every point of the completed log files into the segments, exactly once, and the table can be flushed again.  It succeeds;
  the log keeps only the file being written; the data files of the transaction hold what they held before followed by the blocks that were
  written; each block decodes to the points it stands for; and for every series the points of its blocks, in order, are the points it has in the
  completed log files, in time order if some file was out of order.\<close>

theorem flush_moves_points:
  assumes "simple8b_law S" "wal_law W" "block_compressor c" "ca_Type ti \<noteq> ColumnTypeStructure" "table_ready c W V ti tb logs front xs"
    "concat (butlast logs) \<noteq> []" "Suc (length (concat (butlast logs))) < 2 ^ 62"
    "list_all (int_point V (length (tb_columns tb))) (concat (butlast logs))"
  shows "\<exists>tb' tr sss. flushCache S V (int_family S V) W now clk tb = Some (None, tb') \<and>
           table_ready c W V ti tb' [last logs] (butlast (fl_segments (tb_fragmentation tb'))) (last (layout xs sss)) \<and>
           list_all (\<lambda>(blk, ps). int_block S V blk ps) tr \<and>
           (\<forall>i < length (tb_columns tb). tr_pts tr i =
              (if snd (completeFileState (tb_walFile tb)) then sort_key fst (pts (concat (butlast logs)) i) else pts (concat (butlast logs)) i)) \<and>
           sss \<noteq> [] \<and> concat sss = map (blk_seg \<circ> fst) tr \<and>
           take (length front) (fl_segments (tb_fragmentation tb')) = front \<and>
           length (fl_segments (tb_fragmentation tb')) = length front + length sss \<and>
           (\<forall>j < length sss. stored c (fw_file (sg_writer (fl_segments (tb_fragmentation tb') ! (length front + j)))) (layout xs sss ! j))"
proof -
  have "pts (file_order (tb_walFile tb) its) i = (if snd (completeFileState (tb_walFile tb)) then sort_key fst (pts its i) else pts its i)" for its i
    by (simp add: file_order_def pts_sort_entries)
  then show ?thesis using int_table_flush [OF assms, of now clk] by (elim exE conjE) (intro exI conjI, simp_all)
qed

theorem flush_moves_points_witness:
  "\<exists>tb' tr sss. flushCache s8_sample u64_variant (int_family s8_sample u64_variant) sample_wal 9 (\<lambda>n. 10 + int n) sample_table = Some (None, tb') \<and>
     wal_repr sample_wal (tb_walFile tb') [[]] \<and> tr_pts tr 0 = [(10, 8 :: u64), (20, 7)] \<and> concat sss = map (blk_seg \<circ> fst) tr"
proof -
  have info: "ca_Type sample_info \<noteq> ColumnTypeStructure" by (simp add: sample_info_def)
  have small: "Suc (length (concat (butlast [sample_items, []]))) < 2 ^ 62" "concat (butlast [sample_items, []]) \<noteq> []" by (simp_all add: sample_items_def)
  obtain tb' tr sss where f: "flushCache s8_sample u64_variant (int_family s8_sample u64_variant) sample_wal 9 (\<lambda>n. 10 + int n) sample_table = Some (None, tb')"
      "table_ready NoCompressor sample_wal u64_variant sample_info tb' [last [sample_items, []]] (butlast (fl_segments (tb_fragmentation tb'))) (last (layout [] sss))"
      "\<forall>i < length (tb_columns sample_table). tr_pts tr i =
              (if snd (completeFileState (tb_walFile sample_table)) then sort_key fst (pts (concat (butlast [sample_items, []])) i)
               else pts (concat (butlast [sample_items, []])) i)"
      "concat sss = map (blk_seg \<circ> fst) tr"
    using flush_moves_points [OF s8_sample_law sample_wal_law no_compressor.block_compressor_axioms info sample_table_ready small(2,1) sample_items_ok,
        of 9 "\<lambda>n. 10 + int n"] by (elim exE conjE) (rule that)
  have "snd (completeFileState (tb_walFile sample_table))" by (simp add: completeFileState_def Let_def sample_table_def sample_log_def)
  then have "tr_pts tr 0 = [(10, 8), (20, 7)]" using f(3) by (simp add: sample_table_def sample_items_def pts_def)
  then show ?thesis using f by (intro exI [of _ tb'] exI [of _ tr] exI [of _ sss]) (simp add: table_ready_def)
qed

text \<open>\<^bold>\<open>C3\<close>: the loop that makes room in the log ends: on such a table \<^verbatim>\<open>flushBlocking\<close>, which repeats the flush as long as more than one log file is left,
  returns without an error and leaves one.\<close>

theorem flushBlocking_returns:
  assumes "simple8b_law S" "wal_law W" "block_compressor c" "ca_Type ti \<noteq> ColumnTypeStructure" "table_ready c W V ti tb logs front xs"
    "concat (butlast logs) \<noteq> []" "Suc (length (concat (butlast logs))) < 2 ^ 62"
    "list_all (int_point V (length (tb_columns tb))) (concat (butlast logs))" "tb_asyncErr tb = None"
  shows "\<exists>tb'. flushBlocking S V (int_family S V) W clks tb = Some (None, tb') \<and> \<not> NeedFlush (tb_walFile tb') \<and> wal_repr W (tb_walFile tb') [last logs]"
proof -
  obtain now clk later where c: "clks 0 = (now, clk, later)" by (metis prod_cases3)
  obtain tb1 where f: "flushCache S V (int_family S V) W now clk tb = Some (None, tb1)" "wal_repr W (tb_walFile tb1) [last logs]"
    using int_table_flush [OF assms(1-8), of now clk] unfolding table_ready_def by blast
  obtain l where a: "flushAndCleanup S V (int_family S V) W now clk later tb = Some (None, tb1\<lparr>tb_fragmentation := l\<rparr>)"
    using f(1) by (cases "\<not> tb_asyncCleanup tb1 \<and> tb_expirationMinuteTime tb1 \<noteq> 0") (auto simp: flushAndCleanup_def intro: that [of "tb_fragmentation tb1"])
  let ?tb = "tb1\<lparr>tb_fragmentation := l\<rparr>"
  have need: "NeedFlush (tb_walFile tb)"
  proof -
    have "length (ws_walFiles (tb_walFile tb)) = length logs" using assms(5) wal_repr_lists unfolding table_ready_def by metis
    moreover have "1 < length logs" using assms(6) by (cases logs; cases "tl logs"; simp)
    ultimately show ?thesis by (simp add: NeedFlush_def)
  qed
  have "length (ws_walFiles (tb_walFile tb1)) = 1" using wal_repr_lists [OF f(2)] by simp
  then have stop: "\<not> NeedFlush (tb_walFile ?tb)" by (simp add: NeedFlush_def)
  have "drain_log S V (int_family S V) W (clks \<circ> Suc) ?tb = Some (None, ?tb)" using stop by (subst drain_log.simps) simp
  then have "drain_log S V (int_family S V) W clks tb = Some (None, ?tb)" using need c a by (subst drain_log.simps) simp
  then show ?thesis using assms(9) stop f(2) by (simp add: flushBlocking_def)
qed

theorem flushBlocking_returns_witness:
  "\<exists>tb'. flushBlocking s8_sample u64_variant (int_family s8_sample u64_variant) sample_wal (\<lambda>n. (9, \<lambda>m. 10 + int m, 20)) sample_table = Some (None, tb') \<and>
     \<not> NeedFlush (tb_walFile tb')"
proof -
  have info: "ca_Type sample_info \<noteq> ColumnTypeStructure" by (simp add: sample_info_def)
  have small: "Suc (length (concat (butlast [sample_items, []]))) < 2 ^ 62" "concat (butlast [sample_items, []]) \<noteq> []" by (simp_all add: sample_items_def)
  have "tb_asyncErr sample_table = None" by (simp add: sample_table_def)
  from flushBlocking_returns [OF s8_sample_law sample_wal_law no_compressor.block_compressor_axioms info sample_table_ready small(2,1) sample_items_ok this]
  show ?thesis by blast
qed

end
