(* ===== verification/Flush_Log.thy ===== *)
theory Flush_Log
  imports Table
begin

text \<open>
  What a flush may do to the write-ahead log, for every table and every course of the flush.
\<close>

section \<open>Walking the log\<close>

lemma each_until_inv:
  assumes "\<And>e s. P s \<Longrightarrow> P (snd (f e s))"
  shows "P s \<Longrightarrow> P (snd (each_until f es s))"
proof (induction es arbitrary: s)
  case (Cons e es)
  have "P (snd (f e s))" using assms Cons.prems by blast
  then show ?case using Cons.IH by (auto split: prod.splits bool.splits)
qed simp

lemma forEachWalFile_inv:
  assumes step: "\<And>k t v off s. P s \<Longrightarrow> P (snd (fc k t v off s))"
  shows "P s \<Longrightarrow> P (snd (forEachWalFile W fc d pos s))"
proof (induction "length d - pos" arbitrary: pos s rule: less_induct)
  case less
  let ?rest = "drop pos d" and ?n = "unat (be_get (take 4 (drop pos d)) :: u32)"
  have rec: "P (snd (case fc k t v (pos + (4 + ?n)) s of (True, s') \<Rightarrow> forEachWalFile W fc d (pos + (4 + ?n)) s' | (False, s') \<Rightarrow> (None, s')))"
    if "?rest \<noteq> []" for k t v
  proof -
    have "P (snd (fc k t v (pos + (4 + ?n)) s))" using step less.prems by blast
    moreover have "length d - (pos + (4 + ?n)) < length d - pos" using that by simp
    ultimately show ?thesis using less.hyps by (auto split: prod.splits bool.splits)
  qed
  show ?case using less.prems rec by (subst forEachWalFile.simps) (auto simp: Let_def split: option.split)
qed

lemma visit_files_inv:
  assumes step: "\<And>i k t v off s. P s \<Longrightarrow> P (snd (fc i k t v off s))"
  shows "P s \<Longrightarrow> P (snd (snd (visit_files W fc ws i fs s))) \<and> fst (visit_files W fc ws i fs s) \<le> i + length fs"
proof (induction fs arbitrary: i s)
  case (Cons f fs)
  let ?fc = "\<lambda>k t v off (stopped, s). (let (go, s') = fc i k t v off s in (go, (\<not> go, s')))"
  have walk_step: "fc i k t v off s = (go, s') \<Longrightarrow> P s \<Longrightarrow> P s'" for k t v off s go s' using step [of s i k t v off] by simp
  have walk: "P (snd (snd (forEachWalFile W ?fc d 0 (False, s))))" for d
    by (rule forEachWalFile_inv [where P = "\<lambda>s. P (snd s)" and fc = ?fc]) (use step Cons.prems in \<open>auto simp: Let_def split: prod.splits dest: walk_step\<close>)
  have buf: "P (snd (each_until (\<lambda>(k, t, v). fc i k t v 0) its s))" for its
    by (rule each_until_inv) (use step Cons.prems in \<open>auto split: prod.splits\<close>)
  show ?case
  proof (cases "wc_CloseBuffer (ws_config ws)")
    case True
    show ?thesis
    proof (cases "file_bytes (wf_fileName f) (ws_dir ws)")
      case None
      then show ?thesis using True Cons.prems by simp
    next
      case (Some d)
      obtain e b s' where r: "forEachWalFile W ?fc d 0 (False, s) = (e, b, s')" by (rule prod_cases3)
      have s': "P s'" using walk [of d] unfolding r by (simp only: snd_conv)
      note IH = Cons.IH [OF s', of "Suc i"]
      have eq: "visit_files W fc ws i (f # fs) s =
          (case e of Some x \<Rightarrow> (i, Some x, s') | None \<Rightarrow> if b then (i, None, s') else visit_files W fc ws (Suc i) fs s')"
        unfolding visit_files.simps r Some option.case prod.case if_P [OF True] by (cases e) (simp_all only: option.case prod.case)
      show ?thesis unfolding eq using s' IH by (simp split: option.split)
    qed
  next
    case False
    obtain go s' where r: "each_until (\<lambda>(k, t, v). fc i k t v 0) (rb_items (wf_readBuffer f)) s = (go, s')" by fastforce
    then have s': "P s'" using buf [of "rb_items (wf_readBuffer f)"] by simp
    note IH = Cons.IH [OF s', of "Suc i"]
    have eq: "visit_files W fc ws i (f # fs) s = (if go then visit_files W fc ws (Suc i) fs s' else (i, None, s'))"
      unfolding visit_files.simps rb_forEach_items r if_not_P [OF False] by (cases go) (simp_all only: bool.case prod.case if_True if_False)
    show ?thesis unfolding eq using s' IH by simp
  qed
qed simp

lemma forEachCompleteFile_inv:
  assumes step: "\<And>i k t v off s. P s \<Longrightarrow> P (snd (fc i k t v off s))" and s: "P s"
    and r: "forEachCompleteFile W (int limit) fc ws s = (consumed, e, s')"
  shows "P s' \<and> consumed \<le> limit"
proof -
  define n where "n = (if int limit > int (length (ws_walFiles ws) - 1) then length (ws_walFiles ws) - 1 else limit)"
  have "visit_files W fc ws 0 (take n (ws_walFiles ws)) s = (consumed, e, s')" using r
    by (cases "int limit > int (length (ws_walFiles ws) - 1)") (simp_all add: forEachCompleteFile_def Let_def n_def)
  moreover have "n \<le> limit" by (simp add: n_def)
  ultimately show ?thesis using visit_files_inv [of P fc s W ws 0 "take n (ws_walFiles ws)", OF step s] by simp
qed

text \<open>A walk that is not stopped by what it asks ends like the walk that asks for nothing.\<close>

definition stop_flag :: "(u32 \<Rightarrow> int \<Rightarrow> 'v \<Rightarrow> nat \<Rightarrow> 's \<Rightarrow> bool \<times> 's) \<Rightarrow> u32 \<Rightarrow> int \<Rightarrow> 'v \<Rightarrow> nat \<Rightarrow> bool \<times> 's \<Rightarrow> bool \<times> (bool \<times> 's)" where
  "stop_flag hc k t v off = (\<lambda>(stopped, s). let (go, s') = hc k t v off s in (go, (\<not> go, s')))"

lemma stop_flag_eq: "(\<lambda>k t v off (stopped, s). (let (go, s') = hc k t v off s in (go, (\<not> go, s')))) = stop_flag hc"
  by (simp add: stop_flag_def fun_eq_iff)

lemma stop_flag_step: "stop_flag hc k t v off (b, s) = (fst (hc k t v off s), (\<not> fst (hc k t v off s), snd (hc k t v off s)))"
  by (simp add: stop_flag_def split: prod.split)

lemma walk_same_end:
  assumes all: "\<And>k t v off s. fst (gc k t v off s)"
    and r: "forEachWalFile W (stop_flag fc) d pos (False, s) = (x, b, s1)"
  shows "(b \<longrightarrow> x = None) \<and> (\<not> b \<longrightarrow> (\<exists>s1'. forEachWalFile W (stop_flag gc) d pos (False, s') = (x, False, s1')))"
  using r
proof (induction "length d - pos" arbitrary: pos s s' rule: less_induct)
  case less
  let ?rest = "drop pos d" and ?n = "unat (be_get (take 4 (drop pos d)) :: u32)"
  let ?data = "take ?n (drop 4 ?rest)"
  let ?k = "be_get (take 4 ?data) :: u32" and ?t = "sint (be_get (take 8 (drop 4 ?data)) :: u64)"
  show ?case
  proof (cases "?rest = [] \<or> length ?rest < 4 \<or> ?n \<le> 12 \<or> length ?rest < 4 + ?n \<or> decode_value W (drop 12 ?data) = None")
    case True
    then show ?thesis using less.prems by (subst (asm) forEachWalFile.simps, subst forEachWalFile.simps) (auto simp: Let_def split: if_splits option.splits)
  next
    case False
    then obtain v where v: "decode_value W (drop 12 ?data) = Some v" by blast
    have step: "forEachWalFile W (stop_flag hc) d pos (False, u) =
        (if fst (hc ?k ?t v (pos + (4 + ?n)) u) then forEachWalFile W (stop_flag hc) d (pos + (4 + ?n)) (False, snd (hc ?k ?t v (pos + (4 + ?n)) u))
         else (None, True, snd (hc ?k ?t v (pos + (4 + ?n)) u)))" for hc :: "u32 \<Rightarrow> int \<Rightarrow> 'a \<Rightarrow> nat \<Rightarrow> 'z \<Rightarrow> bool \<times> 'z" and u
      using False v by (subst forEachWalFile.simps) (simp add: Let_def stop_flag_step)
    have "pos < length d" using False by simp
    then have shorter: "length d - (pos + (4 + ?n)) < length d - pos" by linarith
    show ?thesis
    proof (cases "fst (fc ?k ?t v (pos + (4 + ?n)) s)")
      case False
      then show ?thesis using less.prems by (simp add: step)
    next
      case True
      then have "forEachWalFile W (stop_flag fc) d (pos + (4 + ?n)) (False, snd (fc ?k ?t v (pos + (4 + ?n)) s)) = (x, b, s1)"
        using less.prems by (simp add: step)
      from less.hyps [OF shorter this] show ?thesis by (simp add: step [of gc] all)
    qed
  qed
qed

lemma each_until_go:
  assumes "\<And>e s. fst (g e s)"
  shows "fst (each_until f es s) \<Longrightarrow> fst (each_until g es s')"
proof (induction es arbitrary: s s')
  case (Cons e es)
  obtain u where g: "g e s' = (True, u)" using assms [of e s'] by (metis prod.collapse)
  show ?case using Cons.prems Cons.IH by (auto simp: g split: prod.splits bool.splits)
qed simp

definition read_outcome :: "'v wal_ops \<Rightarrow> nat \<Rightarrow> 'v walFile \<Rightarrow> nat \<times> wal_error option" where
  "read_outcome W limit ws = (case forEachCompleteFile W (int limit) (\<lambda>i k t v off s. (True, ())) ws () of (consumed, e, s) \<Rightarrow> (consumed, e))"

lemma visit_files_error:
  assumes all: "\<And>i k t v off s. fst (gc i k t v off s)"
  shows "visit_files W fc ws i fs s = (n, Some e, s1) \<Longrightarrow> \<exists>s1'. visit_files W gc ws i fs s' = (n, Some e, s1')"
proof (induction fs arbitrary: i s s')
  case (Cons f fs)
  show ?case
  proof (cases "wc_CloseBuffer (ws_config ws)")
    case True
    show ?thesis
    proof (cases "file_bytes (wf_fileName f) (ws_dir ws)")
      case None
      then show ?thesis using Cons.prems True by simp
    next
      case (Some d)
      have step: "visit_files W hc ws i (f # fs) u =
          (case forEachWalFile W (stop_flag (hc i)) d 0 (False, u) of
             (Some e, (stopped, s')) \<Rightarrow> (i, Some e, s')
           | (None, (stopped, s')) \<Rightarrow> if stopped then (i, None, s') else visit_files W hc ws (Suc i) fs s')"
        for hc :: "nat \<Rightarrow> u32 \<Rightarrow> int \<Rightarrow> 'a \<Rightarrow> nat \<Rightarrow> 'z \<Rightarrow> bool \<times> 'z" and u
        by (simp only: visit_files.simps stop_flag_eq True Some if_True option.case)
      obtain x b s2 where f: "forEachWalFile W (stop_flag (fc i)) d 0 (False, s) = (x, b, s2)" by (rule prod_cases3)
      note same = walk_same_end [of "gc i", OF all f, of s']
      show ?thesis
      proof (cases b)
        case True
        then show ?thesis using Cons.prems same by (simp add: step f del: visit_files.simps)
      next
        case False
        then obtain s3 where g: "forEachWalFile W (stop_flag (gc i)) d 0 (False, s') = (x, False, s3)" using same by blast
        show ?thesis using Cons.prems Cons.IH [of "Suc i" s2 s3] False unfolding step f g by (cases x) (simp_all del: visit_files.simps)
      qed
    qed
  next
    case False
    have step: "visit_files W hc ws i (f # fs) u =
        (case each_until (\<lambda>(k, t, v). hc i k t v 0) (rb_items (wf_readBuffer f)) u of
           (True, s') \<Rightarrow> visit_files W hc ws (Suc i) fs s' | (False, s') \<Rightarrow> (i, None, s'))"
      for hc :: "nat \<Rightarrow> u32 \<Rightarrow> int \<Rightarrow> 'a \<Rightarrow> nat \<Rightarrow> 'z \<Rightarrow> bool \<times> 'z" and u
      using False by (simp add: rb_forEach_items)
    obtain s2 where f: "each_until (\<lambda>(k, t, v). fc i k t v 0) (rb_items (wf_readBuffer f)) s = (True, s2)" "visit_files W fc ws (Suc i) fs s2 = (n, Some e, s1)"
      using Cons.prems by (auto simp: step simp del: visit_files.simps split: prod.splits bool.splits)
    have "fst (each_until (\<lambda>(k, t, v). gc i k t v 0) (rb_items (wf_readBuffer f)) s')"
      by (rule each_until_go [where f = "\<lambda>(k, t, v). fc i k t v 0" and s = s]) (use all f(1) in \<open>auto split: prod.split\<close>)
    then obtain s3 where "each_until (\<lambda>(k, t, v). gc i k t v 0) (rb_items (wf_readBuffer f)) s' = (True, s3)"
      by (cases "each_until (\<lambda>(k, t, v). gc i k t v 0) (rb_items (wf_readBuffer f)) s'") simp
    then show ?thesis using Cons.IH [OF f(2)] by (simp add: step del: visit_files.simps)
  qed
qed simp

lemma read_outcome_error:
  assumes "forEachCompleteFile W (int limit) fc ws s = (n, Some e, s1)"
  shows "read_outcome W limit ws = (n, Some e)"
proof -
  obtain s1' where "forEachCompleteFile W (int limit) (\<lambda>i k t v off s. (True, ())) ws () = (n, Some e, s1')"
    using visit_files_error [of "\<lambda>i k t v off s. (True, ())" W fc ws 0 _ s n e s1 "()"] assms unfolding forEachCompleteFile_def Let_def by auto
  then show ?thesis by (simp add: read_outcome_def)
qed

lemma processEntry_wal: "tb_walFile (fr_table (snd (processEntry S V F clk epoch k t v r))) = tb_walFile (fr_table r)"
  by (auto simp: processEntry_def touch_column_def put_column_def Let_def split: prod.split option.split)

lemma flush_rest_wal: "flush_rest S F clk is tb = Some (e, tb') \<Longrightarrow> tb_walFile tb' = tb_walFile tb"
  by (induction S F clk "is" tb rule: flush_rest.induct) (auto simp: put_column_def split: option.splits prod.splits)

lemma rollback_wal [simp]: "tb_walFile (snd (rollbackTransaction V F tb)) = tb_walFile tb"
  by (simp add: rollbackTransaction_def Let_def split: prod.split)

text \<open>What may have happened to the log: some completed files dropped; or, when reading the completed files ends with an error, the file that
  could not be read is cut after a record.\<close>

definition log_dropped :: "'v wal_ops \<Rightarrow> nat \<Rightarrow> 'v walFile \<Rightarrow> 'v walFile \<Rightarrow> bool" where
  "log_dropped W limit ws ws' \<longleftrightarrow> (\<exists>n \<le> limit. ws' = wal_truncate W (int n) ws)"

definition log_cut :: "'v wal_ops \<Rightarrow> nat \<Rightarrow> table_error \<Rightarrow> 'v walFile \<Rightarrow> 'v walFile \<Rightarrow> bool" where
  "log_cut W limit e ws ws' \<longleftrightarrow> ws' = ws \<or>
     (\<exists>we i n. e = WalError we \<and> read_outcome W limit ws = (i, Some we) \<and> ws' = retainWalFilePrefix i n ws)"

definition log_step :: "'v wal_ops \<Rightarrow> nat \<Rightarrow> 'v walFile \<Rightarrow> (table_error option \<times> ('v, 'e) ssTable) option \<Rightarrow> bool" where
  "log_step W limit ws r \<longleftrightarrow>
     (case r of
        None \<Rightarrow> True
      | Some (None, tb') \<Rightarrow> log_dropped W limit ws (tb_walFile tb')
      | Some (Some e, tb') \<Rightarrow> log_cut W limit e ws (tb_walFile tb'))"

lemma log_step_same: "tb_walFile tb' = ws \<Longrightarrow> log_step W limit ws (Some (Some e, tb'))"
  by (simp add: log_step_def log_cut_def)

lemma log_step_drop: "tb_walFile tb' = wal_truncate W (int n) ws \<Longrightarrow> n \<le> limit \<Longrightarrow> log_step W limit ws (Some (None, tb'))"
  by (auto simp: log_step_def log_dropped_def)

lemma log_step_none: "tb_walFile tb' = ws \<Longrightarrow> log_step W limit ws (Some (None, tb'))"
  using log_step_drop [of tb' W 0 ws limit] by (simp add: wal_truncate_def)

lemma end_flush_log:
  assumes "consumed \<le> limit"
  shows "log_step W limit (tb_walFile tb) (end_flush S V F W clk consumed tb)"
proof (cases "tb_flushTouched tb = []")
  case True
  obtain errs tb' where r: "rollbackTransaction V F tb = (errs, tb')" by fastforce
  then have w: "tb_walFile tb' = tb_walFile tb" using rollback_wal by (metis snd_conv)
  show ?thesis
  proof (cases errs)
    case Nil
    have "log_step W limit (tb_walFile tb) (Some (None, drop_consumed W consumed tb'))"
      by (rule log_step_drop [OF _ assms]) (simp add: drop_consumed_def w)
    then show ?thesis using True r Nil by (simp add: end_flush_def)
  next
    case (Cons x y)
    then show ?thesis using True r log_step_same [OF w] by (simp add: end_flush_def)
  qed
next
  case False
  show ?thesis
  proof (cases "flush_rest S F clk (tb_flushTouched tb) tb")
    case None
    then show ?thesis using False by (simp add: end_flush_def log_step_def)
  next
    case (Some p)
    obtain e tb' where p: "p = (e, tb')" by fastforce
    have w: "tb_walFile tb' = tb_walFile tb" using flush_rest_wal Some p by blast
    obtain errs l where c: "CommitTransactionFileSegment (tb_fragmentation tb') = (errs, l)" by fastforce
    have "log_step W limit (tb_walFile tb) (Some (None, drop_consumed W consumed (tb'\<lparr>tb_fragmentation := l\<rparr>)))"
      by (rule log_step_drop [OF _ assms]) (simp add: drop_consumed_def w)
    then show ?thesis using False Some p c w
      by (cases e; cases errs) (simp_all add: end_flush_def log_step_same)
  qed
qed

lemma begin_flush_wal: "begin_flush now tb = (e, tb') \<Longrightarrow> tb_walFile tb' = tb_walFile tb"
  by (auto simp: begin_flush_def begin_epoch_def Let_def split: prod.splits option.splits if_splits)

lemma repair_log:
  "read_outcome W limit (tb_walFile tb) = (consumed, Some e) \<Longrightarrow> log_step W limit (tb_walFile tb) (Some (repairReadError consumed lf lo e tb))"
  unfolding repairReadError_def log_step_def log_cut_def by auto

lemma flush_sorted_log:
  assumes "consumed \<le> limit"
  shows "log_step W limit (tb_walFile tb) (flush_sorted S V F W clk consumed entries tb)"
proof -
  let ?r0 = "\<lparr>fr_table = tb, fr_processErr = None, fr_lastReadFile = -1, fr_lastReadOffset = 0, fr_seen = 0, fr_fault = False\<rparr>"
  obtain go r where r: "each_until (\<lambda>(k, t, v). processEntry S V F clk (tb_flushEpoch tb) k t v) entries ?r0 = (go, r)" by fastforce
  have "tb_walFile (fr_table (snd (each_until (\<lambda>(k, t, v). processEntry S V F clk (tb_flushEpoch tb) k t v) entries ?r0))) = tb_walFile tb"
    by (rule each_until_inv [where P = "\<lambda>r. tb_walFile (fr_table r) = tb_walFile tb"]) (auto simp: processEntry_wal split: prod.split)
  then have w: "tb_walFile (fr_table r) = tb_walFile tb" using r by simp
  show ?thesis using r w end_flush_log [OF assms, of W "fr_table r"]
    by (auto simp: flush_sorted_def log_step_same split: option.split) (simp_all add: log_step_def)
qed

lemma flush_streamed_log: "log_step W limit (tb_walFile tb) (flush_streamed S V F W clk limit tb)"
proof -
  let ?r0 = "\<lparr>fr_table = tb, fr_processErr = None, fr_lastReadFile = -1, fr_lastReadOffset = 0, fr_seen = 0, fr_fault = False\<rparr>"
  let ?fc = "\<lambda>i k t v off r. processEntry S V F clk (tb_flushEpoch tb) k t v (r\<lparr>fr_lastReadFile := int i, fr_lastReadOffset := off\<rparr>)"
  obtain consumed e r where r: "forEachCompleteFile W (int limit) ?fc (tb_walFile tb) ?r0 = (consumed, e, r)" by (metis prod_cases3)
  have w: "tb_walFile (fr_table r) = tb_walFile tb \<and> consumed \<le> limit"
    by (rule forEachCompleteFile_inv [where P = "\<lambda>r. tb_walFile (fr_table r) = tb_walFile tb", OF _ _ r]) (simp_all add: processEntry_wal)
  obtain errs tb' where rb: "rollbackTransaction V F (fr_table r) = (errs, tb')" by fastforce
  then have w': "tb_walFile tb' = tb_walFile tb" using rollback_wal w by (metis snd_conv)
  note fin = end_flush_log [of consumed limit W "fr_table r" S V F "\<lambda>n. clk (fr_seen r + n)"] 
  have rep: "log_step W limit (tb_walFile tb) (Some (repairReadError consumed lf lo x tb'))" if "e = Some x" for x lf lo
    using repair_log [of W limit tb' consumed x] read_outcome_error [of W limit _ _ _ consumed x r] r that w' by simp
  show ?thesis
  proof (cases "fr_fault r")
    case True
    then show ?thesis using r by (simp add: flush_streamed_def log_step_def)
  next
    case False
    show ?thesis using r False w w' rb fin rep
      by (cases "fr_processErr r"; cases e; cases errs) (simp_all add: flush_streamed_def log_step_same)
  qed
qed

text \<open>\<^bold>\<open>C2\<close>: a flush never loses a part of the log it has not stored: whatever the table and whatever goes wrong, a flush that returns without an error
  has dropped nothing but whole completed files, and a flush that returns an error leaves the log as it was, except when reading the completed
  files itself ends with that error: then the file that could not be read is cut.\<close>

theorem flush_touches_log_last:
  "log_step W (fst (completeFileState (tb_walFile tb))) (tb_walFile tb) (flushCache S V F W now clk tb)"
proof -
  obtain n sorted where cs: "completeFileState (tb_walFile tb) = (n, sorted)" by fastforce
  have wt: "tb\<lparr>tb_walFile := snd (wal_FlushPending (tb_walFile tb))\<rparr> = tb" by (simp add: wal_FlushPending_def)
  obtain e tb1 where b: "begin_flush now tb = (e, tb1)" by fastforce
  note w = begin_flush_wal [OF b]
  consider "n = 0" | "n \<noteq> 0" "sorted" | "n \<noteq> 0" "\<not> sorted" by blast
  then show ?thesis
  proof cases
    case 1
    then show ?thesis using cs wt by (simp add: flushCache_def Let_def log_step_none)
  next
    case 2
    let ?fc = "\<lambda>i k t v off (es, lf, lo). (True, (es @ [(k, t, v)], int i, off))"
    obtain consumed re es lf lo where r: "forEachCompleteFile W (int n) ?fc (tb_walFile tb) ([], -1, 0) = (consumed, re, (es, lf, lo))"
      by (metis prod_cases3)
    have c: "consumed \<le> n" using forEachCompleteFile_inv [where P = "\<lambda>_. True", OF _ _ r] by simp
    have drop: "log_step W n (tb_walFile tb) (Some (None, drop_consumed W consumed tb))"
      by (rule log_step_drop [OF _ c]) (simp add: drop_consumed_def)
    have main: "log_step W n (tb_walFile tb) (flush_sorted S V F W clk consumed (sort_entries es) tb1)"
      using flush_sorted_log [OF c, of W tb1] w by simp
    have eq: "flushCache S V F W now clk tb =
        (case re of Some x \<Rightarrow> Some (repairReadError consumed lf lo x tb)
         | None \<Rightarrow> if es = [] then Some (None, drop_consumed W consumed tb)
             else (case e of Some x \<Rightarrow> Some (Some x, tb1) | None \<Rightarrow> flush_sorted S V F W clk consumed (sort_entries es) tb1))"
      using 2 cs b unfolding flushCache_def wt Let_def cs prod.case r by (simp cong: if_cong option.case_cong)
    have rep: "log_step W n (tb_walFile tb) (Some (repairReadError consumed lf lo x tb))" if "re = Some x" for x
      using read_outcome_error [of W n ?fc "tb_walFile tb"] r that by (intro repair_log) simp
    show ?thesis unfolding eq cs fst_conv using drop main rep log_step_same [OF w]
      by (simp split: option.split)
  next
    case 3
    then show ?thesis using cs wt b w flush_streamed_log [of W n tb1]
      by (cases e) (simp_all add: flushCache_def Let_def log_step_same)
  qed
qed

end
