(* ===== verification/Table_Open.thy ===== *)
theory Table_Open
  imports Table
begin

text \<open>
  Opening and closing a table, \<^verbatim>\<open>mewSSTable\<close> and \<^verbatim>\<open>Close\<close> of \<^verbatim>\<open>tsdb/table.go\<close>, without the goroutines and the write buffer.
\<close>

text \<open>Go iterates a map in any order: \<open>tag_order\<close>, \<open>state_order\<close> and \<open>point_order\<close> are the orders of the three iterations.  \<open>fuel\<close> bounds the scan of the last
  segment and \<open>victim\<close> is the choice of the reader cache; the outer \<open>None\<close> is a panic or a scan that does not end.\<close>

record table_config =
  tc_maxSegmentSize :: int
  tc_maxSegmentTimeInterval :: int
  tc_expirationMinuteTime :: int
  tc_dedupWindowMs :: int
  tc_minIntervalMs :: int
  tc_maxStorageTime :: int
  tc_compressor :: compressor
  tc_walConfig :: WalConfig
  tc_tagCacheSlots :: int
  tc_asyncCleanup :: bool
  tc_maxQueryPoints :: int


definition restore_last_points :: "'v wal_ops \<Rightarrow> u32 list \<Rightarrow> (u32 \<rightharpoonup> int \<times> 'v) \<Rightarrow> 'v walFile \<Rightarrow> 'v walFile" where
  "restore_last_points W order pts ws =
     fold (\<lambda>k ws. case pts k of None \<Rightarrow> ws | Some (t, v) \<Rightarrow> SetLastPoint W k t v ws) order ws"

definition mewSSTable ::
  "'v variant_ops \<Rightarrow> 'v wal_ops \<Rightarrow> (bytes \<Rightarrow> bytes \<Rightarrow> (int \<times> 'v) list option) \<Rightarrow> nat \<Rightarrow> nat \<Rightarrow> bytes list \<Rightarrow> u32 list \<Rightarrow> u32 list \<Rightarrow> int \<Rightarrow>
     TableInfo \<Rightarrow> table_config \<Rightarrow> bytes option \<Rightarrow> (int \<times> bytes \<times> bytes option) list \<Rightarrow> wal_dir \<Rightarrow> (table_error + ('v, 'e) ssTable) option" where
  "mewSSTable V W decode fuel victim tag_order state_order point_order now ti cfg metaFile segDir walDir =
     (case BuildColumn metaFile (tc_tagCacheSlots cfg) tag_order of
        Ok (Inl e) \<Rightarrow> Some (Inl (MetaError e))
      | Ok (Inr tags) \<Rightarrow>
          (let frag = BuildFragmentation segDir (tc_compressor cfg) (Some (newReaderCache (int defaultMaxOpenReaders)));
               wal = NewWalFile W state_order now walDir (tc_dedupWindowMs cfg) (tc_minIntervalMs cfg) (tc_walConfig cfg)
           in case InspectLastBlockIndex fuel decode ti victim frag of
                None \<Rightarrow> None
              | Some (Some e, pts, frag1) \<Rightarrow> Some (Inl (ListError [e]))
              | Some (None, pts, frag1) \<Rightarrow>
                  Some (Inr
                    \<lparr>tb_tableInfo = ti, tb_Meta = tt_Meta tags, tb_fragmentation = frag1,
                     tb_columns = map (map_option (\<lambda>u. newSSColumn V u (Some ti) (tc_maxSegmentSize cfg) (tc_maxSegmentTimeInterval cfg))) (tt_columns tags),
                     tb_maxSegmentSize = tc_maxSegmentSize cfg, tb_maxSegmentTimeInterval = tc_maxSegmentTimeInterval cfg,
                     tb_expirationMinuteTime = tc_expirationMinuteTime cfg, tb_maxStorageTime = tc_maxStorageTime cfg,
                     tb_walFile = restore_last_points W point_order pts wal, tb_flushEpoch = 0, tb_flushTouched = [],
                     tb_asyncCleanup = tc_asyncCleanup cfg, tb_asyncErr = None, tb_maxQueryPoints = tc_maxQueryPoints cfg\<rparr>))
      | _ \<Rightarrow> None)"

definition close_segment :: "fileSegment \<Rightarrow> fileSegment" where
  "close_segment s = (let s1 = PersistIndex s in s1\<lparr>sg_writer := snd (Cleanup (sg_writer s1))\<rparr>)"

definition table_Close :: "('v, 'e) ssTable \<Rightarrow> table_error option \<times> ('v, 'e) ssTable" where
  "table_Close tb =
     (let wal = wal_Close (tb_walFile tb); l = tb_fragmentation tb;
          l1 = l\<lparr>fl_segments := map close_segment (fl_segments l), fl_readerCache := map_option (\<lambda>c. snd (closeAll c)) (fl_readerCache l)\<rparr>;
          (metaErr, m) = mt_Close (tb_Meta tb)
      in (case metaErr of Some e \<Rightarrow> Some (MetaError e) | None \<Rightarrow> tb_asyncErr tb,
          tb\<lparr>tb_walFile := removeOrphanedFiles wal, tb_fragmentation := l1, tb_Meta := m\<rparr>))"

end
