(* ===== verification/Write_Batcher.thy ===== *)
theory Write_Batcher
  imports Table_Meta Wal
begin

text \<open>
  The write buffer in front of the log, \<^verbatim>\<open>tsdb/write_batcher.go\<close> and \<^verbatim>\<open>tsdb/write_batcher_buffer.go\<close>: the shards with their per-tag
  buffers, freezing a generation of them into a batch, the bounded queue, the worker.  The locks, channels and goroutines are the steps of a relation:
  a step is what happens under one lock, and a caller, the trigger and the worker interleave freely between steps.
\<close>

section \<open>Buffers\<close>

record 'v rawTagBuffer =
  rt_points :: "(int \<times> 'v) list"
  rt_lastTms :: int
  rt_ordered :: bool
  rt_hasReference :: bool

definition zero_buffer :: "'v rawTagBuffer" where
  "zero_buffer = \<lparr>rt_points = [], rt_lastTms = 0, rt_ordered = False, rt_hasReference = False\<rparr>"

record 'v ingestSeries =
  is_tag :: bytes
  is_hash :: u64
  is_code :: u32
  is_preparedPoints :: nat
  is_encoderWarmed :: bool
  is_primaryBufferID :: int
  is_primaryBuffer :: "'v rawTagBuffer"
  is_otherBuffers :: "'v rawTagBuffer list option"

definition new_series :: "bytes \<Rightarrow> u64 \<Rightarrow> 'v ingestSeries" where
  "new_series tag hash =
     \<lparr>is_tag = tag, is_hash = hash, is_code = 0, is_preparedPoints = 0, is_encoderWarmed = False, is_primaryBufferID = -1,
      is_primaryBuffer = zero_buffer, is_otherBuffers = None\<rparr>"

text \<open>A pointer to one of the buffers of a series.\<close>

datatype buffer_ref = Primary | Other nat

definition bufferFor :: "nat \<Rightarrow> nat \<Rightarrow> 'v ingestSeries \<Rightarrow> buffer_ref \<times> 'v ingestSeries" where
  "bufferFor bid bufferCount s =
     (if is_primaryBufferID s < 0 then (Primary, s\<lparr>is_primaryBufferID := int bid\<rparr>)
      else if int bid = is_primaryBufferID s then (Primary, s)
      else
        (let s' = (if is_otherBuffers s = None then s\<lparr>is_otherBuffers := Some (replicate (bufferCount - 1) zero_buffer)\<rparr> else s)
         in (Other (if int bid > is_primaryBufferID s then bid - 1 else bid), s')))"

definition deref :: "buffer_ref \<Rightarrow> 'v ingestSeries \<Rightarrow> 'v rawTagBuffer" where
  "deref r s = (case r of Primary \<Rightarrow> is_primaryBuffer s | Other k \<Rightarrow> the (is_otherBuffers s) ! k)"

definition assign :: "buffer_ref \<Rightarrow> 'v rawTagBuffer \<Rightarrow> 'v ingestSeries \<Rightarrow> 'v ingestSeries" where
  "assign r b s =
     (case r of Primary \<Rightarrow> s\<lparr>is_primaryBuffer := b\<rparr>
      | Other k \<Rightarrow> s\<lparr>is_otherBuffers := map_option (\<lambda>bs. bs[k := b]) (is_otherBuffers s)\<rparr>)"

section \<open>The state\<close>

text \<open>A buffer of a generation remembers which tag buffers it uses, as the tag and the pointer.  A series is found by its tag in the map of its shard; a
  slot of the tag cache holds a tag and with it the series.\<close>

record ingestBuffer =
  ib_id :: nat
  ib_used :: "(bytes \<times> buffer_ref) list"

record 'v ingestShard =
  sh_series :: "bytes \<rightharpoonup> 'v ingestSeries"
  sh_tagCache :: "bytes option list"
  sh_active :: ingestBuffer
  sh_free :: "ingestBuffer list"
  sh_activeCount :: int

text \<open>\<open>fb_seq\<close> is the identity of a batch: the batches are numbered as they are allocated.\<close>

record frozenWriteBatch =
  fb_seq :: nat
  fb_shards :: "ingestBuffer list"
  fb_count :: int

text \<open>Where \<open>Close\<close> stands: not called, called, waiting for its last batch, queue closed.\<close>

datatype closer = Not_Called | Called | Awaits "nat option" | Queue_Closed

text \<open>Beside the fields of the code the state holds what its goroutines hold: the number of callers past the check of \<open>add\<close>, the batch being
  frozen, the batch being published, the batch the worker has, and the batches whose \<open>done\<close> is closed with their \<open>err\<close>.\<close>

record ('v, 'x) tableBatcher =
  wb_shards :: "'v ingestShard list"
  wb_shardMask :: u64
  wb_shardShift :: nat
  wb_tagCacheMask :: u64
  wb_buffersPerShard :: nat
  wb_maxBatchSize :: int
  wb_maxActive :: int
  wb_activePoints :: int
  wb_closed :: bool
  wb_err :: "'x option"
  wb_queueSize :: nat
  wb_queue :: "frozenWriteBatch list"
  wb_last :: "nat option"
  wb_signal :: bool
  wb_next :: nat
  wb_writers :: nat
  wb_freezing :: "frozenWriteBatch option"
  wb_sending :: "frozenWriteBatch option"
  wb_working :: "frozenWriteBatch option"
  wb_done :: "(nat \<times> 'x option) list"
  wb_closer :: closer
  wb_panicked :: bool

definition denseSeriesEncoderWarmupPoints :: nat where "denseSeriesEncoderWarmupPoints = 8"
definition ingestBufferHeadroom :: nat where "ingestBufferHeadroom = 3"
definition minDirectTagCacheSlots :: int where "minDirectTagCacheSlots = 64"
definition maxDirectTagCacheSlots :: int where "maxDirectTagCacheSlots = 2048"

definition overloadPointLimit :: "int \<Rightarrow> int" where
  "overloadPointLimit limit = (if limit \<le> 2 ^ 62 - 1 then limit * 2 else 2 ^ 63 - 1)"

text \<open>The fuel is that of \<^verbatim>\<open>nextPowerOfTwo\<close>; Go's division truncates.\<close>

definition directTagCacheSlots :: "nat \<Rightarrow> int \<Rightarrow> int \<Rightarrow> int option" where
  "directTagCacheSlots fuel tableSlots shardCount =
     (let slots = sgn tableSlots * (\<bar>tableSlots\<bar> div shardCount);
          slots = (if slots < minDirectTagCacheSlots then minDirectTagCacheSlots else slots)
      in map_option (\<lambda>n. if n > maxDirectTagCacheSlots then maxDirectTagCacheSlots else n) (nextPowerOfTwo fuel slots))"

record IngestConfig =
  ic_Shards :: int
  ic_MaxBatchSize :: int
  ic_FlushIntervalMs :: int
  ic_QueueSize :: int

definition ingest_setDefaultValues :: "nat \<Rightarrow> IngestConfig \<Rightarrow> IngestConfig option" where
  "ingest_setDefaultValues fuel c =
     map_option (\<lambda>n. \<lparr>ic_Shards = n,
        ic_MaxBatchSize = (if ic_MaxBatchSize c \<le> 0 then 4096 else ic_MaxBatchSize c),
        ic_FlushIntervalMs = (if ic_FlushIntervalMs c \<le> 0 then 5 else ic_FlushIntervalMs c),
        ic_QueueSize = (if ic_QueueSize c \<le> 0 then 8 else ic_QueueSize c)\<rparr>)
       (nextPowerOfTwo fuel (if ic_Shards c \<le> 0 then 16 else ic_Shards c))"

definition newIngestBuffer :: "nat \<Rightarrow> ingestBuffer" where
  "newIngestBuffer bid = \<lparr>ib_id = bid, ib_used = []\<rparr>"

definition new_shard :: "nat \<Rightarrow> nat \<Rightarrow> 'v ingestShard" where
  "new_shard cacheSlots buffersPerShard =
     \<lparr>sh_series = Map.empty, sh_tagCache = replicate cacheSlots None, sh_active = newIngestBuffer 0,
      sh_free = map newIngestBuffer [1..<buffersPerShard], sh_activeCount = 0\<rparr>"

text \<open>The number of trailing zero bits of the number of shards.\<close>

fun trailing_zeros :: "nat \<Rightarrow> nat" where
  "trailing_zeros n = (if n = 0 then 64 else if odd n then 0 else Suc (trailing_zeros (n div 2)))"

declare trailing_zeros.simps [simp del]

definition newTableBatcher :: "nat \<Rightarrow> int \<Rightarrow> IngestConfig \<Rightarrow> ('v, 'x) tableBatcher option" where
  "newTableBatcher fuel tagCacheSlots config0 =
     Option.bind (ingest_setDefaultValues fuel config0) (\<lambda>config.
     Option.bind (directTagCacheSlots fuel tagCacheSlots (ic_Shards config)) (\<lambda>cacheSlots.
       let n = nat (ic_Shards config); buffersPerShard = nat (ic_QueueSize config) + ingestBufferHeadroom
       in Some \<lparr>wb_shards = replicate n (new_shard (nat cacheSlots) buffersPerShard), wb_shardMask = of_int (ic_Shards config - 1),
                wb_shardShift = trailing_zeros n, wb_tagCacheMask = of_int (cacheSlots - 1), wb_buffersPerShard = buffersPerShard,
                wb_maxBatchSize = ic_MaxBatchSize config, wb_maxActive = overloadPointLimit (ic_MaxBatchSize config), wb_activePoints = 0,
                wb_closed = False, wb_err = None, wb_queueSize = nat (ic_QueueSize config), wb_queue = [],
                wb_last = None, wb_signal = False, wb_next = 0, wb_writers = 0, wb_freezing = None, wb_sending = None, wb_working = None, wb_done = [],
                wb_closer = Not_Called, wb_panicked = False\<rparr>))"

section \<open>Adding a point\<close>

definition shard_of :: "bytes \<Rightarrow> ('v, 'x) tableBatcher \<Rightarrow> nat" where
  "shard_of tag b = unat (HashString tag AND wb_shardMask b)"

definition cache_slot :: "bytes \<Rightarrow> ('v, 'x) tableBatcher \<Rightarrow> nat" where
  "cache_slot tag b = unat (drop_bit (wb_shardShift b) (HashString tag) AND wb_tagCacheMask b)"

text \<open>The series of a tag, and the cache after the lookup: on a miss the map is asked, and a new series put into it.\<close>

definition find_series :: "nat \<Rightarrow> bytes \<Rightarrow> 'v ingestShard \<Rightarrow> 'v ingestSeries \<times> 'v ingestShard" where
  "find_series slot tag sh =
     (case (sh_tagCache sh ! slot = Some tag, sh_series sh tag) of
        (True, Some s) \<Rightarrow> (s, sh)
      | (_, found) \<Rightarrow>
          (let s = (case found of Some s \<Rightarrow> s | None \<Rightarrow> new_series tag (HashString tag))
           in (s, sh\<lparr>sh_series := (sh_series sh)(tag \<mapsto> s), sh_tagCache := (sh_tagCache sh)[slot := Some tag]\<rparr>)))"

definition append_raw :: "('v \<Rightarrow> bool) \<Rightarrow> int \<Rightarrow> 'v \<Rightarrow> 'v rawTagBuffer \<Rightarrow> 'v rawTagBuffer" where
  "append_raw retains timestamp value tb =
     tb\<lparr>rt_points := rt_points tb @ [(timestamp, value)], rt_lastTms := timestamp,
        rt_ordered := (if rt_points tb = [] then True else if timestamp < rt_lastTms tb then False else rt_ordered tb),
        rt_hasReference := (rt_hasReference tb \<or> retains value)\<rparr>"

definition shard_append :: "('v \<Rightarrow> bool) \<Rightarrow> nat \<Rightarrow> nat \<Rightarrow> bytes \<Rightarrow> int \<Rightarrow> 'v \<Rightarrow> 'v ingestShard \<Rightarrow> 'v ingestShard" where
  "shard_append retains slot bufferCount tag timestamp value sh0 =
     (let (s0, sh) = find_series slot tag sh0; ingest = sh_active sh; (r, s) = bufferFor (ib_id ingest) bufferCount s0; tb = deref r s;
          ingest' = (if rt_points tb = [] then ingest\<lparr>ib_used := ib_used ingest @ [(tag, r)]\<rparr> else ingest);
          s' = assign r (append_raw retains timestamp value tb) s
      in sh\<lparr>sh_series := (sh_series sh)(tag \<mapsto> s'), sh_active := ingest', sh_activeCount := sh_activeCount sh + 1\<rparr>)"

definition appendPoint :: "('v \<Rightarrow> bool) \<Rightarrow> bytes \<Rightarrow> int \<Rightarrow> 'v \<Rightarrow> ('v, 'x) tableBatcher \<Rightarrow> ('v, 'x) tableBatcher" where
  "appendPoint retains tag timestamp value b =
     (let i = shard_of tag b
      in b\<lparr>wb_shards := (wb_shards b)[i := shard_append retains (cache_slot tag b) (wb_buffersPerShard b) tag timestamp value (wb_shards b ! i)],
           wb_activePoints := wb_activePoints b + 1\<rparr>)"

definition terminalError :: "'x \<Rightarrow> ('v, 'x) tableBatcher \<Rightarrow> 'x option" where
  "terminalError closedErr b = (if wb_closed b then Some closedErr else wb_err b)"

definition maybeSignal :: "int \<Rightarrow> ('v, 'x) tableBatcher \<Rightarrow> ('v, 'x) tableBatcher" where
  "maybeSignal active b = (if active < wb_maxBatchSize b then b else b\<lparr>wb_signal := True\<rparr>)"

text \<open>One look of a waiting caller: it leaves with \<open>Some\<close> result, or waits on.\<close>

definition waitIfOverloaded :: "'x \<Rightarrow> int \<Rightarrow> ('v, 'x) tableBatcher \<Rightarrow> 'x option option" where
  "waitIfOverloaded closedErr observed b =
     (if observed \<le> wb_maxActive b then Some None
      else
        (case terminalError closedErr b of
           Some e \<Rightarrow> Some (Some e)
         | None \<Rightarrow> (if wb_activePoints b \<le> wb_maxActive b then Some None else None)))"

text \<open>The calls of a writer, up to the wait: the outer \<open>None\<close> of the result is a caller that has to wait.  The points of a batch are accepted one by one.\<close>

definition add :: "('v \<Rightarrow> bool) \<Rightarrow> 'x \<Rightarrow> bytes \<Rightarrow> int \<Rightarrow> 'v \<Rightarrow> ('v, 'x) tableBatcher \<Rightarrow> 'x option option \<times> ('v, 'x) tableBatcher" where
  "add retains closedErr tag timestamp value b =
     (case terminalError closedErr b of
        Some e \<Rightarrow> (Some (Some e), b)
      | None \<Rightarrow>
          (let b1 = appendPoint retains tag timestamp value b; active = wb_activePoints b1; b2 = maybeSignal active b1
           in (waitIfOverloaded closedErr active b2, b2)))"

definition addBatch :: "('v \<Rightarrow> bool) \<Rightarrow> 'x \<Rightarrow> (bytes \<times> int \<times> 'v) list \<Rightarrow> ('v, 'x) tableBatcher \<Rightarrow> 'x option option \<times> ('v, 'x) tableBatcher" where
  "addBatch retains closedErr points b =
     (if points = [] then (Some None, b)
      else
        (case terminalError closedErr b of
           Some e \<Rightarrow> (Some (Some e), b)
         | None \<Rightarrow>
             (let b1 = fold (\<lambda>(tag, timestamp, value). appendPoint retains tag timestamp value) points b; active = wb_activePoints b1;
                  b2 = maybeSignal active b1
              in (waitIfOverloaded closedErr active b2, b2))))"

section \<open>Freezing\<close>

definition freeze_begin :: "('v, 'x) tableBatcher \<Rightarrow> ('v, 'x) tableBatcher" where
  "freeze_begin b = b\<lparr>wb_freezing := Some \<lparr>fb_seq = wb_next b, fb_shards = [], fb_count = 0\<rparr>, wb_next := wb_next b + 1\<rparr>"

text \<open>The swap of one shard; it panics (\<open>None\<close>) when no buffer is free.\<close>

definition swap_shard :: "'v ingestShard \<Rightarrow> (ingestBuffer \<times> int \<times> 'v ingestShard) option" where
  "swap_shard sh =
     (if sh_free sh = [] then None
      else Some (sh_active sh, sh_activeCount sh,
        sh\<lparr>sh_active := (last (sh_free sh))\<lparr>ib_used := []\<rparr>, sh_free := butlast (sh_free sh), sh_activeCount := 0\<rparr>))"

definition freeze_shard :: "frozenWriteBatch \<Rightarrow> ('v, 'x) tableBatcher \<Rightarrow> ('v, 'x) tableBatcher option" where
  "freeze_shard f b =
     (let i = length (fb_shards f)
      in map_option (\<lambda>(active, n, sh).
           b\<lparr>wb_shards := (wb_shards b)[i := sh], wb_freezing := Some (f\<lparr>fb_shards := fb_shards f @ [active], fb_count := fb_count f + n\<rparr>)\<rparr>)
           (swap_shard (wb_shards b ! i)))"

definition recycle_buffer :: "'v rawTagBuffer \<Rightarrow> 'v rawTagBuffer" where
  "recycle_buffer tb = tb\<lparr>rt_points := [], rt_lastTms := 0, rt_ordered := True, rt_hasReference := False\<rparr>"

definition recycle_shard :: "ingestBuffer \<Rightarrow> 'v ingestShard \<Rightarrow> 'v ingestShard" where
  "recycle_shard ib sh =
     (let series = fold (\<lambda>(tag, r) m. case m tag of None \<Rightarrow> m | Some s \<Rightarrow> m(tag \<mapsto> assign r (recycle_buffer (deref r s)) s)) (ib_used ib) (sh_series sh)
      in sh\<lparr>sh_series := series, sh_free := sh_free sh @ [ib\<lparr>ib_used := []\<rparr>]\<rparr>)"

definition recycleBatch :: "frozenWriteBatch \<Rightarrow> ('v, 'x) tableBatcher \<Rightarrow> ('v, 'x) tableBatcher" where
  "recycleBatch f b = b\<lparr>wb_shards := map2 recycle_shard (fb_shards f) (wb_shards b)\<rparr>"

definition freeze_end :: "frozenWriteBatch \<Rightarrow> ('v, 'x) tableBatcher \<Rightarrow> ('v, 'x) tableBatcher" where
  "freeze_end f b =
     (if fb_count f = 0 then (recycleBatch f b)\<lparr>wb_freezing := None\<rparr>
      else b\<lparr>wb_freezing := None, wb_activePoints := wb_activePoints b - fb_count f, wb_sending := Some f\<rparr>)"

section \<open>The worker\<close>

text \<open>Resolving a tag and warming its encoder are operations of the table, whose state is \<open>t\<close>.\<close>

record ('t, 'x) table_ops =
  to_resolve :: "bytes \<Rightarrow> u64 \<Rightarrow> 't \<Rightarrow> ('x + u32) \<times> 't"
  to_warm :: "u32 \<Rightarrow> 't \<Rightarrow> 't"

definition resolve_code :: "('t, 'x) table_ops \<Rightarrow> 'v ingestSeries \<Rightarrow> 't \<Rightarrow> ('x + u32) \<times> 't" where
  "resolve_code T s t = (if is_code s = 0 then to_resolve T (is_tag s) (is_hash s) t else (Inr (is_code s), t))"

definition sort_points :: "'v rawTagBuffer \<Rightarrow> 'v rawTagBuffer" where
  "sort_points tb = (if rt_ordered tb then tb else tb\<lparr>rt_points := sort_key fst (rt_points tb)\<rparr>)"

definition warm_series :: "('t, 'x) table_ops \<Rightarrow> u32 \<Rightarrow> nat \<Rightarrow> 'v ingestSeries \<times> 't \<Rightarrow> 'v ingestSeries \<times> 't" where
  "warm_series T code n st =
     (case st of (s, t) \<Rightarrow>
        if is_encoderWarmed s then (s, t)
        else
          (let m = is_preparedPoints s + n; s' = s\<lparr>is_preparedPoints := m\<rparr>
           in if m \<ge> denseSeriesEncoderWarmupPoints then (s'\<lparr>is_encoderWarmed := True\<rparr>, to_warm T code t) else (s', t)))"

fun prepare_used ::
  "('t, 'x) table_ops \<Rightarrow> (bytes \<times> buffer_ref) list \<Rightarrow> (bytes \<rightharpoonup> 'v ingestSeries) \<Rightarrow> 't \<Rightarrow> 'v walDataRun list \<Rightarrow>
     ('x + 'v walDataRun list) \<times> (bytes \<rightharpoonup> 'v ingestSeries) \<times> 't" where
  "prepare_used T [] m t runs = (Inr runs, m, t)"
| "prepare_used T ((tag, r) # us) m t runs =
     (case m tag of
        None \<Rightarrow> prepare_used T us m t runs
      | Some s \<Rightarrow>
          (case resolve_code T s t of
             (Inl e, t') \<Rightarrow> (Inl e, m, t')
           | (Inr code, t') \<Rightarrow>
               (let tb = sort_points (deref r s); s1 = assign r tb (s\<lparr>is_code := code\<rparr>);
                    (s2, t2) = warm_series T code (length (rt_points tb)) (s1, t')
                in prepare_used T us (m(tag \<mapsto> s2)) t2 (runs @ [\<lparr>wr_Key = code, wr_Points = rt_points tb\<rparr>]))))"

fun prepare_shards ::
  "('t, 'x) table_ops \<Rightarrow> ingestBuffer list \<Rightarrow> 'v ingestShard list \<Rightarrow> 't \<Rightarrow> 'v walDataRun list \<Rightarrow> ('x + 'v walDataRun list) \<times> 'v ingestShard list \<times> 't" where
  "prepare_shards T (ib # ibs) (sh # shs) t runs =
     (case prepare_used T (ib_used ib) (sh_series sh) t runs of
        (Inl e, m, t') \<Rightarrow> (Inl e, sh\<lparr>sh_series := m\<rparr> # shs, t')
      | (Inr runs', m, t') \<Rightarrow>
          (case prepare_shards T ibs shs t' runs' of (r, shs', t2) \<Rightarrow> (r, sh\<lparr>sh_series := m\<rparr> # shs', t2)))"
| "prepare_shards T _ shs t runs = (Inr runs, shs, t)"

definition prepareRawWriteBatch ::
  "('t, 'x) table_ops \<Rightarrow> frozenWriteBatch \<Rightarrow> ('v, 'x) tableBatcher \<Rightarrow> 't \<Rightarrow> ('x + 'v walDataRun list) \<times> ('v, 'x) tableBatcher \<times> 't" where
  "prepareRawWriteBatch T f b t =
     (case prepare_shards T (fb_shards f) (wb_shards b) t [] of (r, shs, t') \<Rightarrow> (r, b\<lparr>wb_shards := shs\<rparr>, t'))"

definition setError :: "'x option \<Rightarrow> ('v, 'x) tableBatcher \<Rightarrow> ('v, 'x) tableBatcher" where
  "setError e b = (if e = None \<or> wb_err b \<noteq> None then b else b\<lparr>wb_err := e\<rparr>)"

text \<open>One turn of the worker on the batch it took: \<open>commit\<close> is what the table does with the runs.\<close>

text \<open>What the batcher is given: which values hold references, the table's operations, its commit of prepared runs, and the error of a closed log.\<close>

record ('v, 't, 'x) wb_env =
  en_retains :: "'v \<Rightarrow> bool"
  en_table :: "('t, 'x) table_ops"
  en_commit :: "'v walDataRun list \<Rightarrow> 't \<Rightarrow> 'x option \<times> 't"
  en_closed :: 'x

definition work ::
  "('v, 't, 'x) wb_env \<Rightarrow> frozenWriteBatch \<Rightarrow> ('v, 'x) tableBatcher \<Rightarrow> 't \<Rightarrow> 'x option \<times> ('v, 'x) tableBatcher \<times> 't" where
  "work E f b0 t0 =
     (case prepareRawWriteBatch (en_table E) f b0 t0 of
        (res, b, t) \<Rightarrow>
          (let (err, t') = (case res of Inl e \<Rightarrow> (Some e, t) | Inr runs \<Rightarrow> en_commit E runs t); b1 = recycleBatch f (setError err b)
           in (err, b1\<lparr>wb_working := None, wb_done := wb_done b1 @ [(fb_seq f, err)]\<rparr>, t')))"

section \<open>The steps\<close>

text \<open>What a step makes visible: a point accepted, or a batch the worker has finished, with its tag buffers and whether the commit succeeded.\<close>

datatype 'v label = Quiet | Accepted bytes int 'v | Finished "(bytes \<times> (int \<times> 'v) list) list" bool

definition batch_points :: "frozenWriteBatch \<Rightarrow> ('v, 'x) tableBatcher \<Rightarrow> (bytes \<times> (int \<times> 'v) list) list" where
  "batch_points f b =
     concat (map2 (\<lambda>ib sh. map (\<lambda>(tag, r). (tag, rt_points (deref r (the (sh_series sh tag))))) (ib_used ib)) (fb_shards f) (wb_shards b))"

text \<open>A caller checks, appends its points, signals and leaves.  Whoever freezes (a caller of \<open>Flush\<close>, the trigger, \<open>Close\<close>) holds \<open>freezeMu\<close> from
  \<open>begin_freeze\<close> to \<open>send\<close>, which needs room in the queue, and panics on a closed one.\<close>

definition freezeMu_free :: "('v, 'x) tableBatcher \<Rightarrow> bool" where
  "freezeMu_free b = (wb_freezing b = None \<and> wb_sending b = None)"

inductive wb_step ::
  "('v, 't, 'x) wb_env \<Rightarrow> ('v, 'x) tableBatcher \<times> 't \<Rightarrow> 'v label \<Rightarrow> ('v, 'x) tableBatcher \<times> 't \<Rightarrow> bool" for E where
  check: "terminalError (en_closed E) b = None \<Longrightarrow> wb_step E (b, t) Quiet (b\<lparr>wb_writers := wb_writers b + 1\<rparr>, t)"
| add: "wb_writers b > 0 \<Longrightarrow> wb_step E (b, t) (Accepted tag tms v) (appendPoint (en_retains E) tag tms v b, t)"
| leave: "wb_writers b > 0 \<Longrightarrow> wb_step E (b, t) Quiet (maybeSignal active (b\<lparr>wb_writers := wb_writers b - 1\<rparr>), t)"
| signalled: "wb_signal b \<Longrightarrow> wb_step E (b, t) Quiet (b\<lparr>wb_signal := False\<rparr>, t)"
| begin_freeze: "freezeMu_free b \<Longrightarrow> wb_activePoints b \<noteq> 0 \<Longrightarrow> wb_step E (b, t) Quiet (freeze_begin b, t)"
| swap: "wb_freezing b = Some f \<Longrightarrow> length (fb_shards f) < length (wb_shards b) \<Longrightarrow> freeze_shard f b = Some b' \<Longrightarrow> wb_step E (b, t) Quiet (b', t)"
| end_freeze: "wb_freezing b = Some f \<Longrightarrow> length (fb_shards f) = length (wb_shards b) \<Longrightarrow> wb_step E (b, t) Quiet (freeze_end f b, t)"
| send: "wb_sending b = Some f \<Longrightarrow> wb_closer b \<noteq> Queue_Closed \<Longrightarrow> length (wb_queue b) < wb_queueSize b \<Longrightarrow>
    wb_step E (b, t) Quiet (b\<lparr>wb_sending := None, wb_queue := wb_queue b @ [f], wb_last := Some (fb_seq f)\<rparr>, t)"
| send_closed: "wb_sending b = Some f \<Longrightarrow> wb_closer b = Queue_Closed \<Longrightarrow> wb_step E (b, t) Quiet (b\<lparr>wb_panicked := True\<rparr>, t)"
| take_batch: "wb_working b = None \<Longrightarrow> wb_queue b = f # fs \<Longrightarrow> wb_step E (b, t) Quiet (b\<lparr>wb_working := Some f, wb_queue := fs\<rparr>, t)"
| finish: "wb_working b = Some f \<Longrightarrow> work E f b t = (err, b', t') \<Longrightarrow> wb_step E (b, t) (Finished (batch_points f b) (err = None)) (b', t')"
| close: "wb_closer b = Not_Called \<Longrightarrow> wb_step E (b, t) Quiet (b\<lparr>wb_closed := True, wb_closer := Called\<rparr>, t)"
| close_idle: "wb_closer b = Called \<Longrightarrow> freezeMu_free b \<Longrightarrow> wb_activePoints b = 0 \<Longrightarrow>
    wb_step E (b, t) Quiet (b\<lparr>wb_closer := Awaits (wb_last b)\<rparr>, t)"
| close_freeze: "wb_closer b = Called \<Longrightarrow> freezeMu_free b \<Longrightarrow> wb_activePoints b \<noteq> 0 \<Longrightarrow>
    wb_step E (b, t) Quiet ((freeze_begin b)\<lparr>wb_closer := Awaits (Some (wb_next b))\<rparr>, t)"
| close_queue: "wb_closer b = Awaits target \<Longrightarrow> (case target of None \<Rightarrow> True | Some n \<Rightarrow> n \<in> fst ` set (wb_done b)) \<Longrightarrow>
    wb_step E (b, t) Quiet (b\<lparr>wb_closer := Queue_Closed\<rparr>, t)"

inductive_simps wb_step_accepted: "wb_step E s (Accepted tag tms v) s'"

text \<open>A run from a new batcher, with the labels of its steps, and a run from any state.\<close>

inductive wb_run ::
  "('v, 't, 'x) wb_env \<Rightarrow> ('v, 'x) tableBatcher \<times> 't \<Rightarrow> 'v label list \<Rightarrow> ('v, 'x) tableBatcher \<times> 't \<Rightarrow> bool" for E where
  start: "wb_run E s [] s"
| step: "wb_run E s ls s' \<Longrightarrow> wb_step E s' l s'' \<Longrightarrow> wb_run E s (ls @ [l]) s''"

end
