(* ===== verification/Write_Batcher_Props.thy ===== *)
theory Write_Batcher_Props
  imports Write_Batcher
begin

text \<open>
  The invariants of the write buffer: which buffers a series keeps, which generations a shard owns and which are out with a batch, and how appending,
  swapping, preparing and recycling change the points of a generation.
\<close>

section \<open>The buffers of a series\<close>

text \<open>The pointer a series keeps for a generation, and the buffer behind it.\<close>

definition ref_of :: "nat \<Rightarrow> 'v ingestSeries \<Rightarrow> buffer_ref option" where
  "ref_of bid s =
     (if is_primaryBufferID s < 0 then None
      else if int bid = is_primaryBufferID s then Some Primary
      else if is_otherBuffers s = None then None
      else Some (Other (if int bid > is_primaryBufferID s then bid - 1 else bid)))"

definition buffer_of :: "nat \<Rightarrow> 'v ingestSeries \<Rightarrow> 'v rawTagBuffer" where
  "buffer_of bid s = (case ref_of bid s of None \<Rightarrow> zero_buffer | Some r \<Rightarrow> deref r s)"

definition buffer_ok :: "'v rawTagBuffer \<Rightarrow> bool" where
  "buffer_ok tb = (rt_points tb \<noteq> [] \<longrightarrow> rt_ordered tb \<longrightarrow> sorted (map fst (rt_points tb)) \<and> rt_lastTms tb = fst (last (rt_points tb)))"

definition series_ok :: "nat \<Rightarrow> 'v ingestSeries \<Rightarrow> bool" where
  "series_ok n s =
     ((if is_primaryBufferID s < 0 then is_primaryBuffer s = zero_buffer \<and> is_otherBuffers s = None else is_primaryBufferID s < int n) \<and>
      (\<forall>bs. is_otherBuffers s = Some bs \<longrightarrow> length bs = n - 1) \<and> (\<forall>k<n. buffer_ok (buffer_of k s)))"

lemma buffer_ok_empty: "rt_points tb = [] \<Longrightarrow> buffer_ok tb"
  by (simp add: buffer_ok_def)

lemma zero_buffer_empty [simp]: "rt_points zero_buffer = []"
  by (simp add: zero_buffer_def)

lemma sorted_last_fst: "sorted (map fst ps) \<Longrightarrow> p \<in> set ps \<Longrightarrow> fst p \<le> fst (last ps)"
  by (induction ps rule: rev_induct) (auto simp: sorted_append)

lemma buffer_ok_append: "buffer_ok tb \<Longrightarrow> buffer_ok (append_raw retains tms v tb)"
  by (auto simp: buffer_ok_def append_raw_def sorted_append not_less dest: sorted_last_fst intro: order.trans)

lemma append_raw_points [simp]: "rt_points (append_raw retains tms v tb) = rt_points tb @ [(tms, v)]"
  by (simp add: append_raw_def)

lemma buffer_ok_sort: "buffer_ok tb \<Longrightarrow> buffer_ok (sort_points tb)"
  by (auto simp: buffer_ok_def sort_points_def)

lemma sort_points_spec: "buffer_ok tb \<Longrightarrow> rt_points (sort_points tb) = sort_key fst (rt_points tb)"
  by (cases "rt_points tb = []") (auto simp: buffer_ok_def sort_points_def sort_key_id_if_sorted)

lemma recycle_buffer_points [simp]: "rt_points (recycle_buffer tb) = []"
  by (simp add: recycle_buffer_def)

lemma new_series_ok: "series_ok n (new_series tag h)"
  by (simp add: series_ok_def new_series_def buffer_of_def ref_of_def buffer_ok_empty)

lemma buffer_of_new [simp]: "buffer_of k (new_series tag h) = zero_buffer"
  by (simp add: buffer_of_def ref_of_def new_series_def)

lemma ref_of_new [simp]: "ref_of k (new_series tag h) = None"
  by (simp add: ref_of_def new_series_def)

text \<open>What is not a buffer may change without changing any buffer.\<close>

lemma buffers_code [simp]:
  "ref_of k (s\<lparr>is_code := c\<rparr>) = ref_of k s" "deref r (s\<lparr>is_code := c\<rparr>) = deref r s" "buffer_of k (s\<lparr>is_code := c\<rparr>) = buffer_of k s"
  "series_ok n (s\<lparr>is_code := c\<rparr>) = series_ok n s"
  by (simp_all add: ref_of_def deref_def buffer_of_def series_ok_def split: buffer_ref.split)

lemma buffers_prepared [simp]:
  "ref_of k (s\<lparr>is_preparedPoints := c\<rparr>) = ref_of k s" "deref r (s\<lparr>is_preparedPoints := c\<rparr>) = deref r s"
  "buffer_of k (s\<lparr>is_preparedPoints := c\<rparr>) = buffer_of k s" "series_ok n (s\<lparr>is_preparedPoints := c\<rparr>) = series_ok n s"
  by (simp_all add: ref_of_def deref_def buffer_of_def series_ok_def split: buffer_ref.split)

lemma buffers_warmed [simp]:
  "ref_of k (s\<lparr>is_encoderWarmed := c\<rparr>) = ref_of k s" "deref r (s\<lparr>is_encoderWarmed := c\<rparr>) = deref r s"
  "buffer_of k (s\<lparr>is_encoderWarmed := c\<rparr>) = buffer_of k s" "series_ok n (s\<lparr>is_encoderWarmed := c\<rparr>) = series_ok n s"
  by (simp_all add: ref_of_def deref_def buffer_of_def series_ok_def split: buffer_ref.split)

lemma bufferFor_keeps:
  assumes "series_ok n s" "bid < n" "bufferFor bid n s = (r, s')"
  shows "ref_of bid s' = Some r" "series_ok n s'" "is_tag s' = is_tag s" "k < n \<Longrightarrow> buffer_of k s' = buffer_of k s"
    "ref_of k s = Some q \<Longrightarrow> ref_of k s' = Some q" "deref r s' = buffer_of bid s"
proof -
  have bound: "is_primaryBufferID s < int n" if "\<not> is_primaryBufferID s < 0" using assms(1) that by (simp add: series_ok_def)
  have fresh: "is_primaryBuffer s = zero_buffer \<and> is_otherBuffers s = None" if "is_primaryBufferID s < 0" using assms(1) that by (simp add: series_ok_def)
  have same: "buffer_of k s' = buffer_of k s \<and> (\<forall>q. ref_of k s = Some q \<longrightarrow> ref_of k s' = Some q)" if "k < n" for k
  proof (cases "is_primaryBufferID s < 0")
    case True
    then show ?thesis using assms(3) fresh by (auto simp: bufferFor_def ref_of_def buffer_of_def deref_def)
  next
    case False
    then have low: "is_primaryBufferID s \<ge> 0" by simp
    show ?thesis
    proof (cases "int bid = is_primaryBufferID s \<or> is_otherBuffers s \<noteq> None")
      case True
      then have "s' = s" using assms(3) low by (auto simp: bufferFor_def Let_def split: if_splits)
      then show ?thesis by simp
    next
      case False
      then have "s' = s\<lparr>is_otherBuffers := Some (replicate (n - 1) zero_buffer)\<rparr>" using assms(3) low
        by (auto simp: bufferFor_def Let_def split: if_splits)
      then show ?thesis using False low bound that
        by (auto simp: ref_of_def buffer_of_def deref_def)
    qed
  qed
  have other: "\<forall>q. ref_of k s = Some q \<longrightarrow> ref_of k s' = Some q" for k
    using assms(3) by (auto simp: bufferFor_def ref_of_def Let_def split: if_splits)
  have here: "ref_of bid s' = Some r \<and> is_tag s' = is_tag s"
    using assms(3) by (auto simp: bufferFor_def ref_of_def Let_def split: if_splits)
  have all: "ref_of bid s' = Some r \<and> is_tag s' = is_tag s \<and> (\<forall>k<n. buffer_of k s' = buffer_of k s) \<and>
      (\<forall>k q. ref_of k s = Some q \<longrightarrow> ref_of k s' = Some q)"
    using same other here by blast
  then show "ref_of bid s' = Some r" "is_tag s' = is_tag s" "k < n \<Longrightarrow> buffer_of k s' = buffer_of k s"
    "ref_of k s = Some q \<Longrightarrow> ref_of k s' = Some q" by auto
  have "buffer_of bid s' = buffer_of bid s" using all assms(2) by blast
  moreover have "buffer_of bid s' = deref r s'" using all by (simp add: buffer_of_def)
  ultimately show "deref r s' = buffer_of bid s" by simp
  have "\<forall>k<n. buffer_ok (buffer_of k s')" using all assms(1) by (simp add: series_ok_def)
  then show "series_ok n s'"
    using assms by (auto simp: bufferFor_def series_ok_def Let_def split: if_splits)
qed

lemma assign_keeps:
  assumes "series_ok n s" "bid < n" "ref_of bid s = Some r" "buffer_ok tb"
  shows "ref_of k (assign r tb s) = ref_of k s" "deref r (assign r tb s) = tb" "buffer_of bid (assign r tb s) = tb"
    "k < n \<Longrightarrow> k \<noteq> bid \<Longrightarrow> buffer_of k (assign r tb s) = buffer_of k s" "is_tag (assign r tb s) = is_tag s" "series_ok n (assign r tb s)"
proof -
  have refs: "\<And>k. ref_of k (assign r tb s) = ref_of k s"
    by (auto simp: ref_of_def assign_def split: buffer_ref.split)
  have at: "deref r (assign r tb s) = tb"
    using assms by (auto simp: ref_of_def assign_def deref_def series_ok_def split: if_splits)
  have here: "buffer_of bid (assign r tb s) = tb" using at refs assms(3) by (simp add: buffer_of_def)
  have there: "\<And>k. k < n \<Longrightarrow> k \<noteq> bid \<Longrightarrow> buffer_of k (assign r tb s) = buffer_of k s"
  proof -
    fix k assume "k < n" "k \<noteq> bid"
    then have "ref_of k s = Some q \<Longrightarrow> deref q (assign r tb s) = deref q s" for q
      using assms by (auto simp: ref_of_def assign_def deref_def series_ok_def nth_list_update split: if_splits)
    then show "buffer_of k (assign r tb s) = buffer_of k s" by (simp add: buffer_of_def refs split: option.split)
  qed
  show "ref_of k (assign r tb s) = ref_of k s" "deref r (assign r tb s) = tb" "buffer_of bid (assign r tb s) = tb"
    "k < n \<Longrightarrow> k \<noteq> bid \<Longrightarrow> buffer_of k (assign r tb s) = buffer_of k s"
    using refs at here there by auto
  show "is_tag (assign r tb s) = is_tag s" by (simp add: assign_def split: buffer_ref.split)
  have "\<forall>k<n. buffer_ok (buffer_of k (assign r tb s))"
    using here there assms by (metis series_ok_def)
  then show "series_ok n (assign r tb s)"
    using assms(1,3) by (auto simp: series_ok_def assign_def ref_of_def split: buffer_ref.splits if_splits)
qed

section \<open>A shard\<close>

definition tag_buffer :: "'v ingestShard \<Rightarrow> nat \<Rightarrow> bytes \<Rightarrow> 'v rawTagBuffer" where
  "tag_buffer sh bid tag = (case sh_series sh tag of None \<Rightarrow> zero_buffer | Some s \<Rightarrow> buffer_of bid s)"

abbreviation tag_points :: "'v ingestShard \<Rightarrow> nat \<Rightarrow> bytes \<Rightarrow> (int \<times> 'v) list" where
  "tag_points sh bid tag \<equiv> rt_points (tag_buffer sh bid tag)"

text \<open>A generation lists the buffers that hold points, and no tag twice.\<close>

definition used_view :: "(bytes \<rightharpoonup> 'v ingestSeries) \<Rightarrow> nat \<Rightarrow> bytes \<rightharpoonup> buffer_ref" where
  "used_view m bid tag = (case m tag of None \<Rightarrow> None | Some s \<Rightarrow> if rt_points (buffer_of bid s) = [] then None else ref_of bid s)"

definition lists_used :: "(bytes \<rightharpoonup> 'v ingestSeries) \<Rightarrow> ingestBuffer \<Rightarrow> bool" where
  "lists_used m ib = (distinct (map fst (ib_used ib)) \<and> map_of (ib_used ib) = used_view m (ib_id ib))"

lemma used_view_Some:
  "used_view m bid tag = Some r \<longleftrightarrow> (\<exists>s. m tag = Some s \<and> ref_of bid s = Some r \<and> rt_points (buffer_of bid s) \<noteq> [] \<and> buffer_of bid s = deref r s)"
  by (auto simp: used_view_def buffer_of_def split: option.splits)

lemma used_view_None: "used_view m bid tag = None \<longleftrightarrow> (\<forall>s. m tag = Some s \<longrightarrow> rt_points (buffer_of bid s) = [])"
  by (auto simp: used_view_def buffer_of_def split: option.splits)

definition series_map_ok :: "nat \<Rightarrow> (bytes \<Rightarrow> bool) \<Rightarrow> (bytes \<rightharpoonup> 'v ingestSeries) \<Rightarrow> bool" where
  "series_map_ok n belongs m = (\<forall>tag s. m tag = Some s \<longrightarrow> is_tag s = tag \<and> series_ok n s \<and> belongs tag)"

definition points_in :: "'v ingestShard \<Rightarrow> ingestBuffer \<Rightarrow> nat" where
  "points_in sh ib = sum_list (map (\<lambda>(tag, _). length (tag_points sh (ib_id ib) tag)) (ib_used ib))"

text \<open>The generations of a shard are the active one, the free ones and those out with a batch: together they are the numbers below the number of
  buffers, each once.\<close>

definition shard_inv :: "nat \<Rightarrow> (bytes \<Rightarrow> bool) \<Rightarrow> ingestBuffer list \<Rightarrow> 'v ingestShard \<Rightarrow> bool" where
  "shard_inv n belongs outs sh =
     (distinct (map ib_id (sh_active sh # sh_free sh @ outs)) \<and> ib_id ` set (sh_active sh # sh_free sh @ outs) = {..<n} \<and>
      series_map_ok n belongs (sh_series sh) \<and> (\<forall>ib \<in> set (sh_active sh # sh_free sh @ outs). lists_used (sh_series sh) ib) \<and>
      (\<forall>ib \<in> set (sh_free sh). ib_used ib = []) \<and> sh_activeCount sh = int (points_in sh (sh_active sh)))"

lemma shard_inv_total:
  assumes "shard_inv n belongs outs sh"
  shows "1 + length (sh_free sh) + length outs = n"
proof -
  have "card (ib_id ` set (sh_active sh # sh_free sh @ outs)) = length (sh_active sh # sh_free sh @ outs)"
    using assms by (metis shard_inv_def distinct_card length_map list.set_map)
  then show ?thesis using assms by (simp add: shard_inv_def)
qed

lemma shard_invD:
  assumes "shard_inv n belongs outs sh"
  shows "ib_id (sh_active sh) < n" "ib \<in> set outs \<Longrightarrow> ib_id ib < n" "lists_used (sh_series sh) (sh_active sh)"
    "ib \<in> set outs \<Longrightarrow> lists_used (sh_series sh) ib" "series_map_ok n belongs (sh_series sh)"
proof -
  show "ib_id (sh_active sh) < n" using assms by (auto simp: shard_inv_def)
  show "ib \<in> set outs \<Longrightarrow> ib_id ib < n" using assms by (auto simp: shard_inv_def)
qed (use assms in \<open>auto simp: shard_inv_def\<close>)

lemma shard_inv_idle:
  assumes "shard_inv n belongs outs sh" "ib \<in> set (sh_free sh @ outs)"
  shows "ib_id ib < n" "ib_id ib \<noteq> ib_id (sh_active sh)" "lists_used (sh_series sh) ib"
proof -
  have "ib_id ib \<in> ib_id ` set (sh_free sh @ outs)" using assms(2) by blast
  then show "ib_id ib < n" "ib_id ib \<noteq> ib_id (sh_active sh)" using assms(1) by (auto simp: shard_inv_def)
  show "lists_used (sh_series sh) ib" using assms by (auto simp: shard_inv_def)
qed

text \<open>The number of buffers shared by all generations bounds those that are out.\<close>

lemma swap_possible: "shard_inv n belongs outs sh \<Longrightarrow> length outs + 1 < n \<Longrightarrow> sh_free sh \<noteq> []"
  using shard_inv_total by fastforce

lemma lists_used_at:
  assumes "lists_used m ib" "(tag, r) \<in> set (ib_used ib)"
  obtains s where "m tag = Some s" "ref_of (ib_id ib) s = Some r" "rt_points (buffer_of (ib_id ib) s) \<noteq> []" "buffer_of (ib_id ib) s = deref r s"
proof -
  have "map_of (ib_used ib) tag = Some r" using assms by (meson lists_used_def map_of_is_SomeI)
  then have "used_view m (ib_id ib) tag = Some r" using assms by (simp add: lists_used_def)
  then show ?thesis using that by (auto simp: used_view_Some)
qed

lemma unlisted_empty:
  assumes "lists_used (sh_series sh) ib" "tag \<notin> fst ` set (ib_used ib)"
  shows "tag_points sh (ib_id ib) tag = []"
proof -
  have "used_view (sh_series sh) (ib_id ib) tag = None" using assms by (metis lists_used_def map_of_eq_None_iff)
  then show ?thesis by (auto simp: used_view_None tag_buffer_def split: option.split)
qed

lemma listed_points:
  assumes "lists_used (sh_series sh) ib" "(tag, r) \<in> set (ib_used ib)"
  shows "rt_points (deref r (the (sh_series sh tag))) = tag_points sh (ib_id ib) tag" "tag_points sh (ib_id ib) tag \<noteq> []"
  using assms by (auto simp: tag_buffer_def elim!: lists_used_at)

lemma points_in_Nil_iff: "lists_used (sh_series sh) ib \<Longrightarrow> points_in sh ib = 0 \<longleftrightarrow> ib_used ib = []"
  by (cases "ib_used ib") (auto simp: points_in_def dest: listed_points(2))

subsection \<open>Appending\<close>

lemma find_series_spec:
  assumes "find_series slot tag sh = (s, sh')"
  shows "s = (case sh_series sh tag of Some s \<Rightarrow> s | None \<Rightarrow> new_series tag (HashString tag))" "sh_series sh' = (sh_series sh)(tag \<mapsto> s)"
    "sh_active sh' = sh_active sh" "sh_free sh' = sh_free sh" "sh_activeCount sh' = sh_activeCount sh"
  using assms by (auto simp: find_series_def Let_def split: prod.splits bool.splits option.splits)

lemma map_of_snoc: "k \<notin> fst ` set xs \<Longrightarrow> map_of (xs @ [(k, v)]) = (map_of xs)(k \<mapsto> v)"
  by (induction xs) (auto simp: fun_upd_twist)

lemma points_in_cong:
  "(\<And>tag. tag \<in> fst ` set (ib_used ib) \<Longrightarrow> tag_points sh (ib_id ib) tag = tag_points sh' (ib_id ib) tag) \<Longrightarrow> points_in sh ib = points_in sh' ib"
  by (force simp: points_in_def intro!: arg_cong[where f = sum_list] map_cong)

lemma shard_append_spec:
  assumes inv: "shard_inv n belongs outs sh" and mine: "belongs tag"
    and sh'_def: "sh' = shard_append retains slot n tag tms v sh" and aid_def: "aid = ib_id (sh_active sh)"
  shows "shard_inv n belongs outs sh'" "ib_id (sh_active sh') = aid" "sh_activeCount sh' = sh_activeCount sh + 1"
    "k < n \<Longrightarrow> tag_points sh' k tag' = (if k = aid \<and> tag' = tag then tag_points sh k tag' @ [(tms, v)] else tag_points sh k tag')"
proof -
  obtain s0 sh1 where fs: "find_series slot tag sh = (s0, sh1)" by (cases "find_series slot tag sh")
  note spec = find_series_spec[OF fs]
  obtain r s where bf: "bufferFor aid n s0 = (r, s)" by (cases "bufferFor aid n s0")
  let ?tb = "append_raw retains tms v (deref r s)"
  let ?s = "assign r ?tb s"
  let ?m = "(sh_series sh)(tag \<mapsto> ?s)"
  have aid: "aid < n" using shard_invD(1)[OF inv] by (simp add: aid_def)
  have mok: "series_map_ok n belongs (sh_series sh)" by (rule shard_invD(5)[OF inv])
  have s0: "series_ok n s0" "is_tag s0 = tag"
    using mok spec(1) by (auto simp: series_map_ok_def new_series_ok split: option.splits) (simp add: new_series_def)
  have s0_buf: "buffer_of k s0 = tag_buffer sh k tag" for k using spec(1) by (auto simp: tag_buffer_def split: option.split)
  note b = bufferFor_keeps[OF s0(1) aid bf]
  have "buffer_ok (buffer_of aid s0)" using s0(1) aid by (simp add: series_ok_def)
  then have tb: "buffer_ok ?tb" using b(6) by (simp add: buffer_ok_append)
  note a = assign_keeps[OF b(2) aid b(1) tb]
  have pts: "rt_points (buffer_of k ?s) = (if k = aid then tag_points sh k tag @ [(tms, v)] else tag_points sh k tag)" if "k < n" for k
    using that a(3) a(4)[of k] b(4)[OF that] b(6) s0_buf by simp
  have view: "used_view ?m k = (if k = aid then (used_view (sh_series sh) k)(tag \<mapsto> r) else used_view (sh_series sh) k)" if "k < n" for k
  proof (rule ext)
    fix tag'
    show "used_view ?m k tag' = (if k = aid then (used_view (sh_series sh) k)(tag \<mapsto> r) else used_view (sh_series sh) k) tag'"
    proof (cases "tag' = tag")
      case False
      then show ?thesis by (cases "k = aid") (simp_all add: used_view_def)
    next
      case True
      show ?thesis
      proof (cases "k = aid")
        case True
        then show ?thesis using \<open>tag' = tag\<close> pts[OF aid] a(1) b(1) by (simp add: used_view_def)
      next
        case False
        have "used_view ?m k tag = (if tag_points sh k tag = [] then None else ref_of k s)"
          using False pts[OF that] a(1) by (simp add: used_view_def)
        also have "\<dots> = used_view (sh_series sh) k tag"
        proof (cases "tag_points sh k tag = []")
          case True
          then show ?thesis by (auto simp: used_view_def tag_buffer_def split: option.splits)
        next
          case False
          then obtain q where "ref_of k s0 = Some q" using s0_buf[of k] by (cases "ref_of k s0") (auto simp: buffer_of_def)
          then show ?thesis using False spec(1) b(5)[of k q] by (auto simp: used_view_def tag_buffer_def split: option.splits)
        qed
        finally show ?thesis using \<open>tag' = tag\<close> False by simp
      qed
    qed
  qed
  let ?act = "if rt_points (deref r s) = [] then (sh_active sh)\<lparr>ib_used := ib_used (sh_active sh) @ [(tag, r)]\<rparr> else sh_active sh"
  have sh': "sh' = sh1\<lparr>sh_series := ?m, sh_active := ?act, sh_activeCount := sh_activeCount sh + 1\<rparr>"
    using spec bf by (simp add: sh'_def shard_append_def fs Let_def aid_def)
  have empty_iff: "rt_points (deref r s) = [] \<longleftrightarrow> tag_points sh aid tag = []" using b(6) s0_buf[of aid] by simp
  show pts': "tag_points sh' k tag' = (if k = aid \<and> tag' = tag then tag_points sh k tag' @ [(tms, v)] else tag_points sh k tag')" if "k < n" for k tag'
    using pts[OF that] by (auto simp: sh' tag_buffer_def)
  show "ib_id (sh_active sh') = aid" by (simp add: sh' aid_def)
  show "sh_activeCount sh' = sh_activeCount sh + 1" by (simp add: sh')
  have "series_map_ok n belongs ?m" using mok a(5,6) s0(2) b(3) mine by (auto simp: series_map_ok_def)
  moreover have "lists_used ?m ib" if "ib \<in> set (sh_free sh @ outs)" for ib
  proof -
    note d = shard_inv_idle[OF inv that]
    then show ?thesis using view[of "ib_id ib"] by (simp add: lists_used_def aid_def)
  qed
  moreover have act: "lists_used ?m ?act"
  proof -
    have lu: "lists_used (sh_series sh) (sh_active sh)" by (rule shard_invD(3)[OF inv])
    have none: "used_view (sh_series sh) aid tag = None \<longleftrightarrow> tag_points sh aid tag = []"
      by (auto simp: used_view_None tag_buffer_def split: option.splits)
    show ?thesis
    proof (cases "rt_points (deref r s) = []")
      case True
      then have "tag \<notin> fst ` set (ib_used (sh_active sh))" using none empty_iff lu by (metis aid_def lists_used_def map_of_eq_None_iff)
      then show ?thesis using True lu view[OF aid] by (simp add: lists_used_def aid_def map_of_snoc del: map_of_append)
    next
      case False
      then have "tag_points sh aid tag \<noteq> []" using empty_iff by simp
      then obtain s1 where s1: "sh_series sh tag = Some s1" by (cases "sh_series sh tag") (auto simp: tag_buffer_def)
      then have "s0 = s1" using spec(1) by simp
      have "used_view (sh_series sh) aid tag \<noteq> None" using none \<open>tag_points sh aid tag \<noteq> []\<close> by simp
      then obtain q where q: "used_view (sh_series sh) aid tag = Some q" by blast
      then have "ref_of aid s0 = Some q" using s1 \<open>s0 = s1\<close> by (auto simp: used_view_Some)
      then have "q = r" using b(1) b(5)[of aid q] by simp
      then have "(used_view (sh_series sh) aid)(tag \<mapsto> r) = used_view (sh_series sh) aid" using q by auto
      then show ?thesis using False lu view[OF aid] by (simp add: lists_used_def aid_def)
    qed
  qed
  moreover have "points_in sh' ?act = points_in sh (sh_active sh) + 1"
  proof (cases "rt_points (deref r s) = []")
    case True
    have notin: "tag \<notin> fst ` set (ib_used (sh_active sh))"
      using True empty_iff listed_points(2)[OF shard_invD(3)[OF inv]] by (auto simp: aid_def)
    have "sum_list (map (\<lambda>(t, _). length (tag_points sh' aid t)) (ib_used (sh_active sh))) = sum_list (map (\<lambda>(t, _). length (tag_points sh aid t)) (ib_used (sh_active sh)))"
      using notin pts'[OF aid] by (intro arg_cong[where f = sum_list] map_cong) force+
    then show ?thesis using True empty_iff pts'[OF aid, of tag] by (simp add: points_in_def aid_def)
  next
    case False
    let ?us = "ib_used (sh_active sh)"
    have "tag \<in> fst ` set ?us" using False empty_iff unlisted_empty[OF shard_invD(3)[OF inv]] by (auto simp: aid_def)
    then obtain xs q ys where us: "?us = xs @ (tag, q) # ys" by (metis imageE prod.collapse split_list)
    have "distinct (map fst ?us)" using shard_invD(3)[OF inv] by (simp add: lists_used_def)
    then have nots: "tag \<notin> fst ` set xs" "tag \<notin> fst ` set ys" by (auto simp: us)
    have "sum_list (map (\<lambda>(t, _). length (tag_points sh' aid t)) xs) = sum_list (map (\<lambda>(t, _). length (tag_points sh aid t)) xs)"
      "sum_list (map (\<lambda>(t, _). length (tag_points sh' aid t)) ys) = sum_list (map (\<lambda>(t, _). length (tag_points sh aid t)) ys)"
      using nots pts'[OF aid] by (intro arg_cong[where f = sum_list] map_cong; force)+
    then show ?thesis using False us pts'[OF aid, of tag] by (simp add: points_in_def aid_def)
  qed
  ultimately show "shard_inv n belongs outs sh'"
    using inv by (auto simp: shard_inv_def sh' spec)
qed

subsection \<open>Swapping, recycling, preparing\<close>

lemma swap_shard_spec:
  assumes inv: "shard_inv n belongs outs sh" and sw: "swap_shard sh = Some (ib, cnt, sh')"
  shows "ib = sh_active sh" "cnt = int (points_in sh ib)" "shard_inv n belongs (outs @ [ib]) sh'" "tag_buffer sh' = tag_buffer sh"
    "sh_activeCount sh' = 0" "tag_points sh' (ib_id (sh_active sh')) tag = []"
proof -
  have ne: "sh_free sh \<noteq> []" using sw by (auto simp: swap_shard_def split: if_splits)
  then obtain fr nw where fr: "sh_free sh = fr @ [nw]" by (metis rev_exhaust)
  then have nw: "ib_used nw = []" using inv by (simp add: shard_inv_def)
  then have upd: "nw\<lparr>ib_used := []\<rparr> = nw" by simp
  have eq: "ib = sh_active sh" "cnt = sh_activeCount sh" "sh' = sh\<lparr>sh_active := nw, sh_free := fr, sh_activeCount := 0\<rparr>"
    using sw fr ne upd by (auto simp: swap_shard_def)
  show "ib = sh_active sh" by (fact eq)
  show "cnt = int (points_in sh ib)" using inv eq by (simp add: shard_inv_def)
  show tb: "tag_buffer sh' = tag_buffer sh" by (simp add: eq fun_eq_iff tag_buffer_def)
  show "sh_activeCount sh' = 0" by (simp add: eq)
  have "lists_used (sh_series sh) nw" using inv fr by (simp add: shard_inv_def)
  then show "tag_points sh' (ib_id (sh_active sh')) tag = []"
    using nw unlisted_empty[of sh nw tag] tb by (simp add: eq)
  have "points_in sh' nw = 0" by (simp add: points_in_def nw)
  then show "shard_inv n belongs (outs @ [ib]) sh'"
    using inv by (auto simp: shard_inv_def eq fr)
qed

text \<open>Two maps of series that differ at most in the buffers of one generation, and there only in contents.\<close>

definition same_but :: "nat \<Rightarrow> nat \<Rightarrow> (bytes \<rightharpoonup> 'v ingestSeries) \<Rightarrow> (bytes \<rightharpoonup> 'v ingestSeries) \<Rightarrow> bool" where
  "same_but n bid m m' =
     (\<forall>tag. (m tag = None \<longleftrightarrow> m' tag = None) \<and>
        (\<forall>s s'. m tag = Some s \<longrightarrow> m' tag = Some s' \<longrightarrow> is_tag s' = is_tag s \<and> (series_ok n s \<longrightarrow> series_ok n s') \<and> (\<forall>k. ref_of k s' = ref_of k s) \<and>
           (\<forall>k<n. k \<noteq> bid \<longrightarrow> buffer_of k s' = buffer_of k s)))"

lemma same_but_refl [simp]: "same_but n bid m m"
  by (simp add: same_but_def)

lemma same_but_None: "same_but n bid m m' \<Longrightarrow> m' tag = None \<longleftrightarrow> m tag = None"
  by (simp add: same_but_def)

lemma same_but_Some:
  assumes "same_but n bid m m'" "m' tag = Some s'"
  obtains s where "m tag = Some s" "is_tag s' = is_tag s" "series_ok n s \<Longrightarrow> series_ok n s'" "\<And>k. ref_of k s' = ref_of k s"
    "\<And>k. k < n \<Longrightarrow> k \<noteq> bid \<Longrightarrow> buffer_of k s' = buffer_of k s"
proof -
  obtain s where s: "m tag = Some s" using same_but_None[OF assms(1), of tag] assms(2) by (cases "m tag") auto
  note all = assms(1)[unfolded same_but_def, rule_format, of tag, THEN conjunct2, rule_format, OF s assms(2)]
  show ?thesis by (rule that[OF s]) (use all in simp_all)
qed

lemma same_but_trans:
  assumes "same_but n bid m m'" "same_but n bid m' m''"
  shows "same_but n bid m m''"
  unfolding same_but_def
proof (intro allI conjI impI)
  fix tag show "(m tag = None) = (m'' tag = None)" using assms by (metis same_but_def)
next
  fix tag s s'' k
  assume s: "m tag = Some s" "m'' tag = Some s''"
  then obtain s' where s': "m' tag = Some s'" using assms(1) by (metis not_Some_eq same_but_def)
  note 1 = assms(1)[unfolded same_but_def, rule_format, of tag, THEN conjunct2, rule_format, OF s(1) s']
  note 2 = assms(2)[unfolded same_but_def, rule_format, of tag, THEN conjunct2, rule_format, OF s' s(2)]
  show "is_tag s'' = is_tag s" using 1 2 by simp
  show "series_ok n s \<Longrightarrow> series_ok n s''" using 1 2 by simp
  show "ref_of k s'' = ref_of k s" using 1 2 by simp
  show "k < n \<Longrightarrow> k \<noteq> bid \<Longrightarrow> buffer_of k s'' = buffer_of k s" using 1 2 by simp
qed

lemma same_but_assign:
  assumes "series_ok n s" "bid < n" "ref_of bid s = Some r" "buffer_ok tb" "m tag = Some s"
    and others: "is_tag s' = is_tag s" "\<And>k. ref_of k s' = ref_of k (assign r tb s)" "\<And>k. buffer_of k s' = buffer_of k (assign r tb s)"
      "series_ok n s' = series_ok n (assign r tb s)"
  shows "same_but n bid m (m(tag \<mapsto> s'))"
  using assign_keeps[OF assms(1-4)] assms by (auto simp: same_but_def)

lemma same_but_view:
  assumes "same_but n bid m m'" "k < n" "k \<noteq> bid"
  shows "used_view m' k = used_view m k"
proof (rule ext)
  fix tag show "used_view m' k tag = used_view m k tag"
  proof (cases "m' tag")
    case None
    then show ?thesis using same_but_None[OF assms(1), of tag] by (simp add: used_view_def)
  next
    case (Some s')
    show ?thesis using assms(2,3) Some by (rule_tac same_but_Some[OF assms(1) Some]) (simp add: used_view_def)
  qed
qed

lemma same_but_points:
  assumes "same_but n bid (sh_series sh) (sh_series sh')" "k < n" "k \<noteq> bid"
  shows "tag_buffer sh' k = tag_buffer sh k"
proof (rule ext)
  fix tag show "tag_buffer sh' k tag = tag_buffer sh k tag"
  proof (cases "sh_series sh' tag")
    case None
    then show ?thesis using same_but_None[OF assms(1), of tag] by (simp add: tag_buffer_def)
  next
    case (Some s')
    show ?thesis using assms(2,3) Some by (rule_tac same_but_Some[OF assms(1) Some]) (simp add: tag_buffer_def)
  qed
qed

lemma same_but_map_ok:
  assumes "same_but n bid m m'" "series_map_ok n belongs m"
  shows "series_map_ok n belongs m'"
  unfolding series_map_ok_def
proof (intro allI impI)
  fix tag s' assume s': "m' tag = Some s'"
  show "is_tag s' = tag \<and> series_ok n s' \<and> belongs tag"
    using assms(2) by (rule_tac same_but_Some[OF assms(1) s']) (simp add: series_map_ok_def)
qed

text \<open>A shard whose series change only in one of its generations that is out, and there stay in use, keeps its invariant.\<close>

lemma shard_inv_same_but:
  assumes inv: "shard_inv n belongs outs sh" and ib: "ib \<in> set outs" and sb: "same_but n (ib_id ib) (sh_series sh) m'"
    and used: "used_view m' (ib_id ib) = used_view (sh_series sh) (ib_id ib)"
  shows "shard_inv n belongs outs (sh\<lparr>sh_series := m'\<rparr>)"
proof -
  let ?sh = "sh\<lparr>sh_series := m'\<rparr>"
  have out: "ib_id ib < n" "ib_id (sh_active sh) \<noteq> ib_id ib" using shard_inv_idle[OF inv, of ib] ib by auto
  have view: "used_view m' (ib_id x) = used_view (sh_series sh) (ib_id x)" if "x \<in> set (sh_active sh # sh_free sh @ outs)" for x
  proof -
    have "ib_id x < n" using that shard_inv_idle(1)[OF inv, of x] shard_invD(1)[OF inv] by auto
    then show ?thesis using used same_but_view[OF sb] by metis
  qed
  have "tag_buffer ?sh (ib_id (sh_active sh)) = tag_buffer sh (ib_id (sh_active sh))"
    using same_but_points[of n "ib_id ib" sh ?sh "ib_id (sh_active sh)"] sb shard_invD(1)[OF inv] out by simp
  then have "points_in ?sh (sh_active sh) = points_in sh (sh_active sh)" by (simp add: points_in_def)
  then show ?thesis
    using inv view same_but_map_ok[OF sb] by (simp add: shard_inv_def lists_used_def)
qed

subsection \<open>Recycling\<close>

abbreviation recycle_one :: "bytes \<times> buffer_ref \<Rightarrow> (bytes \<rightharpoonup> 'v ingestSeries) \<Rightarrow> (bytes \<rightharpoonup> 'v ingestSeries)" where
  "recycle_one \<equiv> \<lambda>(tag, r) m. case m tag of None \<Rightarrow> m | Some s \<Rightarrow> m(tag \<mapsto> assign r (recycle_buffer (deref r s)) s)"

lemma recycle_used:
  assumes "series_map_ok n belongs m" "bid < n" "distinct (map fst us)" "\<forall>(tag, r) \<in> set us. \<exists>s. m tag = Some s \<and> ref_of bid s = Some r"
  shows "same_but n bid m (fold recycle_one us m) \<and>
    (\<forall>tag. used_view (fold recycle_one us m) bid tag = (if tag \<in> fst ` set us then None else used_view m bid tag))"
  using assms
proof (induction us arbitrary: m)
  case Nil
  then show ?case by simp
next
  case (Cons u us)
  obtain tag r where u: "u = (tag, r)" by (cases u)
  obtain s where s: "m tag = Some s" "ref_of bid s = Some r" using Cons.prems(4) u by auto
  let ?m = "m(tag \<mapsto> assign r (recycle_buffer (deref r s)) s)"
  have sok: "series_ok n s" using Cons.prems(1) s by (simp add: series_map_ok_def)
  note a = assign_keeps[OF sok Cons.prems(2) s(2) buffer_ok_empty[OF recycle_buffer_points]]
  have sb: "same_but n bid m ?m"
    by (rule same_but_assign[where m = m and tag = tag, OF sok Cons.prems(2) s(2) buffer_ok_empty[OF recycle_buffer_points] s(1)]) (simp_all add: a(5))
  have rest: "\<forall>(t, q) \<in> set us. \<exists>s. ?m t = Some s \<and> ref_of bid s = Some q"
  proof clarify
    fix t q assume tq: "(t, q) \<in> set us"
    then have "t \<noteq> tag" using Cons.prems(3) u by force
    moreover have "\<exists>s. m t = Some s \<and> ref_of bid s = Some q" using Cons.prems(4) tq by auto
    ultimately show "\<exists>s. ?m t = Some s \<and> ref_of bid s = Some q" by simp
  qed
  have ih: "same_but n bid ?m (fold recycle_one us ?m) \<and>
    (\<forall>t. used_view (fold recycle_one us ?m) bid t = (if t \<in> fst ` set us then None else used_view ?m bid t))"
    by (rule Cons.IH[OF same_but_map_ok[OF sb Cons.prems(1)] Cons.prems(2) _ rest]) (use Cons.prems(3) in simp)
  have "used_view ?m bid t = (if t = tag then None else used_view m bid t)" for t
    using a(3) by (simp add: used_view_def)
  then show ?case using ih same_but_trans[OF sb] u s(1) by simp
qed

lemma recycle_shard_spec:
  assumes inv: "shard_inv n belongs (os @ ib # os') sh"
  shows "shard_inv n belongs (os @ os') (recycle_shard ib sh)" "k < n \<Longrightarrow> k \<noteq> ib_id ib \<Longrightarrow> tag_buffer (recycle_shard ib sh) k = tag_buffer sh k"
    "sh_active (recycle_shard ib sh) = sh_active sh" "sh_activeCount (recycle_shard ib sh) = sh_activeCount sh"
proof -
  let ?m = "fold recycle_one (ib_used ib) (sh_series sh)"
  have lu: "lists_used (sh_series sh) ib" and bid: "ib_id ib < n" using shard_inv_idle[OF inv, of ib] by auto
  have "\<forall>(tag, r) \<in> set (ib_used ib). \<exists>s. sh_series sh tag = Some s \<and> ref_of (ib_id ib) s = Some r"
    by (auto elim!: lists_used_at[OF lu])
  then have rec: "same_but n (ib_id ib) (sh_series sh) ?m \<and>
      (\<forall>tag. used_view ?m (ib_id ib) tag = (if tag \<in> fst ` set (ib_used ib) then None else used_view (sh_series sh) (ib_id ib) tag))"
    using recycle_used[OF shard_invD(5)[OF inv] bid, of "ib_used ib"] lu by (simp add: lists_used_def)
  have sb: "same_but n (ib_id ib) (sh_series sh) ?m" using rec by blast
  have gone: "used_view ?m (ib_id ib) = Map.empty"
  proof (rule ext)
    fix tag show "used_view ?m (ib_id ib) tag = None"
    proof (cases "tag \<in> fst ` set (ib_used ib)")
      case True
      then show ?thesis using rec by simp
    next
      case False
      then have "map_of (ib_used ib) tag = None" by (simp add: map_of_eq_None_iff)
      then show ?thesis using rec lu False by (simp add: lists_used_def)
    qed
  qed
  have eq: "recycle_shard ib sh = sh\<lparr>sh_series := ?m, sh_free := sh_free sh @ [ib\<lparr>ib_used := []\<rparr>]\<rparr>"
    by (simp add: recycle_shard_def)
  have pts: "tag_buffer (recycle_shard ib sh) k = tag_buffer sh k" if "k < n" "k \<noteq> ib_id ib" for k
    using same_but_points[of n "ib_id ib" sh "recycle_shard ib sh" k] sb that by (simp add: eq)
  then show "k < n \<Longrightarrow> k \<noteq> ib_id ib \<Longrightarrow> tag_buffer (recycle_shard ib sh) k = tag_buffer sh k" .
  have act: "ib_id (sh_active sh) \<noteq> ib_id ib" "ib_id (sh_active sh) < n" using shard_inv_idle(2)[OF inv, of ib] shard_invD(1)[OF inv] by auto
  have keep: "lists_used ?m x" if "x \<in> set (sh_active sh # sh_free sh @ os @ os')" for x
  proof -
    have "ib_id x \<in> ib_id ` set (sh_active sh # sh_free sh @ os @ os')" using that by (rule imageI)
    moreover have "ib_id ib \<notin> ib_id ` set (sh_active sh # sh_free sh @ os @ os')" using inv by (auto simp: shard_inv_def)
    ultimately have "ib_id x \<noteq> ib_id ib" by metis
    moreover have "ib_id x < n" "lists_used (sh_series sh) x"
      using that shard_inv_idle(1,3)[OF inv, of x] shard_invD(1,3)[OF inv] by auto
    ultimately show ?thesis using same_but_view[OF sb] by (simp add: lists_used_def)
  qed
  have "points_in (recycle_shard ib sh) (sh_active sh) = points_in sh (sh_active sh)"
    using pts[OF act(2,1)] by (simp add: points_in_def)
  then show "shard_inv n belongs (os @ os') (recycle_shard ib sh)"
    using inv keep same_but_map_ok[OF sb] gone
    by (simp add: shard_inv_def eq lists_used_def)
  show "sh_active (recycle_shard ib sh) = sh_active sh" "sh_activeCount (recycle_shard ib sh) = sh_activeCount sh" by (simp_all add: eq)
qed

subsection \<open>Preparing\<close>

lemma warm_series_keeps [simp]:
  assumes "warm_series T code j (s, t) = (s', t')"
  shows "ref_of k s' = ref_of k s" "buffer_of k s' = buffer_of k s" "is_tag s' = is_tag s" "series_ok n s' = series_ok n s" "is_code s' = is_code s"
  using assms by (auto simp: warm_series_def Let_def split: if_splits)

definition sorted_points_of :: "nat \<Rightarrow> (bytes \<rightharpoonup> 'v ingestSeries) \<Rightarrow> bytes \<Rightarrow> (int \<times> 'v) list" where
  "sorted_points_of bid m tag = sort_key fst (rt_points (buffer_of bid (the (m tag))))"

lemma sort_points_Nil_iff: "rt_points (sort_points tb) = [] \<longleftrightarrow> rt_points tb = []"
proof -
  have "set (rt_points (sort_points tb)) = set (rt_points tb)" by (simp add: sort_points_def)
  then show ?thesis by (metis set_empty)
qed

lemma prepare_one:
  assumes "series_map_ok n belongs m" "bid < n" "m tag = Some s" "ref_of bid s = Some r"
    and warm: "warm_series T code j (assign r (sort_points (deref r s)) (s\<lparr>is_code := code\<rparr>), t) = (s', t')"
  shows "same_but n bid m (m(tag \<mapsto> s'))" "used_view (m(tag \<mapsto> s')) bid = used_view m bid" "is_code s' = code"
    "rt_points (sort_points (deref r s)) = sorted_points_of bid m tag"
proof -
  let ?s = "s\<lparr>is_code := code\<rparr>"
  have sok: "series_ok n ?s" and ok: "buffer_ok (buffer_of bid s)" using assms(1-3) by (simp_all add: series_map_ok_def) (simp add: series_ok_def)
  have ref: "ref_of bid ?s = Some r" using assms(4) by simp
  have buf: "buffer_of bid s = deref r s" using assms(4) by (simp add: buffer_of_def)
  have tb: "buffer_ok (sort_points (deref r s))" using ok buf by (simp add: buffer_ok_sort)
  note a = assign_keeps[OF sok assms(2) ref tb]
  note w = warm_series_keeps[OF warm]
  show "same_but n bid m (m(tag \<mapsto> s'))"
    using a w assms(3) by (auto simp: same_but_def)
  show "used_view (m(tag \<mapsto> s')) bid = used_view m bid"
    using a w assms(3) buf by (auto simp: used_view_def fun_eq_iff sort_points_Nil_iff)
  show "is_code s' = code" using w(5) by (simp add: assign_def split: buffer_ref.split)
  show "rt_points (sort_points (deref r s)) = sorted_points_of bid m tag"
    using ok buf assms(3) by (simp add: sorted_points_of_def sort_points_spec)
qed

lemma prepare_used_spec:
  assumes "series_map_ok n belongs m" "bid < n" "distinct (map fst us)" "\<forall>(tag, r) \<in> set us. \<exists>s. m tag = Some s \<and> ref_of bid s = Some r"
    "prepare_used T us m t runs = (res, m', t')"
  shows "same_but n bid m m' \<and> used_view m' bid = used_view m bid \<and> (\<forall>tag. tag \<notin> fst ` set us \<longrightarrow> m' tag = m tag) \<and>
    (\<forall>runs'. res = Inr runs' \<longrightarrow> runs' = runs @ map (\<lambda>(tag, _). \<lparr>wr_Key = is_code (the (m' tag)), wr_Points = sorted_points_of bid m tag\<rparr>) us)"
  using assms
proof (induction us arbitrary: m t runs)
  case Nil
  then show ?case by auto
next
  case (Cons u us)
  obtain tag r where u: "u = (tag, r)" by (cases u)
  obtain s where s: "m tag = Some s" "ref_of bid s = Some r" using Cons.prems(4) u by auto
  show ?case
  proof (cases "resolve_code T s t")
    case (Pair rc t1)
    show ?thesis
    proof (cases rc)
      case (Inl e)
      then have "res = Inl e" "m' = m" using Cons.prems(5) Pair s u by simp_all
      then show ?thesis by simp
    next
      case (Inr code)
      let ?tb = "sort_points (deref r s)"
      obtain s2 t2 where w: "warm_series T code (length (rt_points ?tb)) (assign r ?tb (s\<lparr>is_code := code\<rparr>), t1) = (s2, t2)"
        by (rule prod.exhaust)
      note one = prepare_one[OF Cons.prems(1,2) s w]
      let ?m = "m(tag \<mapsto> s2)"
      have call: "prepare_used T us ?m t2 (runs @ [\<lparr>wr_Key = code, wr_Points = rt_points ?tb\<rparr>]) = (res, m', t')"
        using Cons.prems(5) Pair Inr s u w by (simp add: Let_def)
      have other: "?m q = m q" if "q \<in> fst ` set us" for q using that Cons.prems(3) u by auto
      have rest: "\<forall>(q, r) \<in> set us. \<exists>s. ?m q = Some s \<and> ref_of bid s = Some r"
      proof clarify
        fix q p assume qp: "(q, p) \<in> set us"
        then have "?m q = m q" using other[of q] by force
        moreover have "\<exists>s. m q = Some s \<and> ref_of bid s = Some p" using Cons.prems(4) qp by auto
        ultimately show "\<exists>s. ?m q = Some s \<and> ref_of bid s = Some p" by simp
      qed
      have ih: "same_but n bid ?m m' \<and> used_view m' bid = used_view ?m bid \<and> (\<forall>q. q \<notin> fst ` set us \<longrightarrow> m' q = ?m q) \<and>
          (\<forall>runs'. res = Inr runs' \<longrightarrow> runs' = (runs @ [\<lparr>wr_Key = code, wr_Points = rt_points ?tb\<rparr>]) @
             map (\<lambda>(q, _). \<lparr>wr_Key = is_code (the (m' q)), wr_Points = sorted_points_of bid ?m q\<rparr>) us)"
        by (rule Cons.IH[OF same_but_map_ok[OF one(1) Cons.prems(1)] Cons.prems(2) _ rest call]) (use Cons.prems(3) in simp)
      have "m' tag = Some s2" using ih Cons.prems(3) u by auto
      moreover have "sorted_points_of bid ?m q = sorted_points_of bid m q" if "q \<in> fst ` set us" for q
        using other[OF that] by (simp add: sorted_points_of_def)
      then have "map (\<lambda>(q, _). \<lparr>wr_Key = is_code (the (m' q)), wr_Points = sorted_points_of bid ?m q\<rparr>) us =
          map (\<lambda>(q, _). \<lparr>wr_Key = is_code (the (m' q)), wr_Points = sorted_points_of bid m q\<rparr>) us"
        by (intro map_cong) force+
      ultimately show ?thesis using ih one same_but_trans[OF one(1)] u by auto
    qed
  qed
qed

end
