(* ===== verification/Write_Batcher_Inv.thy ===== *)
theory Write_Batcher_Inv
  imports Write_Batcher_Props
begin

text \<open>
  The invariant of the write buffer as a whole and what its operations do to the points in flight: those of every batch on its way to the log, oldest
  first, and those of the active generations.
\<close>

section \<open>Shards and batches\<close>

definition routed :: "u64 \<Rightarrow> bytes \<Rightarrow> nat" where
  "routed msk tag = unat (HashString tag AND msk)"

definition outs :: "nat \<Rightarrow> frozenWriteBatch list \<Rightarrow> ingestBuffer list" where
  "outs i fs = map (\<lambda>f. fb_shards f ! i) (filter (\<lambda>f. i < length (fb_shards f)) fs)"

definition shards_ok :: "nat \<Rightarrow> u64 \<Rightarrow> 'v ingestShard list \<Rightarrow> frozenWriteBatch list \<Rightarrow> bool" where
  "shards_ok n msk shards fs =
     (unat msk < length shards \<and> (\<forall>i<length shards. shard_inv n (\<lambda>tag. routed msk tag = i) (outs i fs) (shards ! i)))"

definition batch_tag :: "u64 \<Rightarrow> 'v ingestShard list \<Rightarrow> frozenWriteBatch \<Rightarrow> bytes \<Rightarrow> (int \<times> 'v) list" where
  "batch_tag msk shards f tag =
     (if routed msk tag < length (fb_shards f) then tag_points (shards ! routed msk tag) (ib_id (fb_shards f ! routed msk tag)) tag else [])"

definition active_tag :: "u64 \<Rightarrow> 'v ingestShard list \<Rightarrow> bytes \<Rightarrow> (int \<times> 'v) list" where
  "active_tag msk shards tag = tag_points (shards ! routed msk tag) (ib_id (sh_active (shards ! routed msk tag))) tag"

definition in_flight :: "u64 \<Rightarrow> 'v ingestShard list \<Rightarrow> frozenWriteBatch list \<Rightarrow> bytes \<Rightarrow> (int \<times> 'v) list" where
  "in_flight msk shards fs tag = concat (map (\<lambda>f. batch_tag msk shards f tag) fs) @ active_tag msk shards tag"

definition counted :: "'v ingestShard list \<Rightarrow> int" where
  "counted shards = sum_list (map sh_activeCount shards)"

lemma routed_bound: "unat msk < k \<Longrightarrow> routed msk tag < k"
proof -
  have "HashString tag AND msk \<le> msk" by (rule word_and_le1)
  then show "unat msk < k \<Longrightarrow> routed msk tag < k" unfolding routed_def word_le_nat_alt by linarith
qed

lemma shards_okD:
  assumes "shards_ok n msk shards fs" "i < length shards"
  shows "shard_inv n (\<lambda>tag. routed msk tag = i) (outs i fs) (shards ! i)"
  using assms by (simp add: shards_ok_def)

lemma shards_ok_routed:
  assumes "shards_ok n msk shards fs"
  shows "routed msk tag < length shards"
  using assms routed_bound by (auto simp: shards_ok_def)

lemma outs_append [simp]: "outs i (fs @ gs) = outs i fs @ outs i gs"
  by (simp add: outs_def)

lemma outs_Cons: "outs i (f # fs) = (if i < length (fb_shards f) then [fb_shards f ! i] else []) @ outs i fs"
  by (simp add: outs_def)

lemma outs_member: "f \<in> set fs \<Longrightarrow> i < length (fb_shards f) \<Longrightarrow> fb_shards f ! i \<in> set (outs i fs)"
  by (auto simp: outs_def)

lemma outs_new [simp]: "fb_shards f = [] \<Longrightarrow> outs i [f] = []"
  by (simp add: outs_def)

lemma counted_nonneg: "shards_ok n msk shards fs \<Longrightarrow> 0 \<le> counted shards"
proof -
  assume ok: "shards_ok n msk shards fs"
  have "0 \<le> sh_activeCount sh" if "sh \<in> set shards" for sh
    using that shards_okD[OF ok] by (metis in_set_conv_nth shard_inv_def of_nat_0_le_iff)
  then show ?thesis unfolding counted_def by (intro sum_list_nonneg) auto
qed

lemma sum_list_upd: "i < length xs \<Longrightarrow> sum_list (xs[i := y]) = sum_list xs - xs ! i + (y :: int)"
proof -
  assume i: "i < length xs"
  have "sum_list xs = sum_list (take i xs) + xs ! i + sum_list (drop (Suc i) xs)"
    by (subst id_take_nth_drop[OF i]) simp
  moreover have "sum_list (xs[i := y]) = sum_list (take i xs) + y + sum_list (drop (Suc i) xs)"
    using i by (simp add: upd_conv_take_nth_drop)
  ultimately show ?thesis by simp
qed

section \<open>Appending\<close>

lemma in_flight_cong:
  assumes "\<And>f. f \<in> set fs \<Longrightarrow> batch_tag msk shards' f tag = batch_tag msk shards f tag" "active_tag msk shards' tag = active_tag msk shards tag @ ps"
  shows "in_flight msk shards' fs tag = in_flight msk shards fs tag @ ps"
  using assms by (simp add: in_flight_def cong: map_cong)

lemma append_ok:
  assumes ok: "shards_ok n msk shards fs"
    and sh': "shards' = shards[routed msk tag := shard_append retains slot n tag tms v (shards ! routed msk tag)]"
  shows "shards_ok n msk shards' fs" "counted shards' = counted shards + 1"
    "in_flight msk shards' fs q = in_flight msk shards fs q @ (if q = tag then [(tms, v)] else [])"
    "f \<in> set fs \<Longrightarrow> batch_tag msk shards' f q = batch_tag msk shards f q"
proof -
  let ?i = "routed msk tag"
  let ?s = "shard_append retains slot n tag tms v (shards ! ?i)"
  have i: "?i < length shards" by (rule shards_ok_routed[OF ok])
  note inv = shards_okD[OF ok i]
  note spec = shard_append_spec[OF inv _ refl refl, where tag = tag and retains = retains and slot = slot and tms = tms and v = v, simplified]
  show "shards_ok n msk shards' fs" using ok spec(1) i by (auto simp: shards_ok_def sh' nth_list_update)
  show "counted shards' = counted shards + 1"
    using i spec(3) by (simp add: counted_def sh' map_update sum_list_upd)
  let ?j = "routed msk q"
  have j: "?j < length shards" by (rule shards_ok_routed[OF ok])
  have at: "shards' ! ?j = (if ?j = ?i then ?s else shards ! ?j)" using i by (simp add: sh' nth_list_update)
  have pts: "tag_points (shards' ! ?j) k q = tag_points (shards ! ?j) k q @ (if ?j = ?i \<and> k = ib_id (sh_active (shards ! ?i)) \<and> q = tag then [(tms, v)] else [])"
    if "k < n" for k
    unfolding at using spec(4)[OF that, of q] by (cases "?j = ?i") simp_all
  have act: "ib_id (sh_active (shards' ! ?j)) = ib_id (sh_active (shards ! ?j))" unfolding at using spec(2) by (cases "?j = ?i") simp_all
  have batch: "batch_tag msk shards' f q = batch_tag msk shards f q" if f: "f \<in> set fs" for f
  proof (cases "?j < length (fb_shards f)")
    case True
    note idle = shard_inv_idle[OF shards_okD[OF ok j], of "fb_shards f ! ?j"]
    have "fb_shards f ! ?j \<in> set (outs ?j fs)" by (rule outs_member[OF f True])
    then show ?thesis using idle True pts[of "ib_id (fb_shards f ! ?j)"] by (auto simp: batch_tag_def)
  qed (simp add: batch_tag_def)
  then show "f \<in> set fs \<Longrightarrow> batch_tag msk shards' f q = batch_tag msk shards f q" .
  show "in_flight msk shards' fs q = in_flight msk shards fs q @ (if q = tag then [(tms, v)] else [])"
  proof (rule in_flight_cong[OF batch])
    show "active_tag msk shards' q = active_tag msk shards q @ (if q = tag then [(tms, v)] else [])"
      using shard_invD(1)[OF shards_okD[OF ok j]] by (auto simp: active_tag_def act pts)
  qed
qed

section \<open>Swapping\<close>

lemma swap_ok:
  assumes ok: "shards_ok n msk shards (gs @ [f])" and i: "i = length (fb_shards f)" "i < length shards"
    and sw: "swap_shard (shards ! i) = Some (ib, cnt, sh)" and f': "f' = f\<lparr>fb_shards := fb_shards f @ [ib], fb_count := c\<rparr>"
  shows "shards_ok n msk (shards[i := sh]) (gs @ [f'])" "cnt = sh_activeCount (shards ! i)" "sh_activeCount sh = 0"
    "in_flight msk (shards[i := sh]) (gs @ [f']) tag = in_flight msk shards (gs @ [f]) tag"
    "batch_tag msk (shards[i := sh]) g tag = batch_tag msk shards g tag" "routed msk tag = i \<Longrightarrow> active_tag msk (shards[i := sh]) tag = []"
    "routed msk tag < i \<Longrightarrow> batch_tag msk (shards[i := sh]) f' tag = batch_tag msk shards f tag"
proof -
  note inv = shards_okD[OF ok i(2)]
  note sw_spec = swap_shard_spec[OF inv sw]
  have outs: "outs k (gs @ [f']) = outs k (gs @ [f]) @ (if k = i then [ib] else [])" for k
    by (auto simp: f' i outs_def nth_append)
  show "shards_ok n msk (shards[i := sh]) (gs @ [f'])"
    using ok sw_spec(3) i(2) unfolding shards_ok_def outs by (auto simp: nth_list_update)
  show "cnt = sh_activeCount (shards ! i)" using sw_spec(1,2) inv by (simp add: shard_inv_def)
  show "sh_activeCount sh = 0" by (fact sw_spec)
  let ?j = "routed msk tag"
  have tb: "tag_buffer (shards[i := sh] ! ?j) = tag_buffer (shards ! ?j)" using sw_spec(4) i(2) by (cases "?j = i") auto
  have old: "batch_tag msk (shards[i := sh]) g tag = batch_tag msk shards g tag" for g by (simp add: batch_tag_def tb)
  then show "batch_tag msk (shards[i := sh]) g tag = batch_tag msk shards g tag" .
  show "routed msk tag = i \<Longrightarrow> active_tag msk (shards[i := sh]) tag = []" using i(2) sw_spec(6)[of tag] by (simp add: active_tag_def)
  show "routed msk tag < i \<Longrightarrow> batch_tag msk (shards[i := sh]) f' tag = batch_tag msk shards f tag"
    using tb by (simp add: batch_tag_def f' i nth_append)
  show "in_flight msk (shards[i := sh]) (gs @ [f']) tag = in_flight msk shards (gs @ [f]) tag"
  proof (cases "?j = i")
    case True
    then have "batch_tag msk (shards[i := sh]) f' tag = active_tag msk shards tag" "batch_tag msk shards f tag = []"
      using sw_spec(1,4) i by (simp_all add: batch_tag_def active_tag_def f')
    moreover have "active_tag msk (shards[i := sh]) tag = []"
      using True i(2) sw_spec(6)[of tag] by (simp add: active_tag_def)
    ultimately show ?thesis by (simp add: in_flight_def old)
  next
    case False
    then have "batch_tag msk (shards[i := sh]) f' tag = batch_tag msk shards f tag"
      by (auto simp: batch_tag_def f' i nth_append less_Suc_eq)
    moreover have "active_tag msk (shards[i := sh]) tag = active_tag msk shards tag"
      using False by (simp add: active_tag_def)
    ultimately show ?thesis by (simp add: in_flight_def old)
  qed
qed

section \<open>Preparing and recycling a batch\<close>

text \<open>What the shards of a batch look like after the worker prepared them, with or without an error.\<close>

definition prepared :: "nat \<Rightarrow> frozenWriteBatch \<Rightarrow> 'v ingestShard list \<Rightarrow> 'v ingestShard list \<Rightarrow> bool" where
  "prepared n f shards shards' =
     (length shards' = length shards \<and>
      (\<forall>i<length shards. \<exists>m. shards' ! i = (shards ! i)\<lparr>sh_series := m\<rparr> \<and> same_but n (ib_id (fb_shards f ! i)) (sh_series (shards ! i)) m \<and>
         used_view m (ib_id (fb_shards f ! i)) = used_view (sh_series (shards ! i)) (ib_id (fb_shards f ! i))))"

lemma prepare_shards_prepared:
  assumes "length ibs = length shards"
    "\<And>i. i < length shards \<Longrightarrow> series_map_ok n (belongs i) (sh_series (shards ! i)) \<and> ib_id (ibs ! i) < n \<and> lists_used (sh_series (shards ! i)) (ibs ! i)"
    "prepare_shards T ibs shards t runs = (res, shards', t')"
  shows "prepared n \<lparr>fb_seq = q, fb_shards = ibs, fb_count = c\<rparr> shards shards' \<and>
    (\<forall>runs'. res = Inr runs' \<longrightarrow> runs' = runs @ concat (map (\<lambda>(ib, sh, sh').
        map (\<lambda>(tag, _). \<lparr>wr_Key = is_code (the (sh_series sh' tag)), wr_Points = sorted_points_of (ib_id ib) (sh_series sh) tag\<rparr>) (ib_used ib))
      (zip ibs (zip shards shards'))))"
  using assms
proof (induction ibs arbitrary: shards belongs t runs shards' res t')
  case Nil
  then show ?case by (auto simp: prepared_def)
next
  case (Cons ib ibs)
  obtain sh shs where shs: "shards = sh # shs" using Cons.prems(1) by (cases shards) auto
  have 0: "series_map_ok n (belongs 0) (sh_series sh)" "ib_id ib < n" "lists_used (sh_series sh) ib" using Cons.prems(2)[of 0] shs by auto
  have valid: "\<forall>(tag, r) \<in> set (ib_used ib). \<exists>s. sh_series sh tag = Some s \<and> ref_of (ib_id ib) s = Some r"
    by (auto elim!: lists_used_at[OF 0(3)])
  have dist: "distinct (map fst (ib_used ib))" using 0(3) by (simp add: lists_used_def)
  obtain r m t1 where pu: "prepare_used T (ib_used ib) (sh_series sh) t runs = (r, m, t1)" by (rule prod_cases3)
  note one = prepare_used_spec[OF 0(1,2) dist valid pu]
  have step: "prepared n \<lparr>fb_seq = q, fb_shards = ib # ibs, fb_count = c\<rparr> shards (sh\<lparr>sh_series := m\<rparr> # shs')"
    if "prepared n \<lparr>fb_seq = q, fb_shards = ibs, fb_count = c\<rparr> shs shs'" for shs'
    using that one unfolding prepared_def shs by (auto simp: nth_Cons less_Suc_eq_0_disj split: nat.split)
  show ?case
  proof (cases r)
    case (Inl e)
    have "prepared n \<lparr>fb_seq = q, fb_shards = ibs, fb_count = c\<rparr> shs shs"
      by (auto simp: prepared_def) (metis same_but_refl surjective_pairing ingestShard.surjective ingestShard.update_convs(1))
    then show ?thesis using step Cons.prems(3) shs pu Inl by auto
  next
    case (Inr runs1)
    obtain r2 shs' t2 where ps: "prepare_shards T ibs shs t1 runs1 = (r2, shs', t2)" by (rule prod_cases3)
    have ih: "prepared n \<lparr>fb_seq = q, fb_shards = ibs, fb_count = c\<rparr> shs shs' \<and>
      (\<forall>runs'. r2 = Inr runs' \<longrightarrow> runs' = runs1 @ concat (map (\<lambda>(ib, sh, sh').
        map (\<lambda>(tag, _). \<lparr>wr_Key = is_code (the (sh_series sh' tag)), wr_Points = sorted_points_of (ib_id ib) (sh_series sh) tag\<rparr>) (ib_used ib))
      (zip ibs (zip shs shs'))))"
    proof (rule Cons.IH[where belongs = "\<lambda>i. belongs (Suc i)", OF _ _ ps])
      show "length ibs = length shs" using Cons.prems(1) shs by simp
      fix i assume "i < length shs"
      then show "series_map_ok n (belongs (Suc i)) (sh_series (shs ! i)) \<and> ib_id (ibs ! i) < n \<and> lists_used (sh_series (shs ! i)) (ibs ! i)"
        using Cons.prems(2)[of "Suc i"] shs by simp
    qed
    have "res = r2" "shards' = sh\<lparr>sh_series := m\<rparr> # shs'" using Cons.prems(3) shs pu Inr ps by auto
    then show ?thesis using step ih one Inr shs by auto
  qed
qed

lemma recycle_ok:
  assumes ok: "shards_ok n msk shards (f # gs)" and len: "length (fb_shards f) = length shards" and pr: "prepared n f shards shards1"
    and sh2: "shards2 = map2 recycle_shard (fb_shards f) shards1"
  shows "shards_ok n msk shards2 gs" "map sh_activeCount shards2 = map sh_activeCount shards" "length shards2 = length shards"
    "in_flight msk shards (f # gs) tag = batch_tag msk shards f tag @ in_flight msk shards2 gs tag"
    "g \<in> set gs \<Longrightarrow> batch_tag msk shards2 g tag = batch_tag msk shards g tag"
proof -
  have l1: "length shards1 = length shards" using pr by (simp add: prepared_def)
  have l2: "length shards2 = length shards" using l1 len by (simp add: sh2)
  have one: "shard_inv n (\<lambda>tag. routed msk tag = i) (outs i gs) (shards2 ! i) \<and> sh_active (shards2 ! i) = sh_active (shards ! i) \<and>
      sh_activeCount (shards2 ! i) = sh_activeCount (shards ! i) \<and>
      (\<forall>k<n. k \<noteq> ib_id (fb_shards f ! i) \<longrightarrow> tag_buffer (shards2 ! i) k = tag_buffer (shards ! i) k)" if i: "i < length shards" for i
  proof -
    let ?ib = "fb_shards f ! i"
    have outs: "outs i (f # gs) = [] @ ?ib # outs i gs" using i len by (simp add: outs_Cons)
    note inv = shards_okD[OF ok i]
    obtain m where m: "shards1 ! i = (shards ! i)\<lparr>sh_series := m\<rparr>" "same_but n (ib_id ?ib) (sh_series (shards ! i)) m"
      "used_view m (ib_id ?ib) = used_view (sh_series (shards ! i)) (ib_id ?ib)"
      using pr i unfolding prepared_def by blast
    have "shard_inv n (\<lambda>tag. routed msk tag = i) (outs i (f # gs)) (shards1 ! i)"
      unfolding m(1) by (rule shard_inv_same_but[OF inv _ m(2,3)]) (simp add: outs)
    note rec = recycle_shard_spec[OF this[unfolded outs]]
    have at: "shards2 ! i = recycle_shard ?ib (shards1 ! i)" using i len l1 by (simp add: sh2)
    have "tag_buffer (shards1 ! i) k = tag_buffer (shards ! i) k" if "k < n" "k \<noteq> ib_id ?ib" for k
      using same_but_points[of n "ib_id ?ib" "shards ! i" "shards1 ! i" k] that m by simp
    then show ?thesis using rec(1,3,4) rec(2) unfolding at by (simp add: m(1))
  qed
  show "shards_ok n msk shards2 gs" using ok one l2 by (simp add: shards_ok_def)
  show "map sh_activeCount shards2 = map sh_activeCount shards" using one l2 by (intro nth_equalityI) auto
  show "length shards2 = length shards" by (fact l2)
  let ?j = "routed msk tag"
  have j: "?j < length shards" by (rule shards_ok_routed[OF ok])
  have ids: "ib_id (fb_shards f ! ?j) \<notin> ib_id ` set (sh_active (shards ! ?j) # outs ?j gs)" "ib_id ` set (sh_active (shards ! ?j) # outs ?j gs) \<subseteq> {..<n}"
    using shards_okD[OF ok j] j len by (auto simp: shard_inv_def outs_Cons)
  have same: "tag_buffer (shards2 ! ?j) (ib_id x) = tag_buffer (shards ! ?j) (ib_id x)" if "x \<in> set (sh_active (shards ! ?j) # outs ?j gs)" for x
  proof -
    have x: "ib_id x \<in> ib_id ` set (sh_active (shards ! ?j) # outs ?j gs)" using that by (rule imageI)
    have "ib_id x < n" using x ids(2) by blast
    moreover have "ib_id x \<noteq> ib_id (fb_shards f ! ?j)" using x ids(1) by metis
    ultimately have "ib_id x < n" "ib_id x \<noteq> ib_id (fb_shards f ! ?j)" by simp_all
    then show ?thesis using one[OF j] by blast
  qed
  have batch: "batch_tag msk shards2 g tag = batch_tag msk shards g tag" if "g \<in> set gs" for g
    using same[of "fb_shards g ! ?j"] outs_member[OF that, of ?j] by (simp add: batch_tag_def)
  then show "g \<in> set gs \<Longrightarrow> batch_tag msk shards2 g tag = batch_tag msk shards g tag" .
  note batch
  moreover have "active_tag msk shards2 tag = active_tag msk shards tag"
    using same[of "sh_active (shards ! ?j)"] one[OF j] by (simp add: active_tag_def)
  ultimately have "in_flight msk shards2 gs tag = in_flight msk shards gs tag" by (simp add: in_flight_def cong: map_cong)
  then show "in_flight msk shards (f # gs) tag = batch_tag msk shards f tag @ in_flight msk shards2 gs tag"
    by (simp add: in_flight_def)
qed

text \<open>The pieces of a batch, tag by tag.\<close>

definition pieces_of :: "bytes \<Rightarrow> (bytes \<times> (int \<times> 'v) list) list \<Rightarrow> (int \<times> 'v) list" where
  "pieces_of tag ps = concat (map snd (filter (\<lambda>p. fst p = tag) ps))"

lemma pieces_of_append [simp]: "pieces_of tag (ps @ qs) = pieces_of tag ps @ pieces_of tag qs"
  by (simp add: pieces_of_def)

lemma pieces_of_Nil [simp]: "pieces_of tag [] = []"
  by (simp add: pieces_of_def)

definition shard_pieces :: "ingestBuffer \<Rightarrow> 'v ingestShard \<Rightarrow> (bytes \<times> (int \<times> 'v) list) list" where
  "shard_pieces ib sh = map (\<lambda>(tag, r). (tag, rt_points (deref r (the (sh_series sh tag))))) (ib_used ib)"

lemma filter_distinct_key:
  "distinct (map fst us) \<Longrightarrow> (tag, r) \<in> set us \<Longrightarrow> filter (\<lambda>p. fst p = tag) us = [(tag, r)]"
proof (induction us)
  case (Cons u us)
  have "filter (\<lambda>p. fst p = tag) us = []" if "fst u = tag" using Cons.prems(1) that by (auto simp: filter_empty_conv image_iff)
  moreover have "tag \<noteq> fst u \<or> u = (tag, r)" using Cons.prems by (cases u) (auto simp: image_iff)
  ultimately show ?case using Cons by (cases u) auto
qed simp

lemma shard_pieces_tag:
  assumes "lists_used (sh_series sh) ib"
  shows "pieces_of tag (shard_pieces ib sh) = tag_points sh (ib_id ib) tag"
proof -
  let ?g = "\<lambda>(tag, r). (tag, rt_points (deref r (the (sh_series sh tag))))"
  have f: "filter (\<lambda>p. fst p = tag) (map ?g us) = map ?g (filter (\<lambda>p. fst p = tag) us)" for us
    by (induction us) auto
  have d: "distinct (map fst (ib_used ib))" using assms by (simp add: lists_used_def)
  show ?thesis
  proof (cases "tag \<in> fst ` set (ib_used ib)")
    case True
    then obtain r where r: "(tag, r) \<in> set (ib_used ib)" by force
    then show ?thesis
      using listed_points(1)[OF assms r] by (simp add: pieces_of_def shard_pieces_def f filter_distinct_key[OF d r])
  next
    case False
    then have "filter (\<lambda>p. fst p = tag) (ib_used ib) = []" by (auto simp: filter_empty_conv)
    then show ?thesis using unlisted_empty[OF assms False] by (simp add: pieces_of_def shard_pieces_def f)
  qed
qed

lemma pieces_of_concat: "pieces_of tag (concat pss) = concat (map (pieces_of tag) pss)"
  by (induction pss) simp_all

lemma concat_single:
  assumes "i < length xss" "\<And>j. j < length xss \<Longrightarrow> j \<noteq> i \<Longrightarrow> xss ! j = []"
  shows "concat xss = xss ! i"
proof -
  have "xss = take i xss @ xss ! i # drop (Suc i) xss" by (rule id_take_nth_drop[OF assms(1)])
  moreover have "concat (take i xss) = []" using assms by (auto simp: in_set_conv_nth)
  moreover have "concat (drop (Suc i) xss) = []" using assms by (auto simp: in_set_conv_nth)
  ultimately show ?thesis by (metis append_Nil append_Nil2 concat.simps(2) concat_append)
qed

lemma batch_pieces_tag:
  assumes ok: "shards_ok n msk shards (f # gs)" and len: "length (fb_shards f) = length shards"
  shows "pieces_of tag (concat (map2 shard_pieces (fb_shards f) shards)) = batch_tag msk shards f tag"
proof -
  let ?j = "routed msk tag"
  let ?xss = "map (pieces_of tag) (map2 shard_pieces (fb_shards f) shards)"
  have j: "?j < length shards" by (rule shards_ok_routed[OF ok])
  have lu: "lists_used (sh_series (shards ! i)) (fb_shards f ! i)" if "i < length shards" for i
    using shard_inv_idle(3)[OF shards_okD[OF ok that], of "fb_shards f ! i"] that len by (simp add: outs_Cons)
  have at: "?xss ! i = tag_points (shards ! i) (ib_id (fb_shards f ! i)) tag" if "i < length shards" for i
    using that len shard_pieces_tag[OF lu[OF that]] by simp
  have lx: "length ?xss = length shards" using len by simp
  have nil: "?xss ! i = []" if "i < length shards" "i \<noteq> ?j" for i
  proof -
    have "sh_series (shards ! i) tag = None"
      using shard_invD(5)[OF shards_okD[OF ok that(1)]] that(2) by (cases "sh_series (shards ! i) tag") (auto simp: series_map_ok_def)
    then have "tag_points (shards ! i) (ib_id (fb_shards f ! i)) tag = []" by (simp add: tag_buffer_def)
    then show ?thesis unfolding at[OF that(1)] .
  qed
  have one: "concat ?xss = ?xss ! ?j" by (rule concat_single; unfold lx) (rule j, rule nil)
  have "pieces_of tag (concat (map2 shard_pieces (fb_shards f) shards)) = concat ?xss" by (rule pieces_of_concat)
  also note one
  also note at[OF j]
  finally show ?thesis using j len by (simp add: batch_tag_def)
qed

end
