(* ===== verification/Write_Batcher_Steps.thy ===== *)
theory Write_Batcher_Steps
  imports Write_Batcher_Inv
begin

text \<open>
  The invariant of the write buffer under every step, and how a step moves the points of a tag along: from the active generation through the batches on
  their way to the log.
\<close>

section \<open>The invariant\<close>

abbreviation opt_list :: "'a option \<Rightarrow> 'a list" where
  "opt_list x \<equiv> (case x of None \<Rightarrow> [] | Some y \<Rightarrow> [y])"

text \<open>The batches between the active generations and the log, oldest first.\<close>

definition flight :: "('v, 'x) tableBatcher \<Rightarrow> frozenWriteBatch list" where
  "flight b = opt_list (wb_working b) @ wb_queue b @ opt_list (wb_sending b) @ opt_list (wb_freezing b)"

definition pending :: "('v, 'x) tableBatcher \<Rightarrow> bytes \<Rightarrow> (int \<times> 'v) list" where
  "pending b tag = in_flight (wb_shardMask b) (wb_shards b) (flight b) tag"

definition freezing_ok :: "('v, 'x) tableBatcher \<Rightarrow> bool" where
  "freezing_ok b = (\<forall>f. wb_freezing b = Some f \<longrightarrow> wb_sending b = None \<and> length (fb_shards f) \<le> length (wb_shards b) \<and> fb_count f \<ge> 0 \<and>
     fb_count f + sum_list (map sh_activeCount (drop (length (fb_shards f)) (wb_shards b))) > 0)"

definition published :: "('v, 'x) tableBatcher \<Rightarrow> nat" where
  "published b = length (wb_done b) + length (opt_list (wb_working b)) + length (wb_queue b)"

definition wb_inv :: "('v, 'x) tableBatcher \<Rightarrow> bool" where
  "wb_inv b =
     (shards_ok (wb_buffersPerShard b) (wb_shardMask b) (wb_shards b) (flight b) \<and>
      (\<forall>f \<in> set (opt_list (wb_working b) @ wb_queue b @ opt_list (wb_sending b)). length (fb_shards f) = length (wb_shards b)) \<and> freezing_ok b \<and>
      wb_queueSize b + 3 = wb_buffersPerShard b \<and> length (wb_queue b) \<le> wb_queueSize b \<and>
      wb_activePoints b = counted (wb_shards b) + (case wb_freezing b of None \<Rightarrow> 0 | Some f \<Rightarrow> fb_count f) \<and>
      map fst (wb_done b) @ map fb_seq (flight b) = [0..<wb_next b] \<and>
      wb_last b = (if published b = 0 then None else Some (published b - 1)))"

lemma wb_invD:
  assumes "wb_inv b"
  shows "shards_ok (wb_buffersPerShard b) (wb_shardMask b) (wb_shards b) (flight b)" "freezing_ok b"
    "wb_activePoints b = counted (wb_shards b) + (case wb_freezing b of None \<Rightarrow> 0 | Some f \<Rightarrow> fb_count f)"
    "map fst (wb_done b) @ map fb_seq (flight b) = [0..<wb_next b]"
  using assms unfolding wb_inv_def by blast+

text \<open>What a label says of a tag.\<close>

definition accepted1 :: "bytes \<Rightarrow> 'v label \<Rightarrow> (int \<times> 'v) list" where
  "accepted1 tag l = (case l of Accepted q tms v \<Rightarrow> if q = tag then [(tms, v)] else [] | _ \<Rightarrow> [])"

definition finished1 :: "bytes \<Rightarrow> 'v label \<Rightarrow> (int \<times> 'v) list" where
  "finished1 tag l = (case l of Finished ps ok \<Rightarrow> pieces_of tag ps | _ \<Rightarrow> [])"

definition moves :: "('v, 'x) tableBatcher \<Rightarrow> 'v label \<Rightarrow> ('v, 'x) tableBatcher \<Rightarrow> bool" where
  "moves b l b' = (wb_inv b' \<and> (\<forall>tag. pending b tag @ accepted1 tag l = finished1 tag l @ pending b' tag))"

lemma quiet_labels [simp]:
  "accepted1 tag Quiet = []" "finished1 tag Quiet = []" "finished1 tag (Accepted q tms v) = []" "accepted1 tag (Finished ps ok) = []"
  "finished1 tag (Finished ps ok) = pieces_of tag ps" "accepted1 tag (Accepted q tms v) = (if q = tag then [(tms, v)] else [])"
  by (simp_all add: accepted1_def finished1_def)

lemma moves_quiet:
  assumes "wb_inv b'" "wb_shardMask b' = wb_shardMask b" "wb_shards b' = wb_shards b" "flight b' = flight b"
  shows "moves b Quiet b'"
  using assms by (simp add: moves_def pending_def)

lemma moves_append:
  assumes inv: "wb_inv b"
  shows "moves b (Accepted tag tms v) (appendPoint retains tag tms v b)"
proof -
  let ?i = "routed (wb_shardMask b) tag"
  have i: "shard_of tag b = ?i" by (simp add: shard_of_def routed_def)
  let ?b = "appendPoint retains tag tms v b"
  let ?sh = "shard_append retains (cache_slot tag b) (wb_buffersPerShard b) tag tms v (wb_shards b ! ?i)"
  have sh: "wb_shards ?b = (wb_shards b)[?i := ?sh]" by (simp add: appendPoint_def i Let_def)
  note ok = append_ok[OF wb_invD(1)[OF inv] sh]
  have keep: "flight ?b = flight b" "wb_shardMask ?b = wb_shardMask b" "published ?b = published b" "length (wb_shards ?b) = length (wb_shards b)"
    by (simp_all add: appendPoint_def flight_def published_def Let_def)
  have bound: "?i < length (wb_shards b)" by (rule shards_ok_routed[OF wb_invD(1)[OF inv]])
  note spec = shard_append_spec(3)[OF shards_okD[OF wb_invD(1)[OF inv] bound] _ refl refl, where tag = tag and retains = retains and slot = "cache_slot tag b"
      and tms = tms and v = v, simplified]
  have "sum_list (map sh_activeCount (drop k (wb_shards ?b))) \<ge> sum_list (map sh_activeCount (drop k (wb_shards b)))" for k
  proof (cases "?i < k")
    case True
    then show ?thesis by (simp add: sh)
  next
    case False
    then have "?i - k < length (drop k (wb_shards b))" using bound by simp
    then show ?thesis using False bound spec by (simp add: sh drop_update_swap map_update sum_list_upd)
  qed
  note mono = this
  have fr: "freezing_ok ?b"
    unfolding freezing_ok_def
  proof (intro allI impI)
    fix f assume f: "wb_freezing ?b = Some f"
    then have f0: "wb_freezing b = Some f" by (simp add: appendPoint_def Let_def)
    have old: "wb_sending b = None \<and> length (fb_shards f) \<le> length (wb_shards b) \<and> fb_count f \<ge> 0 \<and>
        fb_count f + sum_list (map sh_activeCount (drop (length (fb_shards f)) (wb_shards b))) > 0"
      using wb_invD(2)[OF inv] f0 by (simp add: freezing_ok_def)
    then show "wb_sending ?b = None \<and> length (fb_shards f) \<le> length (wb_shards ?b) \<and> fb_count f \<ge> 0 \<and>
        fb_count f + sum_list (map sh_activeCount (drop (length (fb_shards f)) (wb_shards ?b))) > 0"
      using mono[of "length (fb_shards f)"] keep(4) by (simp add: appendPoint_def Let_def)
  qed
  have "wb_inv ?b"
    using inv ok(1,2) keep fr unfolding wb_inv_def by (simp add: appendPoint_def Let_def i split: option.splits)
  then show ?thesis using ok(3) keep by (auto simp: moves_def pending_def)
qed

lemma moves_begin:
  assumes inv: "wb_inv b" and free: "freezeMu_free b" and act: "wb_activePoints b \<noteq> 0"
  shows "moves b Quiet (freeze_begin b)"
proof -
  let ?f = "\<lparr>fb_seq = wb_next b, fb_shards = [], fb_count = 0\<rparr>"
  let ?b = "freeze_begin b"
  have none: "wb_freezing b = None" "wb_sending b = None" using free by (simp_all add: freezeMu_free_def)
  have fl: "flight ?b = flight b @ [?f]" using none by (simp add: flight_def freeze_begin_def)
  have same: "wb_shards ?b = wb_shards b" "wb_shardMask ?b = wb_shardMask b" "wb_buffersPerShard ?b = wb_buffersPerShard b"
    by (simp_all add: freeze_begin_def)
  have ok: "shards_ok (wb_buffersPerShard b) (wb_shardMask b) (wb_shards b) (flight b @ [?f])"
    using wb_invD(1)[OF inv] by (simp add: shards_ok_def)
  have "counted (wb_shards b) > 0"
    using wb_invD(3)[OF inv] act none counted_nonneg[OF wb_invD(1)[OF inv]] by simp
  then have fr: "freezing_ok ?b" using none by (simp add: freezing_ok_def freeze_begin_def counted_def)
  have "wb_inv ?b"
    using inv fr ok none unfolding wb_inv_def fl same by (simp add: freeze_begin_def published_def)
  moreover have "in_flight (wb_shardMask b) (wb_shards b) (flight b @ [?f]) tag = in_flight (wb_shardMask b) (wb_shards b) (flight b) tag" for tag
    by (simp add: in_flight_def batch_tag_def)
  ultimately show ?thesis by (simp add: moves_def pending_def fl same)
qed

lemma moves_swap:
  assumes inv: "wb_inv b" and f: "wb_freezing b = Some f" "length (fb_shards f) < length (wb_shards b)" and fz: "freeze_shard f b = Some b'"
  shows "moves b Quiet b'"
proof -
  let ?i = "length (fb_shards f)"
  have send: "wb_sending b = None" using wb_invD(2)[OF inv] f by (simp add: freezing_ok_def)
  obtain gs where gs: "flight b = gs @ [f]" "gs = opt_list (wb_working b) @ wb_queue b" using f send by (simp add: flight_def)
  obtain ib cnt sh where sw: "swap_shard (wb_shards b ! ?i) = Some (ib, cnt, sh)"
    and b': "b' = b\<lparr>wb_shards := (wb_shards b)[?i := sh], wb_freezing := Some (f\<lparr>fb_shards := fb_shards f @ [ib], fb_count := fb_count f + cnt\<rparr>)\<rparr>"
    using fz by (auto simp: freeze_shard_def Let_def)
  let ?f = "f\<lparr>fb_shards := fb_shards f @ [ib], fb_count := fb_count f + cnt\<rparr>"
  have fl: "flight b' = gs @ [?f]" using send gs(2) by (simp add: flight_def b')
  note ok = swap_ok[where c = "fb_count f + cnt", OF wb_invD(1)[OF inv, unfolded gs(1)] refl f(2) sw refl]
  have same: "wb_shardMask b' = wb_shardMask b" "wb_buffersPerShard b' = wb_buffersPerShard b" "wb_shards b' = (wb_shards b)[?i := sh]"
    by (simp_all add: b')
  have count: "counted (wb_shards b') = counted (wb_shards b) - cnt"
    using ok(2,3) f(2) by (simp add: same counted_def map_update sum_list_upd)
  have "drop ?i (wb_shards b) = wb_shards b ! ?i # drop (Suc ?i) (wb_shards b)" by (rule Cons_nth_drop_Suc[symmetric, OF f(2)])
  then have rest: "sum_list (map sh_activeCount (drop ?i (wb_shards b))) = cnt + sum_list (map sh_activeCount (drop (Suc ?i) (wb_shards b)))"
    using ok(2) by simp
  have "cnt \<ge> 0" using ok(2) shards_okD[OF wb_invD(1)[OF inv] f(2)] by (simp add: shard_inv_def)
  then have fr: "freezing_ok b'"
    using wb_invD(2)[OF inv] f rest by (simp add: freezing_ok_def b')
  have "wb_inv b'"
    using inv ok(1) fr count f send unfolding wb_inv_def fl gs(1) same(1,2) by (simp add: b' published_def)
  then show ?thesis
    using ok(4) by (simp add: moves_def pending_def fl gs(1) same)
qed

lemma frozen_count: "wb_inv b \<Longrightarrow> wb_freezing b = Some f \<Longrightarrow> length (fb_shards f) = length (wb_shards b) \<Longrightarrow> fb_count f > 0"
  using wb_invD(2)[of b] by (simp add: freezing_ok_def)

lemma moves_end:
  assumes inv: "wb_inv b" and f: "wb_freezing b = Some f" "length (fb_shards f) = length (wb_shards b)"
  shows "moves b Quiet (freeze_end f b)"
proof -
  let ?b = "b\<lparr>wb_freezing := None, wb_activePoints := wb_activePoints b - fb_count f, wb_sending := Some f\<rparr>"
  have eq: "freeze_end f b = ?b" using frozen_count[OF inv f] by (simp add: freeze_end_def)
  have send: "wb_sending b = None" using wb_invD(2)[OF inv] f by (simp add: freezing_ok_def)
  have fl: "flight ?b = flight b" using f send by (simp add: flight_def)
  have "wb_inv ?b"
    using inv f send unfolding wb_inv_def fl by (simp add: freezing_ok_def published_def)
  then show ?thesis unfolding eq by (rule moves_quiet) (simp_all add: fl)
qed

lemma moves_send:
  assumes inv: "wb_inv b" and f: "wb_sending b = Some f" "length (wb_queue b) < wb_queueSize b"
  shows "moves b Quiet (b\<lparr>wb_sending := None, wb_queue := wb_queue b @ [f], wb_last := Some (fb_seq f)\<rparr>)"
proof -
  let ?b = "b\<lparr>wb_sending := None, wb_queue := wb_queue b @ [f], wb_last := Some (fb_seq f)\<rparr>"
  have "wb_freezing b = None" using wb_invD(2)[OF inv] f by (auto simp: freezing_ok_def)
  note fz = this
  have fl: "flight ?b = flight b" using f fz by (simp add: flight_def)
  let ?ns = "map fst (wb_done b) @ map fb_seq (opt_list (wb_working b) @ wb_queue b)"
  have "?ns @ [fb_seq f] = [0..<wb_next b]" using wb_invD(4)[OF inv] f fz by (simp add: flight_def)
  note all = this
  have "fb_seq f = (?ns @ [fb_seq f]) ! length ?ns" by (rule nth_append_length[symmetric])
  also have "\<dots> = [0..<wb_next b] ! length ?ns" by (simp only: all)
  also have "\<dots> = length ?ns"
  proof -
    have "length (?ns @ [fb_seq f]) = wb_next b" by (simp only: all length_upt)
    then show ?thesis by simp
  qed
  finally have seq: "fb_seq f = published b" by (simp add: published_def)
  have "wb_inv ?b"
    using inv f fz seq unfolding wb_inv_def fl by (simp add: freezing_ok_def published_def)
  then show ?thesis by (rule moves_quiet) (simp_all add: fl)
qed

lemma moves_take:
  assumes inv: "wb_inv b" and f: "wb_working b = None" "wb_queue b = f # fs"
  shows "moves b Quiet (b\<lparr>wb_working := Some f, wb_queue := fs\<rparr>)"
proof -
  let ?b = "b\<lparr>wb_working := Some f, wb_queue := fs\<rparr>"
  have fl: "flight ?b = flight b" using f by (simp add: flight_def)
  have "wb_inv ?b"
    using inv f unfolding wb_inv_def fl by (simp add: freezing_ok_def published_def)
  then show ?thesis by (rule moves_quiet) (simp_all add: fl)
qed

section \<open>The worker\<close>

lemma batch_points_pieces: "batch_points f b = concat (map2 shard_pieces (fb_shards f) (wb_shards b))"
  by (simp add: batch_points_def shard_pieces_def[abs_def])

text \<open>The runs of a prepared batch: the pieces of the batch, each sorted by time, under the code of its tag.\<close>

definition runs_of :: "frozenWriteBatch \<Rightarrow> ('v, 'x) tableBatcher \<Rightarrow> ('v, 'x) tableBatcher \<Rightarrow> 'v walDataRun list" where
  "runs_of f b b' =
     map (\<lambda>(tag, ps). \<lparr>wr_Key = is_code (the (sh_series (wb_shards b' ! shard_of tag b) tag)), wr_Points = sort_key fst ps\<rparr>) (batch_points f b)"

lemma working_facts:
  assumes inv: "wb_inv b" and f: "f \<in> set (flight b)" "length (fb_shards f) = length (wb_shards b)" and i: "i < length (wb_shards b)"
  shows "series_map_ok (wb_buffersPerShard b) (\<lambda>tag. routed (wb_shardMask b) tag = i) (sh_series (wb_shards b ! i))"
    "ib_id (fb_shards f ! i) < wb_buffersPerShard b" "lists_used (sh_series (wb_shards b ! i)) (fb_shards f ! i)"
proof -
  note ok = shards_okD[OF wb_invD(1)[OF inv] i]
  have "fb_shards f ! i \<in> set (outs i (flight b))" using f i by (intro outs_member) auto
  then show "ib_id (fb_shards f ! i) < wb_buffersPerShard b" "lists_used (sh_series (wb_shards b ! i)) (fb_shards f ! i)"
    using shard_inv_idle(1,3)[OF ok, of "fb_shards f ! i"] by auto
  show "series_map_ok (wb_buffersPerShard b) (\<lambda>tag. routed (wb_shardMask b) tag = i) (sh_series (wb_shards b ! i))"
    by (rule shard_invD(5)[OF ok])
qed

lemma prepare_spec:
  assumes inv: "wb_inv b" and f: "f \<in> set (flight b)" "length (fb_shards f) = length (wb_shards b)"
    and pr: "prepareRawWriteBatch T f b t = (res, b', t')"
  shows "prepared (wb_buffersPerShard b) f (wb_shards b) (wb_shards b')" "b' = b\<lparr>wb_shards := wb_shards b'\<rparr>"
    "res = Inr runs \<Longrightarrow> runs = runs_of f b b'"
proof -
  obtain shs where ps: "prepare_shards T (fb_shards f) (wb_shards b) t [] = (res, shs, t')" and b': "b' = b\<lparr>wb_shards := shs\<rparr>"
    using pr by (cases "prepare_shards T (fb_shards f) (wb_shards b) t []") (auto simp: prepareRawWriteBatch_def)
  note facts = working_facts[OF inv f]
  have fe: "\<lparr>fb_seq = fb_seq f, fb_shards = fb_shards f, fb_count = fb_count f\<rparr> = f" by simp
  have spec': "prepared (wb_buffersPerShard b) f (wb_shards b) shs \<and>
    (\<forall>runs'. res = Inr runs' \<longrightarrow> runs' = [] @ concat (map (\<lambda>(ib, sh, sh').
        map (\<lambda>(tag, _). \<lparr>wr_Key = is_code (the (sh_series sh' tag)), wr_Points = sorted_points_of (ib_id ib) (sh_series sh) tag\<rparr>) (ib_used ib))
      (zip (fb_shards f) (zip (wb_shards b) shs))))"
    using prepare_shards_prepared[where n = "wb_buffersPerShard b" and belongs = "\<lambda>i tag. routed (wb_shardMask b) tag = i", OF f(2) _ ps,
        where q = "fb_seq f" and c = "fb_count f"] facts by (simp add: fe)
  show "prepared (wb_buffersPerShard b) f (wb_shards b) (wb_shards b')" using spec' by (simp add: b')
  show "b' = b\<lparr>wb_shards := wb_shards b'\<rparr>" by (simp add: b')
  assume "res = Inr runs"
  then have runs: "runs = concat (map (\<lambda>(ib, sh, sh').
        map (\<lambda>(tag, _). \<lparr>wr_Key = is_code (the (sh_series sh' tag)), wr_Points = sorted_points_of (ib_id ib) (sh_series sh) tag\<rparr>) (ib_used ib))
      (zip (fb_shards f) (zip (wb_shards b) shs)))" using spec' by simp
  have len: "length shs = length (wb_shards b)" using spec' by (simp add: prepared_def)
  let ?run = "\<lambda>(tag, ps). \<lparr>wr_Key = is_code (the (sh_series (shs ! shard_of tag b) tag)), wr_Points = sort_key fst ps\<rparr>"
  have "map (\<lambda>(tag, _). \<lparr>wr_Key = is_code (the (sh_series (shs ! i) tag)), wr_Points = sorted_points_of (ib_id (fb_shards f ! i)) (sh_series (wb_shards b ! i)) tag\<rparr>)
      (ib_used (fb_shards f ! i)) = map ?run (shard_pieces (fb_shards f ! i) (wb_shards b ! i))" if i: "i < length (wb_shards b)" for i
  proof -
    have "is_code (the (sh_series (shs ! i) tag)) = is_code (the (sh_series (shs ! shard_of tag b) tag)) \<and>
        sorted_points_of (ib_id (fb_shards f ! i)) (sh_series (wb_shards b ! i)) tag = sort_key fst (rt_points (deref r (the (sh_series (wb_shards b ! i) tag))))"
      if tr: "(tag, r) \<in> set (ib_used (fb_shards f ! i))" for tag r
    proof -
      obtain s where s: "sh_series (wb_shards b ! i) tag = Some s" "buffer_of (ib_id (fb_shards f ! i)) s = deref r s"
        by (rule lists_used_at[OF facts(3)[OF i] tr])
      then have "shard_of tag b = i" using facts(1)[OF i] by (auto simp: series_map_ok_def routed_def shard_of_def)
      then show ?thesis using s by (simp add: sorted_points_of_def)
    qed
    then show ?thesis by (auto simp: shard_pieces_def)
  qed
  then have "map (\<lambda>(ib, sh, sh').
        map (\<lambda>(tag, _). \<lparr>wr_Key = is_code (the (sh_series sh' tag)), wr_Points = sorted_points_of (ib_id ib) (sh_series sh) tag\<rparr>) (ib_used ib))
      (zip (fb_shards f) (zip (wb_shards b) shs)) = map (map ?run) (map2 shard_pieces (fb_shards f) (wb_shards b))"
    using f(2) len by (intro nth_equalityI) simp_all
  then show "runs = runs_of f b b'" by (simp add: runs runs_of_def batch_points_pieces map_concat b')
qed

lemma work_state:
  assumes "work E f b t = (err, b', t')" "prepareRawWriteBatch (en_table E) f b t = (res, b1, t1)"
  shows "b' = (recycleBatch f (setError err b1))\<lparr>wb_working := None, wb_done := wb_done b1 @ [(fb_seq f, err)]\<rparr>"
    "(err, t') = (case res of Inl e \<Rightarrow> (Some e, t1) | Inr runs \<Rightarrow> en_commit E runs t1)"
proof -
  obtain e t2 where c: "(case res of Inl e \<Rightarrow> (Some e, t1) | Inr runs \<Rightarrow> en_commit E runs t1) = (e, t2)" by (rule prod.exhaust)
  have d: "wb_done (recycleBatch f (setError e b1)) = wb_done b1" by (simp add: recycleBatch_def setError_def)
  have "work E f b t = (e, (recycleBatch f (setError e b1))\<lparr>wb_working := None, wb_done := wb_done b1 @ [(fb_seq f, e)]\<rparr>, t2)"
    unfolding work_def assms(2) by (simp add: c d Let_def)
  then show "b' = (recycleBatch f (setError err b1))\<lparr>wb_working := None, wb_done := wb_done b1 @ [(fb_seq f, err)]\<rparr>"
    "(err, t') = (case res of Inl e \<Rightarrow> (Some e, t1) | Inr runs \<Rightarrow> en_commit E runs t1)" using assms(1) c by simp_all
qed

lemma work_fields:
  assumes inv: "wb_inv b" and f: "wb_working b = Some f" and wk: "work E f b t = (err, b', t')"
  shows "\<exists>shs. prepared (wb_buffersPerShard b) f (wb_shards b) shs \<and> wb_shards b' = map2 recycle_shard (fb_shards f) shs"
    "wb_shardMask b' = wb_shardMask b" "wb_buffersPerShard b' = wb_buffersPerShard b" "wb_queueSize b' = wb_queueSize b" "wb_queue b' = wb_queue b"
    "wb_sending b' = wb_sending b" "wb_freezing b' = wb_freezing b" "wb_working b' = None" "wb_done b' = wb_done b @ [(fb_seq f, err)]"
    "wb_next b' = wb_next b" "wb_last b' = wb_last b" "wb_activePoints b' = wb_activePoints b" "wb_closer b' = wb_closer b" "wb_panicked b' = wb_panicked b"
proof -
  have fl: "f \<in> set (flight b)" using f by (simp add: flight_def)
  have len: "length (fb_shards f) = length (wb_shards b)" using inv f by (simp add: wb_inv_def)
  obtain res b1 t1 where pr: "prepareRawWriteBatch (en_table E) f b t = (res, b1, t1)" by (rule prod_cases3)
  note ps = prepare_spec[OF inv fl len pr]
  define S where "S = wb_shards b1"
  have b1: "b1 = b\<lparr>wb_shards := S\<rparr>" using ps(2) by (simp add: S_def)
  show "wb_shardMask b' = wb_shardMask b" "wb_buffersPerShard b' = wb_buffersPerShard b" "wb_queueSize b' = wb_queueSize b" "wb_queue b' = wb_queue b"
    "wb_sending b' = wb_sending b" "wb_freezing b' = wb_freezing b" "wb_working b' = None" "wb_done b' = wb_done b @ [(fb_seq f, err)]"
    "wb_next b' = wb_next b" "wb_last b' = wb_last b" "wb_activePoints b' = wb_activePoints b" "wb_closer b' = wb_closer b" "wb_panicked b' = wb_panicked b"
    unfolding work_state(1)[OF wk pr] by (simp_all add: recycleBatch_def setError_def b1)
  have "wb_shards b' = map2 recycle_shard (fb_shards f) S"
    unfolding work_state(1)[OF wk pr] by (simp add: recycleBatch_def setError_def b1)
  then show "\<exists>shs. prepared (wb_buffersPerShard b) f (wb_shards b) shs \<and> wb_shards b' = map2 recycle_shard (fb_shards f) shs"
    using ps(1) by (auto simp: S_def)
qed

lemma moves_finish:
  assumes inv: "wb_inv b" and f: "wb_working b = Some f" and wk: "work E f b t = (err, b', t')"
  shows "moves b (Finished (batch_points f b) (err = None)) b'"
proof -
  obtain gs where gs: "flight b = f # gs" "gs = wb_queue b @ opt_list (wb_sending b) @ opt_list (wb_freezing b)" using f by (simp add: flight_def)
  have len: "length (fb_shards f) = length (wb_shards b)" using inv f by (simp add: wb_inv_def)
  note rest = work_fields(2-)[OF inv f wk]
  obtain S where S: "prepared (wb_buffersPerShard b) f (wb_shards b) S" and shs: "wb_shards b' = map2 recycle_shard (fb_shards f) S"
    using work_fields(1)[OF inv f wk] by blast
  let ?shs = "map2 recycle_shard (fb_shards f) S"
  have fl: "flight b' = gs" by (simp add: flight_def rest gs(2))
  note ok = recycle_ok[OF wb_invD(1)[OF inv, unfolded gs(1)] len S refl]
  have "map sh_activeCount (drop k ?shs) = map sh_activeCount (drop k (wb_shards b))" for k
    using ok(2) by (metis drop_map)
  then have fr: "freezing_ok b'"
    using wb_invD(2)[OF inv] ok(3) by (simp add: freezing_ok_def rest shs)
  have cnt: "counted ?shs = counted (wb_shards b)" using ok(2) by (simp add: counted_def)
  have "wb_inv b'"
    using inv ok(1,3) cnt fr f unfolding wb_inv_def fl gs(1) shs by (auto simp: rest published_def shs)
  then show ?thesis
    using ok(4) batch_pieces_tag[OF wb_invD(1)[OF inv, unfolded gs(1)] len]
    by (simp add: moves_def pending_def fl gs(1) batch_points_pieces rest shs)
qed

section \<open>Steps and runs\<close>

lemma step_moves: "wb_step E s l s' \<Longrightarrow> wb_inv (fst s) \<Longrightarrow> moves (fst s) l (fst s')"
proof (induction rule: wb_step.induct)
  case (check b t)
  then show ?case by (auto intro!: moves_quiet simp: wb_inv_def flight_def freezing_ok_def published_def)
next
  case (leave b t active)
  then show ?case by (auto intro!: moves_quiet simp: wb_inv_def flight_def freezing_ok_def published_def maybeSignal_def)
next
  case (signalled b t)
  then show ?case by (auto intro!: moves_quiet simp: wb_inv_def flight_def freezing_ok_def published_def)
next
  case (send_closed b f t)
  then show ?case by (auto intro!: moves_quiet simp: wb_inv_def flight_def freezing_ok_def published_def)
next
  case (close b t)
  then show ?case by (auto intro!: moves_quiet simp: wb_inv_def flight_def freezing_ok_def published_def)
next
  case (close_idle b t)
  then show ?case by (auto intro!: moves_quiet simp: wb_inv_def flight_def freezing_ok_def published_def)
next
  case (close_queue b target t)
  then show ?case by (auto intro!: moves_quiet simp: wb_inv_def flight_def freezing_ok_def published_def)
next
  case (close_freeze b t)
  let ?b = "freeze_begin b" and ?c = "(freeze_begin b)\<lparr>wb_closer := Awaits (Some (wb_next b))\<rparr>"
  have "moves b Quiet ?b" using close_freeze by (intro moves_begin) auto
  moreover have "wb_inv ?c = wb_inv ?b" "pending ?c tag = pending ?b tag" for tag
    by (simp_all add: wb_inv_def pending_def flight_def freezing_ok_def published_def)
  ultimately show ?case by (simp add: moves_def)
qed (auto intro: moves_append moves_begin moves_swap moves_end moves_send moves_take moves_finish)

definition accepted :: "bytes \<Rightarrow> 'v label list \<Rightarrow> (int \<times> 'v) list" where
  "accepted tag ls = concat (map (accepted1 tag) ls)"

definition finished :: "bytes \<Rightarrow> 'v label list \<Rightarrow> (int \<times> 'v) list" where
  "finished tag ls = concat (map (finished1 tag) ls)"

lemma run_labels [simp]:
  "accepted tag [] = []" "finished tag [] = []" "accepted tag (ls @ ls') = accepted tag ls @ accepted tag ls'"
  "finished tag (ls @ ls') = finished tag ls @ finished tag ls'" "accepted tag [l] = accepted1 tag l" "finished tag [l] = finished1 tag l"
  by (simp_all add: accepted_def finished_def)

lemma run_moves: "wb_run E s ls s' \<Longrightarrow> wb_inv (fst s) \<Longrightarrow>
    wb_inv (fst s') \<and> (\<forall>tag. pending (fst s) tag @ accepted tag ls = finished tag ls @ pending (fst s') tag)"
proof (induction rule: wb_run.induct)
  case (step s ls s' l s'')
  then have "moves (fst s') l (fst s'')" by (blast intro: step_moves)
  then show ?case using step by (auto simp: moves_def) (metis append.assoc)
qed simp

lemma run_trans: "wb_run E s2 ls2 s3 \<Longrightarrow> wb_run E s1 ls1 s2 \<Longrightarrow> wb_run E s1 (ls1 @ ls2) s3"
proof (induction rule: wb_run.induct)
  case (step s ls s' l s'')
  then have "wb_run E s1 (ls1 @ ls) s'" by blast
  then show ?case using step.hyps(2) wb_run.step by fastforce
qed simp

lemma run_one: "wb_step E s l s' \<Longrightarrow> wb_run E s [l] s'"
  using wb_run.step[OF wb_run.start] by fastforce

section \<open>The beginning\<close>

lemma npt_loop_ge: "npt_loop f n p = Some q \<Longrightarrow> n \<le> q"
  by (induction f arbitrary: p) (auto split: if_splits)

lemma nextPowerOfTwo_pos: "nextPowerOfTwo f n = Some q \<Longrightarrow> 1 \<le> q"
  by (auto simp: nextPowerOfTwo_def defaultTagCacheSlots_def not_le split: if_splits dest: npt_loop_ge)

lemma new_shard_inv: "0 < n \<Longrightarrow> shard_inv n P [] (new_shard c n)"
proof -
  assume n: "0 < n"
  have "map ib_id (newIngestBuffer 0 # map newIngestBuffer [1..<n]) = [0..<n]"
    using n by (simp add: newIngestBuffer_def upt_conv_Cons comp_def)
  note ids = this
  let ?sh = "new_shard c n" and ?ibs = "newIngestBuffer 0 # map newIngestBuffer [1..<n]"
  have all: "sh_active ?sh # sh_free ?sh @ [] = ?ibs" and parts: "sh_series ?sh = Map.empty" "sh_activeCount ?sh = 0" "sh_free ?sh = map newIngestBuffer [1..<n]"
    by (simp_all add: new_shard_def)
  have empty: "ib_used ib = []" if "ib \<in> set ?ibs" for ib using that by (auto simp: newIngestBuffer_def)
  show ?thesis
    unfolding shard_inv_def all parts(1,2)
  proof (intro conjI ballI)
    show "distinct (map ib_id ?ibs)" unfolding ids by simp
    show "ib_id ` set ?ibs = {..<n}" unfolding list.set_map[symmetric] ids by (simp add: atLeast0LessThan)
    show "series_map_ok n P Map.empty" by (simp add: series_map_ok_def)
    show "0 = int (points_in ?sh (sh_active ?sh))" by (simp add: points_in_def new_shard_def newIngestBuffer_def)
  next
    fix ib assume "ib \<in> set ?ibs"
    then show "lists_used Map.empty ib" by (simp add: empty lists_used_def used_view_def fun_eq_iff del: set_map list.set)
  next
    fix ib assume "ib \<in> set (sh_free ?sh)"
    then show "ib_used ib = []" unfolding parts(3) by (intro empty list.set_intros(2))
  qed
qed

lemma new_shard_count [simp]: "sh_activeCount (new_shard c n) = 0"
  by (simp add: new_shard_def)

lemma new_batcher_inv:
  assumes "newTableBatcher fuel slots config = Some b"
  shows "wb_inv b" "pending b tag = []" "wb_panicked b = False" "wb_closer b = Not_Called" "0 < wb_queueSize b"
proof -
  obtain c cs where c: "ingest_setDefaultValues fuel config = Some c" "directTagCacheSlots fuel slots (ic_Shards c) = Some cs"
    using assms by (auto simp: newTableBatcher_def bind_eq_Some_conv)
  have n: "1 \<le> ic_Shards c" "1 \<le> ic_QueueSize c" using c(1) by (auto simp: ingest_setDefaultValues_def dest: nextPowerOfTwo_pos)
  have m: "unat (of_int (ic_Shards c - 1) :: u64) < nat (ic_Shards c)"
  proof -
    have "int (unat (of_int x :: u64)) = x mod 2 ^ 64" for x by (simp add: unsigned_of_int take_bit_eq_mod)
    then have "int (unat (of_int (ic_Shards c - 1) :: u64)) = (ic_Shards c - 1) mod 2 ^ 64" .
    also have "\<dots> \<le> ic_Shards c - 1" using n by (intro zmod_le_nonneg_dividend) simp
    finally show ?thesis by linarith
  qed
  let ?bp = "nat (ic_QueueSize c) + 3"
  have b: "b = \<lparr>wb_shards = replicate (nat (ic_Shards c)) (new_shard (nat cs) ?bp), wb_shardMask = of_int (ic_Shards c - 1),
                wb_shardShift = trailing_zeros (nat (ic_Shards c)), wb_tagCacheMask = of_int (cs - 1), wb_buffersPerShard = ?bp,
                wb_maxBatchSize = ic_MaxBatchSize c, wb_maxActive = overloadPointLimit (ic_MaxBatchSize c), wb_activePoints = 0,
                wb_closed = False, wb_err = None, wb_queueSize = nat (ic_QueueSize c), wb_queue = [],
                wb_last = None, wb_signal = False, wb_next = 0, wb_writers = 0, wb_freezing = None, wb_sending = None, wb_working = None, wb_done = [],
                wb_closer = Not_Called, wb_panicked = False\<rparr>"
    using assms c by (simp add: newTableBatcher_def Let_def ingestBufferHeadroom_def)
  have "routed (of_int (ic_Shards c - 1)) tag < nat (ic_Shards c)" by (rule routed_bound[OF m])
  then show "pending b tag = []"
    by (simp add: b pending_def in_flight_def active_tag_def flight_def tag_buffer_def new_shard_def)
  show "wb_inv b"
    using m by (simp add: b wb_inv_def shards_ok_def flight_def freezing_ok_def published_def outs_def new_shard_inv counted_def sum_list_replicate)
  show "wb_panicked b = False" "wb_closer b = Not_Called" "0 < wb_queueSize b" using n by (simp_all add: b)
qed

end
