(* ===== verification/Write_Batcher_Claims.thy ===== *)
theory Write_Batcher_Claims
  imports Write_Batcher_Steps
begin

text \<open>
  What the write buffer promises, for every interleaving of callers, freezers and the worker: a free generation is always found, the points of a tag
  reach the log in the order they were accepted, and a finished flush has finished everything accepted before it.
\<close>

section \<open>The flush barrier\<close>

text \<open>The batch a call of \<open>Flush\<close> waits for, decided when it has \<open>freezeMu\<close>.\<close>

definition flush_target :: "('v, 'x) tableBatcher \<Rightarrow> nat option" where
  "flush_target b = (if wb_activePoints b = 0 then wb_last b else Some (wb_next b))"

text \<open>The points in flight that batch \<open>n\<close> and its predecessors carry or will carry.\<close>

definition older :: "nat \<Rightarrow> ('v, 'x) tableBatcher \<Rightarrow> bytes \<Rightarrow> (int \<times> 'v) list" where
  "older n b tag =
     (if wb_next b \<le> n \<or> (\<exists>f. wb_freezing b = Some f \<and> fb_seq f = n \<and> length (fb_shards f) \<le> routed (wb_shardMask b) tag) then pending b tag
      else concat (map (\<lambda>f. batch_tag (wb_shardMask b) (wb_shards b) f tag) (filter (\<lambda>f. fb_seq f \<le> n) (flight b))))"

definition keeps_older :: "nat \<Rightarrow> ('v, 'x) tableBatcher \<Rightarrow> 'v label \<Rightarrow> ('v, 'x) tableBatcher \<Rightarrow> bytes \<Rightarrow> bool" where
  "keeps_older n b l b' tag = (\<exists>xs. finished1 tag l @ older n b' tag = older n b tag @ xs)"

lemma flight_seqs:
  assumes "wb_inv b"
  shows "map fb_seq (flight b) = [length (wb_done b)..<wb_next b]" "map fst (wb_done b) = [0..<length (wb_done b)]" "length (wb_done b) \<le> wb_next b"
proof -
  note eq = wb_invD(4)[OF assms]
  have len: "length (wb_done b) + length (flight b) = wb_next b" using arg_cong[OF eq, of length] by simp
  have "map fst (wb_done b) = take (length (wb_done b)) (map fst (wb_done b) @ map fb_seq (flight b))" by simp
  also have "\<dots> = [0..<length (wb_done b)]" using len by (simp only: eq) (simp add: take_upt)
  finally show "map fst (wb_done b) = [0..<length (wb_done b)]" .
  have "map fb_seq (flight b) = drop (length (wb_done b)) (map fst (wb_done b) @ map fb_seq (flight b))" by simp
  also have "\<dots> = [length (wb_done b)..<wb_next b]" by (simp only: eq) simp
  finally show "map fb_seq (flight b) = [length (wb_done b)..<wb_next b]" .
  show "length (wb_done b) \<le> wb_next b" using len by simp
qed

lemma flight_seq_less: "wb_inv b \<Longrightarrow> f \<in> set (flight b) \<Longrightarrow> fb_seq f < wb_next b"
proof -
  assume b: "wb_inv b" "f \<in> set (flight b)"
  then have "fb_seq f \<in> set (map fb_seq (flight b))" by simp
  then show ?thesis unfolding flight_seqs(1)[OF b(1)] by simp
qed

lemma keeps_same: "older n b' tag = older n b tag \<Longrightarrow> finished1 tag l = [] \<Longrightarrow> keeps_older n b l b' tag"
  by (simp add: keeps_older_def)

lemma older_cong:
  "wb_next b' = wb_next b \<Longrightarrow> wb_shardMask b' = wb_shardMask b \<Longrightarrow> wb_shards b' = wb_shards b \<Longrightarrow> flight b' = flight b \<Longrightarrow>
   wb_freezing b' = wb_freezing b \<Longrightarrow> older n b' tag = older n b tag"
  by (simp only: older_def pending_def)

lemma older_append:
  assumes "wb_inv b"
  shows "keeps_older n b (Accepted q tms v) (appendPoint retains q tms v b) tag"
proof -
  let ?b = "appendPoint retains q tms v b"
  have sh: "wb_shards ?b = (wb_shards b)[routed (wb_shardMask b) q :=
      shard_append retains (cache_slot q b) (wb_buffersPerShard b) q tms v (wb_shards b ! routed (wb_shardMask b) q)]"
    by (simp add: appendPoint_def shard_of_def routed_def Let_def)
  note ok = append_ok[OF wb_invD(1)[OF assms] sh]
  have keep: "flight ?b = flight b" "wb_shardMask ?b = wb_shardMask b" "wb_next ?b = wb_next b" "wb_freezing ?b = wb_freezing b"
    by (simp_all add: appendPoint_def flight_def Let_def)
  have "map (\<lambda>f. batch_tag (wb_shardMask b) (wb_shards ?b) f tag) (filter (\<lambda>f. fb_seq f \<le> n) (flight b)) =
      map (\<lambda>f. batch_tag (wb_shardMask b) (wb_shards b) f tag) (filter (\<lambda>f. fb_seq f \<le> n) (flight b))"
    by (intro map_cong refl ok(4)) simp
  note batches = this
  have pend: "pending ?b tag = pending b tag @ (if tag = q then [(tms, v)] else [])" using ok(3)[of tag] by (simp add: pending_def keep)
  let ?P = "wb_next b \<le> n \<or> (\<exists>f. wb_freezing b = Some f \<and> fb_seq f = n \<and> length (fb_shards f) \<le> routed (wb_shardMask b) tag)"
  have "older n ?b tag = older n b tag @ (if ?P \<and> tag = q then [(tms, v)] else [])"
  proof (cases ?P)
    case True
    then show ?thesis unfolding older_def keep using pend by auto
  next
    case False
    then show ?thesis unfolding older_def keep batches by auto
  qed
  then show ?thesis by (simp add: keeps_older_def)
qed

lemma older_begin:
  assumes inv: "wb_inv b" and free: "freezeMu_free b"
  shows "older n (freeze_begin b) tag = older n b tag"
proof -
  let ?f = "\<lparr>fb_seq = wb_next b, fb_shards = [], fb_count = 0\<rparr>"
  have none: "wb_freezing b = None" "wb_sending b = None" using free by (simp_all add: freezeMu_free_def)
  have fl: "flight (freeze_begin b) = flight b @ [?f]" using none by (simp add: flight_def freeze_begin_def)
  have same: "wb_shards (freeze_begin b) = wb_shards b" "wb_shardMask (freeze_begin b) = wb_shardMask b" "wb_next (freeze_begin b) = wb_next b + 1"
    "wb_freezing (freeze_begin b) = Some ?f"
    by (simp_all add: freeze_begin_def)
  have "pending (freeze_begin b) tag = pending b tag"
    by (simp add: pending_def fl same in_flight_def batch_tag_def)
  then show ?thesis by (auto simp: older_def fl same none not_le)
qed

lemma older_swap:
  assumes inv: "wb_inv b" and f: "wb_freezing b = Some f" "length (fb_shards f) < length (wb_shards b)" and fz: "freeze_shard f b = Some b'"
  shows "older n b' tag = older n b tag"
proof -
  let ?i = "length (fb_shards f)" and ?m = "wb_shardMask b"
  have send: "wb_sending b = None" using wb_invD(2)[OF inv] f by (simp add: freezing_ok_def)
  obtain gs where gs: "flight b = gs @ [f]" "gs = opt_list (wb_working b) @ wb_queue b" using f send by (simp add: flight_def)
  obtain ib cnt sh where sw: "swap_shard (wb_shards b ! ?i) = Some (ib, cnt, sh)"
    and b': "b' = b\<lparr>wb_shards := (wb_shards b)[?i := sh], wb_freezing := Some (f\<lparr>fb_shards := fb_shards f @ [ib], fb_count := fb_count f + cnt\<rparr>)\<rparr>"
    using fz by (auto simp: freeze_shard_def Let_def)
  let ?f = "f\<lparr>fb_shards := fb_shards f @ [ib], fb_count := fb_count f + cnt\<rparr>"
  have fl: "flight b' = gs @ [?f]" using send gs(2) by (simp add: flight_def b')
  have same: "wb_shardMask b' = ?m" "wb_next b' = wb_next b" "wb_shards b' = (wb_shards b)[?i := sh]" "wb_freezing b' = Some ?f"
    by (simp_all add: b')
  note ok = swap_ok[where c = "fb_count f + cnt", OF wb_invD(1)[OF inv, unfolded gs(1)] refl f(2) sw refl]
  have pend: "pending b' tag = pending b tag" using ok(4) by (simp add: pending_def fl gs(1) same)
  have less: "fb_seq g < wb_next b" if "g \<in> set (gs @ [f])" for g using flight_seq_less[OF inv, of g] that gs(1) by simp
  have last: "fb_seq f + 1 = wb_next b"
  proof -
    have "[length (wb_done b)..<wb_next b] = map fb_seq gs @ [fb_seq f]" using flight_seqs(1)[OF inv] gs(1) by simp
    then have "last [length (wb_done b)..<wb_next b] = fb_seq f" "[length (wb_done b)..<wb_next b] \<noteq> []" by simp_all
    then show ?thesis by (auto simp: last_conv_nth)
  qed
  have batches: "map (\<lambda>g. batch_tag ?m ((wb_shards b)[?i := sh]) g tag) gs' = map (\<lambda>g. batch_tag ?m (wb_shards b) g tag) gs'" for gs'
    by (intro map_cong refl ok(5))
  consider "wb_next b \<le> n" | "fb_seq f = n" "?i < routed ?m tag" | "fb_seq f = n" "?i = routed ?m tag" | "fb_seq f = n" "routed ?m tag < ?i" | "n < fb_seq f"
    using last by linarith
  then show ?thesis
  proof cases
    case 1
    then show ?thesis by (simp add: older_def same pend)
  next
    case 2
    then show ?thesis by (simp add: older_def same pend f)
  next
    case 3
    then have "active_tag ?m ((wb_shards b)[?i := sh]) tag = []" by (intro ok(6)) simp
    moreover have "fb_seq g \<le> n" if "g \<in> set gs" for g using less[of g] that last 3(1) by simp
    then have "filter (\<lambda>g. fb_seq g \<le> n) (gs @ [?f]) = gs @ [?f]" using 3(1) by (simp add: filter_id_conv)
    ultimately have "older n b' tag = pending b' tag"
      using 3 last by (simp add: older_def same fl pending_def in_flight_def)
    then show ?thesis using 3 pend by (simp add: older_def f)
  next
    case 4
    then have "batch_tag ?m ((wb_shards b)[?i := sh]) ?f tag = batch_tag ?m (wb_shards b) f tag" by (intro ok(7))
    then have "batch_tag ?m (wb_shards b) ?f tag = batch_tag ?m (wb_shards b) f tag" unfolding ok(5) .
    then show ?thesis using 4 last f by (simp add: older_def same fl gs(1) batches)
  next
    case 5
    then show ?thesis using last f by (simp add: older_def same fl gs(1) batches)
  qed
qed

lemma older_end:
  assumes inv: "wb_inv b" and f: "wb_freezing b = Some f" "length (fb_shards f) = length (wb_shards b)"
  shows "older n (freeze_end f b) tag = older n b tag"
proof -
  let ?b = "b\<lparr>wb_freezing := None, wb_activePoints := wb_activePoints b - fb_count f, wb_sending := Some f\<rparr>"
  have eq: "freeze_end f b = ?b" using frozen_count[OF inv f] by (simp add: freeze_end_def)
  have send: "wb_sending b = None" using wb_invD(2)[OF inv] f by (simp add: freezing_ok_def)
  have fl: "flight ?b = flight b" using f send by (simp add: flight_def)
  have "\<not> length (fb_shards f) \<le> routed (wb_shardMask b) tag" using shards_ok_routed[OF wb_invD(1)[OF inv]] f(2) by (simp add: not_le)
  then show ?thesis unfolding eq by (simp add: older_def fl pending_def f)
qed

lemma older_finish:
  assumes inv: "wb_inv b" and f: "wb_working b = Some f" and wk: "work E f b t = (err, b', t')"
  shows "keeps_older n b (Finished (batch_points f b) (err = None)) b' tag"
proof -
  obtain gs where gs: "flight b = f # gs" "gs = wb_queue b @ opt_list (wb_sending b) @ opt_list (wb_freezing b)" using f by (simp add: flight_def)
  have len: "length (fb_shards f) = length (wb_shards b)" using inv f by (simp add: wb_inv_def)
  note w = work_fields[OF inv f wk]
  have fl: "flight b' = gs" by (simp add: flight_def w gs(2))
  obtain shs1 where shs1: "prepared (wb_buffersPerShard b) f (wb_shards b) shs1" "wb_shards b' = map2 recycle_shard (fb_shards f) shs1" using w(1) by blast
  note ok = recycle_ok[OF wb_invD(1)[OF inv, unfolded gs(1)] len shs1]
  have pieces: "pieces_of tag (batch_points f b) = batch_tag (wb_shardMask b) (wb_shards b) f tag"
    using batch_pieces_tag[OF wb_invD(1)[OF inv, unfolded gs(1)] len] by (simp add: batch_points_pieces)
  have pend: "batch_tag (wb_shardMask b) (wb_shards b) f tag @ pending b' tag = pending b tag"
    using ok(4) by (simp add: pending_def fl gs(1) w)
  let ?P = "wb_next b \<le> n \<or> (\<exists>f. wb_freezing b = Some f \<and> fb_seq f = n \<and> length (fb_shards f) \<le> routed (wb_shardMask b) tag)"
  have same: "wb_next b' = wb_next b" "wb_shardMask b' = wb_shardMask b" "wb_freezing b' = wb_freezing b" using w by simp_all
  have batches: "map (\<lambda>g. batch_tag (wb_shardMask b) (wb_shards b') g tag) (filter (\<lambda>f. fb_seq f \<le> n) gs) =
      map (\<lambda>g. batch_tag (wb_shardMask b) (wb_shards b) g tag) (filter (\<lambda>f. fb_seq f \<le> n) gs)"
    by (intro map_cong refl ok(5)) simp
  show ?thesis
  proof (cases ?P)
    case True
    then have "older n b' tag = pending b' tag" "older n b tag = pending b tag" unfolding older_def same by (simp_all only: if_True)
    then show ?thesis using pend by (simp add: keeps_older_def pieces)
  next
    case False
    then have o: "older n b' tag = concat (map (\<lambda>f. batch_tag (wb_shardMask b) (wb_shards b) f tag) (filter (\<lambda>f. fb_seq f \<le> n) gs))"
      "older n b tag = concat (map (\<lambda>f. batch_tag (wb_shardMask b) (wb_shards b) f tag) (filter (\<lambda>f. fb_seq f \<le> n) (f # gs)))"
      unfolding older_def same fl gs(1) batches by (simp_all only: if_False)
    show ?thesis
    proof (cases "fb_seq f \<le> n")
      case True
      then show ?thesis by (simp add: keeps_older_def o pieces)
    next
      case False
      have "fb_seq f < fb_seq g" if "g \<in> set gs" for g
      proof -
        have "map fb_seq (f # gs) = [length (wb_done b)..<wb_next b]" using flight_seqs(1)[OF inv] gs(1) by simp
        then have "sorted_wrt (<) (map fb_seq (f # gs))" by (simp only: sorted_wrt_upt)
        then show ?thesis using that by simp
      qed
      then have "filter (\<lambda>f. fb_seq f \<le> n) (f # gs) = []" using False by (force simp: filter_empty_conv)
      then have "older n b tag = []" unfolding o by simp
      then show ?thesis by (simp add: keeps_older_def)
    qed
  qed
qed

lemma step_keeps_older: "wb_step E s l s' \<Longrightarrow> wb_inv (fst s) \<Longrightarrow> keeps_older n (fst s) l (fst s') tag"
proof (induction rule: wb_step.induct)
  case (check b t)
  then show ?case by (auto intro!: keeps_same older_cong simp: flight_def)
next
  case (add b tag tms v t)
  then show ?case by (simp add: older_append)
next
  case (leave b t active)
  then show ?case by (auto intro!: keeps_same older_cong simp: flight_def maybeSignal_def)
next
  case (signalled b t)
  then show ?case by (auto intro!: keeps_same older_cong simp: flight_def)
next
  case (begin_freeze b t)
  then show ?case by (auto intro!: keeps_same older_begin)
next
  case (swap b f b' t)
  then show ?case by (auto intro!: keeps_same older_swap)
next
  case (end_freeze b f t)
  then show ?case by (auto intro!: keeps_same older_end)
next
  case (send b f t)
  then have "wb_freezing b = None" using wb_invD(2)[of b] by (auto simp: freezing_ok_def)
  then show ?case using send by (auto intro!: keeps_same older_cong simp: flight_def)
next
  case (send_closed b f t)
  then show ?case by (auto intro!: keeps_same older_cong simp: flight_def)
next
  case (take_batch b f fs t)
  then show ?case by (auto intro!: keeps_same older_cong simp: flight_def)
next
  case (finish b f t err b' t')
  then show ?case by (simp add: older_finish)
next
  case (close b t)
  then show ?case by (auto intro!: keeps_same older_cong simp: flight_def)
next
  case (close_idle b t)
  then show ?case by (auto intro!: keeps_same older_cong simp: flight_def)
next
  case (close_freeze b t)
  have "older n ((freeze_begin b)\<lparr>wb_closer := Awaits (Some (wb_next b))\<rparr>) tag = older n (freeze_begin b) tag" by (intro older_cong) (simp_all add: flight_def)
  then show ?case using close_freeze older_begin[of b n tag] by (intro keeps_same) simp_all
next
  case (close_queue b target t)
  then show ?case by (auto intro!: keeps_same older_cong simp: flight_def)
qed

lemma run_keeps_older: "wb_run E s ls s' \<Longrightarrow> wb_inv (fst s) \<Longrightarrow> \<exists>xs. finished tag ls @ older n (fst s') tag = older n (fst s) tag @ xs"
proof (induction rule: wb_run.induct)
  case (start s)
  then show ?case by simp
next
  case (step s ls s' l s'')
  obtain xs where xs: "finished tag ls @ older n (fst s') tag = older n (fst s) tag @ xs" using step by blast
  have "wb_inv (fst s')" using run_moves[OF step.hyps(1) step.prems] by blast
  then obtain ys where "finished1 tag l @ older n (fst s'') tag = older n (fst s') tag @ ys"
    using step_keeps_older[OF step.hyps(2), of n tag] by (auto simp: keeps_older_def)
  then have "finished tag (ls @ [l]) @ older n (fst s'') tag = older n (fst s) tag @ xs @ ys"
    using xs by (metis append.assoc run_labels(4,6))
  then show ?case by blast
qed

section \<open>A free generation\<close>

lemma length_outs: "length (outs i fs) \<le> length fs"
  by (simp add: outs_def)

lemma freeze_shard_works:
  assumes inv: "wb_inv b" and f: "wb_freezing b = Some f" "length (fb_shards f) < length (wb_shards b)"
  shows "freeze_shard f b \<noteq> None"
proof -
  let ?i = "length (fb_shards f)"
  have send: "wb_sending b = None" using wb_invD(2)[OF inv] f by (simp add: freezing_ok_def)
  have "outs ?i (flight b) = outs ?i (opt_list (wb_working b) @ wb_queue b)" using f send by (simp add: flight_def outs_Cons) (simp add: outs_def)
  then have "length (outs ?i (flight b)) \<le> length (opt_list (wb_working b) @ wb_queue b)" by (simp only: length_outs)
  moreover have "length (opt_list (wb_working b)) \<le> 1" by (simp split: option.split)
  moreover have "length (wb_queue b) \<le> wb_queueSize b" "wb_queueSize b + 3 = wb_buffersPerShard b" using inv by (simp_all add: wb_inv_def)
  ultimately have "length (outs ?i (flight b)) + 1 < wb_buffersPerShard b" by simp
  then have "sh_free (wb_shards b ! ?i) \<noteq> []" by (rule swap_possible[OF shards_okD[OF wb_invD(1)[OF inv] f(2)]])
  then show ?thesis by (simp add: freeze_shard_def swap_shard_def Let_def)
qed

section \<open>Draining\<close>

text \<open>A run on which no caller adds a point.\<close>

definition drains :: "('v, 't, 'x) wb_env \<Rightarrow> ('v, 'x) tableBatcher \<times> 't \<Rightarrow> ('v, 'x) tableBatcher \<times> 't \<Rightarrow> bool" where
  "drains E s s' = (\<exists>ls. wb_run E s ls s' \<and> (\<forall>tag. accepted tag ls = []))"

lemma drains_refl [simp]: "drains E s s"
  unfolding drains_def using wb_run.start by fastforce

lemma drains_trans: "drains E s1 s2 \<Longrightarrow> drains E s2 s3 \<Longrightarrow> drains E s1 s3"
  unfolding drains_def by (metis run_trans run_labels(3) append_Nil)

lemma drains_step: "wb_step E s l s' \<Longrightarrow> (\<And>tag. accepted1 tag l = []) \<Longrightarrow> drains E s s'"
  unfolding drains_def using run_one by (metis run_labels(5))

lemma drains_inv: "drains E s s' \<Longrightarrow> wb_inv (fst s) \<Longrightarrow> wb_inv (fst s')"
  unfolding drains_def using run_moves by blast

definition same_rest :: "('v, 'x) tableBatcher \<Rightarrow> ('v, 'x) tableBatcher \<Rightarrow> bool" where
  "same_rest b b' = (wb_closer b' = wb_closer b \<and> wb_queueSize b' = wb_queueSize b \<and> wb_next b' = wb_next b)"

lemma same_rest_trans: "same_rest b1 b2 \<Longrightarrow> same_rest b2 b3 \<Longrightarrow> same_rest b1 b3"
  by (simp add: same_rest_def)

lemma worker_drains:
  assumes "wb_inv b"
  shows "\<exists>b' t'. drains E (b, t) (b', t') \<and> wb_working b' = None \<and> wb_queue b' = [] \<and> same_rest b b' \<and>
    wb_sending b' = wb_sending b \<and> wb_freezing b' = wb_freezing b"
  using assms
proof (induction "2 * length (wb_queue b) + length (opt_list (wb_working b))" arbitrary: b t rule: less_induct)
  case less
  show ?case
  proof (cases "wb_working b")
    case (Some f)
    obtain err b1 t1 where wk: "work E f b t = (err, b1, t1)" by (rule prod_cases3)
    note w = work_fields[OF less.prems Some wk]
    have d: "drains E (b, t) (b1, t1)" by (rule drains_step[OF wb_step.finish[OF Some wk]]) simp
    have "wb_inv b1" using drains_inv[OF d] less.prems by simp
    then obtain b' t' where "drains E (b1, t1) (b', t')" "wb_working b' = None" "wb_queue b' = []" "same_rest b1 b'"
      "wb_sending b' = wb_sending b1" "wb_freezing b' = wb_freezing b1"
      using less.hyps[of b1 t1] w Some by auto
    then show ?thesis using drains_trans[OF d] w by (auto simp: same_rest_def)
  next
    case None
    show ?thesis
    proof (cases "wb_queue b")
      case Nil
      then show ?thesis using None by (intro exI[of _ b] exI[of _ t]) (simp add: same_rest_def)
    next
      case (Cons f fs)
      let ?b = "b\<lparr>wb_working := Some f, wb_queue := fs\<rparr>"
      have d: "drains E (b, t) (?b, t)" by (rule drains_step[OF wb_step.take_batch[OF None Cons]]) simp
      have "wb_inv ?b" using drains_inv[OF d] less.prems by simp
      then obtain b' t' where "drains E (?b, t) (b', t')" "wb_working b' = None" "wb_queue b' = []" "same_rest ?b b'"
        "wb_sending b' = wb_sending ?b" "wb_freezing b' = wb_freezing ?b"
        using less.hyps[of ?b t] None Cons by auto
      then show ?thesis using drains_trans[OF d] by (auto simp: same_rest_def)
    qed
  qed
qed

lemma freezer_finishes:
  assumes "wb_inv b" "wb_freezing b = Some f"
  shows "\<exists>b' t'. drains E (b, t) (b', t') \<and> wb_freezing b' = None \<and> same_rest b b'"
  using assms
proof (induction "length (wb_shards b) - length (fb_shards f)" arbitrary: b t f rule: less_induct)
  case less
  have le: "length (fb_shards f) \<le> length (wb_shards b)" using wb_invD(2)[OF less.prems(1)] less.prems(2) by (simp add: freezing_ok_def)
  show ?case
  proof (cases "length (fb_shards f) = length (wb_shards b)")
    case True
    have d: "drains E (b, t) (freeze_end f b, t)" by (rule drains_step[OF wb_step.end_freeze[OF less.prems(2) True]]) simp
    have "fb_count f > 0" by (rule frozen_count[OF less.prems True])
    then have "wb_freezing (freeze_end f b) = None \<and> same_rest b (freeze_end f b)" by (simp add: freeze_end_def same_rest_def)
    then show ?thesis using d by blast
  next
    case False
    then have lt: "length (fb_shards f) < length (wb_shards b)" using le by simp
    obtain b1 where fz: "freeze_shard f b = Some b1" using freeze_shard_works[OF less.prems lt] by blast
    have d: "drains E (b, t) (b1, t)" by (rule drains_step[OF wb_step.swap[OF less.prems(2) lt fz]]) simp
    obtain f1 where f1: "wb_freezing b1 = Some f1" "length (fb_shards f1) = length (fb_shards f) + 1" "length (wb_shards b1) = length (wb_shards b)" "same_rest b b1"
      using fz by (auto simp: freeze_shard_def Let_def same_rest_def)
    have "wb_inv b1" using drains_inv[OF d] less.prems by simp
    moreover have "length (wb_shards b1) - length (fb_shards f1) < length (wb_shards b) - length (fb_shards f)" using f1(2,3) lt by simp
    ultimately obtain b' t' where "drains E (b1, t) (b', t')" "wb_freezing b' = None" "same_rest b1 b'"
      using less.hyps f1(1) by blast
    then show ?thesis using drains_trans[OF d] same_rest_trans[OF f1(4)] by blast
  qed
qed

lemma all_drains:
  assumes inv: "wb_inv b" and q: "0 < wb_queueSize b" and open_: "wb_closer b \<noteq> Queue_Closed"
  shows "\<exists>b' t'. drains E (b, t) (b', t') \<and> flight b' = [] \<and> freezeMu_free b' \<and> same_rest b b'"
proof -
  have "\<exists>b1 t1. drains E (b, t) (b1, t1) \<and> wb_freezing b1 = None \<and> same_rest b b1"
  proof (cases "wb_freezing b")
    case None
    then show ?thesis by (intro exI[of _ b] exI[of _ t]) (simp add: same_rest_def)
  next
    case (Some f)
    then show ?thesis by (rule freezer_finishes[OF inv])
  qed
  then obtain b1 t1 where 1: "drains E (b, t) (b1, t1)" "wb_freezing b1 = None" "same_rest b b1" by blast
  have inv1: "wb_inv b1" using drains_inv[OF 1(1)] inv by simp
  obtain b2 t2 where 2: "drains E (b1, t1) (b2, t2)" "wb_working b2 = None" "wb_queue b2 = []" "same_rest b1 b2"
    "wb_sending b2 = wb_sending b1" "wb_freezing b2 = wb_freezing b1"
    using worker_drains[OF inv1, of E t1] by blast
  have inv2: "wb_inv b2" using drains_inv[OF 2(1)] inv1 by simp
  have d2: "drains E (b, t) (b2, t2)" and s2: "same_rest b b2" using drains_trans[OF 1(1) 2(1)] same_rest_trans[OF 1(3) 2(4)] by auto
  show ?thesis
  proof (cases "wb_sending b2")
    case None
    then have "flight b2 = [] \<and> freezeMu_free b2" using 1(2) 2 by (simp add: flight_def freezeMu_free_def)
    then show ?thesis using d2 s2 by blast
  next
    case (Some f)
    let ?b = "b2\<lparr>wb_sending := None, wb_queue := wb_queue b2 @ [f], wb_last := Some (fb_seq f)\<rparr>"
    have "wb_closer b2 \<noteq> Queue_Closed" "length (wb_queue b2) < wb_queueSize b2" using s2 open_ q 2(3) by (simp_all add: same_rest_def)
    then have d3: "drains E (b2, t2) (?b, t2)" by (intro drains_step[OF wb_step.send[OF Some]]) simp_all
    have inv3: "wb_inv ?b" using drains_inv[OF d3] inv2 by simp
    obtain b4 t4 where 4: "drains E (?b, t2) (b4, t4)" "wb_working b4 = None" "wb_queue b4 = []" "same_rest ?b b4"
      "wb_sending b4 = wb_sending ?b" "wb_freezing b4 = wb_freezing ?b"
      using worker_drains[OF inv3, of E t2] by blast
    have "flight b4 = [] \<and> freezeMu_free b4" using 4 1(2) 2(6) by (simp add: flight_def freezeMu_free_def)
    moreover have "same_rest b b4" using s2 4(4) by (simp add: same_rest_def)
    ultimately show ?thesis using drains_trans[OF drains_trans[OF d2 d3] 4(1)] by blast
  qed
qed

text \<open>No active points and nothing in flight: nothing is pending.\<close>

lemma idle_active:
  assumes inv: "wb_inv b" and idle: "wb_activePoints b = 0" "wb_freezing b = None"
  shows "active_tag (wb_shardMask b) (wb_shards b) tag = []"
proof -
  note ok = wb_invD(1)[OF inv]
  let ?j = "routed (wb_shardMask b) tag"
  have j: "?j < length (wb_shards b)" by (rule shards_ok_routed[OF ok])
  have nn: "0 \<le> sh_activeCount (wb_shards b ! i)" if "i < length (wb_shards b)" for i using shards_okD[OF ok that] by (simp add: shard_inv_def)
  have "sum_list (map sh_activeCount (wb_shards b)) = 0" using wb_invD(3)[OF inv] idle by (simp add: counted_def)
  moreover have "\<forall>x \<in> set (map sh_activeCount (wb_shards b)). 0 \<le> x" using nn by (auto simp: in_set_conv_nth)
  ultimately have "\<forall>x \<in> set (map sh_activeCount (wb_shards b)). x = 0" using sum_list_nonneg_eq_0_iff by blast
  then have "sh_activeCount (wb_shards b ! ?j) = 0" using j by simp
  then have "points_in (wb_shards b ! ?j) (sh_active (wb_shards b ! ?j)) = 0" using shards_okD[OF ok j] by (simp add: shard_inv_def)
  then have "ib_used (sh_active (wb_shards b ! ?j)) = []" using points_in_Nil_iff shard_invD(3)[OF shards_okD[OF ok j]] by blast
  then show ?thesis using unlisted_empty[OF shard_invD(3)[OF shards_okD[OF ok j]]] by (simp add: active_tag_def)
qed

section \<open>The promises\<close>

lemma run_facts:
  assumes "newTableBatcher fuel slots config = Some b0" "wb_run E (b0, t0) ls (b, t)"
  shows "wb_inv b" "accepted tag ls = finished tag ls @ pending b tag"
  using run_moves[OF assms(2)] new_batcher_inv[OF assms(1)] by simp_all

lemma run_queueSize: "wb_run E s ls s' \<Longrightarrow> wb_queueSize (fst s') = wb_queueSize (fst s)"
proof (induction rule: wb_run.induct)
  case (step s ls s' l s'')
  have "wb_queueSize (fst s'') = wb_queueSize (fst s')" using step.hyps(2)
    by (induction rule: wb_step.induct)
      (auto simp: appendPoint_def maybeSignal_def freeze_begin_def freeze_shard_def freeze_end_def recycleBatch_def Let_def work_def setError_def
        prepareRawWriteBatch_def split: prod.splits if_splits)
  then show ?case using step.IH by simp
qed simp

text \<open>A small setting for the examples: one shard, one batch in the queue, tags that all resolve to code 1, a log that is a list of runs.\<close>

definition demo_env :: "(int, int walDataRun list, nat) wb_env" where
  "demo_env = \<lparr>en_retains = (\<lambda>_. False), en_table = \<lparr>to_resolve = (\<lambda>_ _ t. (Inr 1, t)), to_warm = (\<lambda>_ t. t)\<rparr>,
     en_commit = (\<lambda>runs t. (None, t @ runs)), en_closed = 0\<rparr>"

definition demo_config :: IngestConfig where
  "demo_config = \<lparr>ic_Shards = 1, ic_MaxBatchSize = 1, ic_FlushIntervalMs = 1, ic_QueueSize = 1\<rparr>"

definition demo0 :: "(int, nat) tableBatcher" where "demo0 = the (newTableBatcher 64 0 demo_config)"
definition demo1 :: "(int, nat) tableBatcher" where "demo1 = demo0\<lparr>wb_writers := wb_writers demo0 + 1\<rparr>"
definition demo2 :: "(int, nat) tableBatcher" where "demo2 = appendPoint (en_retains demo_env) [1] 5 7 demo1"
definition demo3 :: "(int, nat) tableBatcher" where "demo3 = freeze_begin demo2"

lemma demo_new: "newTableBatcher 64 0 demo_config = Some demo0"
proof -
  have "newTableBatcher 64 0 demo_config \<noteq> (None :: (int, nat) tableBatcher option)" by code_simp
  then show ?thesis by (simp add: demo0_def)
qed

lemma demo_guards:
  "terminalError (en_closed demo_env) demo0 = None" "0 < wb_writers demo1" "freezeMu_free demo2" "wb_activePoints demo2 \<noteq> 0"
  "wb_freezing demo3 = Some \<lparr>fb_seq = 0, fb_shards = [], fb_count = 0\<rparr>" "length (wb_shards demo3) = 1" "wb_next demo2 = 0" "wb_closer demo3 = Not_Called"
  by code_simp+

lemma demo_run: "wb_run demo_env (demo0, []) [Quiet, Accepted [1] 5 7] (demo2, [])"
proof -
  have "wb_run demo_env (demo0, []) ([] @ [Quiet]) (demo1, [])"
    unfolding demo1_def by (rule wb_run.step[OF wb_run.start wb_step.check[OF demo_guards(1)]])
  then have "wb_run demo_env (demo0, []) (([] @ [Quiet]) @ [Accepted [1] 5 7]) (demo2, [])"
    unfolding demo2_def by (rule wb_run.step[OF _ wb_step.add[OF demo_guards(2)]])
  then show ?thesis by simp
qed

lemma demo_run3: "wb_run demo_env (demo0, []) [Quiet, Accepted [1] 5 7, Quiet] (demo3, [])"
  using wb_run.step[OF demo_run wb_step.begin_freeze[OF demo_guards(3,4)]] by (simp add: demo3_def)

text \<open>\<^bold>\<open>C9\<close>: Freezing never finds a shard without a free buffer (where the code would index the empty list of free buffers at -1 and panic), whatever callers,
  freezers, the worker and \<open>Close\<close> have done: the queue's size plus the head room of three is enough buffers.\<close>

theorem freezing_finds_a_buffer:
  assumes "newTableBatcher fuel slots config = Some b0" "wb_run E (b0, t0) ls (b, t)" "wb_freezing b = Some f" "length (fb_shards f) < length (wb_shards b)"
  shows "freeze_shard f b \<noteq> None"
  by (rule freeze_shard_works[OF run_facts(1)[OF assms(1,2)] assms(3,4)])

theorem freezing_finds_a_buffer_witness: "freeze_shard \<lparr>fb_seq = 0, fb_shards = [], fb_count = 0\<rparr> demo3 \<noteq> None"
  by (rule freezing_finds_a_buffer[OF demo_new demo_run3 demo_guards(5)]) (simp add: demo_guards)

text \<open>\<^bold>\<open>C4\<close>: For every tag, the points accepted so far are those of the batches the worker has finished, in the order it finished them, followed by those
  still in flight, oldest batch first, and those of the active buffer: over all interleavings no point is lost, duplicated or overtaken on its way.\<close>

theorem points_stay_in_order:
  assumes "newTableBatcher fuel slots config = Some b0" "wb_run E (b0, t0) ls (b, t)"
  shows "accepted tag ls = finished tag ls @ pending b tag"
  by (rule run_facts(2)[OF assms])

theorem points_stay_in_order_witness: "[(5, 7)] = pending demo3 [1]"
  using points_stay_in_order[OF demo_new demo_run3, of "[1]"] by (simp add: accepted_def finished_def)

text \<open>\<^bold>\<open>C5\<close>: \<open>Flush\<close> is a barrier: when the batch it waits for (the one it freezes, or the last one published when no point is active) is done, every
  point accepted before the call has been finished by the worker, although other callers, freezers and the worker went on in between.\<close>

theorem flush_is_a_barrier:
  assumes "newTableBatcher fuel slots config = Some b0" "wb_run E (b0, t0) ls (b, t)" "freezeMu_free b"
    and "wb_run E (b, t) ls' (b', t')" "\<forall>n. flush_target b = Some n \<longrightarrow> n \<in> fst ` set (wb_done b')"
  shows "\<exists>later. finished tag (ls @ ls') = accepted tag ls @ later"
proof -
  note inv = run_facts(1)[OF assms(1,2)] and now = run_facts(2)[OF assms(1,2), of tag]
  have inv': "wb_inv b'" using run_moves[OF assms(4)] inv by simp
  have none: "wb_freezing b = None" "wb_sending b = None" using assms(3) by (simp_all add: freezeMu_free_def)
  have older_done: "older n b' tag = []" if "n \<in> fst ` set (wb_done b')" for n
  proof -
    have n: "n < length (wb_done b')" using that flight_seqs(2)[OF inv'] by (metis atLeastLessThan_iff image_set set_upt)
    have le: "n < fb_seq f" if "f \<in> set (flight b')" for f
    proof -
      have "fb_seq f \<in> set (map fb_seq (flight b'))" using that by simp
      then show ?thesis unfolding flight_seqs(1)[OF inv'] using n by simp
    qed
    have "wb_freezing b' = Some f \<Longrightarrow> fb_seq f \<noteq> n" for f using le[of f] by (auto simp: flight_def)
    moreover have "\<not> wb_next b' \<le> n" using n flight_seqs(3)[OF inv'] by simp
    ultimately have no: "(wb_next b' \<le> n \<or> (\<exists>f. wb_freezing b' = Some f \<and> fb_seq f = n \<and> length (fb_shards f) \<le> routed (wb_shardMask b') tag)) = False"
      by blast
    have "filter (\<lambda>f. fb_seq f \<le> n) (flight b') = []" using le by (force simp: filter_empty_conv)
    then show ?thesis unfolding older_def no by simp
  qed
  have "\<exists>n. older n b tag = pending b tag \<and> (flush_target b = None \<longrightarrow> pending b tag = []) \<and> (\<forall>m. flush_target b = Some m \<longrightarrow> m = n)"
  proof (cases "wb_activePoints b = 0")
    case False
    then show ?thesis by (intro exI[of _ "wb_next b"]) (simp add: flush_target_def older_def)
  next
    case True
    have act: "active_tag (wb_shardMask b) (wb_shards b) tag = []" by (rule idle_active[OF inv True none(1)])
    have pub: "published b = wb_next b"
    proof -
      have "length (map fst (wb_done b) @ map fb_seq (flight b)) = wb_next b" by (simp only: wb_invD(4)[OF inv] length_upt)
      then show ?thesis using none by (simp add: published_def flight_def)
    qed
    have last: "wb_last b = (if wb_next b = 0 then None else Some (wb_next b - 1))" using inv pub by (simp add: wb_inv_def)
    show ?thesis
    proof (cases "wb_next b = 0")
      case True
      then have "flight b = []" using flight_seqs(1)[OF inv] by simp
      then have "pending b tag = []" using act by (simp add: pending_def in_flight_def)
      then show ?thesis using True last \<open>wb_activePoints b = 0\<close> by (intro exI[of _ 0]) (simp add: older_def flush_target_def)
    next
      case False
      have "filter (\<lambda>f. fb_seq f \<le> wb_next b - 1) (flight b) = flight b" using flight_seq_less[OF inv] False by (force simp: filter_id_conv)
      then have "older (wb_next b - 1) b tag = pending b tag" using none act by (simp add: older_def pending_def in_flight_def)
      then show ?thesis using False last \<open>wb_activePoints b = 0\<close> by (intro exI[of _ "wb_next b - 1"]) (simp add: flush_target_def)
    qed
  qed
  then obtain n where n: "older n b tag = pending b tag" "flush_target b = None \<longrightarrow> pending b tag = []" "\<forall>m. flush_target b = Some m \<longrightarrow> m = n"
    by (elim exE conjE) (rule that)
  show ?thesis
  proof (cases "flush_target b")
    case None
    then show ?thesis using n(2) now by simp
  next
    case (Some m)
    then have "n \<in> fst ` set (wb_done b')" using assms(5) n(3) by simp
    moreover obtain xs where "finished tag ls' @ older n b' tag = older n b tag @ xs" using run_keeps_older[OF assms(4)] inv by fastforce
    ultimately show ?thesis using older_done n(1) now by auto
  qed
qed

theorem flush_is_a_barrier_witness: "\<exists>ls s later. wb_run demo_env (demo0, []) ls s \<and> finished [1] ls = [(5, 7)] @ later"
proof -
  have r3: "wb_run demo_env (demo2, []) [Quiet] (demo3, [])"
    using run_one[OF wb_step.begin_freeze[OF demo_guards(3,4)]] by (simp add: demo3_def)
  have inv: "wb_inv demo3" by (rule run_facts(1)[OF demo_new demo_run3])
  have "0 < wb_queueSize demo3" using run_queueSize[OF demo_run3] new_batcher_inv(5)[OF demo_new] by simp
  then obtain b t where d: "drains demo_env (demo3, []) (b, t)" "flight b = []" "same_rest demo3 b"
    using all_drains[OF inv, of demo_env "[]"] by (auto simp: demo_guards)
  then obtain ls where r: "wb_run demo_env (demo3, []) ls (b, t)" by (auto simp: drains_def)
  have r2: "wb_run demo_env (demo2, []) ([Quiet] @ ls) (b, t)" by (rule run_trans[OF r r3])
  have "wb_inv b" using drains_inv[OF d(1)] inv by simp
  then have "map fst (wb_done b) = [0..<wb_next b]" using wb_invD(4)[of b] d(2) by simp
  moreover have "wb_next b = 1" using d(3) by (simp add: same_rest_def demo3_def freeze_begin_def demo_guards)
  ultimately have "0 \<in> set (map fst (wb_done b))" by simp
  then have "0 \<in> fst ` set (wb_done b)" by simp
  then have "\<forall>n. flush_target demo2 = Some n \<longrightarrow> n \<in> fst ` set (wb_done b)" by (simp add: flush_target_def demo_guards)
  from flush_is_a_barrier[OF demo_new demo_run demo_guards(3) r2 this, of "[1]"]
  obtain later where "finished [1] ([Quiet, Accepted [1] 5 7] @ [Quiet] @ ls) = [(5, 7)] @ later" by (auto simp: accepted_def)
  moreover have "wb_run demo_env (demo0, []) ([Quiet, Accepted [1] 5 7] @ [Quiet] @ ls) (b, t)" by (rule run_trans[OF r2 demo_run])
  ultimately show ?thesis by blast
qed

text \<open>\<^bold>\<open>C8\<close>: The write buffer cannot get stuck: from every reachable state in which the queue is open, the freezers and the worker alone can finish
  everything accepted so far, whether the commits succeed or fail.\<close>

theorem everything_accepted_can_finish:
  assumes "newTableBatcher fuel slots config = Some b0" "wb_run E (b0, t0) ls (b, t)" "wb_closer b \<noteq> Queue_Closed"
  shows "\<exists>ls' s'. wb_run E (b, t) ls' s' \<and> (\<forall>tag. accepted tag ls' = [] \<and> finished tag (ls @ ls') = accepted tag ls)"
proof -
  note inv = run_facts(1)[OF assms(1,2)]
  have q: "0 < wb_queueSize b" using run_queueSize[OF assms(2)] new_batcher_inv(5)[OF assms(1)] by simp
  obtain b1 t1 where 1: "drains E (b, t) (b1, t1)" "flight b1 = []" "freezeMu_free b1" "same_rest b b1"
    using all_drains[OF inv q assms(3), of E t] by blast
  have inv1: "wb_inv b1" using drains_inv[OF 1(1)] inv by simp
  have idle: "\<exists>s'. drains E (b1, t1) s' \<and> (\<forall>tag. pending (fst s') tag = [])"
  proof (cases "wb_activePoints b1 = 0")
    case True
    then have "pending b1 tag = []" for tag
      using idle_active[OF inv1 True, of tag] 1(2,3) by (simp add: pending_def in_flight_def freezeMu_free_def)
    then show ?thesis using drains_refl[of E "(b1, t1)"] by (metis fst_conv)
  next
    case False
    have d2: "drains E (b1, t1) (freeze_begin b1, t1)" by (rule drains_step[OF wb_step.begin_freeze[OF 1(3) False]]) simp
    have inv2: "wb_inv (freeze_begin b1)" using drains_inv[OF d2] inv1 by simp
    have "0 < wb_queueSize (freeze_begin b1)" "wb_closer (freeze_begin b1) \<noteq> Queue_Closed" using 1(4) q assms(3) by (simp_all add: freeze_begin_def same_rest_def)
    then obtain b3 t3 where 3: "drains E (freeze_begin b1, t1) (b3, t3)" "flight b3 = []" "freezeMu_free b3" "same_rest (freeze_begin b1) b3"
      using all_drains[OF inv2, of E t1] by blast
    note d3 = drains_trans[OF d2 3(1)]
    then obtain ls3 where r3: "wb_run E (b1, t1) ls3 (b3, t3)" "\<And>tag. accepted tag ls3 = []" by (auto simp: drains_def)
    have "pending b3 tag = []" for tag
    proof -
      have "older (wb_next b1) b3 tag = []" using 3(2,3,4) by (simp add: older_def freezeMu_free_def same_rest_def freeze_begin_def)
      moreover have "older (wb_next b1) b1 tag = pending b1 tag" by (simp add: older_def)
      ultimately obtain xs where "finished tag ls3 = pending b1 tag @ xs" using run_keeps_older[OF r3(1), where n = "wb_next b1" and tag = tag] inv1 by auto
      moreover have "pending b1 tag = finished tag ls3 @ pending b3 tag" using run_moves[OF r3(1)] inv1 r3(2) by simp
      ultimately show ?thesis by simp
    qed
    then show ?thesis using d3 by (metis fst_conv)
  qed
  then obtain s' where s': "drains E (b, t) s'" "\<And>tag. pending (fst s') tag = []" using drains_trans[OF 1(1)] by blast
  then obtain ls' where r: "wb_run E (b, t) ls' s'" "\<And>tag. accepted tag ls' = []" by (auto simp: drains_def)
  have "wb_run E (b0, t0) (ls @ ls') (fst s', snd s')" using run_trans[OF r(1) assms(2)] by simp
  then have "accepted tag (ls @ ls') = finished tag (ls @ ls')" for tag using run_facts(2)[OF assms(1), of E t0 "ls @ ls'" "fst s'" "snd s'"] s'(2) by simp
  then show ?thesis using r by (metis append_Nil2 run_labels(3))
qed

theorem everything_accepted_can_finish_witness: "\<exists>ls s. wb_run demo_env (demo3, []) ls s \<and> finished [1] ls = [(5, 7)]"
proof -
  have open_: "wb_closer demo3 \<noteq> Queue_Closed" by (simp add: demo_guards)
  obtain ls s where r: "wb_run demo_env (demo3, []) ls s"
    "\<forall>tag. accepted tag ls = [] \<and> finished tag ([Quiet, Accepted [1] 5 7, Quiet] @ ls) = accepted tag [Quiet, Accepted [1] 5 7, Quiet]"
    using everything_accepted_can_finish[OF demo_new demo_run3 open_] by blast
  then have "finished [1] ls = [(5, 7)]" by (auto simp: accepted_def finished_def dest: spec[of _ "[1]"])
  then show ?thesis using r(1) by blast
qed

text \<open>\<^bold>\<open>C25\<close>: Preparing a batch gives one run for each tag buffer of the batch, in order, under the code the series keeps, and every run is the stable sort by
  time of the buffer's points, although only the buffers that saw a step back in time are sorted.\<close>

theorem prepared_runs_are_sorted:
  assumes "newTableBatcher fuel slots config = Some b0" "wb_run E (b0, t0) ls (b, t)" "wb_working b = Some f"
    and "prepareRawWriteBatch T f b t = (Inr runs, b', t')"
  shows "runs = map (\<lambda>(tag, ps). \<lparr>wr_Key = is_code (the (sh_series (wb_shards b' ! shard_of tag b) tag)), wr_Points = sort_key fst ps\<rparr>) (batch_points f b)"
proof -
  note inv = run_facts(1)[OF assms(1,2)]
  have "f \<in> set (flight b)" "length (fb_shards f) = length (wb_shards b)" using assms(3) inv by (simp_all add: flight_def wb_inv_def)
  from prepare_spec(3)[OF inv this assms(4) refl] show ?thesis by (simp add: runs_of_def)
qed

section \<open>The calls of a writer\<close>

lemma writers_append [simp]: "appendPoint retains tag tms v (b\<lparr>wb_writers := w\<rparr>) = (appendPoint retains tag tms v b)\<lparr>wb_writers := w\<rparr>"
  by (simp add: appendPoint_def shard_of_def cache_slot_def Let_def)

lemma writers_signal [simp]: "maybeSignal active (b\<lparr>wb_writers := w\<rparr>) = (maybeSignal active b)\<lparr>wb_writers := w\<rparr>"
  by (simp add: maybeSignal_def)

lemma writers_kept [simp]: "wb_writers (appendPoint retains tag tms v b) = wb_writers b" "wb_writers (maybeSignal active b) = wb_writers b"
  by (simp_all add: appendPoint_def maybeSignal_def Let_def)

abbreviation append_all :: "('v \<Rightarrow> bool) \<Rightarrow> (bytes \<times> int \<times> 'v) list \<Rightarrow> ('v, 'x) tableBatcher \<Rightarrow> ('v, 'x) tableBatcher" where
  "append_all retains \<equiv> fold (\<lambda>(tag, tms, v). appendPoint retains tag tms v)"

lemma writers_append_all [simp]: "append_all retains ps (b\<lparr>wb_writers := w\<rparr>) = (append_all retains ps b)\<lparr>wb_writers := w\<rparr>"
  by (induction ps arbitrary: b) auto

lemma writers_kept_all [simp]: "wb_writers (append_all retains ps b) = wb_writers b"
  by (induction ps arbitrary: b) auto

lemma append_run:
  assumes "0 < wb_writers b"
  shows "wb_run E (b, t) (map (\<lambda>(tag, tms, v). Accepted tag tms v) ps) (append_all (en_retains E) ps b, t)"
proof (induction ps rule: rev_induct)
  case Nil
  then show ?case using wb_run.start by simp
next
  case (snoc p ps)
  obtain tag tms v where p: "p = (tag, tms, v)" by (rule prod_cases3)
  have "0 < wb_writers (append_all (en_retains E) ps b)" using assms by simp
  from wb_run.step[OF snoc wb_step.add[OF this]] show ?case by (simp add: p)
qed

lemma accepted_map: "accepted q (map (\<lambda>(tag, tms, v). Accepted tag tms v) ps) = map snd (filter (\<lambda>p. fst p = q) ps)"
  by (induction ps) (auto simp: accepted_def)

text \<open>\<^bold>\<open>C37\<close>: A call of \<open>addBatch\<close> that is not refused accepts exactly its points, those of every tag in the order of the batch, and leaves through the steps
  of a writer; a refused one changes nothing.\<close>

theorem addBatch_accepts_its_points:
  assumes "addBatch (en_retains E) (en_closed E) ps b = (result, b')" "ps \<noteq> []"
  shows "(case terminalError (en_closed E) b of
       Some e \<Rightarrow> result = Some (Some e) \<and> b' = b
     | None \<Rightarrow> \<exists>ls. wb_run E (b, t) ls (b', t) \<and> (\<forall>q. accepted q ls = map snd (filter (\<lambda>p. fst p = q) ps) \<and> finished q ls = []))"
proof (cases "terminalError (en_closed E) b")
  case (Some e)
  then show ?thesis using assms by (simp add: addBatch_def)
next
  case None
  let ?b1 = "b\<lparr>wb_writers := wb_writers b + 1\<rparr>"
  let ?b2 = "append_all (en_retains E) ps b"
  have b': "b' = maybeSignal (wb_activePoints ?b2) ?b2" using assms None by (simp add: addBatch_def Let_def)
  note r1 = run_one[OF wb_step.check[OF None], where t1 = t]
  have "wb_run E (?b1, t) (map (\<lambda>(tag, tms, v). Accepted tag tms v) ps) (append_all (en_retains E) ps ?b1, t)" by (rule append_run) simp
  note r2 = run_trans[OF this r1]
  have w: "0 < wb_writers (append_all (en_retains E) ps ?b1)" by simp
  have "maybeSignal (wb_activePoints ?b2) ((append_all (en_retains E) ps ?b1)\<lparr>wb_writers := wb_writers (append_all (en_retains E) ps ?b1) - 1\<rparr>) = b'"
    by (simp add: b')
  then have "wb_run E (b, t) (([Quiet] @ map (\<lambda>(tag, tms, v). Accepted tag tms v) ps) @ [Quiet]) (b', t)"
    using wb_run.step[OF r2 wb_step.leave[OF w, where active = "wb_activePoints ?b2"]] by simp
  moreover have "accepted q (([Quiet] @ map (\<lambda>(tag, tms, v). Accepted tag tms v) ps) @ [Quiet]) = map snd (filter (\<lambda>p. fst p = q) ps)" for q
    by (simp only: run_labels quiet_labels accepted_map append_Nil append_Nil2)
  moreover have "finished q (map (\<lambda>(tag, tms, v). Accepted tag tms v) ps) = []" for q by (induction ps) (auto simp: finished_def)
  then have "finished q (([Quiet] @ map (\<lambda>(tag, tms, v). Accepted tag tms v) ps) @ [Quiet]) = []" for q by (simp only: run_labels quiet_labels append_Nil append_Nil2)
  ultimately have "\<exists>ls. wb_run E (b, t) ls (b', t) \<and> (\<forall>q. accepted q ls = map snd (filter (\<lambda>p. fst p = q) ps) \<and> finished q ls = [])"
    by (intro exI conjI allI)
  then show ?thesis using None by simp
qed

theorem addBatch_accepts_its_points_witness:
  "\<exists>ls b. wb_run demo_env (demo0, []) ls (b, []) \<and> accepted [1] ls = [(5, 7), (3, 8)]"
proof -
  obtain result b where ab: "addBatch (en_retains demo_env) (en_closed demo_env) [([1], 5, 7), ([2], 4, 9), ([1], 3, 8)] demo0 = (result, b)" by (rule prod.exhaust)
  have "[([1 :: byte], 5 :: int, 7 :: int), ([2], 4, 9), ([1], 3, 8)] \<noteq> []" by simp
  from addBatch_accepts_its_points[OF ab this, of "[]"] show ?thesis by (auto simp: demo_guards(1))
qed

text \<open>The example continued: a second, earlier point, and the batch in the hands of the worker.\<close>

definition demo_swap :: "(int, nat) tableBatcher \<Rightarrow> (int, nat) tableBatcher" where "demo_swap b = the (freeze_shard (the (wb_freezing b)) b)"
definition demo_end :: "(int, nat) tableBatcher \<Rightarrow> (int, nat) tableBatcher" where "demo_end b = freeze_end (the (wb_freezing b)) b"
definition demo_send :: "(int, nat) tableBatcher \<Rightarrow> (int, nat) tableBatcher" where
  "demo_send b = b\<lparr>wb_sending := None, wb_queue := wb_queue b @ [the (wb_sending b)], wb_last := Some (fb_seq (the (wb_sending b)))\<rparr>"
definition demo_take :: "(int, nat) tableBatcher \<Rightarrow> (int, nat) tableBatcher" where
  "demo_take b = b\<lparr>wb_working := Some (hd (wb_queue b)), wb_queue := tl (wb_queue b)\<rparr>"

definition batch3 :: "(int, nat) tableBatcher" where "batch3 = freeze_begin (appendPoint (en_retains demo_env) [1] 3 8 demo2)"
definition batch4 :: "(int, nat) tableBatcher" where "batch4 = demo_swap batch3"
definition batch5 :: "(int, nat) tableBatcher" where "batch5 = demo_end batch4"
definition batch6 :: "(int, nat) tableBatcher" where "batch6 = demo_send batch5"
definition batch7 :: "(int, nat) tableBatcher" where "batch7 = demo_take batch6"

lemma batch_guards_a: "0 < wb_writers demo2 \<and> freezeMu_free (appendPoint (en_retains demo_env) [1] 3 8 demo2) \<and>
    wb_activePoints (appendPoint (en_retains demo_env) [1] 3 8 demo2) \<noteq> 0"
  by code_simp

lemma batch_guards_b: "wb_freezing batch3 = Some \<lparr>fb_seq = 0, fb_shards = [], fb_count = 0\<rparr> \<and> length (wb_shards batch3) = 1 \<and>
    freeze_shard \<lparr>fb_seq = 0, fb_shards = [], fb_count = 0\<rparr> batch3 \<noteq> None"
  by code_simp

lemma batch_guards_c: "wb_freezing batch4 \<noteq> None \<and> length (fb_shards (the (wb_freezing batch4))) = length (wb_shards batch4)"
  by code_simp

lemma batch_guards_d: "wb_sending batch5 \<noteq> None \<and> wb_closer batch5 = Not_Called \<and> length (wb_queue batch5) < wb_queueSize batch5"
  by code_simp

lemma batch_guards_e: "wb_working batch6 = None \<and> wb_queue batch6 \<noteq> []"
  by code_simp

lemma batch_guards_f: "wb_working batch7 \<noteq> None \<and> batch_points (the (wb_working batch7)) batch7 = [([1], [(5, 7), (3, 8)])]"
  by code_simp

lemma batch_run: "\<exists>ls. wb_run demo_env (demo0, []) ls (batch7, [])"
proof -
  have r2: "wb_run demo_env (demo0, []) ([Quiet, Accepted [1] 5 7] @ [Accepted [1] 3 8]) (appendPoint (en_retains demo_env) [1] 3 8 demo2, [])"
    by (rule wb_run.step[OF demo_run wb_step.add]) (simp add: batch_guards_a)
  have r3: "\<exists>ls. wb_run demo_env (demo0, []) ls (batch3, [])"
    using wb_run.step[OF r2 wb_step.begin_freeze] batch_guards_a by (auto simp: batch3_def)
  have f3: "wb_freezing batch3 = Some \<lparr>fb_seq = 0, fb_shards = [], fb_count = 0\<rparr>"
    "length (fb_shards \<lparr>fb_seq = 0, fb_shards = [], fb_count = 0\<rparr>) < length (wb_shards batch3)"
    "freeze_shard \<lparr>fb_seq = 0, fb_shards = [], fb_count = 0\<rparr> batch3 = Some batch4"
    using batch_guards_b by (auto simp: batch4_def demo_swap_def)
  have f4: "wb_freezing batch4 = Some (the (wb_freezing batch4))" "length (fb_shards (the (wb_freezing batch4))) = length (wb_shards batch4)"
    using batch_guards_c by simp_all
  have f5: "wb_sending batch5 = Some (the (wb_sending batch5))" "wb_closer batch5 \<noteq> Queue_Closed" "length (wb_queue batch5) < wb_queueSize batch5"
    using batch_guards_d by simp_all
  have f6: "wb_working batch6 = None" "wb_queue batch6 = hd (wb_queue batch6) # tl (wb_queue batch6)" using batch_guards_e by simp_all
  note s4 = wb_step.swap[OF f3, of demo_env "[]"]
    and s5 = wb_step.end_freeze[OF f4, of demo_env "[]", folded demo_end_def batch5_def]
    and s6 = wb_step.send[OF f5, of demo_env "[]", folded demo_send_def batch6_def]
    and s7 = wb_step.take_batch[OF f6, of demo_env "[]", folded demo_take_def batch7_def]
  show ?thesis using r3 wb_run.step[OF _ s4] wb_run.step[OF _ s5] wb_run.step[OF _ s6] wb_run.step[OF _ s7] by blast
qed

theorem prepared_runs_are_sorted_witness:
  "map wr_Points (projr (fst (prepareRawWriteBatch (en_table demo_env) (the (wb_working batch7)) batch7 []))) = [[(3, 8), (5, 7)]]"
proof -
  obtain ls where r: "wb_run demo_env (demo0, []) ls (batch7, [])" using batch_run by blast
  obtain res b' t' where pr: "prepareRawWriteBatch (en_table demo_env) (the (wb_working batch7)) batch7 [] = (res, b', t')" by (rule prod_cases3)
  have "isl (fst (prepareRawWriteBatch (en_table demo_env) (the (wb_working batch7)) batch7 [])) = False" by code_simp
  then obtain runs where res: "res = Inr runs" using pr by (cases res) auto
  have w: "wb_working batch7 = Some (the (wb_working batch7))" using batch_guards_f by simp
  have "map wr_Points runs = map (\<lambda>(tag, ps). sort_key fst ps) (batch_points (the (wb_working batch7)) batch7)"
    unfolding prepared_runs_are_sorted[OF demo_new r w pr[unfolded res]] by (simp add: case_prod_beta)
  then show ?thesis using batch_guards_f by (simp add: pr res)
qed

section \<open>Closing\<close>

definition late2 :: "(int, nat) tableBatcher" where "late2 = demo1\<lparr>wb_closed := True, wb_closer := Called\<rparr>"
definition late3 :: "(int, nat) tableBatcher" where "late3 = late2\<lparr>wb_closer := Awaits (wb_last late2)\<rparr>"
definition late4 :: "(int, nat) tableBatcher" where "late4 = late3\<lparr>wb_closer := Queue_Closed\<rparr>"
definition late5 :: "(int, nat) tableBatcher" where "late5 = appendPoint (en_retains demo_env) [1] 5 7 late4"
definition late6 :: "(int, nat) tableBatcher" where "late6 = freeze_begin late5"
definition late7 :: "(int, nat) tableBatcher" where "late7 = demo_swap late6"
definition late8 :: "(int, nat) tableBatcher" where "late8 = demo_end late7"

lemma late_guards_a: "wb_closer demo1 = Not_Called \<and> wb_closer late2 = Called \<and> freezeMu_free late2 \<and> wb_activePoints late2 = 0 \<and>
    wb_closer late3 = Awaits None \<and> wb_writers late4 = 1"
  by code_simp

lemma late_guards_b: "freezeMu_free late5 \<and> wb_activePoints late5 \<noteq> 0"
  by code_simp

lemma late_guards_c: "wb_freezing late6 = Some \<lparr>fb_seq = 0, fb_shards = [], fb_count = 0\<rparr> \<and> length (wb_shards late6) = 1 \<and>
    freeze_shard \<lparr>fb_seq = 0, fb_shards = [], fb_count = 0\<rparr> late6 \<noteq> None"
  by code_simp

lemma late_guards_d: "wb_freezing late7 \<noteq> None \<and> length (fb_shards (the (wb_freezing late7))) = length (wb_shards late7)"
  by code_simp

lemma late_guards_e: "wb_sending late8 \<noteq> None \<and> wb_closer late8 = Queue_Closed"
  by code_simp

text \<open>\<^bold>\<open>C29\<close>: A caller that passed the check of \<open>add\<close> before \<open>Close\<close> was called can still append its point after \<open>Close\<close> has closed the queue: the call
  reports success, the worker never sees the point, and the next \<open>Flush\<close> (every query begins with one) sends on the closed queue and panics.\<close>

theorem late_writer_makes_flush_panic:
  "\<exists>ls b. wb_run demo_env (demo0, []) ls (b, []) \<and> Accepted [1] 5 7 \<in> set ls \<and> finished [1] ls = [] \<and> wb_panicked b"
proof -
  have s2: "wb_step demo_env (demo1, []) Quiet (late2, [])" unfolding late2_def by (rule wb_step.close) (simp add: late_guards_a)
  have s3: "wb_step demo_env (late2, []) Quiet (late3, [])" unfolding late3_def by (rule wb_step.close_idle) (simp_all add: late_guards_a)
  have s4: "wb_step demo_env (late3, []) Quiet (late4, [])" unfolding late4_def by (rule wb_step.close_queue[where target = None]) (simp_all add: late_guards_a)
  have s5: "wb_step demo_env (late4, []) (Accepted [1] 5 7) (late5, [])" unfolding late5_def by (rule wb_step.add) (simp add: late_guards_a)
  have s6: "wb_step demo_env (late5, []) Quiet (late6, [])" unfolding late6_def by (rule wb_step.begin_freeze) (simp_all add: late_guards_b)
  have s7: "wb_step demo_env (late6, []) Quiet (late7, [])"
    by (rule wb_step.swap[where f = "\<lparr>fb_seq = 0, fb_shards = [], fb_count = 0\<rparr>"]) (use late_guards_c in \<open>auto simp: late7_def demo_swap_def\<close>)
  have s8: "wb_step demo_env (late7, []) Quiet (late8, [])"
    unfolding late8_def demo_end_def by (rule wb_step.end_freeze) (use late_guards_d in auto)
  have s9: "wb_step demo_env (late8, []) Quiet (late8\<lparr>wb_panicked := True\<rparr>, [])"
    by (rule wb_step.send_closed[where f = "the (wb_sending late8)"]) (use late_guards_e in auto)
  have r1: "wb_run demo_env (demo0, []) [Quiet] (demo1, [])"
    using run_one[OF wb_step.check[OF demo_guards(1)]] by (simp add: demo1_def)
  note run = wb_run.step[OF wb_run.step[OF wb_run.step[OF wb_run.step[OF wb_run.step[OF wb_run.step[OF wb_run.step[OF wb_run.step[OF r1 s2] s3] s4] s5] s6] s7] s8] s9]
  show ?thesis by (rule exI, rule exI, rule conjI[OF run]) (simp add: finished_def)
qed

end
