(* ===== verification/Spec2Isabelle.thy ===== *)
theory Spec2Isabelle
  imports Bit_Stream Bool_Codec Int_Codec Time_Codec String_Codec Json_Codec Block_File_Props Segment_Index Segment_Writer Segment_Reader_Props Container Table_Meta_Props Wal_Claims Condition Segment_List_Claims Column_Claims Table_Claims Flush_Log Table_Open Write_Batcher_Claims
begin

text \<open>
  A verification development for qv-lite, an embedded time-series store written in Go (package \<^verbatim>\<open>tsdb\<close>) with a small HTTP
  server around it (package \<^verbatim>\<open>server\<close>).  File names below are relative to the repository's root.

  \<^bold>\<open>The program.\<close>  A point is a tag, a time and a value.  A write is resolved to the numeric code of its tag
  (\<^verbatim>\<open>tsdb/table_meta.go\<close>), collected with the other points of its tag in the write buffer
  (\<^verbatim>\<open>tsdb/write_batcher.go\<close>), appended to the write-ahead log as runs of a batch (\<^verbatim>\<open>tsdb/file_wal.go\<close>),
  and later moved by a flush (\<^verbatim>\<open>tsdb/table.go\<close>) through a column per tag (\<^verbatim>\<open>tsdb/column.go\<close>), which encodes a block of times
  and a block of values, into data segments (\<^verbatim>\<open>tsdb/segment.go\<close>).  A segment is a writer and a reader
  (\<^verbatim>\<open>tsdb/segment_writer.go\<close>, \<^verbatim>\<open>tsdb/segment_reader.go\<close>) over a compressed, append-only file
  (\<^verbatim>\<open>tsdb/block_file.go\<close>) with an index (\<^verbatim>\<open>tsdb/segment_index.go\<close>).  A flush is a transaction over the last segments: it either
  moves every complete file of the log and drops these files, or rolls the segments back and keeps the log.

  \<^bold>\<open>Modelling.\<close>  Objects are records, their methods functions from a state to a result and a state; errors are values of
  sum types or options, a panic and a call that does not return are values of their own.  Integers of Go are words of their width where
  wrap-around can occur (the codecs, the offsets of the log, the counters of the buffer) and \<^verbatim>\<open>int\<close> with explicit range
  hypotheses for times, which are only compared.  Files are byte lists; where a crash is at stake they carry what is durable apart from what is
  written.  Every operation is one step, as if its locks covered it; writers that append to the log while a background flush
  runs are not modelled.  Where the code has goroutines whose interleaving matters
  (writers, the batcher's loop, barriers) the model is a step relation, and its theorems hold for every order of steps.
  The packages outside the repository (zstd, lz4, snappy, simple8b, variant, the JSON decoder, \<^verbatim>\<open>strconv.ParseFloat\<close>) are parameters; what
  the theorems need of them is a hypothesis: decompressing a compressed block gives the block, packing words that fit can be undone.

  \<^bold>\<open>Theories, bottom up.\<close>
  \<^item> \<^verbatim>\<open>Prelude\<close>: types of bytes and words, big-endian encodings, searches, sorting, the shared lemmas and the collections of
    rewrite rules.
  \<^item> \<^verbatim>\<open>Bit_Stream\<close> (\<^verbatim>\<open>tsdb/bit.go\<close>), \<^verbatim>\<open>Codec\<close> (\<^verbatim>\<open>tsdb/segment_compression.go\<close>, with the locale of what an encoder and its
    decoder promise), \<^verbatim>\<open>Bool_Codec\<close>, \<^verbatim>\<open>Int_Codec\<close>, \<^verbatim>\<open>Time_Codec\<close>, \<^verbatim>\<open>String_Codec\<close>, \<^verbatim>\<open>Json_Codec\<close>
    (\<^verbatim>\<open>tsdb/segment_compression_*.go\<close>): each encoder as the state its \<^verbatim>\<open>Write\<close> threads, each decoder as the state
    behind \<^verbatim>\<open>Next\<close>, \<^verbatim>\<open>Read\<close>, \<^verbatim>\<open>Error\<close>; the round trips, for every choice among the encodings (raw, run
    length, packed), and the errors on malformed input.
  \<^item> \<^verbatim>\<open>Block_File\<close>, \<^verbatim>\<open>Block_File_Spec\<close>, \<^verbatim>\<open>Block_File_Props\<close>: the compressed file, its abstraction to a plain byte
    sequence and a simulation for every operation; commits, truncation and what an open finds after a crash.
  \<^item> \<^verbatim>\<open>Segment_Index\<close>, \<^verbatim>\<open>Container\<close>, \<^verbatim>\<open>Condition\<close>: the index of the blocks of a segment and its file, the string cache and
    the map wrappers of \<^verbatim>\<open>container/\<close>, the compiled conditions of a query against the conditions themselves.
  \<^item> \<^verbatim>\<open>Segment_Writer\<close>, \<^verbatim>\<open>Segment_Reader\<close>, \<^verbatim>\<open>Segment_Reader_Props\<close>: appending a block and undoing the last transaction;
    the cache of readers, reading a block at its position, scanning a segment that has no index.
  \<^item> \<^verbatim>\<open>Table_Meta\<close>, \<^verbatim>\<open>Table_Meta_Props\<close>: the dictionary of tags, its hash index and its file.
  \<^item> \<^verbatim>\<open>Wal_Buffer\<close>, \<^verbatim>\<open>Wal\<close>, \<^verbatim>\<open>Wal_Props\<close>, \<^verbatim>\<open>Wal_Recovery\<close>, \<^verbatim>\<open>Wal_Claims\<close>: the records of the log, its files and
    the buffers that are read instead of them, rotation, recovery after a crash, the hand-over to a flush, reading by time.
  \<^item> \<^verbatim>\<open>Segment_List\<close>, \<^verbatim>\<open>Segment_List_Props\<close>, \<^verbatim>\<open>Segment_List_Claims\<close>: the segments of a table, the transaction over
    them, expiry, the choice of segments for a range of times.
  \<^item> \<^verbatim>\<open>Column\<close>, \<^verbatim>\<open>Column_Props\<close>, \<^verbatim>\<open>Column_Claims\<close>: the pair of encoders of a tag, when a block is cut, and reading it back.
  \<^item> \<^verbatim>\<open>Table\<close>, \<^verbatim>\<open>Flush_Content\<close>, \<^verbatim>\<open>Flush_Props\<close>, \<^verbatim>\<open>Flush_Log\<close>, \<^verbatim>\<open>Table_Claims\<close>, \<^verbatim>\<open>Table_Open\<close>: the table.  The record
    of the table holds the states of the components above; \<^verbatim>\<open>flushCache\<close> is cut into the parts the closures of the code make.
  \<^item> \<^verbatim>\<open>Write_Batcher\<close>, \<^verbatim>\<open>Write_Batcher_Props\<close>, \<^verbatim>\<open>Write_Batcher_Inv\<close>, \<^verbatim>\<open>Write_Batcher_Steps\<close>,
    \<^verbatim>\<open>Write_Batcher_Claims\<close>: the write buffer as a machine of writers, shards, frozen buffers and the committing loop; its invariant and the
    properties of all its runs.
  \<^bold>\<open>What the lemmas show.\<close>  Per component: well-formedness is kept by every operation, every branch's result, errors included, and
  the reading side undoes the writing side.  Across components: a flush moves every complete point of the log once, in order, into blocks that
  decode to these points (\<^verbatim>\<open>Table_Claims\<close>); the log is cut only after the segments are committed (\<^verbatim>\<open>Flush_Log\<close>); the
  loop that makes room ends; the points of a tag are handed to the commits in the order they were accepted and a barrier waits for all before it
  (\<^verbatim>\<open>Write_Batcher_Claims\<close>).  Some theorems state what the code gets wrong: a file opened again after a recovery cannot be read, a
  restart loses a rebuilt index, a value of the wrong type blocks every flush, a writer that comes late makes a flush panic.

  \<^bold>\<open>Bounds and fuel.\<close>  Loops over data are structural.  \<^verbatim>\<open>readAt\<close> of a file and the scan of a segment follow
  offsets found in the data, which bad data can make circular: they take fuel, and the theorems about them say that any fuel above the
  bytes asked for (above the blocks of the file) gives the result.  \<^verbatim>\<open>nextPowerOfTwo\<close> doubles a 64-bit word at most 64 times, which is its
  fuel; a theorem shows that it ends up to 2 to the power 62 and never above.  The drain of the log is a \<^verbatim>\<open>partial_function\<close> whose termination is a theorem.
  Length fields have the width the file has; hypotheses such as a tag below 65536 bytes mark where the code truncates.

  \<^bold>\<open>Not modelled.\<close>  The iterators of a query and their pools (\<^verbatim>\<open>tsdb/point_iter.go\<close>) beyond what they call; the float codec
  and the codecs of nested columns, whose decimal scaling rests on floating-point rounding (\<^verbatim>\<open>tsdb/segment_compression_float.go\<close>,
  \<^verbatim>\<open>..._column.go\<close>, \<^verbatim>\<open>..._adapt_column.go\<close>); the map of tables and the meta file (\<^verbatim>\<open>tsdb/db.go\<close>), which is
  directory and JSON handling; the HTTP handlers, the client's requests and the C interface (\<^verbatim>\<open>plugin/plugin.go\<close>), which is glue.
\<close>

end
